(* ===== verification/CUtils_Prelude.thy ===== *)
theory CUtils_Prelude
  imports Main "HOL-Library.Word" "HOL-Library.Monad_Syntax" "HOL-Library.Sublist"
begin

text \<open>
  Shared vocabulary of the development: machine sizes with their wrap-around written out,
  bounds-checked accesses to a byte buffer, the little-endian object representation of
  machine words, and the list and option lemmas the component theories use.

  Conventions. A result of type \<open>'a option\<close> whose constructor is \<^const>\<open>None\<close> stands for
  undefined behaviour of the C++ code (an access outside a buffer, a dangling pointer); a
  theorem that an operation yields \<^const>\<open>Some\<close> is therefore a memory-safety statement. Error
  returns of the code itself are ordinary values inside the \<^const>\<open>Some\<close>.
\<close>

unbundle bit_operations_syntax

named_theorems buf_simps \<open>accesses to byte buffers\<close>
named_theorems size_simps \<open>wrap-around arithmetic on size_t\<close>

section \<open>Sizes\<close>

type_synonym byte = "8 word"

abbreviation SIZE_MOD :: nat where
  "SIZE_MOD \<equiv> 2 ^ 64"

text \<open>Arithmetic on \<^verbatim>\<open>size_t\<close> of a 64-bit target: natural numbers modulo $2^{64}$.\<close>

definition size_add :: "nat \<Rightarrow> nat \<Rightarrow> nat" where
  "size_add a b = (a + b) mod SIZE_MOD"

definition size_sub :: "nat \<Rightarrow> nat \<Rightarrow> nat" where
  "size_sub a b = (a + (SIZE_MOD - b mod SIZE_MOD)) mod SIZE_MOD"

definition size_mul :: "nat \<Rightarrow> nat \<Rightarrow> nat" where
  "size_mul a b = (a * b) mod SIZE_MOD"

lemma size_add_small [size_simps]: "a + b < SIZE_MOD \<Longrightarrow> size_add a b = a + b"
  by (simp add: size_add_def)

lemma size_mul_small [size_simps]: "a * b < SIZE_MOD \<Longrightarrow> size_mul a b = a * b"
  by (simp add: size_mul_def)

lemma size_sub_small [size_simps]:
  assumes "b \<le> a" "a < SIZE_MOD"
  shows "size_sub a b = a - b"
proof -
  have "a + (SIZE_MOD - b) = (a - b) + SIZE_MOD"
    using assms by simp
  then have "(a + (SIZE_MOD - b)) mod SIZE_MOD = (a - b) mod SIZE_MOD"
    by (metis mod_add_self2)
  then show ?thesis
    using assms by (simp add: size_sub_def)
qed

lemma size_add_less [simp]: "size_add a b < 18446744073709551616"
  by (simp add: size_add_def)

section \<open>Byte buffers\<close>

text \<open>Bounds-checked block accesses: an access outside the buffer is undefined.\<close>

definition mem_read :: "nat \<Rightarrow> nat \<Rightarrow> 'a list \<Rightarrow> 'a list option" where
  "mem_read off n d = (if off + n \<le> length d then Some (take n (drop off d)) else None)"

definition mem_write :: "nat \<Rightarrow> 'a list \<Rightarrow> 'a list \<Rightarrow> 'a list option" where
  "mem_write off src d =
     (if off + length src \<le> length d
      then Some (take off d @ src @ drop (off + length src) d) else None)"

lemma mem_read_in [buf_simps]:
  "off + n \<le> length d \<Longrightarrow> mem_read off n d = Some (take n (drop off d))"
  by (simp add: mem_read_def)

lemma mem_write_in [buf_simps]:
  "off + length src \<le> length d \<Longrightarrow>
   mem_write off src d = Some (take off d @ src @ drop (off + length src) d)"
  by (simp add: mem_write_def)

lemma mem_write_length: "mem_write off src d = Some d' \<Longrightarrow> length d' = length d"
  by (auto simp: mem_write_def split: if_splits)

lemma mem_write_read_back:
  "mem_write off src d = Some d' \<Longrightarrow> mem_read off (length src) d' = Some src"
  by (auto simp: mem_write_def mem_read_def split: if_splits)

lemma mem_write_take:
  "mem_write off src d = Some d' \<Longrightarrow> take (off + length src) d' = take off d @ src"
  by (auto simp: mem_write_def split: if_splits)

lemma take_drop_prefix: "n \<le> length xs \<Longrightarrow> take n (xs @ ys) = take n xs"
  by simp

section \<open>Little-endian object representation\<close>

fun le_bytes :: "nat \<Rightarrow> 'a::len word \<Rightarrow> byte list" where
  "le_bytes 0 w = []"
| "le_bytes (Suc n) w = ucast w # le_bytes n (drop_bit 8 w)"

fun le_word :: "byte list \<Rightarrow> 'a::len word" where
  "le_word [] = 0"
| "le_word (b # bs) = ucast b OR push_bit 8 (le_word bs)"

lemma length_le_bytes [simp]: "length (le_bytes n w) = n"
  by (induction n arbitrary: w) auto

lemma le_bytes_nonempty [simp]: "0 < n \<Longrightarrow> le_bytes n w \<noteq> []"
  by (cases n) auto

lemma le_word_le_bytes_take:
  "le_word (le_bytes n w) = take_bit (8 * n) w"
proof (induction n arbitrary: w)
  case 0
  then show ?case by simp
next
  case (Suc n)
  show ?case
    by (rule bit_word_eqI)
       (auto simp: Suc.IH bit_simps le_diff_conv2 not_less dest: bit_imp_le_length)
qed

lemma le_word_le_bytes [simp]:
  fixes w :: "'a::len word"
  assumes "LENGTH('a) \<le> 8 * n"
  shows "le_word (le_bytes n w) = w"
  using assms by (simp add: le_word_le_bytes_take take_bit_word_beyond_length_eq)

lemma bit_le_word_bound: "bit (le_word bs :: 'a::len word) i \<Longrightarrow> i < 8 * length bs"
proof (induction bs arbitrary: i)
  case Nil
  then show ?case by simp
next
  case (Cons b bs)
  then show ?case
    by (auto simp: bit_simps dest!: Cons.IH dest: bit_imp_le_length)
qed

lemma le_bytes_le_word:
  assumes "8 * length bs \<le> LENGTH('a::len)"
  shows "le_bytes (length bs) (le_word bs :: 'a word) = bs"
  using assms
proof (induction bs)
  case Nil
  then show ?case by simp
next
  case (Cons b bs)
  have "ucast (ucast b OR push_bit 8 (le_word bs) :: 'a word) = b"
    using Cons.prems by (intro bit_word_eqI) (auto simp: bit_simps)
  moreover have "drop_bit 8 (ucast b OR push_bit 8 (le_word bs) :: 'a word) = le_word bs"
    using Cons.prems
    by (intro bit_word_eqI) (auto simp: bit_simps dest: bit_imp_le_length bit_le_word_bound)
  ultimately show ?case
    using Cons by simp
qed

lemma le_bytes_0 [simp]: "le_bytes n (0 :: 'a::len word) = replicate n 0"
  by (induction n) auto

lemma le_bytes_take_bit:
  fixes w :: "'a::len word"
  assumes "8 \<le> LENGTH('a)"
  shows "k \<le> n \<Longrightarrow> le_bytes n (take_bit (8 * k) w) = take k (le_bytes n w) @ replicate (n - k) 0"
proof (induction n arbitrary: k w)
  case 0
  then show ?case by simp
next
  case (Suc n)
  show ?case
  proof (cases k)
    case 0
    then show ?thesis by simp
  next
    case (Suc j)
    have "ucast (take_bit (8 * Suc j) w) = (ucast w :: byte)"
      using assms by (intro bit_word_eqI) (auto simp: bit_simps)
    moreover have "drop_bit 8 (take_bit (8 * Suc j) w) = take_bit (8 * j) (drop_bit 8 w)"
      by (simp add: drop_bit_take_bit)
    ultimately show ?thesis
      using Suc Suc.IH [of j "drop_bit 8 w"] Suc.prems by simp
  qed
qed

section \<open>Options and lists\<close>

lemma bind_eq_Some_conv_pair:
  "Option.bind m (\<lambda>(a, b). k a b) = Some r \<longleftrightarrow> (\<exists>a b. m = Some (a, b) \<and> k a b = Some r)"
  by (cases m) auto

lemma prefix_append_left: "prefix ps bs \<Longrightarrow> prefix (as @ ps) (as @ bs)"
  by simp

section \<open>Forward simulation\<close>

text \<open>
  Runs of operations: of a specification whose steps are total, and of an implementation whose steps may be
  undefined. Both return the results of the single operations.
\<close>

fun run_spec :: "('op \<Rightarrow> 's \<Rightarrow> 'r \<times> 's) \<Rightarrow> 'op list \<Rightarrow> 's \<Rightarrow> 'r list \<times> 's" where
  "run_spec spec [] s = ([], s)"
| "run_spec spec (op # ops) s = (let (r, s1) = spec op s; (rs, s2) = run_spec spec ops s1 in (r # rs, s2))"

fun run_impl :: "('op \<Rightarrow> 'c \<Rightarrow> ('r \<times> 'c) option) \<Rightarrow> 'op list \<Rightarrow> 'c \<Rightarrow> ('r list \<times> 'c) option" where
  "run_impl impl [] c = Some ([], c)"
| "run_impl impl (op # ops) c = do {
     (r, c1) \<leftarrow> impl op c;
     (rs, c2) \<leftarrow> run_impl impl ops c1;
     Some (r # rs, c2)
   }"

fun legal_run :: "('op \<Rightarrow> 's \<Rightarrow> bool) \<Rightarrow> ('op \<Rightarrow> 's \<Rightarrow> 'r \<times> 's) \<Rightarrow> 'op list \<Rightarrow> 's \<Rightarrow> bool" where
  "legal_run legal spec [] s \<longleftrightarrow> True"
| "legal_run legal spec (op # ops) s \<longleftrightarrow> legal op s \<and> legal_run legal spec ops (snd (spec op s))"

locale simulation =
  fixes rel :: "'s \<Rightarrow> 'c \<Rightarrow> bool"
    and legal :: "'op \<Rightarrow> 's \<Rightarrow> bool"
    and spec :: "'op \<Rightarrow> 's \<Rightarrow> 'r \<times> 's"
    and impl :: "'op \<Rightarrow> 'c \<Rightarrow> ('r \<times> 'c) option"
  assumes step: "rel s c \<Longrightarrow> legal op s \<Longrightarrow>
    \<exists>c'. impl op c = Some (fst (spec op s), c') \<and> rel (snd (spec op s)) c'"
begin

lemma run_simulates:
  "rel s c \<Longrightarrow> legal_run legal spec ops s \<Longrightarrow>
   \<exists>c'. run_impl impl ops c = Some (fst (run_spec spec ops s), c') \<and> rel (snd (run_spec spec ops s)) c'"
proof (induction ops arbitrary: s c)
  case Nil
  then show ?case by simp
next
  case (Cons op ops)
  obtain c1 where c1: "impl op c = Some (fst (spec op s), c1)" "rel (snd (spec op s)) c1"
    using step [of s c op] Cons.prems by auto
  obtain c2 where "run_impl impl ops c1 = Some (fst (run_spec spec ops (snd (spec op s))), c2)"
      "rel (snd (run_spec spec ops (snd (spec op s)))) c2"
    using Cons.IH [OF c1(2)] Cons.prems by auto
  with c1 show ?case by (simp add: split_def Let_def)
qed

end

section \<open>Reachable states of interleaved steps\<close>

text \<open>
  Concurrent code is a relation \<open>step\<close> of atomic steps on a shared state that holds the threads' own positions too;
  an interleaving is any sequence of steps of any threads.
\<close>

inductive reach :: "('s \<Rightarrow> bool) \<Rightarrow> ('s \<Rightarrow> 's \<Rightarrow> bool) \<Rightarrow> 's \<Rightarrow> bool" for init step where
  start: "init s \<Longrightarrow> reach init step s"
| more: "reach init step s \<Longrightarrow> step s s' \<Longrightarrow> reach init step s'"

locale inductive_invariant =
  fixes init :: "'s \<Rightarrow> bool" and step :: "'s \<Rightarrow> 's \<Rightarrow> bool" and inv :: "'s \<Rightarrow> bool"
  assumes init_inv: "init s \<Longrightarrow> inv s"
    and step_inv: "inv s \<Longrightarrow> step s s' \<Longrightarrow> inv s'"
begin

lemma always: "reach init step s \<Longrightarrow> inv s"
  by (induction rule: reach.induct) (auto intro: init_inv step_inv)

end

text \<open>A sum over threads of which one changes its local state.\<close>

lemma sum_one_thread:
  fixes f :: "'l \<Rightarrow> int" and n :: nat
  assumes "t < n"
  shows "(\<Sum>i<n. f ((loc(t := l)) i)) = (\<Sum>i<n. f (loc i)) - f (loc t) + f l"
proof -
  have "(\<Sum>i<n. f ((loc(t := l)) i)) = f l + (\<Sum>i\<in>{..<n} - {t}. f ((loc(t := l)) i))"
    using assms by (subst sum.remove [of _ t]) auto
  also have "(\<Sum>i\<in>{..<n} - {t}. f ((loc(t := l)) i)) = (\<Sum>i\<in>{..<n} - {t}. f (loc i))"
    by (rule sum.cong) auto
  also have "\<dots> = (\<Sum>i<n. f (loc i)) - f (loc t)"
    using assms by (simp add: sum.remove [of "{..<n}" t])
  finally show ?thesis by simp
qed

lemma thread_le_sum:
  fixes f :: "'l \<Rightarrow> int" and n :: nat
  assumes "t < n" "\<And>l. 0 \<le> f l"
  shows "f (loc t) \<le> (\<Sum>i<n. f (loc i))"
  using assms by (intro member_le_sum) auto

lemma two_threads_le_sum:
  fixes f :: "'l \<Rightarrow> int" and n :: nat
  assumes "t < n" "u < n" "t \<noteq> u" "\<And>l. 0 \<le> f l"
  shows "f (loc t) + f (loc u) \<le> (\<Sum>i<n. f (loc i))"
proof -
  have "(\<Sum>i\<in>{t, u}. f (loc i)) \<le> (\<Sum>i<n. f (loc i))"
    using assms by (intro sum_mono2) auto
  with assms(3) show ?thesis by simp
qed

end
