(* ===== verification/Parcel_Core.thy ===== *)
theory Parcel_Core
  imports CUtils_Prelude
begin

text \<open>
  The data container \<^verbatim>\<open>Parcel\<close> (\<^verbatim>\<open>base/src/parcel.cpp\<close>, \<^verbatim>\<open>base/include/parcel.h\<close>): its state,
  the allocators, the capacity policy, the cursors, and the raw byte operations every typed
  read and write is built from. The modelled configuration is the default build for a 64-bit
  little-endian target: \<^verbatim>\<open>PARCEL_OBJECT_CHECK\<close> is on, 64-bit binder types, no ARM32 guards.

  The data region is a list of bytes whose length is the allocated size; a pointer into it is
  its offset. Every access is bounds-checked, and one outside the region is \<^const>\<open>None\<close>.
\<close>

section \<open>State\<close>

text \<open>
  An allocator is known to the parcel by its address and by what \<^verbatim>\<open>Alloc\<close> and \<^verbatim>\<open>Realloc\<close> return:
  \<^const>\<open>None\<close> is a null pointer, \<^const>\<open>Some\<close> the contents of the region handed out.
\<close>

record allocator =
  alloc_addr :: nat
  Alloc :: "nat \<Rightarrow> byte list option"
  Realloc :: "byte list option \<Rightarrow> nat \<Rightarrow> byte list option"

record parcel =
  data :: "byte list option"
  readCursor :: nat
  writeCursor :: nat
  dataSize :: nat
  dataCapacity :: nat
  maxDataCapacity :: nat
  objectOffsets :: "nat list option"
  nextObjectIdx :: nat
  objectCursor :: nat
  objectsCapacity :: nat
  allocator :: "allocator option"
  objectHolder :: "nat option list"
  writable :: bool

text \<open>
  What the parcel calls outside the repository and outside the parcel's own allocator: the bounded
  copy \<^verbatim>\<open>memcpy_s\<close> of the bounds-checking library, given the destination window of \<^verbatim>\<open>destMax\<close> bytes
  and the source bytes and returning whether it returned \<^verbatim>\<open>EOK\<close> and the window afterwards; and the C
  library's \<^verbatim>\<open>realloc\<close> of the array of object offsets, given the array and the new number of elements.
\<close>

record parcel_env =
  memcpy_s :: "byte list \<Rightarrow> byte list \<Rightarrow> bool \<times> byte list"
  realloc_offsets :: "nat list option \<Rightarrow> nat \<Rightarrow> nat list option"

definition DEFAULT_CPACITY :: nat where
  "DEFAULT_CPACITY = 204800"

definition CAPACITY_THRESHOLD :: nat where
  "CAPACITY_THRESHOLD = 4096"

definition BINDER_TYPE_HANDLE :: "32 word" where
  "BINDER_TYPE_HANDLE = 0x73682a85"

definition BINDER_TYPE_FD :: "32 word" where
  "BINDER_TYPE_FD = 0x66642a85"

text \<open>\<^verbatim>\<open>sizeof(parcel_flat_binder_object)\<close>: a 4-byte header, 4 bytes of flags, two 8-byte fields.\<close>

definition FLAT_OBJECT_SIZE :: nat where
  "FLAT_OBJECT_SIZE = 4 + 4 + 8 + 8"

section \<open>Allocators\<close>

text \<open>
  The C heap behind \<^verbatim>\<open>malloc\<close> and \<^verbatim>\<open>realloc\<close>: which requests it refuses, and the contents of memory it
  has not initialised. It never hands out more than \<^verbatim>\<open>PTRDIFF_MAX\<close> bytes.
\<close>

record c_heap =
  refuses :: "nat \<Rightarrow> bool"
  junk :: "nat \<Rightarrow> byte"

definition DefaultAllocator_Alloc :: "c_heap \<Rightarrow> nat \<Rightarrow> byte list option" where
  "DefaultAllocator_Alloc h sz =
     (if refuses h sz \<or> 2 ^ 63 \<le> sz then None else Some (map (junk h) [0..<sz]))"

definition DefaultAllocator_Realloc :: "c_heap \<Rightarrow> byte list option \<Rightarrow> nat \<Rightarrow> byte list option" where
  "DefaultAllocator_Realloc h ptr newSize =
     (if refuses h newSize \<or> 2 ^ 63 \<le> newSize then None
      else case ptr of
          None \<Rightarrow> Some (map (junk h) [0..<newSize])
        | Some d \<Rightarrow> Some (take newSize d @ map (junk h) [length d..<newSize]))"

definition DefaultAllocator :: "nat \<Rightarrow> c_heap \<Rightarrow> allocator" where
  "DefaultAllocator addr h =
     \<lparr>alloc_addr = addr, Alloc = DefaultAllocator_Alloc h, Realloc = DefaultAllocator_Realloc h\<rparr>"

text \<open>What the parcel relies on of any \<^verbatim>\<open>Allocator\<close> it is given.\<close>

locale Allocator_contract =
  fixes a :: allocator
  assumes Alloc_length: "Alloc a n = Some d \<Longrightarrow> length d = n \<and> n < 2 ^ 63"
    and Realloc_length: "Realloc a ptr n = Some d \<Longrightarrow> length d = n \<and> n < 2 ^ 63"
    and Realloc_keeps: "Realloc a (Some old) n = Some d \<Longrightarrow> k \<le> length old \<Longrightarrow> k \<le> n \<Longrightarrow>
      take k d = take k old"
begin

lemma Realloc_grow:
  assumes "Realloc a (Some old) n = Some d" and "length old \<le> n"
  shows "take (length old) d = old"
  using Realloc_keeps [OF assms(1), of "length old"] assms(2) by simp

end

interpretation default_alloc: Allocator_contract "DefaultAllocator addr h" for addr h
  by unfold_locales
     (auto simp: DefaultAllocator_def DefaultAllocator_Alloc_def DefaultAllocator_Realloc_def
       min_def split: if_splits option.splits)

section \<open>Construction and cursors\<close>

definition Parcel_new :: "allocator \<Rightarrow> parcel" where
  "Parcel_new al =
     \<lparr>data = None, readCursor = 0, writeCursor = 0, dataSize = 0, dataCapacity = 0,
      maxDataCapacity = DEFAULT_CPACITY, objectOffsets = None, nextObjectIdx = 0,
      objectCursor = 0, objectsCapacity = 0, allocator = Some al, objectHolder = [],
      writable = True\<rparr>"

definition GetWritableBytes :: "parcel \<Rightarrow> nat" where
  "GetWritableBytes p =
     (if dataCapacity p > writeCursor p then size_sub (dataCapacity p) (writeCursor p) else 0)"

definition GetReadableBytes :: "parcel \<Rightarrow> nat" where
  "GetReadableBytes p =
     (if dataSize p > readCursor p then size_sub (dataSize p) (readCursor p) else 0)"

definition GetPadSize :: "nat \<Rightarrow> nat" where
  "GetPadSize sz = unat (((of_nat sz + 3) AND (NOT 3)) - of_nat sz :: 64 word)"

section \<open>Capacity\<close>

text \<open>The doubling loop of \<^verbatim>\<open>CalcNewCapacity\<close>; the code enters it at 64 with a bound below the threshold.\<close>

function double_until :: "nat \<Rightarrow> nat \<Rightarrow> nat" where
  "double_until newCapacity minNewCapacity =
     (if 0 < newCapacity \<and> newCapacity < minNewCapacity
      then double_until (newCapacity * 2) minNewCapacity else newCapacity)"
  by pat_completeness auto
termination
  by (relation "measure (\<lambda>(c, m). m - c)") auto

declare double_until.simps [simp del]

definition CalcNewCapacity :: "parcel \<Rightarrow> nat \<Rightarrow> nat" where
  "CalcNewCapacity p minNewCapacity =
     (let threshold = CAPACITY_THRESHOLD in
      if minNewCapacity = threshold then threshold
      else if minNewCapacity > threshold then
        (let newCapacity = minNewCapacity div threshold * threshold in
         if maxDataCapacity p > 0 \<and> newCapacity > size_sub (maxDataCapacity p) threshold
         then maxDataCapacity p
         else size_add newCapacity threshold)
      else
        (let newCapacity = double_until 64 minNewCapacity in
         if maxDataCapacity p > 0 \<and> newCapacity > maxDataCapacity p
         then maxDataCapacity p else newCapacity))"

definition EnsureWritableCapacity :: "nat \<Rightarrow> parcel \<Rightarrow> bool \<times> parcel" where
  "EnsureWritableCapacity desireCapacity p =
     (if \<not> writable p then (False, p)
      else if desireCapacity \<le> GetWritableBytes p then
        (if data p = None then (False, p) else (True, p))
      else
        (let minNewCapacity = size_add desireCapacity (writeCursor p);
             newCapacity = CalcNewCapacity p minNewCapacity
         in if newCapacity \<le> dataCapacity p \<or> newCapacity < minNewCapacity then (False, p)
            else case allocator p of
                None \<Rightarrow> (False, p)
              | Some al \<Rightarrow>
                  (case Realloc al (data p) newCapacity of
                     None \<Rightarrow> (False, p)
                   | Some newData \<Rightarrow>
                       (True, p\<lparr>data := Some newData, dataCapacity := newCapacity\<rparr>))))"

definition SetMaxCapacity :: "nat \<Rightarrow> parcel \<Rightarrow> bool \<times> parcel" where
  "SetMaxCapacity maxCapacity p =
     (if maxCapacity > maxDataCapacity p
      then (True, p\<lparr>maxDataCapacity := maxCapacity\<rparr>) else (False, p))"

definition SetDataCapacity :: "nat \<Rightarrow> parcel \<Rightarrow> bool \<times> parcel" where
  "SetDataCapacity newCapacity p =
     (case allocator p of
        None \<Rightarrow> (False, p)
      | Some al \<Rightarrow>
          if dataSize p \<ge> newCapacity then (False, p)
          else case Realloc al (data p) newCapacity of
              None \<Rightarrow> (False, p)
            | Some newData \<Rightarrow> (True, p\<lparr>data := Some newData, dataCapacity := newCapacity\<rparr>))"

definition SetDataSize :: "nat \<Rightarrow> parcel \<Rightarrow> bool \<times> parcel" where
  "SetDataSize newSize p =
     (if newSize > dataCapacity p then (False, p) else (True, p\<lparr>dataSize := newSize\<rparr>))"

text \<open>
  \<^verbatim>\<open>SetAllocator\<close> moves written data into memory of the new allocator; the window for \<^verbatim>\<open>memcpy_s\<close> is the
  whole new region. A failed copy gives the new region back and leaves the parcel alone.
\<close>

definition SetAllocator :: "parcel_env \<Rightarrow> allocator option \<Rightarrow> parcel \<Rightarrow> (bool \<times> parcel) option" where
  "SetAllocator E newAlloc p =
     (case newAlloc of
        None \<Rightarrow> Some (False, p)
      | Some al \<Rightarrow>
          if map_option alloc_addr (allocator p) = Some (alloc_addr al) then Some (False, p)
          else if data p \<noteq> None \<and> dataSize p > 0 then
            (if allocator p = None then Some (False, p)
             else case Alloc al (dataSize p) of
                 None \<Rightarrow> Some (False, p)
               | Some newData \<Rightarrow> do {
                   src \<leftarrow> mem_read 0 (dataSize p) (the (data p));
                   let (eok, newData') = memcpy_s E newData src;
                   if \<not> eok then Some (False, p)
                   else Some (True, p\<lparr>data := Some newData', dataCapacity := dataSize p,
                                      allocator := Some al\<rparr>)
                 })
          else Some (True, p\<lparr>allocator := Some al\<rparr>))"

section \<open>Clearing, parsing, rewinding\<close>

definition ClearObjects :: "parcel \<Rightarrow> parcel" where
  "ClearObjects p =
     p\<lparr>objectHolder := [], nextObjectIdx := 0, objectCursor := 0, objectOffsets := None,
       objectsCapacity := 0\<rparr>"

definition FlushBuffer :: "parcel \<Rightarrow> parcel" where
  "FlushBuffer p =
     (if allocator p = None then p
      else let p1 = (if data p \<noteq> None
                     then p\<lparr>dataSize := 0, writeCursor := 0, readCursor := 0,
                            dataCapacity := 0, data := None\<rparr> else p)
           in if objectOffsets p1 \<noteq> None then ClearObjects p1 else p1)"

definition ParseFrom :: "byte list option \<Rightarrow> nat \<Rightarrow> parcel \<Rightarrow> bool \<times> parcel" where
  "ParseFrom buf sz p =
     (if data p \<noteq> None then (False, p)
      else let p1 = p\<lparr>data := buf, dataCapacity := sz, dataSize := sz, writable := False\<rparr>
           in (True, if objectOffsets p1 \<noteq> None then ClearObjects p1 else p1))"

definition SkipBytes :: "nat \<Rightarrow> parcel \<Rightarrow> parcel" where
  "SkipBytes bytes p =
     (if GetReadableBytes p \<ge> bytes then p\<lparr>readCursor := size_add (readCursor p) bytes\<rparr>
      else if readCursor p < dataCapacity p then p\<lparr>readCursor := dataCapacity p\<rparr>
      else p)"

definition RewindRead :: "nat \<Rightarrow> parcel \<Rightarrow> bool \<times> parcel" where
  "RewindRead newPosition p =
     (if newPosition > dataSize p then (False, p)
      else (True, p\<lparr>readCursor := newPosition, nextObjectIdx := 0\<rparr>))"

section \<open>Raw writes\<close>

text \<open>
  A source buffer is \<^const>\<open>None\<close> for a null pointer, otherwise the bytes it may be read for; reading
  more of them than there are is undefined.
\<close>

definition WriteDataBytes :: "parcel_env \<Rightarrow> byte list \<Rightarrow> nat \<Rightarrow> parcel \<Rightarrow> (bool \<times> parcel) option" where
  "WriteDataBytes E buf sz p = do {
     d \<leftarrow> data p;
     src \<leftarrow> mem_read 0 sz buf;
     let writableBytes = GetWritableBytes p;
     window \<leftarrow> mem_read (writeCursor p) writableBytes d;
     let (eok, window') = memcpy_s E window src;
     d' \<leftarrow> mem_write (writeCursor p) window' d;
     if \<not> eok then Some (False, p\<lparr>data := Some d'\<rparr>)
     else Some (True, p\<lparr>data := Some d', writeCursor := size_add (writeCursor p) sz,
                        dataSize := size_add (dataSize p) sz\<rparr>)
   }"

definition pad_mask :: "32 word list" where
  "pad_mask = [0xFFFFFFFF, 0x00ffffff, 0x0000ffff, 0x000000ff]"

text \<open>
  The padding is written by masking the 32-bit word that ends where the padding ends, so up to
  three bytes already written are read back and stored unchanged.
\<close>

definition WritePadBytes :: "nat \<Rightarrow> parcel \<Rightarrow> parcel option" where
  "WritePadBytes padSize p = do {
     d \<leftarrow> data p;
     if writeCursor p + padSize < 4 \<or> 4 \<le> padSize then None
     else do {
       let pos = writeCursor p + padSize - 4;
       old \<leftarrow> mem_read pos 4 d;
       d' \<leftarrow> mem_write pos (le_bytes 4 ((le_word old :: 32 word) AND pad_mask ! padSize)) d;
       Some (p\<lparr>data := Some d', writeCursor := size_add (writeCursor p) padSize,
               dataSize := size_add (dataSize p) padSize\<rparr>)
     }
   }"

definition WriteBuffer :: "parcel_env \<Rightarrow> byte list option \<Rightarrow> nat \<Rightarrow> parcel \<Rightarrow> (bool \<times> parcel) option" where
  "WriteBuffer E buf sz p =
     (case buf of
        None \<Rightarrow> Some (False, p)
      | Some src \<Rightarrow>
          if sz = 0 then Some (False, p)
          else let padSize = GetPadSize sz;
                   desireCapacity = size_add sz padSize
               in if desireCapacity < sz \<or> desireCapacity < padSize then Some (False, p)
                  else let (ok, p1) = EnsureWritableCapacity desireCapacity p
                       in if ok then do {
                            (ok2, p2) \<leftarrow> WriteDataBytes E src sz p1;
                            if \<not> ok2 then Some (False, p2)
                            else do { p3 \<leftarrow> WritePadBytes padSize p2; Some (True, p3) }
                          }
                          else Some (False, p1))"

definition WriteBufferAddTerminator ::
    "parcel_env \<Rightarrow> byte list option \<Rightarrow> nat \<Rightarrow> nat \<Rightarrow> parcel \<Rightarrow> (bool \<times> parcel) option" where
  "WriteBufferAddTerminator E buf sz typeSize p =
     (case buf of
        None \<Rightarrow> Some (False, p)
      | Some src \<Rightarrow>
          if typeSize = 0 \<or> sz < typeSize then Some (False, p)
          else let padSize = GetPadSize sz;
                   desireCapacity = size_add sz padSize
               in if desireCapacity < sz \<or> desireCapacity < padSize then Some (False, p)
                  else let (ok, p1) = EnsureWritableCapacity desireCapacity p
                       in if ok then do {
                            (ok2, p2) \<leftarrow> WriteDataBytes E src (size_sub sz typeSize) p1;
                            if \<not> ok2 then Some (False, p2)
                            else if typeSize > 4 then Some (False, p2)
                            else do {
                              (ok3, p3) \<leftarrow> WriteDataBytes E [0, 0, 0, 0] typeSize p2;
                              if \<not> ok3 then Some (False, p3)
                              else do { p4 \<leftarrow> WritePadBytes padSize p3; Some (True, p4) }
                            }
                          }
                          else Some (False, p1))"

definition WriteUnpadBuffer :: "parcel_env \<Rightarrow> byte list option \<Rightarrow> nat \<Rightarrow> parcel \<Rightarrow> (bool \<times> parcel) option" where
  "WriteUnpadBuffer E buf sz p = WriteBuffer E buf sz p"

text \<open>\<^verbatim>\<open>Write<T>\<close>, given the object representation of the value (\<^verbatim>\<open>sizeof(T)\<close> bytes).\<close>

definition Write_T :: "byte list \<Rightarrow> parcel \<Rightarrow> (bool \<times> parcel) option" where
  "Write_T value p =
     (let desireCapacity = length value; (ok, p1) = EnsureWritableCapacity desireCapacity p
      in if ok then do {
           d \<leftarrow> data p1;
           d' \<leftarrow> mem_write (writeCursor p1) value d;
           Some (True, p1\<lparr>data := Some d', writeCursor := size_add (writeCursor p1) desireCapacity,
                          dataSize := size_add (dataSize p1) desireCapacity\<rparr>)
         }
         else Some (False, p1))"

section \<open>Raw reads\<close>

text \<open>The \<^verbatim>\<open>do\<close>-\<^verbatim>\<open>while\<close> loop of \<^verbatim>\<open>ValidateReadData\<close>: \<open>Some None\<close> when it returns \<^verbatim>\<open>false\<close>.\<close>

function validate_loop :: "nat list \<Rightarrow> nat \<Rightarrow> nat \<Rightarrow> nat \<Rightarrow> nat \<Rightarrow> nat option option" where
  "validate_loop objects objSize readPos upperBound nextObj =
     (if length objects \<le> nextObj then None
      else if readPos < size_add (objects ! nextObj) FLAT_OBJECT_SIZE then Some None
      else if Suc nextObj < objSize then
        (if length objects \<le> Suc nextObj then None
         else if upperBound > objects ! Suc nextObj
              then validate_loop objects objSize readPos upperBound (Suc nextObj)
              else Some (Some (Suc nextObj)))
      else Some (Some (Suc nextObj)))"
  by pat_completeness auto
termination
  by (relation "measure (\<lambda>(objects, _, _, _, i). length objects - i)") auto

declare validate_loop.simps [simp del]

definition ValidateReadData :: "nat \<Rightarrow> parcel \<Rightarrow> (bool \<times> parcel) option" where
  "ValidateReadData upperBound p =
     (case objectOffsets p of
        None \<Rightarrow> Some (True, p)
      | Some objects \<Rightarrow>
          if objectCursor p = 0 then Some (True, p)
          else if nextObjectIdx p < objectCursor p then
            (if length objects \<le> nextObjectIdx p then None
             else if upperBound > objects ! nextObjectIdx p then
               (case validate_loop objects (objectCursor p) (readCursor p) upperBound
                       (nextObjectIdx p) of
                  None \<Rightarrow> None
                | Some None \<Rightarrow> Some (False, p)
                | Some (Some nextObj) \<Rightarrow> Some (True, p\<lparr>nextObjectIdx := nextObj\<rparr>))
             else Some (True, p))
          else Some (True, p))"

text \<open>\<^verbatim>\<open>Read<T>(T &)\<close> for a type of \<open>n\<close> bytes: the bytes read, or \<^const>\<open>None\<close> inside for \<^verbatim>\<open>false\<close>.\<close>

definition Read_T :: "nat \<Rightarrow> parcel \<Rightarrow> (byte list option \<times> parcel) option" where
  "Read_T n p =
     (if n \<le> GetReadableBytes p then do {
        (ok, p1) \<leftarrow> ValidateReadData (size_add (readCursor p) n) p;
        let p2 = p1\<lparr>readCursor := size_add (readCursor p1) n\<rparr>;
        if \<not> ok then Some (None, p2)
        else do {
          d \<leftarrow> data p;
          bytes \<leftarrow> mem_read (readCursor p) n d;
          Some (Some bytes, p2)
        }
      }
      else Some (None, p))"

text \<open>The buffer readers return a pointer into the data region, here its offset.\<close>

definition ReadBuffer_validate :: "nat \<Rightarrow> bool \<Rightarrow> parcel \<Rightarrow> (nat option \<times> parcel) option" where
  "ReadBuffer_validate len isValidate p =
     (if GetReadableBytes p \<ge> len then do {
        let buffer = readCursor p;
        (ok, p1) \<leftarrow> (if isValidate then ValidateReadData (size_add (readCursor p) len) p
                     else Some (True, p));
        if \<not> ok then Some (None, p1)
        else Some (Some buffer, p1\<lparr>readCursor := size_add (readCursor p1) len\<rparr>)
      }
      else Some (None, p))"

definition ReadBuffer :: "nat \<Rightarrow> parcel \<Rightarrow> (nat option \<times> parcel) option" where
  "ReadBuffer len p =
     (if GetReadableBytes p \<ge> len then do {
        let buffer = readCursor p;
        (ok, p1) \<leftarrow> ValidateReadData (size_add (readCursor p) len) p;
        if \<not> ok then Some (None, p1)
        else Some (Some buffer, p1\<lparr>readCursor := size_add (readCursor p1) len\<rparr>)
      }
      else Some (None, p))"

definition BasicReadBuffer :: "nat \<Rightarrow> parcel \<Rightarrow> (nat option \<times> parcel) option" where
  "BasicReadBuffer len p =
     (if GetReadableBytes p \<ge> len then do {
        let buffer = readCursor p;
        (ok, p1) \<leftarrow> ValidateReadData (size_add (readCursor p) len) p;
        let p2 = p1\<lparr>readCursor := size_add (readCursor p1) len\<rparr>;
        if \<not> ok then Some (None, p2) else Some (Some buffer, p2)
      }
      else Some (None, p))"

definition ReadUnpadBuffer :: "nat \<Rightarrow> parcel \<Rightarrow> (nat option \<times> parcel) option" where
  "ReadUnpadBuffer len p =
     (if GetReadableBytes p \<ge> len then do {
        let buffer = readCursor p;
        (ok, p1) \<leftarrow> ValidateReadData (size_add (readCursor p) len) p;
        if \<not> ok then Some (None, p1)
        else Some (Some buffer,
                   SkipBytes (GetPadSize len) (p1\<lparr>readCursor := size_add (readCursor p1) len\<rparr>))
      }
      else Some (None, p))"

end
