(* ===== verification/Parcel_Wf.thy ===== *)
theory Parcel_Wf
  imports Parcel_Core
begin

text \<open>
  The well-formedness invariant of a parcel, the capacity policy, and a specification format for
  write operations: a writer never leaves the data region, appends a prefix of its encoding, the
  whole encoding if it reports success, and does report success when memory and capacity suffice.
\<close>

section \<open>Padding and capacity policy\<close>

lemma and_not_eq_minus: "(w AND NOT m :: 'a::len word) = w - (w AND m)"
proof -
  have "(w AND m) AND (w AND NOT m) = 0"
    by (rule bit_word_eqI) (auto simp: bit_simps)
  moreover have "(w AND m) OR (w AND NOT m) = w"
    by (rule bit_word_eqI) (auto simp: bit_simps)
  ultimately have "(w AND m) + (w AND NOT m) = w"
    using word_plus_and_or [of "w AND m" "w AND NOT m"] by (simp only: add_0)
  then show ?thesis
    by (simp add: algebra_simps)
qed

lemma GetPadSize_eq: "GetPadSize n = 3 - (n + 3) mod 4"
proof -
  let ?w = "of_nat n :: 64 word"
  have m: "(?w + 3) AND 3 = take_bit 2 (?w + 3)"
    by (simp add: take_bit_eq_mask mask_eq_exp_minus_1)
  have u: "unat (take_bit 2 (?w + 3)) = (n + 3) mod 4"
  proof -
    have "?w + 3 = of_nat (n + 3)" by simp
    then show ?thesis
      by (simp only: unsigned_take_bit_eq unsigned_of_nat) (simp add: take_bit_eq_mod mod_mod_cancel)
  qed
  have le: "take_bit 2 (?w + 3) \<le> 3"
    using u by (simp add: word_le_nat_alt)
  have "((?w + 3) AND NOT 3) - ?w = 3 - take_bit 2 (?w + 3)"
    by (simp only: and_not_eq_minus m) simp
  then have "GetPadSize n = unat (3 - take_bit 2 (?w + 3))"
    by (simp add: GetPadSize_def)
  also have "\<dots> = 3 - (n + 3) mod 4"
    using le u by (simp add: unat_sub)
  finally show ?thesis .
qed

lemma GetPadSize_less: "GetPadSize n < 4"
  by (simp add: GetPadSize_eq)

lemma GetPadSize_aligns: "(n + GetPadSize n) mod 4 = 0"
  unfolding GetPadSize_eq by presburger

lemma double_until_ge: "0 < c \<Longrightarrow> m \<le> double_until c m"
  by (induction c m rule: double_until.induct) (subst double_until.simps, auto)

lemma double_until_le: "double_until c m \<le> max c (2 * m)"
  by (induction c m rule: double_until.induct) (subst double_until.simps, auto)

lemma div_mul_le_less:
  fixes m :: nat
  shows "m div 4096 * 4096 \<le> m" "m < m div 4096 * 4096 + 4096"
  by (rule div_times_less_eq_dividend) (simp add: dividend_less_div_times)

lemma CalcNewCapacity_bounds:
  assumes "DEFAULT_CPACITY \<le> maxDataCapacity p" "maxDataCapacity p < SIZE_MOD"
    "m \<le> maxDataCapacity p"
  shows "m \<le> CalcNewCapacity p m" "CalcNewCapacity p m \<le> maxDataCapacity p"
proof -
  have "m \<le> CalcNewCapacity p m \<and> CalcNewCapacity p m \<le> maxDataCapacity p"
  proof (cases "m > 4096")
    case True
    have "size_sub (maxDataCapacity p) 4096 = maxDataCapacity p - 4096"
      using assms by (simp add: size_simps DEFAULT_CPACITY_def)
    moreover have "m div 4096 * 4096 \<le> maxDataCapacity p - 4096 \<Longrightarrow>
        size_add (m div 4096 * 4096) 4096 = m div 4096 * 4096 + 4096"
      using assms by (simp add: size_simps DEFAULT_CPACITY_def)
    ultimately show ?thesis
      using True assms div_mul_le_less [of m]
      by (auto simp: CalcNewCapacity_def CAPACITY_THRESHOLD_def Let_def DEFAULT_CPACITY_def)
  next
    case False
    then show ?thesis
      using assms double_until_ge [of 64 m] double_until_le [of 64 m]
      by (auto simp: CalcNewCapacity_def CAPACITY_THRESHOLD_def Let_def DEFAULT_CPACITY_def)
  qed
  then show "m \<le> CalcNewCapacity p m" "CalcNewCapacity p m \<le> maxDataCapacity p"
    by auto
qed

lemma CalcNewCapacity_over:
  assumes "DEFAULT_CPACITY \<le> maxDataCapacity p" "maxDataCapacity p < SIZE_MOD"
    "maxDataCapacity p < m"
  shows "CalcNewCapacity p m = maxDataCapacity p"
proof -
  have "size_sub (maxDataCapacity p) 4096 = maxDataCapacity p - 4096"
    using assms by (simp add: size_simps DEFAULT_CPACITY_def)
  moreover have "maxDataCapacity p - 4096 < m div 4096 * 4096"
    using assms(1,3) div_mul_le_less(2) [of m] by (simp add: DEFAULT_CPACITY_def less_diff_conv2)
  ultimately show ?thesis
    using assms by (auto simp: CalcNewCapacity_def CAPACITY_THRESHOLD_def Let_def DEFAULT_CPACITY_def)
qed

section \<open>The invariant\<close>

definition parcel_wf :: "parcel \<Rightarrow> bool" where
  "parcel_wf p \<longleftrightarrow>
     (data p = None \<longrightarrow> dataCapacity p = 0) \<and> (\<forall>d. data p = Some d \<longrightarrow> length d = dataCapacity p) \<and>
     dataSize p \<le> dataCapacity p \<and> dataCapacity p < 2 ^ 63 \<and> readCursor p < SIZE_MOD \<and>
     DEFAULT_CPACITY \<le> maxDataCapacity p \<and> maxDataCapacity p < SIZE_MOD \<and>
     (writable p \<longrightarrow> writeCursor p = dataSize p) \<and>
     (\<forall>al. allocator p = Some al \<longrightarrow> Allocator_contract al) \<and>
     (objectOffsets p = None \<longrightarrow> objectsCapacity p = 0) \<and>
     (\<forall>os. objectOffsets p = Some os \<longrightarrow> length os = objectsCapacity p) \<and>
     objectCursor p \<le> objectsCapacity p"

text \<open>The bytes a parcel holds.\<close>

definition content :: "parcel \<Rightarrow> byte list" where
  "content p = (case data p of None \<Rightarrow> [] | Some d \<Rightarrow> take (dataSize p) d)"

lemma content_update [simp]:
  "content (p\<lparr>readCursor := n\<rparr>) = content p" "content (p\<lparr>writeCursor := n\<rparr>) = content p"
  "content (p\<lparr>dataCapacity := n\<rparr>) = content p" "content (p\<lparr>maxDataCapacity := n\<rparr>) = content p"
  "content (p\<lparr>objectOffsets := os\<rparr>) = content p" "content (p\<lparr>nextObjectIdx := n\<rparr>) = content p"
  "content (p\<lparr>objectCursor := n\<rparr>) = content p" "content (p\<lparr>objectsCapacity := n\<rparr>) = content p"
  "content (p\<lparr>allocator := al\<rparr>) = content p" "content (p\<lparr>objectHolder := h\<rparr>) = content p"
  "content (p\<lparr>writable := b\<rparr>) = content p"
  by (simp_all add: content_def cong: option.case_cong)

lemma length_content: "parcel_wf p \<Longrightarrow> length (content p) = dataSize p"
  by (auto simp: parcel_wf_def content_def split: option.splits)

lemma Parcel_new_wf: "Allocator_contract al \<Longrightarrow> parcel_wf (Parcel_new al)"
  by (simp add: parcel_wf_def Parcel_new_def DEFAULT_CPACITY_def)

lemma Parcel_new_content: "content (Parcel_new al) = []"
  by (simp add: content_def Parcel_new_def)

section \<open>Appending\<close>

text \<open>
  \<open>appended p bs p'\<close>: from \<open>p\<close> to \<open>p'\<close> the bytes \<open>bs\<close> were appended; only the data region, its
  capacity, the write cursor and the data size changed, and the capacity stayed under the maximum.
\<close>

definition appended :: "parcel \<Rightarrow> byte list \<Rightarrow> parcel \<Rightarrow> bool" where
  "appended p bs p' \<longleftrightarrow>
     parcel_wf p' \<and> content p' = content p @ bs \<and>
     (\<exists>d. p' = p\<lparr>data := d, dataCapacity := dataCapacity p', writeCursor := writeCursor p + length bs,
                 dataSize := dataSize p + length bs\<rparr> \<and> (data p \<noteq> None \<longrightarrow> d \<noteq> None)) \<and>
     dataCapacity p \<le> dataCapacity p' \<and>
     (dataCapacity p \<le> maxDataCapacity p \<longrightarrow> dataCapacity p' \<le> maxDataCapacity p)"

lemma appended_refl [simp]: "parcel_wf p \<Longrightarrow> appended p [] p"
  unfolding appended_def by (auto intro!: exI [of _ "data p"])

lemma appended_wf: "appended p bs p' \<Longrightarrow> parcel_wf p'"
  by (simp add: appended_def)

lemma appended_content: "appended p bs p' \<Longrightarrow> content p' = content p @ bs"
  by (simp add: appended_def)

lemma appended_fields:
  assumes "appended p bs p'"
  shows "readCursor p' = readCursor p" "writeCursor p' = writeCursor p + length bs"
    "dataSize p' = dataSize p + length bs" "maxDataCapacity p' = maxDataCapacity p"
    "objectOffsets p' = objectOffsets p" "nextObjectIdx p' = nextObjectIdx p"
    "objectCursor p' = objectCursor p" "objectsCapacity p' = objectsCapacity p"
    "allocator p' = allocator p" "objectHolder p' = objectHolder p" "writable p' = writable p"
    "data p \<noteq> None \<Longrightarrow> data p' \<noteq> None"
  using assms by (auto simp: appended_def elim!: ssubst [of p'])

lemma appended_trans:
  assumes "appended p as q" "appended q bs r"
  shows "appended p (as @ bs) r"
proof -
  from assms obtain d e where
    q: "q = p\<lparr>data := d, dataCapacity := dataCapacity q, writeCursor := writeCursor p + length as,
              dataSize := dataSize p + length as\<rparr>" and
    r: "r = q\<lparr>data := e, dataCapacity := dataCapacity r, writeCursor := writeCursor q + length bs,
              dataSize := dataSize q + length bs\<rparr>" and
    n: "data p \<noteq> None \<longrightarrow> d \<noteq> None" "data q \<noteq> None \<longrightarrow> e \<noteq> None"
    by (auto simp: appended_def)
  have "r = p\<lparr>data := e, dataCapacity := dataCapacity r, writeCursor := writeCursor p + length (as @ bs),
              dataSize := dataSize p + length (as @ bs)\<rparr>"
    by (subst r, subst (1 3) q) (simp add: appended_fields [OF assms(1)])
  moreover have "data q = d"
    by (subst q) simp
  ultimately show ?thesis
    using assms n unfolding appended_def by (auto simp: appended_fields(4) [OF assms(1)])
qed

text \<open>Enough memory and capacity for \<open>n\<close> more bytes.\<close>

definition ample :: "parcel \<Rightarrow> nat \<Rightarrow> bool" where
  "ample p n \<longleftrightarrow>
     writable p \<and>
     (\<exists>al. allocator p = Some al \<and> (\<forall>old k. k \<le> maxDataCapacity p \<longrightarrow> Realloc al old k \<noteq> None)) \<and>
     dataCapacity p \<le> maxDataCapacity p \<and> maxDataCapacity p \<le> 0x7fffffff \<and>
     dataSize p + n \<le> maxDataCapacity p"

lemma appended_ample:
  assumes "appended p bs p'" "ample p (length bs + n)"
  shows "ample p' n"
  using assms appended_fields [OF assms(1)] by (auto simp: ample_def appended_def)

definition writer_spec :: "(parcel \<Rightarrow> (bool \<times> parcel) option) \<Rightarrow> byte list \<Rightarrow> bool" where
  "writer_spec w bs \<longleftrightarrow>
     (\<forall>p. parcel_wf p \<longrightarrow>
        (\<exists>ok p' pre. w p = Some (ok, p') \<and> appended p pre p' \<and> prefix pre bs \<and>
                     (ok \<longrightarrow> pre = bs) \<and> (ample p (length bs) \<longrightarrow> ok)))"

lemma writer_specE:
  assumes "writer_spec w bs" "parcel_wf p"
  obtains ok p' pre where "w p = Some (ok, p')" "appended p pre p'" "prefix pre bs"
    "ok \<Longrightarrow> pre = bs" "ample p (length bs) \<Longrightarrow> ok"
  using assms unfolding writer_spec_def by blast

lemma writer_specI:
  assumes "\<And>p. parcel_wf p \<Longrightarrow> \<exists>ok p' pre. w p = Some (ok, p') \<and> appended p pre p' \<and> prefix pre bs \<and>
             (ok \<longrightarrow> pre = bs) \<and> (ample p (length bs) \<longrightarrow> ok)"
  shows "writer_spec w bs"
  using assms unfolding writer_spec_def by blast

text \<open>Sequential composition: the shape \<^verbatim>\<open>if (!w1) return false; return w2;\<close> of the code.\<close>

lemma writer_spec_seq:
  assumes "writer_spec w1 b1" "writer_spec w2 b2"
  shows "writer_spec (\<lambda>p. do { (ok, q) \<leftarrow> w1 p; if \<not> ok then Some (False, q) else w2 q }) (b1 @ b2)"
proof (rule writer_specI)
  fix p assume "parcel_wf p"
  with assms(1) obtain ok q pre where 1: "w1 p = Some (ok, q)" "appended p pre q" "prefix pre b1"
      "ok \<Longrightarrow> pre = b1" "ample p (length b1) \<Longrightarrow> ok"
    by (rule writer_specE) blast
  have ample1: "ample p (length (b1 @ b2)) \<Longrightarrow> ok"
    using 1(5) by (auto simp: ample_def)
  show "\<exists>ok p' pre. (do { (ok, q) \<leftarrow> w1 p; if \<not> ok then Some (False, q) else w2 q }) = Some (ok, p') \<and>
      appended p pre p' \<and> prefix pre (b1 @ b2) \<and> (ok \<longrightarrow> pre = b1 @ b2) \<and>
      (ample p (length (b1 @ b2)) \<longrightarrow> ok)"
  proof (cases ok)
    case False
    with 1 ample1 show ?thesis by (auto intro: prefix_prefix)
  next
    case True
    from assms(2) appended_wf [OF 1(2)] obtain ok2 r pre2 where 2: "w2 q = Some (ok2, r)"
        "appended q pre2 r" "prefix pre2 b2" "ok2 \<Longrightarrow> pre2 = b2" "ample q (length b2) \<Longrightarrow> ok2"
      by (rule writer_specE) blast
    have "appended p (b1 @ pre2) r"
      using appended_trans [OF 1(2) 2(2)] 1(4) True by simp
    moreover have "ample p (length (b1 @ b2)) \<Longrightarrow> ample q (length b2)"
      using appended_ample [OF 1(2)] 1(4) True by simp
    ultimately show ?thesis
      using 1(1) 2 True by auto
  qed
qed

section \<open>Growing the data region\<close>

lemma GetWritableBytes_eq:
  "parcel_wf p \<Longrightarrow> GetWritableBytes p = dataCapacity p - writeCursor p"
  by (auto simp: GetWritableBytes_def parcel_wf_def size_simps)

lemma GetReadableBytes_eq:
  "parcel_wf p \<Longrightarrow> GetReadableBytes p = dataSize p - readCursor p"
  by (auto simp: GetReadableBytes_def parcel_wf_def size_simps)

lemma Ensure_false:
  "EnsureWritableCapacity n p = (False, p') \<Longrightarrow> p' = p"
  by (auto simp: EnsureWritableCapacity_def Let_def split: if_splits option.splits)

lemma Ensure_true:
  assumes wf: "parcel_wf p" and n: "n \<le> 2 ^ 63" and e: "EnsureWritableCapacity n p = (True, p')"
  shows "appended p [] p'" "writeCursor p' + n \<le> dataCapacity p'" "data p' \<noteq> None" "writable p'"
proof -
  have w: "writable p" "writeCursor p = dataSize p"
    using wf e by (auto simp: EnsureWritableCapacity_def parcel_wf_def split: if_splits)
  have "appended p [] p' \<and> writeCursor p' + n \<le> dataCapacity p' \<and> data p' \<noteq> None"
  proof (cases "n \<le> GetWritableBytes p")
    case True
    then have "p' = p" "data p \<noteq> None"
      using e by (auto simp: EnsureWritableCapacity_def split: if_splits)
    then show ?thesis
      using True wf w by (auto simp: GetWritableBytes_eq parcel_wf_def)
  next
    case False
    let ?m = "n + writeCursor p" and ?c = "CalcNewCapacity p (n + writeCursor p)"
    have "?m < SIZE_MOD"
      using n wf w by (auto simp: parcel_wf_def)
    then have m: "size_add n (writeCursor p) = ?m"
      by (simp add: size_simps)
    from False e w m obtain al nd where
      c: "dataCapacity p < ?c" "?m \<le> ?c" and al: "allocator p = Some al"
      and re: "Realloc al (data p) ?c = Some nd"
      and p': "p' = p\<lparr>data := Some nd, dataCapacity := ?c\<rparr>"
      by (auto simp: EnsureWritableCapacity_def Let_def split: if_splits option.splits)
    have max: "?c \<le> maxDataCapacity p"
      using wf CalcNewCapacity_bounds(2) [of p ?m] CalcNewCapacity_over [of p ?m]
      by (cases "?m \<le> maxDataCapacity p") (auto simp: parcel_wf_def)
    have A: "Allocator_contract al"
      using wf al by (auto simp: parcel_wf_def)
    have len: "length nd = ?c" "?c < 2 ^ 63"
      using Allocator_contract.Realloc_length [OF A re] by auto
    have "content p' = content p"
    proof (cases "data p")
      case None
      then show ?thesis using wf p' by (auto simp: content_def parcel_wf_def)
    next
      case (Some d)
      have "dataSize p \<le> length d"
        using wf Some by (auto simp: parcel_wf_def)
      then have "take (dataSize p) nd = take (dataSize p) d"
        using Allocator_contract.Realloc_keeps [OF A re [unfolded Some]] c w by auto
      then show ?thesis using Some p' by (simp add: content_def)
    qed
    moreover have "parcel_wf p'"
      using wf w c len p' by (simp add: parcel_wf_def split: option.splits)
    ultimately show ?thesis
      using p' c max by (auto simp: appended_def)
  qed
  then show "appended p [] p'" "writeCursor p' + n \<le> dataCapacity p'" "data p' \<noteq> None"
    by auto
  then show "writable p'"
    using w appended_fields(11) by metis
qed

lemma Ensure_ample:
  assumes wf: "parcel_wf p" and a: "ample p n" and n: "0 < n \<or> data p \<noteq> None"
  shows "\<exists>p'. EnsureWritableCapacity n p = (True, p')"
proof (cases "n \<le> GetWritableBytes p")
  case True
  have "data p \<noteq> None"
    using n True wf by (auto simp: GetWritableBytes_def parcel_wf_def split: if_splits option.splits)
  with True a show ?thesis
    by (auto simp: EnsureWritableCapacity_def ample_def)
next
  case False
  let ?m = "n + writeCursor p"
  have w: "writable p" "writeCursor p = dataSize p" "?m \<le> maxDataCapacity p"
    using wf a by (auto simp: ample_def parcel_wf_def)
  then have m: "size_add n (writeCursor p) = ?m"
    using a by (auto simp: ample_def size_simps)
  have "?m \<le> CalcNewCapacity p ?m" "CalcNewCapacity p ?m \<le> maxDataCapacity p"
    using wf w CalcNewCapacity_bounds [of p ?m] by (auto simp: parcel_wf_def)
  moreover have "dataCapacity p < ?m"
    using False wf w by (auto simp: GetWritableBytes_eq)
  moreover from calculation a obtain al nd where "allocator p = Some al"
      "Realloc al (data p) (CalcNewCapacity p ?m) = Some nd"
    unfolding ample_def by blast
  ultimately show ?thesis
    using False w m by (simp add: EnsureWritableCapacity_def Let_def)
qed

end
