(* ===== verification/Parcel_Write.thy ===== *)
theory Parcel_Write
  imports Parcel_Wf
begin

text \<open>
  The raw write operations of the parcel against the specification format \<^const>\<open>writer_spec\<close>:
  \<^verbatim>\<open>Write<T>\<close>, \<^verbatim>\<open>WriteDataBytes\<close>, \<^verbatim>\<open>WritePadBytes\<close>, \<^verbatim>\<open>WriteBuffer\<close> and \<^verbatim>\<open>WriteBufferAddTerminator\<close>.
\<close>

section \<open>The bounded copy\<close>

text \<open>
  The documented behaviour of \<^verbatim>\<open>memcpy_s\<close>: it never writes outside the window, copies exactly the
  source when it returns \<^verbatim>\<open>EOK\<close>, refuses a source longer than the window, and accepts one that fits a
  non-empty window of at most \<^verbatim>\<open>0x7fffffff\<close> bytes.
\<close>

definition memcpy_s_documented :: "parcel_env \<Rightarrow> bool" where
  "memcpy_s_documented E \<longleftrightarrow>
     (\<forall>win src eok win'. memcpy_s E win src = (eok, win') \<longrightarrow>
        length win' = length win \<and>
        (eok \<longrightarrow> length src \<le> length win \<and> win' = src @ drop (length src) win)) \<and>
     (\<forall>win src. 0 < length win \<and> length win \<le> 0x7fffffff \<and> length src \<le> length win \<longrightarrow>
        fst (memcpy_s E win src))"

text \<open>An environment with these properties, for closed instances.\<close>

definition sample_env :: parcel_env where
  "sample_env =
     \<lparr>memcpy_s = (\<lambda>win src.
        if 0 < length win \<and> length win \<le> 0x7fffffff \<and> length src \<le> length win
        then (True, src @ drop (length src) win) else (False, map (\<lambda>_. 0) win)),
      realloc_offsets = (\<lambda>old n. if 2 ^ 60 \<le> n then None else
        Some (case old of None \<Rightarrow> replicate n 0 | Some os \<Rightarrow> take n os @ replicate (n - length os) 0))\<rparr>"

lemma sample_env_documented: "memcpy_s_documented sample_env"
  by (auto simp: memcpy_s_documented_def sample_env_def split: if_splits)

section \<open>Appending one block\<close>

lemma append_block:
  assumes wf: "parcel_wf p" "writable p" and d: "data p = Some d"
    and room: "writeCursor p + length bs \<le> length d"
    and d': "take (writeCursor p + length bs) d' = take (writeCursor p) d @ bs" "length d' = length d"
  shows "appended p bs (p\<lparr>data := Some d', writeCursor := size_add (writeCursor p) (length bs),
                          dataSize := size_add (dataSize p) (length bs)\<rparr>)"
proof -
  have w: "writeCursor p = dataSize p" "length d = dataCapacity p" "dataCapacity p < 2 ^ 63"
    using wf d by (auto simp: parcel_wf_def)
  have s: "size_add (writeCursor p) (length bs) = dataSize p + length bs"
    using room w by (simp add: size_simps)
  show ?thesis
    using wf d room d' w s
    by (auto simp: appended_def parcel_wf_def content_def)
qed

lemma replace_tail:
  assumes "parcel_wf p" "data p = Some d" "length d' = length d"
    "take (dataSize p) d' = take (dataSize p) d"
  shows "appended p [] (p\<lparr>data := Some d'\<rparr>)"
  using assms by (auto simp: appended_def parcel_wf_def content_def)

lemma writer_fails:
  assumes "w p = Some (False, q)" "appended p pre q" "prefix pre bs" "\<not> ample p (length bs)"
  shows "\<exists>ok p' pre. w p = Some (ok, p') \<and> appended p pre p' \<and> prefix pre bs \<and>
      (ok \<longrightarrow> pre = bs) \<and> (ample p (length bs) \<longrightarrow> ok)"
  using assms by auto

lemma writer_succeeds:
  assumes "w p = Some (True, q)" "appended p bs q"
  shows "\<exists>ok p' pre. w p = Some (ok, p') \<and> appended p pre p' \<and> prefix pre bs \<and>
      (ok \<longrightarrow> pre = bs) \<and> (ample p (length bs) \<longrightarrow> ok)"
  using assms by auto

lemma Write_T_spec:
  assumes "0 < length bs" "length bs \<le> 8"
  shows "writer_spec (Write_T bs) bs"
proof (rule writer_specI)
  fix p assume wf: "parcel_wf p"
  obtain ok q where e: "EnsureWritableCapacity (length bs) p = (ok, q)"
    by (cases "EnsureWritableCapacity (length bs) p")
  show "\<exists>ok p' pre. Write_T bs p = Some (ok, p') \<and> appended p pre p' \<and> prefix pre bs \<and>
      (ok \<longrightarrow> pre = bs) \<and> (ample p (length bs) \<longrightarrow> ok)"
  proof (cases ok)
    case False
    then have "q = p" and "\<not> ample p (length bs)"
      using e Ensure_false Ensure_ample [OF wf, of "length bs"] assms by auto
    with e False wf show ?thesis
      by (intro writer_fails [of _ _ p "[]"]) (auto simp: Write_T_def)
  next
    case True
    have le: "length bs \<le> 2 ^ 63"
      using assms(2) by simp
    from e True have "EnsureWritableCapacity (length bs) p = (True, q)" by simp
    note q = Ensure_true [OF wf le this]
    from q assms obtain d where d: "data q = Some d" and room: "writeCursor q + length bs \<le> length d"
      using appended_wf by (fastforce simp: parcel_wf_def split: option.splits)
    let ?d' = "take (writeCursor q) d @ bs @ drop (writeCursor q + length bs) d"
    have "appended q bs (q\<lparr>data := Some ?d', writeCursor := size_add (writeCursor q) (length bs),
                          dataSize := size_add (dataSize q) (length bs)\<rparr>)"
      using q assms d room by (intro append_block) (auto intro: appended_wf)
    with q(1) assms have "appended p bs (q\<lparr>data := Some ?d', writeCursor := size_add (writeCursor q) (length bs),
                          dataSize := size_add (dataSize q) (length bs)\<rparr>)"
      using appended_trans [of p "[]" q bs] by simp
    with e True d room show ?thesis
      by (intro writer_succeeds) (auto simp: Write_T_def buf_simps Let_def)
  qed
qed

section \<open>Copying and padding\<close>

lemma WriteDataBytes_cases:
  assumes E: "memcpy_s_documented E" and wf: "parcel_wf p" "writable p" and d: "data p \<noteq> None"
    and src: "sz \<le> length src"
  obtains (fails) q where "WriteDataBytes E src sz p = Some (False, q)" "appended p [] q" "writable q"
      "data q \<noteq> None" "dataCapacity q = dataCapacity p"
      "GetWritableBytes p < sz \<or> GetWritableBytes p = 0 \<or> 0x7fffffff < GetWritableBytes p"
  | (copies) q where "WriteDataBytes E src sz p = Some (True, q)" "appended p (take sz src) q" "writable q"
      "data q \<noteq> None" "dataCapacity q = dataCapacity p" "sz \<le> GetWritableBytes p"
proof -
  from d obtain d where d: "data p = Some d" by auto
  let ?wc = "writeCursor p"
  have w: "?wc = dataSize p" "length d = dataCapacity p" "?wc \<le> length d"
    using wf d by (auto simp: parcel_wf_def)
  have g: "GetWritableBytes p = length d - ?wc"
    using wf w by (simp add: GetWritableBytes_eq)
  let ?win = "drop ?wc d" and ?src = "take sz src"
  obtain eok win' where m: "memcpy_s E ?win ?src = (eok, win')"
    by (cases "memcpy_s E ?win ?src")
  have len: "length win' = length ?win"
    and eok: "eok \<Longrightarrow> length ?src \<le> length ?win \<and> win' = ?src @ drop (length ?src) ?win"
    using E m unfolding memcpy_s_documented_def by blast+
  let ?d' = "take ?wc d @ win'"
  have run: "WriteDataBytes E src sz p =
      (if \<not> eok then Some (False, p\<lparr>data := Some ?d'\<rparr>)
       else Some (True, p\<lparr>data := Some ?d', writeCursor := size_add ?wc sz,
                          dataSize := size_add (dataSize p) sz\<rparr>))"
    using d w g m len src by (simp add: WriteDataBytes_def buf_simps)
  show ?thesis
  proof (cases eok)
    case False
    have "appended p [] (p\<lparr>data := Some ?d'\<rparr>)"
      using wf d w len by (intro replace_tail) auto
    moreover have "\<not> (0 < length ?win \<and> length ?win \<le> 0x7fffffff \<and> length ?src \<le> length ?win)"
      using E m False unfolding memcpy_s_documented_def by (metis fst_conv)
    then have "length ?win < sz \<or> length ?win = 0 \<or> 0x7fffffff < length ?win"
      using src by auto
    ultimately show ?thesis
      using fails [of "p\<lparr>data := Some ?d'\<rparr>"] run False g wf by simp
  next
    case True
    then have fit: "sz \<le> length ?win" and win': "win' = ?src @ drop sz ?win"
      using eok src by auto
    have l: "length ?src = sz"
      using src by simp
    have "appended p ?src (p\<lparr>data := Some ?d', writeCursor := size_add ?wc (length ?src),
                             dataSize := size_add (dataSize p) (length ?src)\<rparr>)"
      using wf d w fit src len by (intro append_block) (auto simp: win')
    then show ?thesis
      using copies [of "p\<lparr>data := Some ?d', writeCursor := size_add ?wc sz,
                          dataSize := size_add (dataSize p) sz\<rparr>"] run True g wf fit
      unfolding l by simp
  qed
qed

lemma pad_mask_nth: "k < 4 \<Longrightarrow> pad_mask ! k = mask (8 * (4 - k))"
proof -
  assume "k < 4"
  then consider "k = 0" | "k = 1" | "k = 2" | "k = 3" by linarith
  then show ?thesis
    by cases (simp_all add: pad_mask_def mask_eq_exp_minus_1)
qed

lemma pad_word:
  assumes "k < 4" "length old = 4"
  shows "le_bytes 4 ((le_word old :: 32 word) AND pad_mask ! k) = take (4 - k) old @ replicate k 0"
proof -
  have "(le_word old :: 32 word) AND pad_mask ! k = take_bit (8 * (4 - k)) (le_word old)"
    using assms(1) by (simp only: pad_mask_nth take_bit_eq_mask)
  then show ?thesis
    using assms le_bytes_take_bit [of "4 - k" 4 "le_word old :: 32 word"]
      le_bytes_le_word [of old, where 'a = 32] by simp
qed

text \<open>The masked read-modify-write appends zero bytes and changes nothing that was written before.\<close>

lemma WritePadBytes_appends:
  assumes wf: "parcel_wf p" "writable p" and d: "data p \<noteq> None" and k: "k < 4"
    and room: "writeCursor p + k \<le> dataCapacity p" and low: "4 \<le> writeCursor p + k"
  obtains q where "WritePadBytes k p = Some q" "appended p (replicate k 0) q"
proof -
  from d obtain d where d: "data p = Some d" by auto
  let ?wc = "writeCursor p" and ?pos = "writeCursor p + k - 4"
  have w: "?wc = dataSize p" "length d = dataCapacity p"
    using wf d by (auto simp: parcel_wf_def)
  let ?old = "take 4 (drop ?pos d)"
  have old: "length ?old = 4" and pos: "?pos + 4 = ?wc + k"
    using room low w by auto
  have pw: "le_bytes 4 ((le_word ?old :: 32 word) AND pad_mask ! k) = take (4 - k) ?old @ replicate k 0"
    using pad_word [OF k old] .
  have pre: "take ?pos d @ take (4 - k) ?old = take ?wc d"
  proof -
    have "take ?pos d @ take (4 - k) (drop ?pos d) = take (?pos + (4 - k)) d"
      by (simp add: take_add)
    then show ?thesis using k low by (simp add: min_def)
  qed
  let ?d' = "take ?wc d @ replicate k 0 @ drop (?wc + k) d"
  have d': "take ?pos d @ (take (4 - k) ?old @ replicate k 0) @ drop (?pos + 4) d = ?d'"
    using pre pos by (metis append.assoc)
  let ?q = "p\<lparr>data := Some ?d', writeCursor := size_add ?wc k, dataSize := size_add (dataSize p) k\<rparr>"
  have "WritePadBytes k p = Some ?q"
    using d k low room w d' pos old pw
    by (simp add: WritePadBytes_def mem_read_def mem_write_def Let_def)
  moreover have "appended p (replicate k 0)
      (p\<lparr>data := Some ?d', writeCursor := size_add ?wc (length (replicate k (0::byte))),
        dataSize := size_add (dataSize p) (length (replicate k (0::byte)))\<rparr>)"
    using wf d room w by (intro append_block) auto
  ultimately show ?thesis
    using that by simp
qed

section \<open>Buffers\<close>

text \<open>A state in which \<open>n\<close> more bytes fit the region already allocated.\<close>

definition roomy :: "parcel \<Rightarrow> nat \<Rightarrow> bool" where
  "roomy p n \<longleftrightarrow> parcel_wf p \<and> writable p \<and> data p \<noteq> None \<and> writeCursor p + n \<le> dataCapacity p"

lemma roomy_ge: "roomy p n \<Longrightarrow> m \<le> n \<Longrightarrow> roomy p m"
  by (simp add: roomy_def)

lemma Ensure_roomy:
  assumes wf: "parcel_wf p" and n: "0 < n" "n \<le> 2 ^ 63"
  obtains (refused) "EnsureWritableCapacity n p = (False, p)" "\<not> ample p n"
  | (granted) q where "EnsureWritableCapacity n p = (True, q)" "appended p [] q" "roomy q n"
proof -
  obtain ok q where e: "EnsureWritableCapacity n p = (ok, q)"
    by (cases "EnsureWritableCapacity n p")
  show ?thesis
  proof (cases ok)
    case True
    with e have e': "EnsureWritableCapacity n p = (True, q)" by simp
    show ?thesis
      using granted [OF e'] Ensure_true [OF wf n(2) e'] appended_wf by (auto simp: roomy_def)
  next
    case False
    with e Ensure_false have e': "EnsureWritableCapacity n p = (False, p)" by auto
    show ?thesis
      using refused [OF e'] Ensure_ample [OF wf, of n] n e' by auto
  qed
qed

lemma WriteDataBytes_roomy:
  assumes E: "memcpy_s_documented E" and r: "roomy p (sz + m)" and src: "sz \<le> length src"
    and pos: "0 < sz + m"
  obtains (fails) q where "WriteDataBytes E src sz p = Some (False, q)" "appended p [] q"
      "0x7fffffff < dataCapacity p"
  | (copies) q where "WriteDataBytes E src sz p = Some (True, q)" "appended p (take sz src) q" "roomy q m"
proof -
  have p: "parcel_wf p" "writable p" "data p \<noteq> None" and room: "sz + m \<le> GetWritableBytes p"
    using r by (auto simp: roomy_def GetWritableBytes_eq)
  show ?thesis
  proof (rule WriteDataBytes_cases [OF E p src])
    fix q assume "WriteDataBytes E src sz p = Some (False, q)" "appended p [] q"
      "GetWritableBytes p < sz \<or> GetWritableBytes p = 0 \<or> 0x7fffffff < GetWritableBytes p"
    then show thesis
      using fails p room pos by (auto simp: GetWritableBytes_eq)
  next
    fix q assume q: "WriteDataBytes E src sz p = Some (True, q)" "appended p (take sz src) q"
      "writable q" "data q \<noteq> None" "dataCapacity q = dataCapacity p"
    have "writeCursor q = writeCursor p + sz"
      using appended_fields(2) [OF q(2)] src by simp
    then show thesis
      using copies [OF q(1,2)] q r appended_wf by (auto simp: roomy_def)
  qed
qed

lemma WritePadBytes_roomy:
  assumes "roomy p k" "k < 4" "4 \<le> writeCursor p + k"
  obtains q where "WritePadBytes k p = Some q" "appended p (replicate k 0) q"
  using assms by (auto simp: roomy_def elim: WritePadBytes_appends)

lemma pad_request:
  assumes "0 < n" "n < 2 ^ 63"
  shows "size_add n (GetPadSize n) = n + GetPadSize n" "n + GetPadSize n \<le> 2 ^ 63"
    "4 \<le> n + GetPadSize n"
proof -
  have 4: "(n + GetPadSize n) mod 4 = 0"
    by (rule GetPadSize_aligns)
  then show "4 \<le> n + GetPadSize n"
    using assms(1) by (cases "n + GetPadSize n < 4") auto
  have "\<not> 2 ^ 63 < n + GetPadSize n"
  proof
    assume "2 ^ 63 < n + GetPadSize n"
    then have "\<exists>j. n + GetPadSize n = 2 ^ 63 + j \<and> 0 < j \<and> j < 4"
      using GetPadSize_less [of n] assms(2) by (intro exI [of _ "n + GetPadSize n - 2 ^ 63"]) auto
    then obtain j where "n + GetPadSize n = 2 ^ 63 + j" "0 < j" "j < 4" by blast
    then have "(n + GetPadSize n) mod 4 = j mod 4"
      using mod_mult_self3 [of "2 ^ 61" 4 j] by simp
    with 4 \<open>0 < j\<close> \<open>j < 4\<close> show False by simp
  qed
  then show "n + GetPadSize n \<le> 2 ^ 63" by simp
  then show "size_add n (GetPadSize n) = n + GetPadSize n"
    by (simp add: size_simps)
qed

lemma ample_capacity: "ample p n \<Longrightarrow> appended p bs q \<Longrightarrow> \<not> 0x7fffffff < dataCapacity q"
  by (auto simp: ample_def appended_def)

definition padded :: "byte list \<Rightarrow> byte list" where
  "padded bs = bs @ replicate (GetPadSize (length bs)) 0"

lemma length_padded [simp]: "length (padded bs) = length bs + GetPadSize (length bs)"
  by (simp add: padded_def)

lemma WriteBuffer_spec:
  assumes E: "memcpy_s_documented E" and sz: "0 < sz" "sz \<le> length src" "sz < 2 ^ 63"
  shows "writer_spec (WriteBuffer E (Some src) sz) (padded (take sz src))"
proof (rule writer_specI)
  fix p assume wf: "parcel_wf p"
  let ?k = "GetPadSize sz" and ?bs = "padded (take sz src)"
  note req = pad_request [OF sz(1,3)]
  have len: "length ?bs = sz + ?k" and pos: "0 < sz + ?k"
    using sz by (simp_all add: min_absorb2)
  show "\<exists>ok p' pre. WriteBuffer E (Some src) sz p = Some (ok, p') \<and> appended p pre p' \<and> prefix pre ?bs \<and>
      (ok \<longrightarrow> pre = ?bs) \<and> (ample p (length ?bs) \<longrightarrow> ok)"
  proof (cases rule: Ensure_roomy [OF wf pos req(2)])
    case 1
    then show ?thesis
      using wf sz req len by (intro writer_fails [of _ _ p "[]"]) (auto simp: WriteBuffer_def Let_def)
  next
    case granted: (2 q)
    show ?thesis
    proof (cases rule: WriteDataBytes_roomy [OF E granted(3) sz(2) pos])
      case (1 r)
      then show ?thesis
        using granted sz req appended_trans [OF granted(2) 1(2)] ample_capacity [OF _ granted(2)]
        by (intro writer_fails [of _ _ r "[]"]) (auto simp: WriteBuffer_def Let_def)
    next
      case (2 r)
      have "4 \<le> writeCursor r + ?k"
        using appended_fields(2) [OF 2(2)] req sz by simp
      then obtain s where s: "WritePadBytes ?k r = Some s" "appended r (replicate ?k 0) s"
        using WritePadBytes_roomy [OF 2(3) GetPadSize_less] by blast
      have "appended p ?bs s"
        using appended_trans [OF appended_trans [OF granted(2) 2(2)] s(2)] sz
        by (simp add: padded_def min_absorb2)
      then show ?thesis
        using granted 2 s sz req by (intro writer_succeeds) (auto simp: WriteBuffer_def Let_def)
    qed
  qed
qed

lemma WriteBufferAddTerminator_spec:
  assumes E: "memcpy_s_documented E" and ts: "0 < ts" "ts \<le> 4"
    and sz: "sz = length bs + ts" "sz < 2 ^ 63"
  shows "writer_spec (WriteBufferAddTerminator E (Some (bs @ rest)) sz ts) (padded (bs @ replicate ts 0))"
proof (rule writer_specI)
  fix p assume wf: "parcel_wf p"
  let ?k = "GetPadSize sz" and ?out = "padded (bs @ replicate ts 0)"
  have p: "0 < sz" using ts sz by simp
  note req = pad_request [OF p sz(2)]
  have len: "length ?out = sz + ?k" and out: "?out = bs @ replicate ts 0 @ replicate ?k 0"
    and pos: "0 < sz + ?k"
    using sz ts by (simp_all add: padded_def)
  have sub: "size_sub sz ts = length bs"
    using sz by (simp add: size_simps)
  have zeros: "take ts [0, 0, 0, 0] = (replicate ts 0 :: byte list)"
  proof -
    from ts consider "ts = 1" | "ts = 2" | "ts = 3" | "ts = 4" by linarith
    then show ?thesis by cases (simp_all add: numeral_eq_Suc)
  qed
  show "\<exists>ok p' pre. WriteBufferAddTerminator E (Some (bs @ rest)) sz ts p = Some (ok, p') \<and>
      appended p pre p' \<and> prefix pre ?out \<and> (ok \<longrightarrow> pre = ?out) \<and> (ample p (length ?out) \<longrightarrow> ok)"
  proof (cases rule: Ensure_roomy [OF wf pos req(2)])
    case 1
    then show ?thesis
      using wf sz ts req len
      by (intro writer_fails [of _ _ p "[]"]) (auto simp: WriteBufferAddTerminator_def Let_def)
  next
    case granted: (2 q)
    have g: "roomy q (length bs + (ts + ?k))" "0 < length bs + (ts + ?k)"
      using granted(3) sz ts by (simp_all add: algebra_simps)
    have src: "length bs \<le> length (bs @ rest)" by simp
    show ?thesis
    proof (cases rule: WriteDataBytes_roomy [OF E g(1) src g(2)])
      case (1 r)
      then show ?thesis
        using granted sz ts req sub appended_trans [OF granted(2) 1(2)] ample_capacity [OF _ granted(2)]
        by (intro writer_fails [of _ _ r "[]"]) (auto simp: WriteBufferAddTerminator_def Let_def)
    next
      case copied: (2 r)
      have pr: "appended p bs r"
        using appended_trans [OF granted(2) copied(2)] by simp
      have ts4: "ts \<le> length [0, 0, 0, 0 :: byte]" "0 < ts + ?k"
        using ts by auto
      show ?thesis
      proof (cases rule: WriteDataBytes_roomy [OF E copied(3) ts4])
        case (1 s)
        then show ?thesis
          using granted copied sz ts req sub appended_trans [OF pr 1(2)] ample_capacity [OF _ pr]
          by (intro writer_fails [of _ _ s bs])
             (auto simp: WriteBufferAddTerminator_def Let_def out)
      next
        case (2 s)
        have ps: "appended p (bs @ replicate ts 0) s"
          using appended_trans [OF pr 2(2)] zeros by simp
        have "4 \<le> writeCursor s + ?k"
          using appended_fields(2) [OF ps] req sz by simp
        then obtain t where t: "WritePadBytes ?k s = Some t" "appended s (replicate ?k 0) t"
          using WritePadBytes_roomy [OF 2(3) GetPadSize_less] by blast
        have "appended p ?out t"
          using appended_trans [OF ps t(2)] out by simp
        then show ?thesis
          using granted copied 2 t sz ts req sub
          by (intro writer_succeeds) (auto simp: WriteBufferAddTerminator_def Let_def)
      qed
    qed
  qed
qed

end
