(* ===== verification/Parcel_Values.thy ===== *)
theory Parcel_Values
  imports Parcel_Core
begin

text \<open>
  The typed reads and writes of \<^verbatim>\<open>parcel.cpp\<close>: scalars, padded scalars, unaligned scalars, C strings,
  strings and UTF-16 strings. A fixed-width integer is a word of its width; \<^verbatim>\<open>float\<close> and \<^verbatim>\<open>double\<close> are
  their 32- and 64-bit patterns, which the code only moves. A read through a reference takes the old
  value and returns whether it succeeded and the value afterwards.
\<close>

section \<open>Templates\<close>

definition Write_word :: "'a::len word \<Rightarrow> parcel \<Rightarrow> (bool \<times> parcel) option" where
  "Write_word value = Write_T (le_bytes (LENGTH('a) div 8) value)"

definition Read_ref :: "'a::len word \<Rightarrow> parcel \<Rightarrow> ((bool \<times> 'a word) \<times> parcel) option" where
  "Read_ref value p = do {
     (r, p1) \<leftarrow> Read_T (LENGTH('a) div 8) p;
     Some (case r of None \<Rightarrow> ((False, value), p1) | Some bytes \<Rightarrow> ((True, le_word bytes), p1))
   }"

definition Read_value :: "parcel \<Rightarrow> ('a::len word \<times> parcel) option" where
  "Read_value p = do {
     ((ok, lvalue), p1) \<leftarrow> Read_ref (0 :: 'a word) p;
     Some (if ok then lvalue else 0, p1)
   }"

definition ReadPadded :: "(32 word \<Rightarrow> 'a) \<Rightarrow> 'a \<Rightarrow> parcel \<Rightarrow> ((bool \<times> 'a) \<times> parcel) option" where
  "ReadPadded cast value p = do {
     ((result, temp), p1) \<leftarrow> Read_ref (0 :: 32 word) p;
     Some ((result, if result then cast temp else value), p1)
   }"

section \<open>Scalar writes\<close>

definition WriteBool :: "bool \<Rightarrow> parcel \<Rightarrow> (bool \<times> parcel) option" where
  "WriteBool value = Write_word (of_bool value :: 32 word)"

definition WriteBoolUnaligned :: "bool \<Rightarrow> parcel \<Rightarrow> (bool \<times> parcel) option" where
  "WriteBoolUnaligned value = Write_T [of_bool value]"

definition WriteInt8 :: "8 word \<Rightarrow> parcel \<Rightarrow> (bool \<times> parcel) option" where
  "WriteInt8 value = Write_word (scast value :: 32 word)"

definition WriteInt8Unaligned :: "8 word \<Rightarrow> parcel \<Rightarrow> (bool \<times> parcel) option" where
  "WriteInt8Unaligned value = Write_word value"

definition WriteInt16 :: "16 word \<Rightarrow> parcel \<Rightarrow> (bool \<times> parcel) option" where
  "WriteInt16 value = Write_word (scast value :: 32 word)"

definition WriteInt16Unaligned :: "16 word \<Rightarrow> parcel \<Rightarrow> (bool \<times> parcel) option" where
  "WriteInt16Unaligned value = Write_word value"

definition WriteInt32 :: "32 word \<Rightarrow> parcel \<Rightarrow> (bool \<times> parcel) option" where
  "WriteInt32 value = Write_word value"

definition WriteInt64 :: "64 word \<Rightarrow> parcel \<Rightarrow> (bool \<times> parcel) option" where
  "WriteInt64 value = Write_word value"

definition WriteUint8 :: "8 word \<Rightarrow> parcel \<Rightarrow> (bool \<times> parcel) option" where
  "WriteUint8 value = Write_word (ucast value :: 32 word)"

definition WriteUint8Unaligned :: "8 word \<Rightarrow> parcel \<Rightarrow> (bool \<times> parcel) option" where
  "WriteUint8Unaligned value = Write_word value"

definition WriteUint16 :: "16 word \<Rightarrow> parcel \<Rightarrow> (bool \<times> parcel) option" where
  "WriteUint16 value = Write_word (ucast value :: 32 word)"

definition WriteUint16Unaligned :: "16 word \<Rightarrow> parcel \<Rightarrow> (bool \<times> parcel) option" where
  "WriteUint16Unaligned value = Write_word value"

definition WriteUint32 :: "32 word \<Rightarrow> parcel \<Rightarrow> (bool \<times> parcel) option" where
  "WriteUint32 value = Write_word value"

definition WriteUint64 :: "64 word \<Rightarrow> parcel \<Rightarrow> (bool \<times> parcel) option" where
  "WriteUint64 value = Write_word value"

definition WriteFloat :: "32 word \<Rightarrow> parcel \<Rightarrow> (bool \<times> parcel) option" where
  "WriteFloat value = Write_word value"

definition WriteDouble :: "64 word \<Rightarrow> parcel \<Rightarrow> (bool \<times> parcel) option" where
  "WriteDouble value = Write_word value"

definition WritePointer :: "64 word \<Rightarrow> parcel \<Rightarrow> (bool \<times> parcel) option" where
  "WritePointer value = Write_word value"

section \<open>String writes\<close>

text \<open>The conversion of a \<^verbatim>\<open>size_t\<close> to \<^verbatim>\<open>int32_t\<close>.\<close>

definition to_int32 :: "nat \<Rightarrow> int" where
  "to_int32 n = sint (of_nat n :: 32 word)"

abbreviation INT32_MAX :: int where
  "INT32_MAX \<equiv> 2147483647"

fun u16_bytes :: "16 word list \<Rightarrow> byte list" where
  "u16_bytes [] = []"
| "u16_bytes (w # ws) = le_bytes 2 w @ u16_bytes ws"

fun u16_of_bytes :: "byte list \<Rightarrow> 16 word list" where
  "u16_of_bytes (a # b # bs) = le_word [a, b] # u16_of_bytes bs"
| "u16_of_bytes _ = []"

text \<open>
  A C string is the bytes before its terminating zero, or \<^const>\<open>None\<close> for a null pointer; what may be
  read through the pointer is those bytes and the zero. The \<^verbatim>\<open>data()\<close> of a \<^verbatim>\<open>std::string\<close> is never null
  and is followed by a zero.
\<close>

definition WriteCString :: "parcel_env \<Rightarrow> byte list option \<Rightarrow> parcel \<Rightarrow> (bool \<times> parcel) option" where
  "WriteCString E value p =
     (case value of
        None \<Rightarrow> Some (False, p)
      | Some str \<Rightarrow>
          let dataLength = to_int32 (length str) in
          if dataLength < 0 \<or> dataLength \<ge> INT32_MAX then Some (False, p)
          else WriteBuffer E (Some (str @ [0])) (nat (dataLength + 1)) p)"

definition WriteString :: "parcel_env \<Rightarrow> byte list \<Rightarrow> parcel \<Rightarrow> (bool \<times> parcel) option" where
  "WriteString E value p =
     (let dataLength = to_int32 (length value) in
      if dataLength < 0 \<or> dataLength \<ge> INT32_MAX then Some (False, p)
      else do {
        (ok, p1) \<leftarrow> Write_word (of_int dataLength :: 32 word) p;
        if \<not> ok then Some (False, p1)
        else WriteBufferAddTerminator E (Some (value @ [0])) (nat (dataLength + 1)) 1 p1
      })"

definition WriteString16 :: "parcel_env \<Rightarrow> 16 word list \<Rightarrow> parcel \<Rightarrow> (bool \<times> parcel) option" where
  "WriteString16 E value p =
     (let dataLength = to_int32 (length value) in
      if dataLength < 0 \<or> dataLength > INT32_MAX div 2 - 1 then Some (False, p)
      else do {
        (ok, p1) \<leftarrow> Write_word (of_int dataLength :: 32 word) p;
        if \<not> ok then Some (False, p1)
        else WriteBufferAddTerminator E (Some (u16_bytes (value @ [0]))) (nat ((dataLength + 1) * 2)) 2 p1
      })"

definition WriteString16WithLength ::
    "parcel_env \<Rightarrow> 16 word list option \<Rightarrow> nat \<Rightarrow> parcel \<Rightarrow> (bool \<times> parcel) option" where
  "WriteString16WithLength E value len p =
     (case value of
        None \<Rightarrow> WriteInt32 (- 1) p
      | Some units \<Rightarrow>
          let dataLength = to_int32 len in
          if dataLength < 0 \<or> dataLength > INT32_MAX div 2 - 1 then Some (False, p)
          else do {
            u16str \<leftarrow> mem_read 0 len units;
            (ok, p1) \<leftarrow> Write_word (of_int dataLength :: 32 word) p;
            if \<not> ok then Some (False, p1)
            else WriteBufferAddTerminator E (Some (u16_bytes (u16str @ [0]))) (nat ((dataLength + 1) * 2)) 2 p1
          })"

definition WriteString8WithLength ::
    "parcel_env \<Rightarrow> byte list option \<Rightarrow> nat \<Rightarrow> parcel \<Rightarrow> (bool \<times> parcel) option" where
  "WriteString8WithLength E value len p =
     (case value of
        None \<Rightarrow> WriteInt32 (- 1) p
      | Some chars \<Rightarrow>
          let dataLength = to_int32 len in
          if dataLength < 0 \<or> dataLength \<ge> INT32_MAX then Some (False, p)
          else do {
            (ok, p1) \<leftarrow> Write_word (of_int dataLength :: 32 word) p;
            if \<not> ok then Some (False, p1)
            else WriteBufferAddTerminator E (Some chars) (nat (dataLength + 1)) 1 p1
          })"

section \<open>Scalar reads by value\<close>

definition ReadBool :: "parcel \<Rightarrow> (bool \<times> parcel) option" where
  "ReadBool p = do { (temp :: 32 word, p1) \<leftarrow> Read_value p; Some (temp \<noteq> 0, p1) }"

text \<open>A byte other than 0 and 1 is not the representation of a \<^verbatim>\<open>bool\<close>: reading one is undefined.\<close>

definition ReadBoolUnaligned :: "parcel \<Rightarrow> (bool \<times> parcel) option" where
  "ReadBoolUnaligned p = do {
     (b :: 8 word, p1) \<leftarrow> Read_value p;
     if b = 0 then Some (False, p1) else if b = 1 then Some (True, p1) else None
   }"

definition ReadInt8 :: "parcel \<Rightarrow> (8 word \<times> parcel) option" where
  "ReadInt8 p = do { (temp :: 32 word, p1) \<leftarrow> Read_value p; Some (ucast temp, p1) }"

definition ReadInt16 :: "parcel \<Rightarrow> (16 word \<times> parcel) option" where
  "ReadInt16 p = do { (temp :: 32 word, p1) \<leftarrow> Read_value p; Some (ucast temp, p1) }"

definition ReadInt32 :: "parcel \<Rightarrow> (32 word \<times> parcel) option" where
  "ReadInt32 = Read_value"

definition ReadInt64 :: "parcel \<Rightarrow> (64 word \<times> parcel) option" where
  "ReadInt64 = Read_value"

definition ReadUint8 :: "parcel \<Rightarrow> (8 word \<times> parcel) option" where
  "ReadUint8 p = do { (temp :: 32 word, p1) \<leftarrow> Read_value p; Some (ucast temp, p1) }"

definition ReadUint16 :: "parcel \<Rightarrow> (16 word \<times> parcel) option" where
  "ReadUint16 p = do { (temp :: 32 word, p1) \<leftarrow> Read_value p; Some (ucast temp, p1) }"

definition ReadUint32 :: "parcel \<Rightarrow> (32 word \<times> parcel) option" where
  "ReadUint32 = Read_value"

definition ReadUint64 :: "parcel \<Rightarrow> (64 word \<times> parcel) option" where
  "ReadUint64 = Read_value"

definition ReadFloat :: "parcel \<Rightarrow> (32 word \<times> parcel) option" where
  "ReadFloat = Read_value"

definition ReadDouble :: "parcel \<Rightarrow> (64 word \<times> parcel) option" where
  "ReadDouble = Read_value"

definition ReadPointer :: "parcel \<Rightarrow> (64 word \<times> parcel) option" where
  "ReadPointer = Read_value"

section \<open>Scalar reads through a reference\<close>

definition ReadBool_ref :: "bool \<Rightarrow> parcel \<Rightarrow> ((bool \<times> bool) \<times> parcel) option" where
  "ReadBool_ref = ReadPadded (\<lambda>temp. temp \<noteq> 0)"

definition ReadInt8_ref :: "8 word \<Rightarrow> parcel \<Rightarrow> ((bool \<times> 8 word) \<times> parcel) option" where
  "ReadInt8_ref = ReadPadded ucast"

definition ReadInt8Unaligned_ref :: "8 word \<Rightarrow> parcel \<Rightarrow> ((bool \<times> 8 word) \<times> parcel) option" where
  "ReadInt8Unaligned_ref = Read_ref"

definition ReadInt16_ref :: "16 word \<Rightarrow> parcel \<Rightarrow> ((bool \<times> 16 word) \<times> parcel) option" where
  "ReadInt16_ref = ReadPadded ucast"

definition ReadInt16Unaligned_ref :: "16 word \<Rightarrow> parcel \<Rightarrow> ((bool \<times> 16 word) \<times> parcel) option" where
  "ReadInt16Unaligned_ref = Read_ref"

definition ReadInt32_ref :: "32 word \<Rightarrow> parcel \<Rightarrow> ((bool \<times> 32 word) \<times> parcel) option" where
  "ReadInt32_ref = Read_ref"

definition ReadInt64_ref :: "64 word \<Rightarrow> parcel \<Rightarrow> ((bool \<times> 64 word) \<times> parcel) option" where
  "ReadInt64_ref = Read_ref"

definition ReadUint8_ref :: "8 word \<Rightarrow> parcel \<Rightarrow> ((bool \<times> 8 word) \<times> parcel) option" where
  "ReadUint8_ref = ReadPadded ucast"

definition ReadUint8Unaligned_ref :: "8 word \<Rightarrow> parcel \<Rightarrow> ((bool \<times> 8 word) \<times> parcel) option" where
  "ReadUint8Unaligned_ref = Read_ref"

definition ReadUint16_ref :: "16 word \<Rightarrow> parcel \<Rightarrow> ((bool \<times> 16 word) \<times> parcel) option" where
  "ReadUint16_ref = ReadPadded ucast"

definition ReadUint16Unaligned_ref :: "16 word \<Rightarrow> parcel \<Rightarrow> ((bool \<times> 16 word) \<times> parcel) option" where
  "ReadUint16Unaligned_ref = Read_ref"

definition ReadUint32_ref :: "32 word \<Rightarrow> parcel \<Rightarrow> ((bool \<times> 32 word) \<times> parcel) option" where
  "ReadUint32_ref = Read_ref"

definition ReadUint64_ref :: "64 word \<Rightarrow> parcel \<Rightarrow> ((bool \<times> 64 word) \<times> parcel) option" where
  "ReadUint64_ref = Read_ref"

definition ReadFloat_ref :: "32 word \<Rightarrow> parcel \<Rightarrow> ((bool \<times> 32 word) \<times> parcel) option" where
  "ReadFloat_ref = Read_ref"

definition ReadDouble_ref :: "64 word \<Rightarrow> parcel \<Rightarrow> ((bool \<times> 64 word) \<times> parcel) option" where
  "ReadDouble_ref = Read_ref"

section \<open>String reads\<close>

text \<open>
  \<^verbatim>\<open>ReadCString\<close> returns a pointer into the data region (its offset); \<^verbatim>\<open>memchr\<close> looks at the readable
  bytes only.
\<close>

definition ReadCString :: "parcel \<Rightarrow> (nat option \<times> parcel) option" where
  "ReadCString p = do {
     let oldCursor = readCursor p;
     let avail = GetReadableBytes p;
     bytes \<leftarrow> (if avail = 0 then Some []
               else do { d \<leftarrow> data p; mem_read (readCursor p) avail d });
     if 0 \<in> set bytes then do {
       let dataLength = length (takeWhile (\<lambda>b. b \<noteq> 0) bytes);
       (ok, p1) \<leftarrow> ValidateReadData (size_add (size_add (readCursor p) dataLength) 1) p;
       if \<not> ok then Some (None, p1)
       else Some (Some oldCursor,
                  SkipBytes (GetPadSize (dataLength + 1))
                    (p1\<lparr>readCursor := size_add (readCursor p1) (dataLength + 1)\<rparr>))
     }
     else Some (None, p\<lparr>readCursor := oldCursor\<rparr>)
   }"

text \<open>
  The block the string readers share after the length is known, for characters of \<open>width\<close> bytes:
  bounds check, \<^verbatim>\<open>BasicReadBuffer\<close>, padding, terminator check. The 16-bit readers also check that the
  size did not wrap.
\<close>

definition read_terminated :: "nat \<Rightarrow> nat \<Rightarrow> parcel \<Rightarrow> (byte list option \<times> parcel) option" where
  "read_terminated width dataLength p =
     (let readCapacity = size_mul (size_add dataLength 1) width in
      if (width = 1 \<or> readCapacity > dataLength) \<and> readCapacity \<le> GetReadableBytes p then do {
        (dest, p1) \<leftarrow> BasicReadBuffer readCapacity p;
        case dest of
          None \<Rightarrow> Some (None, p1)
        | Some str \<Rightarrow> do {
            let p2 = SkipBytes (GetPadSize readCapacity) p1;
            d \<leftarrow> data p2;
            terminator \<leftarrow> mem_read (str + dataLength * width) width d;
            if terminator = replicate width 0 then do {
              bytes \<leftarrow> mem_read str (dataLength * width) d;
              Some (Some bytes, p2)
            }
            else Some (None, p2)
          }
      }
      else Some (None, p))"

definition ReadString :: "parcel \<Rightarrow> (byte list \<times> parcel) option" where
  "ReadString p = do {
     let oldCursor = readCursor p;
     ((ok, dataLength :: 32 word), p1) \<leftarrow> Read_ref 0 p;
     if \<not> ok \<or> sint dataLength < 0 \<or> sint dataLength \<ge> INT32_MAX then Some ([], p1)
     else do {
       (r, p2) \<leftarrow> read_terminated 1 (unat dataLength) p1;
       Some (case r of Some str \<Rightarrow> (str, p2) | None \<Rightarrow> ([], p2\<lparr>readCursor := oldCursor\<rparr>))
     }
   }"

definition ReadString_ref :: "byte list \<Rightarrow> parcel \<Rightarrow> ((bool \<times> byte list) \<times> parcel) option" where
  "ReadString_ref value p = do {
     let oldCursor = readCursor p;
     ((ok, dataLength :: 32 word), p1) \<leftarrow> Read_ref 0 p;
     if \<not> ok \<or> sint dataLength < 0 \<or> sint dataLength \<ge> INT32_MAX then Some ((False, []), p1)
     else do {
       (r, p2) \<leftarrow> read_terminated 1 (unat dataLength) p1;
       Some (case r of Some str \<Rightarrow> ((True, str), p2) | None \<Rightarrow> ((False, []), p2\<lparr>readCursor := oldCursor\<rparr>))
     }
   }"

definition ReadString16 :: "parcel \<Rightarrow> (16 word list \<times> parcel) option" where
  "ReadString16 p = do {
     let oldCursor = readCursor p;
     ((ok, dataLength :: 32 word), p1) \<leftarrow> Read_ref 0 p;
     if \<not> ok \<or> sint dataLength < 0 \<or> sint dataLength \<ge> INT32_MAX then Some ([], p1)
     else do {
       (r, p2) \<leftarrow> read_terminated 2 (unat dataLength) p1;
       Some (case r of Some str \<Rightarrow> (u16_of_bytes str, p2) | None \<Rightarrow> ([], p2\<lparr>readCursor := oldCursor\<rparr>))
     }
   }"

definition ReadString16_ref :: "16 word list \<Rightarrow> parcel \<Rightarrow> ((bool \<times> 16 word list) \<times> parcel) option" where
  "ReadString16_ref value p = do {
     let oldCursor = readCursor p;
     ((ok, dataLength :: 32 word), p1) \<leftarrow> Read_ref 0 p;
     if \<not> ok \<or> sint dataLength < 0 \<or> sint dataLength \<ge> INT32_MAX then Some ((False, []), p1)
     else do {
       (r, p2) \<leftarrow> read_terminated 2 (unat dataLength) p1;
       Some (case r of Some str \<Rightarrow> ((True, u16_of_bytes str), p2)
                     | None \<Rightarrow> ((False, []), p2\<lparr>readCursor := oldCursor\<rparr>))
     }
   }"

definition ReadString16WithLength :: "32 word \<Rightarrow> parcel \<Rightarrow> ((16 word list \<times> 32 word) \<times> parcel) option" where
  "ReadString16WithLength readLength p = do {
     let oldCursor = readCursor p;
     ((ok, dataLength :: 32 word), p1) \<leftarrow> Read_ref 0 p;
     if \<not> ok then Some (([], readLength), p1)
     else if sint dataLength < 0 \<or> sint dataLength \<ge> INT32_MAX then Some (([], dataLength), p1)
     else do {
       (r, p2) \<leftarrow> read_terminated 2 (unat dataLength) p1;
       Some (case r of Some str \<Rightarrow> ((u16_of_bytes str, dataLength), p2)
                     | None \<Rightarrow> (([], readLength), p2\<lparr>readCursor := oldCursor\<rparr>))
     }
   }"

definition ReadString8WithLength :: "32 word \<Rightarrow> parcel \<Rightarrow> ((byte list \<times> 32 word) \<times> parcel) option" where
  "ReadString8WithLength readLength p = do {
     let oldCursor = readCursor p;
     ((ok, dataLength :: 32 word), p1) \<leftarrow> Read_ref 0 p;
     if \<not> ok then Some (([], readLength), p1)
     else if sint dataLength < 0 \<or> sint dataLength \<ge> INT32_MAX then Some (([], dataLength), p1)
     else do {
       (r, p2) \<leftarrow> read_terminated 1 (unat dataLength) p1;
       Some (case r of Some str \<Rightarrow> ((str, dataLength), p2)
                     | None \<Rightarrow> (([], readLength), p2\<lparr>readCursor := oldCursor\<rparr>))
     }
   }"

end
