(* ===== verification/Parcel_Read.thy ===== *)
theory Parcel_Read
  imports Parcel_Wf Parcel_Values
begin

text \<open>
  The read side of the parcel. Two specification formats: \<open>reader_safe\<close> says that a read is defined
  on every well-formed parcel, whatever bytes it holds, and changes nothing but the read cursor and the
  next-object index; \<open>reader_spec\<close> says which encoding a read consumes and which value it yields.
\<close>

section \<open>Reads are safe\<close>

text \<open>All a read may do to the parcel.\<close>

definition read_frame :: "parcel \<Rightarrow> parcel \<Rightarrow> bool" where
  "read_frame p p' \<longleftrightarrow>
     (\<exists>r i. p' = p\<lparr>readCursor := r, nextObjectIdx := i\<rparr> \<and> (readCursor p < SIZE_MOD \<longrightarrow> r < SIZE_MOD))"

lemma read_frameI:
  "p' = p\<lparr>readCursor := r, nextObjectIdx := i\<rparr> \<Longrightarrow> r < SIZE_MOD \<or> r = readCursor p \<Longrightarrow> read_frame p p'"
  unfolding read_frame_def by blast

lemma read_frame_refl [simp]: "read_frame p p"
  by (rule read_frameI [where r = "readCursor p" and i = "nextObjectIdx p"]) auto

lemma read_frame_trans: "read_frame p q \<Longrightarrow> read_frame q r \<Longrightarrow> read_frame p r"
  unfolding read_frame_def by (elim exE) auto

lemma read_frame_wf: "read_frame p p' \<Longrightarrow> parcel_wf p \<Longrightarrow> parcel_wf p'"
  unfolding read_frame_def by (auto simp: parcel_wf_def)

lemma read_frame_fields:
  assumes "read_frame p p'"
  shows "data p' = data p" "dataSize p' = dataSize p" "dataCapacity p' = dataCapacity p"
    "objectOffsets p' = objectOffsets p" "objectCursor p' = objectCursor p" "content p' = content p"
  using assms by (auto simp: read_frame_def content_def split: option.split)

lemma read_frame_cursor [intro]:
  "r < SIZE_MOD \<Longrightarrow> read_frame p (p\<lparr>readCursor := r\<rparr>)"
  "read_frame p (p\<lparr>nextObjectIdx := i\<rparr>)"
   apply (rule read_frameI [where r = r and i = "nextObjectIdx p"]; simp)
  apply (rule read_frameI [where r = "readCursor p" and i = i]; simp)
  done

definition reader_safe :: "(parcel \<Rightarrow> ('a \<times> parcel) option) \<Rightarrow> bool" where
  "reader_safe rd \<longleftrightarrow> (\<forall>p. parcel_wf p \<longrightarrow> (\<exists>v p'. rd p = Some (v, p') \<and> read_frame p p'))"

lemma reader_safeI:
  "(\<And>p. parcel_wf p \<Longrightarrow> \<exists>v p'. rd p = Some (v, p') \<and> read_frame p p') \<Longrightarrow> reader_safe rd"
  by (simp add: reader_safe_def)

lemma reader_safeE:
  assumes "reader_safe rd" "parcel_wf p"
  obtains v p' where "rd p = Some (v, p')" "read_frame p p'" "parcel_wf p'"
  using assms read_frame_wf unfolding reader_safe_def by blast

lemma reader_safe_bind:
  assumes "reader_safe rd" "\<And>v. reader_safe (k v)"
  shows "reader_safe (\<lambda>p. do { (v, q) \<leftarrow> rd p; k v q })"
proof (rule reader_safeI)
  fix p assume "parcel_wf p"
  with assms(1) obtain v q where 1: "rd p = Some (v, q)" "read_frame p q" "parcel_wf q"
    by (rule reader_safeE)
  with assms(2) obtain u r where "k v q = Some (u, r)" "read_frame q r"
    by (blast elim: reader_safeE)
  with 1 show "\<exists>v p'. (do { (v, q) \<leftarrow> rd p; k v q }) = Some (v, p') \<and> read_frame p p'"
    by (auto intro: read_frame_trans)
qed

lemma reader_safe_return: "reader_safe (\<lambda>p. Some (v, p))"
  by (simp add: reader_safe_def)

lemma reader_safe_map:
  assumes "reader_safe rd"
  shows "reader_safe (\<lambda>p. do { (v, q) \<leftarrow> rd p; Some (f v, q) })"
  using reader_safe_bind [OF assms reader_safe_return] .

lemma validate_loop_total:
  "i < objSize \<Longrightarrow> objSize \<le> length objects \<Longrightarrow> validate_loop objects objSize r u i \<noteq> None"
  by (induction objects objSize r u i rule: validate_loop.induct) (subst validate_loop.simps, auto)

lemma ValidateReadData_safe: "reader_safe (ValidateReadData u)"
proof (rule reader_safeI)
  fix p assume wf: "parcel_wf p"
  show "\<exists>v p'. ValidateReadData u p = Some (v, p') \<and> read_frame p p'"
  proof (cases "objectOffsets p")
    case (Some os)
    then have len: "objectCursor p \<le> length os"
      using wf by (simp add: parcel_wf_def)
    show ?thesis
    proof (cases "nextObjectIdx p < objectCursor p")
      case True
      then obtain r where "validate_loop os (objectCursor p) (readCursor p) u (nextObjectIdx p) = Some r"
        using validate_loop_total [OF True len] by blast
      then show ?thesis
        using Some True len by (auto simp: ValidateReadData_def split: option.split)
    qed (use Some in \<open>auto simp: ValidateReadData_def\<close>)
  qed (auto simp: ValidateReadData_def)
qed

lemma ValidateReadData_safeE:
  assumes "parcel_wf p"
  obtains ok p' where "ValidateReadData u p = Some (ok, p')" "read_frame p p'" "parcel_wf p'"
    "readCursor p' = readCursor p"
proof -
  obtain ok p' where *: "ValidateReadData u p = Some (ok, p')" "read_frame p p'" "parcel_wf p'"
    using ValidateReadData_safe assms by (rule reader_safeE)
  moreover have "readCursor p' = readCursor p"
    using *(1) by (auto simp: ValidateReadData_def split: option.splits if_splits)
  ultimately show ?thesis using that by blast
qed

lemma readable_bounds:
  assumes "parcel_wf p" "n \<le> GetReadableBytes p"
  shows "n = 0 \<or> readCursor p + n \<le> dataSize p" "dataSize p < SIZE_MOD"
    "size_add (readCursor p) n < SIZE_MOD"
  using assms by (auto simp: GetReadableBytes_eq parcel_wf_def)

lemma readable_data:
  assumes "parcel_wf p" "0 < n" "n \<le> GetReadableBytes p"
  obtains d where "data p = Some d" "readCursor p + n \<le> length d"
  using assms by (cases "data p") (auto simp: GetReadableBytes_eq parcel_wf_def)

lemma Read_T_safe:
  assumes "0 < n"
  shows "reader_safe (Read_T n)"
proof (rule reader_safeI)
  fix p assume wf: "parcel_wf p"
  show "\<exists>v p'. Read_T n p = Some (v, p') \<and> read_frame p p'"
  proof (cases "n \<le> GetReadableBytes p")
    case True
    obtain ok q where q: "ValidateReadData (size_add (readCursor p) n) p = Some (ok, q)"
        "read_frame p q"
      using wf by (rule ValidateReadData_safeE)
    obtain d where d: "data p = Some d" "readCursor p + n \<le> length d"
      using wf assms True by (rule readable_data)
    have "read_frame q (q\<lparr>readCursor := size_add (readCursor q) n\<rparr>)"
      by (intro read_frame_cursor) simp
    then show ?thesis
      using True q d by (auto simp: Read_T_def buf_simps Let_def intro: read_frame_trans)
  qed (simp add: Read_T_def)
qed

lemma Read_ref_safe:
  assumes "8 \<le> LENGTH('a)"
  shows "reader_safe (Read_ref (v :: 'a::len word))"
proof -
  have "reader_safe (\<lambda>p. do { (r, q) \<leftarrow> Read_T (LENGTH('a) div 8) p;
      Some (case r of None \<Rightarrow> (False, v) | Some bytes \<Rightarrow> (True, le_word bytes), q) })"
    using assms by (intro reader_safe_map Read_T_safe) simp
  moreover have "Read_ref v = (\<lambda>p. do { (r, q) \<leftarrow> Read_T (LENGTH('a) div 8) p;
      Some (case r of None \<Rightarrow> (False, v) | Some bytes \<Rightarrow> (True, le_word bytes), q) })"
    by (auto simp: Read_ref_def fun_eq_iff intro!: Option.bind_cong split: option.split)
  ultimately show ?thesis by simp
qed

lemma Read_value_safe:
  assumes "8 \<le> LENGTH('a)"
  shows "reader_safe (Read_value :: parcel \<Rightarrow> ('a::len word \<times> parcel) option)"
proof -
  have *: "(Read_value :: parcel \<Rightarrow> ('a word \<times> parcel) option) =
      (\<lambda>p. do { (r, q) \<leftarrow> Read_ref 0 p; Some (case r of (ok, v) \<Rightarrow> if ok then v else 0, q) })"
    by (auto simp: Read_value_def fun_eq_iff intro!: Option.bind_cong)
  show ?thesis
    by (subst *) (intro reader_safe_map Read_ref_safe assms)
qed

lemma ReadPadded_safe: "reader_safe (ReadPadded f v)"
proof -
  have "ReadPadded f v =
      (\<lambda>p. do { (r, q) \<leftarrow> Read_ref 0 p; Some (case r of (ok, w) \<Rightarrow> (ok, if ok then f w else v), q) })"
    by (auto simp: ReadPadded_def fun_eq_iff intro!: Option.bind_cong)
  then show ?thesis
    by (simp only:) (intro reader_safe_map Read_ref_safe; simp)
qed

lemma SkipBytes_frame: "parcel_wf p \<Longrightarrow> read_frame p (SkipBytes n p)"
  by (auto simp: SkipBytes_def parcel_wf_def intro!: read_frame_cursor)

lemma cursor_frame: "read_frame p q \<Longrightarrow> parcel_wf q \<Longrightarrow> read_frame p (q\<lparr>readCursor := size_add m n\<rparr>)"
  by (auto intro!: read_frame_trans [of p q] read_frame_cursor)

text \<open>The buffer readers hand out offsets of readable bytes only.\<close>

definition handed_out :: "nat \<Rightarrow> parcel \<Rightarrow> nat option \<Rightarrow> bool" where
  "handed_out n p r \<longleftrightarrow> (\<forall>off. r = Some off \<longrightarrow> off = readCursor p \<and> (n = 0 \<or> off + n \<le> dataSize p))"

lemma buffer_reader_safe:
  assumes "parcel_wf p"
    and "rd \<in> {ReadBuffer n, ReadBuffer_validate n b, BasicReadBuffer n, ReadUnpadBuffer n}"
  obtains r q where "rd p = Some (r, q)" "read_frame p q" "handed_out n p r"
proof -
  obtain ok p1 where v: "ValidateReadData (size_add (readCursor p) n) p = Some (ok, p1)"
      "read_frame p p1" "parcel_wf p1"
    using assms(1) by (rule ValidateReadData_safeE)
  let ?p2 = "\<lambda>p1. p1\<lparr>readCursor := size_add (readCursor p1) n\<rparr>"
  have f: "read_frame p (?p2 p)" "read_frame p (?p2 p1)" 
    using v assms(1) by (auto intro: cursor_frame)
  moreover have "read_frame p (SkipBytes (GetPadSize n) (?p2 p1))"
    using read_frame_trans [OF f(2) SkipBytes_frame] read_frame_wf [OF f(2)] assms(1) by simp
  ultimately have "\<exists>r q. rd p = Some (r, q) \<and> read_frame p q \<and> handed_out n p r"
    using assms v readable_bounds(1) [OF assms(1)]
    by (cases "n \<le> GetReadableBytes p")
       (auto simp: ReadBuffer_def ReadBuffer_validate_def BasicReadBuffer_def ReadUnpadBuffer_def
         Let_def handed_out_def)
  with that show ?thesis by blast
qed

text \<open>The block shared by the string readers: a returned string lies inside the data.\<close>

lemma read_terminated_safe:
  assumes "0 < width" "n < 2 ^ 31" "width \<le> 2"
  shows "reader_safe (read_terminated width n)"
proof (rule reader_safeI)
  fix p assume wf: "parcel_wf p"
  let ?cap = "n * width + width"
  have cap: "size_mul (size_add n 1) width = ?cap"
  proof -
    have "n + 1 < SIZE_MOD" using assms by simp
    then have "size_add n 1 = n + 1" by (rule size_add_small)
    moreover have "(n + 1) * width \<le> (n + 1) * 2"
      using assms(3) by (intro mult_le_mono) auto
    then have "(n + 1) * width < SIZE_MOD"
      using assms(2) by simp
    ultimately show ?thesis
      by (simp add: size_mul_small)
  qed
  obtain r p1 where b: "BasicReadBuffer ?cap p = Some (r, p1)" "read_frame p p1" "handed_out ?cap p r"
    using buffer_reader_safe [OF wf, of "BasicReadBuffer ?cap" ?cap] by blast
  let ?p2 = "SkipBytes (GetPadSize ?cap) p1"
  have f: "read_frame p ?p2"
    using b(2) read_frame_trans [OF b(2) SkipBytes_frame] read_frame_wf [OF b(2) wf] by simp
  have "r = Some off \<Longrightarrow> \<exists>d. data ?p2 = Some d \<and> off + ?cap \<le> length d" for off
    using b(3) wf assms(1) read_frame_fields(1) [OF f]
    by (cases "data p") (auto simp: handed_out_def parcel_wf_def)
  then show "\<exists>v p'. read_terminated width n p = Some (v, p') \<and> read_frame p p'"
    using b f by (cases r) (auto simp: read_terminated_def cap [simplified] Let_def mem_read_def)
qed

lemma unat_sint_nonneg:
  assumes "0 \<le> sint (w :: 32 word)"
  shows "int (unat w) = sint w"
proof -
  have "take_bit 32 (sint w) = sint w"
    using assms sint_less [of w] by (simp add: take_bit_int_eq_self)
  then show ?thesis
    using uint_sint [of w] by simp
qed

lemma unat_less_sint_nonneg: "0 \<le> sint (w :: 32 word) \<Longrightarrow> unat w < 2 ^ 31"
proof -
  assume "0 \<le> sint w"
  then have "unat w = nat (sint w)"
    using unat_sint_nonneg [of w] by linarith
  then show ?thesis
    using sint_less [of w] by (simp add: nat_less_iff)
qed

lemma string_reader_safe:
  assumes "0 < width" "width \<le> 2"
  shows "reader_safe (\<lambda>p. do {
     let oldCursor = readCursor p;
     ((ok, len :: 32 word), p1) \<leftarrow> Read_ref 0 p;
     if \<not> ok \<or> sint len < 0 \<or> sint len \<ge> INT32_MAX then Some (bad ok len, p1)
     else do {
       (r, p2) \<leftarrow> read_terminated width (unat len) p1;
       Some (case r of Some str \<Rightarrow> (good str len, p2) | None \<Rightarrow> (none, p2\<lparr>readCursor := oldCursor\<rparr>))
     }
   })"
proof (rule reader_safeI)
  fix p assume wf: "parcel_wf p"
  obtain ok and len :: "32 word" and p1 where 1: "Read_ref 0 p = Some ((ok, len), p1)" "read_frame p p1" "parcel_wf p1"
    using Read_ref_safe [of "0 :: 32 word"] wf by (auto elim: reader_safeE)
  show "\<exists>v p'. (do {
     let oldCursor = readCursor p;
     ((ok, len :: 32 word), p1) \<leftarrow> Read_ref 0 p;
     if \<not> ok \<or> sint len < 0 \<or> sint len \<ge> INT32_MAX then Some (bad ok len, p1)
     else do {
       (r, p2) \<leftarrow> read_terminated width (unat len) p1;
       Some (case r of Some str \<Rightarrow> (good str len, p2) | None \<Rightarrow> (none, p2\<lparr>readCursor := oldCursor\<rparr>))
     }
   }) = Some (v, p') \<and> read_frame p p'"
  proof (cases "0 \<le> sint len")
    case True
    then have "unat len < 2 ^ 31"
      by (rule unat_less_sint_nonneg)
    then obtain r p2 where 2: "read_terminated width (unat len) p1 = Some (r, p2)" "read_frame p1 p2"
      using read_terminated_safe [OF assms(1) _ assms(2)] 1(3) by (blast elim: reader_safeE)
    have "read_frame p p2" and "read_frame p (p2\<lparr>readCursor := readCursor p\<rparr>)"
      using read_frame_trans [OF 1(2) 2(2)] wf
      by (auto intro!: read_frame_trans [of p p2] read_frame_cursor simp: parcel_wf_def)
    with 1 2 show ?thesis by (auto split: option.split)
  qed (use 1 in auto)
qed

lemma ReadString_safe: "reader_safe ReadString" "reader_safe (ReadString_ref s)"
  using string_reader_safe [where width = 1 and bad = "\<lambda>_ _. []" and good = "\<lambda>str _. str" and none = "[]"]
    string_reader_safe [where width = 1 and bad = "\<lambda>_ _. (False, [])" and good = "\<lambda>str _. (True, str)"
      and none = "(False, [])"]
  unfolding ReadString_def ReadString_ref_def by simp_all

lemma ReadString16_safe: "reader_safe ReadString16" "reader_safe (ReadString16_ref s)"
  using string_reader_safe [where width = 2 and bad = "\<lambda>_ _. []"
      and good = "\<lambda>str _. u16_of_bytes str" and none = "[]"]
    string_reader_safe [where width = 2 and bad = "\<lambda>_ _. (False, [])"
      and good = "\<lambda>str _. (True, u16_of_bytes str)" and none = "(False, [])"]
  unfolding ReadString16_def ReadString16_ref_def by simp_all

lemma ReadString8WithLength_safe: "reader_safe (ReadString8WithLength n)"
proof -
  have "ReadString8WithLength n = (\<lambda>p. do {
     let oldCursor = readCursor p;
     ((ok, len :: 32 word), p1) \<leftarrow> Read_ref 0 p;
     if \<not> ok \<or> sint len < 0 \<or> sint len \<ge> INT32_MAX then Some (([], if ok then len else n), p1)
     else do {
       (r, p2) \<leftarrow> read_terminated 1 (unat len) p1;
       Some (case r of Some str \<Rightarrow> ((str, len), p2) | None \<Rightarrow> (([], n), p2\<lparr>readCursor := oldCursor\<rparr>))
     }
   })"
    by (auto simp: ReadString8WithLength_def fun_eq_iff Let_def intro!: Option.bind_cong)
  with string_reader_safe [where width = 1 and bad = "\<lambda>ok len. ([], if ok then len else n)"
      and good = Pair and none = "([], n)"]
  show ?thesis by simp
qed

lemma ReadString16WithLength_safe: "reader_safe (ReadString16WithLength n)"
proof -
  have "ReadString16WithLength n = (\<lambda>p. do {
     let oldCursor = readCursor p;
     ((ok, len :: 32 word), p1) \<leftarrow> Read_ref 0 p;
     if \<not> ok \<or> sint len < 0 \<or> sint len \<ge> INT32_MAX then Some (([], if ok then len else n), p1)
     else do {
       (r, p2) \<leftarrow> read_terminated 2 (unat len) p1;
       Some (case r of Some str \<Rightarrow> ((u16_of_bytes str, len), p2)
                     | None \<Rightarrow> (([], n), p2\<lparr>readCursor := oldCursor\<rparr>))
     }
   })"
    by (auto simp: ReadString16WithLength_def fun_eq_iff Let_def intro!: Option.bind_cong)
  with string_reader_safe [where width = 2 and bad = "\<lambda>ok len. ([], if ok then len else n)"
      and good = "\<lambda>str. Pair (u16_of_bytes str)" and none = "([], n)"]
  show ?thesis by simp
qed

lemma ReadCString_safe: "reader_safe ReadCString"
proof (rule reader_safeI)
  fix p assume wf: "parcel_wf p"
  let ?avail = "GetReadableBytes p"
  have "\<exists>bytes. (if ?avail = 0 then Some []
      else do { d \<leftarrow> data p; mem_read (readCursor p) ?avail d }) = Some bytes"
    by (cases "?avail = 0") (auto simp: mem_read_def elim: readable_data [OF wf, of ?avail])
  then obtain bytes where b: "(if ?avail = 0 then Some []
      else do { d \<leftarrow> data p; mem_read (readCursor p) ?avail d }) = Some bytes"
    by blast
  let ?n = "length (takeWhile (\<lambda>b. b \<noteq> 0) bytes)"
  obtain ok p1 where v: "ValidateReadData (size_add (size_add (readCursor p) ?n) 1) p = Some (ok, p1)"
      "read_frame p p1" "parcel_wf p1"
    using wf by (rule ValidateReadData_safeE)
  let ?p2 = "p1\<lparr>readCursor := size_add (readCursor p1) (?n + 1)\<rparr>"
  have f: "read_frame p ?p2"
    using v by (auto intro: cursor_frame)
  then have "read_frame p (SkipBytes (GetPadSize (?n + 1)) ?p2)"
    using read_frame_trans [OF f SkipBytes_frame] read_frame_wf [OF f wf] by simp
  then show "\<exists>v p'. ReadCString p = Some (v, p') \<and> read_frame p p'"
    using b v by (cases "0 \<in> set bytes") (auto simp: ReadCString_def Let_def)
qed

text \<open>Every scalar reader, by value and by reference.\<close>

lemmas scalar_reader_defs =
  ReadInt32_def ReadInt64_def ReadUint32_def ReadUint64_def ReadFloat_def ReadDouble_def ReadPointer_def
  ReadBool_ref_def ReadInt8_ref_def ReadInt8Unaligned_ref_def ReadInt16_ref_def ReadInt16Unaligned_ref_def
  ReadInt32_ref_def ReadInt64_ref_def ReadUint8_ref_def ReadUint8Unaligned_ref_def ReadUint16_ref_def
  ReadUint16Unaligned_ref_def ReadUint32_ref_def ReadUint64_ref_def ReadFloat_ref_def ReadDouble_ref_def

lemma padded_value_safe:
  "reader_safe ReadBool" "reader_safe ReadInt8" "reader_safe ReadInt16"
  "reader_safe ReadUint8" "reader_safe ReadUint16"
  unfolding ReadBool_def ReadInt8_def ReadInt16_def ReadUint8_def ReadUint16_def
  by (intro reader_safe_map Read_value_safe; simp)+

end
