(* ===== verification/Parcel_Codec.thy ===== *)
theory Parcel_Codec
  imports Parcel_Write Parcel_Read
begin

text \<open>
  Values through the parcel: the encoding each typed write appends and each typed read consumes, the
  interface \<open>parcel_codec\<close> that pairs them, its round-trip and first-in-first-out lemmas, and its
  interpretations on the typed operations of the code.
\<close>

section \<open>What a read consumes\<close>

definition unread :: "parcel \<Rightarrow> byte list" where
  "unread p = drop (readCursor p) (content p)"

text \<open>A parcel that holds no flattened objects.\<close>

definition plain :: "parcel \<Rightarrow> bool" where
  "plain p \<longleftrightarrow> objectCursor p = 0"

definition advance :: "nat \<Rightarrow> parcel \<Rightarrow> parcel" where
  "advance n p = p\<lparr>readCursor := readCursor p + n\<rparr>"

definition reader_spec :: "(parcel \<Rightarrow> ('a \<times> parcel) option) \<Rightarrow> byte list \<Rightarrow> 'a \<Rightarrow> bool" where
  "reader_spec rd bs v \<longleftrightarrow>
     (\<forall>p rest. parcel_wf p \<and> plain p \<and> unread p = bs @ rest \<longrightarrow>
        rd p = Some (v, advance (length bs) p))"

lemma reader_specI:
  "(\<And>p rest. parcel_wf p \<Longrightarrow> plain p \<Longrightarrow> unread p = bs @ rest \<Longrightarrow> rd p = Some (v, advance (length bs) p)) \<Longrightarrow>
   reader_spec rd bs v"
  by (simp add: reader_spec_def)

lemma reader_specD:
  "reader_spec rd bs v \<Longrightarrow> parcel_wf p \<Longrightarrow> plain p \<Longrightarrow> unread p = bs @ rest \<Longrightarrow>
   rd p = Some (v, advance (length bs) p)"
  by (simp add: reader_spec_def)

lemma advance_0 [simp]: "advance 0 p = p"
  by (simp add: advance_def)

lemma advance_advance [simp]: "advance n (advance m p) = advance (m + n) p"
  by (simp add: advance_def add.assoc)

lemma advance_fields [simp]:
  "data (advance n p) = data p" "readCursor (advance n p) = readCursor p + n"
  "dataSize (advance n p) = dataSize p" "content (advance n p) = content p"
  "plain (advance n p) = plain p" "objectOffsets (advance n p) = objectOffsets p"
  "objectCursor (advance n p) = objectCursor p"
  by (simp_all add: advance_def content_def plain_def cong: option.case_cong)

lemma unread_advance [simp]: "unread (advance n p) = drop n (unread p)"
  by (simp add: unread_def add.commute)

lemma unread_length:
  assumes "parcel_wf p" "unread p = bs @ rest" "0 < length bs"
  shows "readCursor p + length bs + length rest = dataSize p"
proof -
  have "length (unread p) = dataSize p - readCursor p"
    by (simp add: unread_def length_content [OF assms(1)])
  then have "length bs + length rest = dataSize p - readCursor p"
    by (simp add: assms(2))
  with assms(3) show ?thesis by linarith
qed

lemma unread_readable:
  assumes "parcel_wf p" "unread p = bs @ rest"
  shows "length bs \<le> GetReadableBytes p"
proof -
  have "length (unread p) = dataSize p - readCursor p"
    by (simp add: unread_def length_content [OF assms(1)])
  with assms show ?thesis by (simp add: GetReadableBytes_eq)
qed

lemma unread_cursor_small:
  "parcel_wf p \<Longrightarrow> unread p = bs @ rest \<Longrightarrow> 0 < length bs \<Longrightarrow> readCursor p + length bs < SIZE_MOD"
  using unread_length [of p bs rest] by (auto simp: parcel_wf_def)

lemma advance_wf:
  "parcel_wf p \<Longrightarrow> unread p = bs @ rest \<Longrightarrow> parcel_wf (advance (length bs) p)"
  using unread_cursor_small [of p bs rest]
  by (cases "bs = []") (auto simp: parcel_wf_def advance_def)

lemma reader_spec_bind:
  assumes "reader_spec rd b1 v" "reader_spec (k v) b2 u"
  shows "reader_spec (\<lambda>p. do { (x, q) \<leftarrow> rd p; k x q }) (b1 @ b2) u"
proof (rule reader_specI)
  fix p rest assume p: "parcel_wf p" "plain p" "unread p = (b1 @ b2) @ rest"
  then have u: "unread p = b1 @ b2 @ rest" by simp
  have "k v (advance (length b1) p) = Some (u, advance (length b1 + length b2) p)"
    using reader_specD [OF assms(2) advance_wf [OF p(1) u]] p u by simp
  then show "(do { (x, q) \<leftarrow> rd p; k x q }) = Some (u, advance (length (b1 @ b2)) p)"
    using reader_specD [OF assms(1) p(1,2) u] by simp
qed

lemma reader_spec_map:
  assumes "reader_spec rd bs v" "f v = u"
  shows "reader_spec (\<lambda>p. do { (x, q) \<leftarrow> rd p; Some (f x, q) }) bs u"
  using assms by (auto simp: reader_spec_def)

section \<open>Raw reads\<close>

lemma ValidateReadData_plain: "plain p \<Longrightarrow> ValidateReadData u p = Some (True, p)"
  by (simp add: ValidateReadData_def plain_def split: option.split)

text \<open>The bytes at the read cursor.\<close>

lemma read_unread:
  assumes "parcel_wf p" "unread p = bs @ rest" "0 < length bs"
  obtains d where "data p = Some d" "\<And>k m. k + m \<le> length bs \<Longrightarrow>
      mem_read (readCursor p + k) m d = Some (take m (drop k bs))"
proof -
  obtain d where d: "data p = Some d"
    using assms by (auto simp: unread_def content_def split: option.splits)
  have u: "drop (readCursor p) (take (dataSize p) d) = bs @ rest"
    using assms d by (simp add: unread_def content_def)
  have len: "readCursor p + length bs \<le> dataSize p" "dataSize p \<le> length d"
    using unread_length [OF assms] assms d by (auto simp: parcel_wf_def)
  have "mem_read (readCursor p + k) m d = Some (take m (drop k bs))" if "k + m \<le> length bs" for k m
  proof -
    have "take m (drop (readCursor p + k) d) = take m (drop k (drop (readCursor p) (take (dataSize p) d)))"
      using that len by (simp add: drop_take add.commute)
    also have "\<dots> = take m (drop k bs)"
      using that by (simp add: u)
    finally show ?thesis
      using that len by (simp add: mem_read_def)
  qed
  with d that show ?thesis by blast
qed

lemma cursor_advance:
  assumes "parcel_wf p" "unread p = bs @ rest" "0 < length bs"
  shows "p\<lparr>readCursor := size_add (readCursor p) (length bs)\<rparr> = advance (length bs) p"
  using unread_cursor_small [OF assms] by (simp add: advance_def size_add_small)

lemma Read_T_reads:
  assumes "0 < length bs"
  shows "reader_spec (Read_T (length bs)) bs (Some bs)"
proof (rule reader_specI)
  fix p rest assume p: "parcel_wf p" "plain p" "unread p = bs @ rest"
  obtain d where d: "data p = Some d" "\<And>k m. k + m \<le> length bs \<Longrightarrow>
      mem_read (readCursor p + k) m d = Some (take m (drop k bs))"
    using p(1,3) assms by (rule read_unread) blast
  then show "Read_T (length bs) p = Some (Some bs, advance (length bs) p)"
    using p d(2) [of 0 "length bs"] unread_readable [OF p(1,3)] cursor_advance [OF p(1,3) assms]
    by (simp add: Read_T_def ValidateReadData_plain)
qed

lemma Read_ref_reads:
  fixes w :: "'a::len word"
  assumes "LENGTH('a) = 8 * n" "0 < n"
  shows "reader_spec (Read_ref (old :: 'a word)) (le_bytes n w) (True, w)"
  using Read_T_reads [of "le_bytes n w"] assms
  by (auto simp: reader_spec_def Read_ref_def)

lemma Read_value_reads:
  fixes w :: "'a::len word"
  assumes "LENGTH('a) = 8 * n" "0 < n"
  shows "reader_spec (Read_value :: parcel \<Rightarrow> ('a word \<times> parcel) option) (le_bytes n w) w"
  using Read_ref_reads [OF assms, of 0 w] by (auto simp: reader_spec_def Read_value_def)

lemma ReadPadded_reads: "reader_spec (ReadPadded f old) (le_bytes 4 w) (True, f w)"
  using Read_ref_reads [of 4 0 w] by (auto simp: reader_spec_def ReadPadded_def)

lemma SkipBytes_advance:
  assumes "parcel_wf p" "unread p = bs @ rest"
  shows "SkipBytes (length bs) p = advance (length bs) p"
proof (cases "bs = []")
  case True
  have "size_add (readCursor p) 0 = readCursor p"
    using assms(1) by (simp add: size_add_def parcel_wf_def)
  then show ?thesis
    using True by (simp add: SkipBytes_def advance_def)
next
  case False
  then show ?thesis
    using unread_readable [OF assms] cursor_advance [OF assms] by (simp add: SkipBytes_def)
qed

section \<open>Strings and buffers\<close>

lemma length_u16_bytes [simp]: "length (u16_bytes ws) = length ws * 2"
  by (induction ws) auto

lemma u16_bytes_append [simp]: "u16_bytes (xs @ ys) = u16_bytes xs @ u16_bytes ys"
  by (induction xs) auto

lemma u16_of_bytes_inverse [simp]: "u16_of_bytes (u16_bytes ws) = ws"
proof (induction ws)
  case (Cons w ws)
  have "le_bytes 2 w = [ucast w, ucast (drop_bit 8 w)]"
    by (simp add: numeral_2_eq_2)
  moreover have "le_word (le_bytes 2 w) = w"
    by simp
  ultimately show ?case
    using Cons.IH by simp
qed simp

lemma BasicReadBuffer_reads:
  assumes "parcel_wf p" "plain p" "unread p = bs @ rest" "0 < length bs"
  shows "BasicReadBuffer (length bs) p = Some (Some (readCursor p), advance (length bs) p)"
  using assms unread_readable [OF assms(1,3)] cursor_advance [OF assms(1,3,4)]
  by (simp add: BasicReadBuffer_def ValidateReadData_plain)

lemma read_terminated_reads:
  assumes w: "width = 1 \<or> width = 2" and n: "length bs = n * width" "n < 2 ^ 31"
  shows "reader_spec (read_terminated width n) (padded (bs @ replicate width 0)) (Some bs)"
proof (rule reader_specI)
  fix p rest
  let ?str = "bs @ replicate width 0"
  assume p: "parcel_wf p" "plain p" "unread p = padded ?str @ rest"
  define k where "k = GetPadSize (length ?str)"
  have u: "unread p = ?str @ replicate k 0 @ rest"
    using p by (simp add: padded_def k_def)
  have pos: "0 < length ?str" and len: "length ?str = size_mul (size_add n 1) width"
    using w n by (auto simp: size_mul_def size_add_def algebra_simps)
  note b = BasicReadBuffer_reads [OF p(1,2) u pos]
  have u2: "unread (advance (length ?str) p) = replicate k 0 @ rest"
    using u by simp
  have "SkipBytes k (advance (length ?str) p) = advance (length ?str + k) p"
    using SkipBytes_advance [OF advance_wf [OF p(1) u] u2] by simp
  moreover obtain d where d: "data p = Some d" "\<And>k m. k + m \<le> length ?str \<Longrightarrow>
      mem_read (readCursor p + k) m d = Some (take m (drop k ?str))"
    using p(1) u pos by (rule read_unread) blast
  moreover have "mem_read (readCursor p + n * width) width d = Some (replicate width 0)"
    using d(2) [of "n * width" width] n by simp
  moreover have "mem_read (readCursor p) (n * width) d = Some bs"
    using d(2) [of 0 "n * width"] n by simp
  moreover have "width = 1 \<or> n < length ?str"
    using w n by auto
  ultimately show "read_terminated width n p = Some (Some bs, advance (length (padded ?str)) p)"
    using b unread_readable [OF p(1) u]
    unfolding read_terminated_def len [symmetric] k_def by (simp add: Let_def)
qed

definition enc_string :: "byte list \<Rightarrow> byte list" where
  "enc_string s = le_bytes 4 (of_nat (length s) :: 32 word) @ padded (s @ [0])"

definition enc_string16 :: "16 word list \<Rightarrow> byte list" where
  "enc_string16 s = le_bytes 4 (of_nat (length s) :: 32 word) @ padded (u16_bytes (s @ [0]))"

lemma to_int32_small: "n < 2 ^ 31 \<Longrightarrow> to_int32 n = int n"
  by (simp add: to_int32_def sint_uint unsigned_of_nat take_bit_nat_eq_self
    signed_take_bit_int_eq_self)

lemma string_reads:
  assumes n: "int n < INT32_MAX" and w: "width = 1 \<or> width = 2" "length bs = n * width"
    and p: "parcel_wf p" "plain p"
      "unread p = (le_bytes 4 (of_nat n :: 32 word) @ padded (bs @ replicate width 0)) @ rest"
  shows "Read_ref (0 :: 32 word) p = Some ((True, of_nat n), advance 4 p)"
    "unat (of_nat n :: 32 word) = n" "sint (of_nat n :: 32 word) = int n"
    "read_terminated width n (advance 4 p) =
       Some (Some bs, advance (4 + length (padded (bs @ replicate width 0))) p)"
proof -
  let ?len = "le_bytes 4 (of_nat n :: 32 word)"
  have u: "unread p = ?len @ padded (bs @ replicate width 0) @ rest"
    using p by simp
  show "Read_ref (0 :: 32 word) p = Some ((True, of_nat n), advance 4 p)"
    using reader_specD [OF Read_ref_reads [of 4] p(1,2) u] by simp
  show "unat (of_nat n :: 32 word) = n" "sint (of_nat n :: 32 word) = int n"
    using n to_int32_small [of n] by (simp_all add: to_int32_def unat_of_nat)
  have "unread (advance 4 p) = padded (bs @ replicate width 0) @ rest"
    using u by simp
  moreover have "parcel_wf (advance 4 p)"
    using advance_wf [OF p(1) u] by simp
  ultimately show "read_terminated width n (advance 4 p) =
       Some (Some bs, advance (4 + length (padded (bs @ replicate width 0))) p)"
    using reader_specD [OF read_terminated_reads [OF w], of "advance 4 p" rest] n p(2) by simp
qed

lemma ReadString_reads:
  assumes "int (length s) < INT32_MAX"
  shows "reader_spec ReadString (enc_string s) s" "reader_spec (ReadString_ref old) (enc_string s) (True, s)"
    "reader_spec (ReadString8WithLength n) (enc_string s) (s, of_nat (length s))"
  using string_reads [OF assms, of 1 s] assms
  by (auto intro!: reader_specI
    simp: ReadString_def ReadString_ref_def ReadString8WithLength_def enc_string_def Let_def)

lemma ReadString16_reads:
  assumes "int (length s) < INT32_MAX"
  shows "reader_spec ReadString16 (enc_string16 s) s"
    "reader_spec (ReadString16_ref old) (enc_string16 s) (True, s)"
    "reader_spec (ReadString16WithLength n) (enc_string16 s) (s, of_nat (length s))"
proof -
  have "u16_bytes (s @ [0]) = u16_bytes s @ replicate 2 0"
    by (simp add: numeral_2_eq_2)
  with string_reads [OF assms, of 2 "u16_bytes s"] assms
  show "reader_spec ReadString16 (enc_string16 s) s"
    "reader_spec (ReadString16_ref old) (enc_string16 s) (True, s)"
    "reader_spec (ReadString16WithLength n) (enc_string16 s) (s, of_nat (length s))"
    by (auto intro!: reader_specI
      simp: ReadString16_def ReadString16_ref_def ReadString16WithLength_def enc_string16_def Let_def)
qed

lemma nat_int_Suc: "nat (int n + 1) = Suc n"
  by simp

lemma Write_word_spec:
  assumes "LENGTH('a) = 8 * n" "0 < n" "n \<le> 8"
  shows "writer_spec (Write_word (w :: 'a::len word)) (le_bytes n w)"
  using assms Write_T_spec [of "le_bytes n w"] by (simp add: Write_word_def)

lemma WriteString_spec:
  assumes E: "memcpy_s_documented E" and "int (length s) < INT32_MAX"
  shows "writer_spec (WriteString E s) (enc_string s)"
proof -
  have "writer_spec (\<lambda>p. do { (ok, q) \<leftarrow> Write_word (of_nat (length s) :: 32 word) p;
      if \<not> ok then Some (False, q)
      else WriteBufferAddTerminator E (Some (s @ [0])) (length s + 1) 1 q }) (enc_string s)"
    unfolding enc_string_def
    using assms Write_word_spec [of 4 "of_nat (length s) :: 32 word"]
      WriteBufferAddTerminator_spec [OF E, of 1 "length s + 1" s "[0]"]
    by (intro writer_spec_seq) auto
  moreover have "WriteString E s = (\<lambda>p. do { (ok, q) \<leftarrow> Write_word (of_nat (length s) :: 32 word) p;
      if \<not> ok then Some (False, q)
      else WriteBufferAddTerminator E (Some (s @ [0])) (length s + 1) 1 q })"
    using assms by (simp add: WriteString_def fun_eq_iff to_int32_small nat_int_Suc cong: if_cong)
  ultimately show ?thesis by simp
qed

lemma WriteString16_spec:
  assumes E: "memcpy_s_documented E" and "int (length s) \<le> INT32_MAX div 2 - 1"
  shows "writer_spec (WriteString16 E s) (enc_string16 s)"
proof -
  let ?n = "(length s + 1) * 2"
  have "u16_bytes (s @ [0]) = u16_bytes s @ replicate 2 0"
    by (simp add: numeral_2_eq_2)
  then have "writer_spec (\<lambda>p. do { (ok, q) \<leftarrow> Write_word (of_nat (length s) :: 32 word) p;
      if \<not> ok then Some (False, q)
      else WriteBufferAddTerminator E (Some (u16_bytes (s @ [0]))) ?n 2 q }) (enc_string16 s)"
    unfolding enc_string16_def
    using assms Write_word_spec [of 4 "of_nat (length s) :: 32 word"]
      WriteBufferAddTerminator_spec [OF E, of 2 ?n "u16_bytes s" "replicate 2 0"]
    by (intro writer_spec_seq) auto
  moreover have "nat ((int (length s) + 1) * 2) = ?n"
    by simp
  then have "WriteString16 E s = (\<lambda>p. do { (ok, q) \<leftarrow> Write_word (of_nat (length s) :: 32 word) p;
      if \<not> ok then Some (False, q)
      else WriteBufferAddTerminator E (Some (u16_bytes (s @ [0]))) ?n 2 q })"
    using assms by (simp add: WriteString16_def fun_eq_iff to_int32_small cong: if_cong)
  ultimately show ?thesis by simp
qed

lemma WriteString8WithLength_spec:
  assumes E: "memcpy_s_documented E" and "int (length s) < INT32_MAX"
  shows "writer_spec (WriteString8WithLength E (Some (s @ rest)) (length s)) (enc_string s)"
proof -
  have "writer_spec (\<lambda>p. do { (ok, q) \<leftarrow> Write_word (of_nat (length s) :: 32 word) p;
      if \<not> ok then Some (False, q)
      else WriteBufferAddTerminator E (Some (s @ rest)) (length s + 1) 1 q }) (enc_string s)"
    unfolding enc_string_def
    using assms Write_word_spec [of 4 "of_nat (length s) :: 32 word"]
      WriteBufferAddTerminator_spec [OF E, of 1 "length s + 1" s rest]
    by (intro writer_spec_seq) auto
  moreover have "WriteString8WithLength E (Some (s @ rest)) (length s) =
      (\<lambda>p. do { (ok, q) \<leftarrow> Write_word (of_nat (length s) :: 32 word) p;
        if \<not> ok then Some (False, q)
        else WriteBufferAddTerminator E (Some (s @ rest)) (length s + 1) 1 q })"
    using assms by (simp add: WriteString8WithLength_def fun_eq_iff to_int32_small nat_int_Suc cong: if_cong)
  ultimately show ?thesis by simp
qed

lemma WriteString16WithLength_eq:
  "WriteString16WithLength E (Some (s @ rest)) (length s) = WriteString16 E s"
  by (simp add: WriteString16WithLength_def WriteString16_def mem_read_def fun_eq_iff Let_def)

lemma WriteCString_spec:
  assumes E: "memcpy_s_documented E" and "int (length s) < INT32_MAX"
  shows "writer_spec (WriteCString E (Some s)) (padded (s @ [0]))"
proof -
  have "WriteCString E (Some s) = WriteBuffer E (Some (s @ [0])) (length s + 1)"
    using assms by (simp add: WriteCString_def fun_eq_iff to_int32_small nat_int_Suc cong: if_cong)
  then show ?thesis
    using assms WriteBuffer_spec [OF E, of "length s + 1" "s @ [0]"] by simp
qed

text \<open>
  \<^verbatim>\<open>ReadCString\<close> and \<^verbatim>\<open>ReadUnpadBuffer\<close> return pointers into the data region; what a client finds
  there is part of the content.
\<close>

definition deref_cstring :: "nat \<Rightarrow> parcel \<Rightarrow> byte list" where
  "deref_cstring off p = takeWhile (\<lambda>b. b \<noteq> 0) (drop off (content p))"

definition deref_buffer :: "nat \<Rightarrow> nat \<Rightarrow> parcel \<Rightarrow> byte list" where
  "deref_buffer n off p = take n (drop off (content p))"

definition read_cstring :: "parcel \<Rightarrow> (byte list option \<times> parcel) option" where
  "read_cstring p = do {
     (r, q) \<leftarrow> ReadCString p;
     Some (map_option (\<lambda>off. deref_cstring off q) r, q)
   }"

definition read_buffer :: "nat \<Rightarrow> parcel \<Rightarrow> (byte list option \<times> parcel) option" where
  "read_buffer n p = do {
     (r, q) \<leftarrow> ReadUnpadBuffer n p;
     Some (map_option (\<lambda>off. deref_buffer n off q) r, q)
   }"

lemma read_buffer_reads:
  assumes "0 < length bs"
  shows "reader_spec (read_buffer (length bs)) (padded bs) (Some bs)"
proof (rule reader_specI)
  fix p rest
  assume p: "parcel_wf p" "plain p" "unread p = padded bs @ rest"
  let ?k = "GetPadSize (length bs)"
  have u: "unread p = bs @ replicate ?k 0 @ rest"
    using p by (simp add: padded_def)
  have u2: "unread (advance (length bs) p) = replicate ?k 0 @ rest"
    using u by simp
  have "SkipBytes ?k (advance (length bs) p) = advance (length bs + ?k) p"
    using SkipBytes_advance [OF advance_wf [OF p(1) u] u2] by simp
  then have "ReadUnpadBuffer (length bs) p = Some (Some (readCursor p), advance (length bs + ?k) p)"
    using p unread_readable [OF p(1) u] cursor_advance [OF p(1) u assms]
    by (simp add: ReadUnpadBuffer_def ValidateReadData_plain)
  then show "read_buffer (length bs) p = Some (Some bs, advance (length (padded bs)) p)"
    using u by (simp add: read_buffer_def deref_buffer_def unread_def)
qed

lemma takeWhile_terminated: "0 \<notin> set s \<Longrightarrow> takeWhile (\<lambda>b. b \<noteq> 0) (s @ 0 # rest) = s"
  by (induction s) auto

lemma read_cstring_reads:
  assumes "0 \<notin> set s" "int (length s) < INT32_MAX"
  shows "reader_spec read_cstring (padded (s @ [0])) (Some s)"
proof (rule reader_specI)
  fix p rest
  assume p: "parcel_wf p" "plain p" "unread p = padded (s @ [0]) @ rest"
  let ?str = "s @ [0]" and ?k = "GetPadSize (Suc (length s))"
  define tl where "tl = replicate ?k 0 @ rest"
  have u: "unread p = ?str @ tl" and u': "unread p = (?str @ tl) @ []"
    using p by (simp_all add: padded_def tl_def)
  have pos: "0 < length ?str" "0 < length (?str @ tl)" by simp_all
  have avail: "GetReadableBytes p = length (?str @ tl)"
    using unread_length [OF p(1) u' pos(2)] by (simp add: GetReadableBytes_eq [OF p(1)])
  obtain d where d: "data p = Some d" "mem_read (readCursor p) (length (?str @ tl)) d = Some (?str @ tl)"
    using p(1) u' pos(2) by (rule read_unread) (metis add_0 add_0_right drop0 le_refl take_all)
  have u2: "unread (advance (length ?str) p) = replicate ?k 0 @ rest"
    using u by (simp add: tl_def)
  have skip: "SkipBytes ?k (advance (Suc (length s)) p) = advance (Suc (length s) + ?k) p"
    using SkipBytes_advance [OF advance_wf [OF p(1) u] u2] by simp
  have "takeWhile (\<lambda>b. b \<noteq> 0) (?str @ tl) = s"
    using takeWhile_terminated [OF assms(1), of tl] by simp
  then have "ReadCString p = Some (Some (readCursor p), advance (Suc (length s) + ?k) p)"
    using p d avail skip cursor_advance [OF p(1) u pos(1)]
    by (simp add: ReadCString_def ValidateReadData_plain Let_def)
  then show "read_cstring p = Some (Some s, advance (length (padded ?str)) p)"
    using u takeWhile_terminated [OF assms(1), of tl]
    by (simp add: read_cstring_def deref_cstring_def unread_def)
qed

section \<open>The codec interface\<close>

text \<open>The reader has consumed everything that was written.\<close>

definition drained :: "parcel \<Rightarrow> bool" where
  "drained p \<longleftrightarrow> readCursor p = dataSize p"

lemma drained_unread: "parcel_wf p \<Longrightarrow> drained p \<Longrightarrow> unread p = []"
  by (simp add: unread_def drained_def length_content)

lemma appended_unread:
  assumes "parcel_wf p" "appended p bs q" "readCursor p \<le> dataSize p"
  shows "unread q = unread p @ bs"
  using assms by (simp add: unread_def appended_content appended_fields length_content)

lemma appended_plain: "appended p bs q \<Longrightarrow> plain q = plain p"
  by (simp add: plain_def appended_fields)

text \<open>
  A typed write \<open>wr\<close> and a typed read \<open>rd\<close> agree on an encoding: \<open>wr v\<close> appends \<open>enc v\<close>, and \<open>rd\<close>
  consumes \<open>enc v\<close> and yields \<open>res v\<close>, for the values \<open>ok\<close> admits.
\<close>

locale parcel_codec =
  fixes wr :: "'v \<Rightarrow> parcel \<Rightarrow> (bool \<times> parcel) option"
    and rd :: "parcel \<Rightarrow> ('r \<times> parcel) option"
    and enc :: "'v \<Rightarrow> byte list"
    and res :: "'v \<Rightarrow> 'r"
    and ok :: "'v \<Rightarrow> bool"
  assumes writes: "ok v \<Longrightarrow> writer_spec (wr v) (enc v)"
    and reads: "ok v \<Longrightarrow> reader_spec rd (enc v) (res v)"
begin

lemma write_appends:
  assumes "ok v" "parcel_wf p" "wr v p = Some (True, q)"
  shows "appended p (enc v) q"
  using writes [OF assms(1)] assms(2,3) by (fastforce simp: writer_spec_def)

lemma read_next:
  assumes "ok v" "parcel_wf p" "plain p" "unread p = enc v @ rest"
  shows "rd p = Some (res v, advance (length (enc v)) p)"
  using reads [OF assms(1)] assms(2-4) by (rule reader_specD)

lemma round_trip:
  assumes "ok v" "parcel_wf p" "plain p" "drained p" "wr v p = Some (True, q)"
  shows "\<exists>r. rd q = Some (res v, r) \<and> drained r \<and> parcel_wf r"
proof -
  have a: "appended p (enc v) q"
    using assms by (intro write_appends)
  then have u: "unread q = enc v @ []"
    using assms drained_unread [of p] appended_unread [OF assms(2) a] by (simp add: drained_def)
  have "rd q = Some (res v, advance (length (enc v)) q)"
    using read_next [OF assms(1) appended_wf [OF a] _ u] appended_plain [OF a] assms(3) by simp
  moreover have "drained (advance (length (enc v)) q)"
    using appended_fields [OF a] assms(4) by (simp add: drained_def)
  ultimately show ?thesis
    using advance_wf [OF appended_wf [OF a] u] by blast
qed

lemma write_succeeds:
  assumes "ok v" "parcel_wf p" "ample p (length (enc v))"
  shows "\<exists>q. wr v p = Some (True, q)"
  using writes [OF assms(1)] assms(2,3) by (fastforce simp: writer_spec_def)

text \<open>Two values come back in the order they were written.\<close>

lemma first_in_first_out:
  assumes "ok u" "ok v" "parcel_wf p" "plain p" "drained p"
    "wr u p = Some (True, q)" "wr v q = Some (True, r)"
  shows "\<exists>s t. rd r = Some (res u, s) \<and> rd s = Some (res v, t) \<and> drained t"
proof -
  have a: "appended p (enc u) q"
    using assms by (intro write_appends)
  have b: "appended q (enc v) r"
    using assms appended_wf [OF a] by (intro write_appends)
  note ab = appended_trans [OF a b]
  have pl: "plain r"
    using appended_plain [OF ab] assms(4) by simp
  have w: "unread r = enc u @ enc v"
    using assms drained_unread [of p] appended_unread [OF assms(3) ab] by (simp add: drained_def)
  let ?s = "advance (length (enc u)) r"
  have "rd r = Some (res u, ?s)"
    using read_next [OF assms(1) appended_wf [OF b] pl w] .
  moreover have "rd ?s = Some (res v, advance (length (enc v)) ?s)"
    using advance_wf [OF appended_wf [OF b] w] w pl
    by (intro read_next [OF assms(2), of _ "[]"]) simp_all
  moreover have "drained (advance (length (enc v)) ?s)"
    using appended_fields [OF ab] assms(5) by (simp add: drained_def)
  ultimately show ?thesis by blast
qed

end

section \<open>The typed operations are codecs\<close>

lemma cast_inverse [simp]:
  "ucast (scast (a :: 8 word) :: 32 word) = a" "ucast (ucast (a :: 8 word) :: 32 word) = a"
  "ucast (scast (b :: 16 word) :: 32 word) = b" "ucast (ucast (b :: 16 word) :: 32 word) = b"
  by (intro bit_word_eqI; simp add: bit_simps)+

lemmas scalar_writer_defs =
  WriteBool_def WriteInt8_def WriteInt8Unaligned_def WriteInt16_def WriteInt16Unaligned_def WriteInt32_def
  WriteInt64_def WriteUint8_def WriteUint8Unaligned_def WriteUint16_def WriteUint16Unaligned_def
  WriteUint32_def WriteUint64_def WriteFloat_def WriteDouble_def WritePointer_def

lemma padded_scalar_reads:
  "reader_spec ReadBool (le_bytes 4 (of_bool b :: 32 word)) b"
  "reader_spec ReadInt8 (le_bytes 4 (scast i8 :: 32 word)) i8"
  "reader_spec ReadInt16 (le_bytes 4 (scast i16 :: 32 word)) i16"
  "reader_spec ReadUint8 (le_bytes 4 (ucast u8 :: 32 word)) u8"
  "reader_spec ReadUint16 (le_bytes 4 (ucast u16 :: 32 word)) u16"
  unfolding ReadBool_def ReadInt8_def ReadInt16_def ReadUint8_def ReadUint16_def
  by (rule reader_spec_map [OF Read_value_reads]; simp)+

lemma padded_scalar_ref_reads:
  "reader_spec (ReadBool_ref x) (le_bytes 4 (of_bool b :: 32 word)) (True, b)"
  "reader_spec (ReadInt8_ref y) (le_bytes 4 (scast i8 :: 32 word)) (True, i8)"
  "reader_spec (ReadInt16_ref z) (le_bytes 4 (scast i16 :: 32 word)) (True, i16)"
  "reader_spec (ReadUint8_ref y) (le_bytes 4 (ucast u8 :: 32 word)) (True, u8)"
  "reader_spec (ReadUint16_ref z) (le_bytes 4 (ucast u16 :: 32 word)) (True, u16)"
  using ReadPadded_reads [of "\<lambda>temp. temp \<noteq> 0" x "of_bool b"]
    ReadPadded_reads [of ucast y "scast i8"] ReadPadded_reads [of ucast z "scast i16"]
    ReadPadded_reads [of ucast y "ucast u8"] ReadPadded_reads [of ucast z "ucast u16"]
  by (simp_all add: ReadBool_ref_def ReadInt8_ref_def ReadInt16_ref_def ReadUint8_ref_def ReadUint16_ref_def)

lemma bool_unaligned_reads: "reader_spec ReadBoolUnaligned [of_bool b] b"
  using Read_value_reads [of 1 "of_bool b :: 8 word"]
  by (auto simp: reader_spec_def ReadBoolUnaligned_def)

lemmas scalar_reads = padded_scalar_reads padded_scalar_ref_reads bool_unaligned_reads
  Read_value_reads Read_ref_reads
lemmas scalar_writes = Write_word_spec Write_T_spec

interpretation bool_codec: parcel_codec WriteBool ReadBool "\<lambda>b. le_bytes 4 (of_bool b :: 32 word)" id "\<lambda>_. True"
  by unfold_locales (simp_all add: scalar_writer_defs scalar_writes scalar_reads)

interpretation bool_unaligned_codec:
  parcel_codec WriteBoolUnaligned ReadBoolUnaligned "\<lambda>b. [of_bool b]" id "\<lambda>_. True"
  by unfold_locales (simp_all add: WriteBoolUnaligned_def scalar_writes scalar_reads)

interpretation int8_codec: parcel_codec WriteInt8 ReadInt8 "\<lambda>v. le_bytes 4 (scast v :: 32 word)" id "\<lambda>_. True"
  by unfold_locales (simp_all add: scalar_writer_defs scalar_reader_defs scalar_writes scalar_reads)

interpretation int16_codec: parcel_codec WriteInt16 ReadInt16 "\<lambda>v. le_bytes 4 (scast v :: 32 word)" id "\<lambda>_. True"
  by unfold_locales (simp_all add: scalar_writer_defs scalar_reader_defs scalar_writes scalar_reads)

interpretation uint8_codec: parcel_codec WriteUint8 ReadUint8 "\<lambda>v. le_bytes 4 (ucast v :: 32 word)" id "\<lambda>_. True"
  by unfold_locales (simp_all add: scalar_writer_defs scalar_reader_defs scalar_writes scalar_reads)

interpretation uint16_codec: parcel_codec WriteUint16 ReadUint16 "\<lambda>v. le_bytes 4 (ucast v :: 32 word)" id "\<lambda>_. True"
  by unfold_locales (simp_all add: scalar_writer_defs scalar_reader_defs scalar_writes scalar_reads)

interpretation int32_codec: parcel_codec WriteInt32 ReadInt32 "le_bytes 4" id "\<lambda>_. True"
  by unfold_locales (simp_all add: scalar_writer_defs scalar_reader_defs scalar_writes scalar_reads)

interpretation uint32_codec: parcel_codec WriteUint32 ReadUint32 "le_bytes 4" id "\<lambda>_. True"
  by unfold_locales (simp_all add: scalar_writer_defs scalar_reader_defs scalar_writes scalar_reads)

interpretation int64_codec: parcel_codec WriteInt64 ReadInt64 "le_bytes 8" id "\<lambda>_. True"
  by unfold_locales (simp_all add: scalar_writer_defs scalar_reader_defs scalar_writes scalar_reads)

interpretation uint64_codec: parcel_codec WriteUint64 ReadUint64 "le_bytes 8" id "\<lambda>_. True"
  by unfold_locales (simp_all add: scalar_writer_defs scalar_reader_defs scalar_writes scalar_reads)

interpretation float_codec: parcel_codec WriteFloat ReadFloat "le_bytes 4" id "\<lambda>_. True"
  by unfold_locales (simp_all add: scalar_writer_defs scalar_reader_defs scalar_writes scalar_reads)

interpretation double_codec: parcel_codec WriteDouble ReadDouble "le_bytes 8" id "\<lambda>_. True"
  by unfold_locales (simp_all add: scalar_writer_defs scalar_reader_defs scalar_writes scalar_reads)

interpretation pointer_codec: parcel_codec WritePointer ReadPointer "le_bytes 8" id "\<lambda>_. True"
  by unfold_locales (simp_all add: scalar_writer_defs scalar_reader_defs scalar_writes scalar_reads)

interpretation int8_ref_codec: parcel_codec WriteInt8 "ReadInt8_ref old" "\<lambda>v. le_bytes 4 (scast v :: 32 word)" "Pair True" "\<lambda>_. True" for old
  by unfold_locales (simp_all add: scalar_writer_defs scalar_writes scalar_reads)

interpretation int16_ref_codec: parcel_codec WriteInt16 "ReadInt16_ref old" "\<lambda>v. le_bytes 4 (scast v :: 32 word)" "Pair True" "\<lambda>_. True" for old
  by unfold_locales (simp_all add: scalar_writer_defs scalar_writes scalar_reads)

interpretation uint8_ref_codec: parcel_codec WriteUint8 "ReadUint8_ref old" "\<lambda>v. le_bytes 4 (ucast v :: 32 word)" "Pair True" "\<lambda>_. True" for old
  by unfold_locales (simp_all add: scalar_writer_defs scalar_writes scalar_reads)

interpretation uint16_ref_codec: parcel_codec WriteUint16 "ReadUint16_ref old" "\<lambda>v. le_bytes 4 (ucast v :: 32 word)" "Pair True" "\<lambda>_. True" for old
  by unfold_locales (simp_all add: scalar_writer_defs scalar_writes scalar_reads)

interpretation int32_ref_codec: parcel_codec WriteInt32 "ReadInt32_ref old" "le_bytes 4" "Pair True" "\<lambda>_. True" for old
  by unfold_locales (simp_all add: scalar_writer_defs scalar_reader_defs scalar_writes scalar_reads)

interpretation uint32_ref_codec: parcel_codec WriteUint32 "ReadUint32_ref old" "le_bytes 4" "Pair True" "\<lambda>_. True" for old
  by unfold_locales (simp_all add: scalar_writer_defs scalar_reader_defs scalar_writes scalar_reads)

interpretation int64_ref_codec: parcel_codec WriteInt64 "ReadInt64_ref old" "le_bytes 8" "Pair True" "\<lambda>_. True" for old
  by unfold_locales (simp_all add: scalar_writer_defs scalar_reader_defs scalar_writes scalar_reads)

interpretation uint64_ref_codec: parcel_codec WriteUint64 "ReadUint64_ref old" "le_bytes 8" "Pair True" "\<lambda>_. True" for old
  by unfold_locales (simp_all add: scalar_writer_defs scalar_reader_defs scalar_writes scalar_reads)

interpretation float_ref_codec: parcel_codec WriteFloat "ReadFloat_ref old" "le_bytes 4" "Pair True" "\<lambda>_. True" for old
  by unfold_locales (simp_all add: scalar_writer_defs scalar_reader_defs scalar_writes scalar_reads)

interpretation double_ref_codec: parcel_codec WriteDouble "ReadDouble_ref old" "le_bytes 8" "Pair True" "\<lambda>_. True" for old
  by unfold_locales (simp_all add: scalar_writer_defs scalar_reader_defs scalar_writes scalar_reads)

lemma byte_scalar:
  fixes v :: "8 word"
  shows "writer_spec (Write_word v) [v]" "reader_spec (Read_ref old) [v] (True, v)"
  using Write_word_spec [of 1 v] Read_ref_reads [of 1 old v] by simp_all

interpretation int8_unaligned_codec: parcel_codec WriteInt8Unaligned "ReadInt8Unaligned_ref old" "\<lambda>v. [v]" "Pair True" "\<lambda>_. True" for old
  by unfold_locales (simp_all add: scalar_writer_defs scalar_reader_defs byte_scalar)

interpretation uint8_unaligned_codec: parcel_codec WriteUint8Unaligned "ReadUint8Unaligned_ref old" "\<lambda>v. [v]" "Pair True" "\<lambda>_. True" for old
  by unfold_locales (simp_all add: scalar_writer_defs scalar_reader_defs byte_scalar)

interpretation int16_unaligned_codec: parcel_codec WriteInt16Unaligned "ReadInt16Unaligned_ref old" "le_bytes 2" "Pair True" "\<lambda>_. True" for old
  by unfold_locales (simp_all add: scalar_writer_defs scalar_reader_defs scalar_writes scalar_reads)

interpretation uint16_unaligned_codec: parcel_codec WriteUint16Unaligned "ReadUint16Unaligned_ref old" "le_bytes 2" "Pair True" "\<lambda>_. True" for old
  by unfold_locales (simp_all add: scalar_writer_defs scalar_reader_defs scalar_writes scalar_reads)

text \<open>Strings and buffers go through \<^verbatim>\<open>memcpy_s\<close>; their length limits are those the writes check.\<close>

definition string_ok :: "parcel_env \<Rightarrow> byte list \<Rightarrow> bool" where
  "string_ok E s \<longleftrightarrow> memcpy_s_documented E \<and> int (length s) < INT32_MAX"

definition string16_ok :: "parcel_env \<Rightarrow> 16 word list \<Rightarrow> bool" where
  "string16_ok E s \<longleftrightarrow> memcpy_s_documented E \<and> int (length s) \<le> INT32_MAX div 2 - 1"

definition cstring_ok :: "parcel_env \<Rightarrow> byte list \<Rightarrow> bool" where
  "cstring_ok E s \<longleftrightarrow> memcpy_s_documented E \<and> 0 \<notin> set s \<and> int (length s) < INT32_MAX"

definition buffer_ok :: "parcel_env \<Rightarrow> nat \<Rightarrow> byte list \<Rightarrow> bool" where
  "buffer_ok E n bs \<longleftrightarrow> memcpy_s_documented E \<and> length bs = n \<and> 0 < n \<and> n < 2 ^ 63"

interpretation string_codec: parcel_codec "WriteString E" ReadString enc_string id "string_ok E" for E
  by unfold_locales (simp_all add: string_ok_def WriteString_spec ReadString_reads)

interpretation string_ref_codec:
  parcel_codec "WriteString E" "ReadString_ref old" enc_string "Pair True" "string_ok E" for E old
  by unfold_locales (simp_all add: string_ok_def WriteString_spec ReadString_reads)

interpretation string16_codec: parcel_codec "WriteString16 E" ReadString16 enc_string16 id "string16_ok E" for E
  by unfold_locales (simp_all add: string16_ok_def WriteString16_spec ReadString16_reads)

interpretation string16_ref_codec:
  parcel_codec "WriteString16 E" "ReadString16_ref old" enc_string16 "Pair True" "string16_ok E" for E old
  by unfold_locales (simp_all add: string16_ok_def WriteString16_spec ReadString16_reads)

interpretation string8_length_codec:
  parcel_codec "\<lambda>s. WriteString8WithLength E (Some s) (length s)" "ReadString8WithLength n" enc_string
    "\<lambda>s. (s, of_nat (length s))" "string_ok E" for E n
  using WriteString8WithLength_spec [where rest = "[]"]
  by unfold_locales (simp_all add: string_ok_def ReadString_reads)

interpretation string16_length_codec:
  parcel_codec "\<lambda>s. WriteString16WithLength E (Some s) (length s)" "ReadString16WithLength n" enc_string16
    "\<lambda>s. (s, of_nat (length s))" "string16_ok E" for E n
  using WriteString16WithLength_eq [where rest = "[]"]
  by unfold_locales (simp_all add: string16_ok_def WriteString16_spec ReadString16_reads)

interpretation cstring_codec:
  parcel_codec "\<lambda>s. WriteCString E (Some s)" read_cstring "\<lambda>s. padded (s @ [0])" Some "cstring_ok E" for E
  by unfold_locales (simp_all add: cstring_ok_def WriteCString_spec read_cstring_reads)

interpretation buffer_codec:
  parcel_codec "\<lambda>bs. WriteUnpadBuffer E (Some bs) n" "read_buffer n" padded Some "buffer_ok E n" for E n
proof unfold_locales
  fix bs assume ok: "buffer_ok E n bs"
  then show "writer_spec (WriteUnpadBuffer E (Some bs) n) (padded bs)"
    using WriteBuffer_spec [of E n bs]
    by (simp add: buffer_ok_def WriteUnpadBuffer_def [abs_def])
  show "reader_spec (read_buffer n) (padded bs) (Some bs)"
    using ok read_buffer_reads [of bs] by (auto simp: buffer_ok_def)
qed

end
