(* ===== verification/Parcel_Items.thy ===== *)
theory Parcel_Items
  imports Parcel_Codec
begin

text \<open>
  Sequences of values of different types through one parcel. A client writes a list of items with the
  typed operations and reads the same list of types back; the theorems say what is on the wire, that the
  values come back in order, and when every write succeeds.
\<close>

section \<open>Items\<close>

datatype parcel_item =
    I_Bool bool
  | I_BoolUnaligned bool
  | I_Int8 "8 word"
  | I_Int8Unaligned "8 word"
  | I_Int16 "16 word"
  | I_Int16Unaligned "16 word"
  | I_Int32 "32 word"
  | I_Int64 "64 word"
  | I_Uint8 "8 word"
  | I_Uint8Unaligned "8 word"
  | I_Uint16 "16 word"
  | I_Uint16Unaligned "16 word"
  | I_Uint32 "32 word"
  | I_Uint64 "64 word"
  | I_Float "32 word"
  | I_Double "64 word"
  | I_Pointer "64 word"
  | I_String "byte list"
  | I_String16 "16 word list"
  | I_CString "byte list"
  | I_Buffer "byte list"

datatype item_type =
    T_Bool
  | T_BoolUnaligned
  | T_Int8
  | T_Int8Unaligned
  | T_Int16
  | T_Int16Unaligned
  | T_Int32
  | T_Int64
  | T_Uint8
  | T_Uint8Unaligned
  | T_Uint16
  | T_Uint16Unaligned
  | T_Uint32
  | T_Uint64
  | T_Float
  | T_Double
  | T_Pointer
  | T_String
  | T_String16
  | T_CString
  | T_Buffer nat

fun item_type_of :: "parcel_item \<Rightarrow> item_type" where
  "item_type_of (I_Bool v) = T_Bool"
| "item_type_of (I_BoolUnaligned v) = T_BoolUnaligned"
| "item_type_of (I_Int8 v) = T_Int8"
| "item_type_of (I_Int8Unaligned v) = T_Int8Unaligned"
| "item_type_of (I_Int16 v) = T_Int16"
| "item_type_of (I_Int16Unaligned v) = T_Int16Unaligned"
| "item_type_of (I_Int32 v) = T_Int32"
| "item_type_of (I_Int64 v) = T_Int64"
| "item_type_of (I_Uint8 v) = T_Uint8"
| "item_type_of (I_Uint8Unaligned v) = T_Uint8Unaligned"
| "item_type_of (I_Uint16 v) = T_Uint16"
| "item_type_of (I_Uint16Unaligned v) = T_Uint16Unaligned"
| "item_type_of (I_Uint32 v) = T_Uint32"
| "item_type_of (I_Uint64 v) = T_Uint64"
| "item_type_of (I_Float v) = T_Float"
| "item_type_of (I_Double v) = T_Double"
| "item_type_of (I_Pointer v) = T_Pointer"
| "item_type_of (I_String v) = T_String"
| "item_type_of (I_String16 v) = T_String16"
| "item_type_of (I_CString v) = T_CString"
| "item_type_of (I_Buffer v) = T_Buffer (length v)"

fun write_item :: "parcel_env \<Rightarrow> parcel_item \<Rightarrow> parcel \<Rightarrow> (bool \<times> parcel) option" where
  "write_item E (I_Bool v) = WriteBool v"
| "write_item E (I_BoolUnaligned v) = WriteBoolUnaligned v"
| "write_item E (I_Int8 v) = WriteInt8 v"
| "write_item E (I_Int8Unaligned v) = WriteInt8Unaligned v"
| "write_item E (I_Int16 v) = WriteInt16 v"
| "write_item E (I_Int16Unaligned v) = WriteInt16Unaligned v"
| "write_item E (I_Int32 v) = WriteInt32 v"
| "write_item E (I_Int64 v) = WriteInt64 v"
| "write_item E (I_Uint8 v) = WriteUint8 v"
| "write_item E (I_Uint8Unaligned v) = WriteUint8Unaligned v"
| "write_item E (I_Uint16 v) = WriteUint16 v"
| "write_item E (I_Uint16Unaligned v) = WriteUint16Unaligned v"
| "write_item E (I_Uint32 v) = WriteUint32 v"
| "write_item E (I_Uint64 v) = WriteUint64 v"
| "write_item E (I_Float v) = WriteFloat v"
| "write_item E (I_Double v) = WriteDouble v"
| "write_item E (I_Pointer v) = WritePointer v"
| "write_item E (I_String v) = WriteString E v"
| "write_item E (I_String16 v) = WriteString16 E v"
| "write_item E (I_CString v) = WriteCString E (Some v)"
| "write_item E (I_Buffer v) = WriteUnpadBuffer E (Some v) (length v)"

definition tagged :: "('a \<Rightarrow> parcel_item) \<Rightarrow> (parcel \<Rightarrow> ('a \<times> parcel) option) \<Rightarrow> parcel \<Rightarrow> (parcel_item option \<times> parcel) option" where
  "tagged c rd p = do { (v, q) \<leftarrow> rd p; Some (Some (c v), q) }"

definition tagged_ref :: "('a \<Rightarrow> parcel_item) \<Rightarrow> (parcel \<Rightarrow> ((bool \<times> 'a) \<times> parcel) option) \<Rightarrow> parcel \<Rightarrow> (parcel_item option \<times> parcel) option" where
  "tagged_ref c rd p = do { ((ok, v), q) \<leftarrow> rd p; Some (if ok then Some (c v) else None, q) }"

definition tagged_ptr :: "('a \<Rightarrow> parcel_item) \<Rightarrow> (parcel \<Rightarrow> ('a option \<times> parcel) option) \<Rightarrow> parcel \<Rightarrow> (parcel_item option \<times> parcel) option" where
  "tagged_ptr c rd p = do { (v, q) \<leftarrow> rd p; Some (map_option c v, q) }"

fun read_item :: "item_type \<Rightarrow> parcel \<Rightarrow> (parcel_item option \<times> parcel) option" where
  "read_item T_Bool = tagged I_Bool ReadBool"
| "read_item T_BoolUnaligned = tagged I_BoolUnaligned ReadBoolUnaligned"
| "read_item T_Int8 = tagged I_Int8 ReadInt8"
| "read_item T_Int8Unaligned = tagged_ref I_Int8Unaligned (ReadInt8Unaligned_ref 0)"
| "read_item T_Int16 = tagged I_Int16 ReadInt16"
| "read_item T_Int16Unaligned = tagged_ref I_Int16Unaligned (ReadInt16Unaligned_ref 0)"
| "read_item T_Int32 = tagged I_Int32 ReadInt32"
| "read_item T_Int64 = tagged I_Int64 ReadInt64"
| "read_item T_Uint8 = tagged I_Uint8 ReadUint8"
| "read_item T_Uint8Unaligned = tagged_ref I_Uint8Unaligned (ReadUint8Unaligned_ref 0)"
| "read_item T_Uint16 = tagged I_Uint16 ReadUint16"
| "read_item T_Uint16Unaligned = tagged_ref I_Uint16Unaligned (ReadUint16Unaligned_ref 0)"
| "read_item T_Uint32 = tagged I_Uint32 ReadUint32"
| "read_item T_Uint64 = tagged I_Uint64 ReadUint64"
| "read_item T_Float = tagged I_Float ReadFloat"
| "read_item T_Double = tagged I_Double ReadDouble"
| "read_item T_Pointer = tagged I_Pointer ReadPointer"
| "read_item T_String = tagged I_String ReadString"
| "read_item T_String16 = tagged I_String16 ReadString16"
| "read_item T_CString = tagged_ptr I_CString read_cstring"
| "read_item (T_Buffer n) = tagged_ptr I_Buffer (read_buffer n)"

text \<open>The bytes an item occupies, and the items the code accepts.\<close>

fun item_enc :: "parcel_item \<Rightarrow> byte list" where
  "item_enc (I_Bool v) = le_bytes 4 (of_bool v :: 32 word)"
| "item_enc (I_BoolUnaligned v) = [of_bool v]"
| "item_enc (I_Int8 v) = le_bytes 4 (scast v :: 32 word)"
| "item_enc (I_Int8Unaligned v) = [v]"
| "item_enc (I_Int16 v) = le_bytes 4 (scast v :: 32 word)"
| "item_enc (I_Int16Unaligned v) = le_bytes 2 v"
| "item_enc (I_Int32 v) = le_bytes 4 v"
| "item_enc (I_Int64 v) = le_bytes 8 v"
| "item_enc (I_Uint8 v) = le_bytes 4 (ucast v :: 32 word)"
| "item_enc (I_Uint8Unaligned v) = [v]"
| "item_enc (I_Uint16 v) = le_bytes 4 (ucast v :: 32 word)"
| "item_enc (I_Uint16Unaligned v) = le_bytes 2 v"
| "item_enc (I_Uint32 v) = le_bytes 4 v"
| "item_enc (I_Uint64 v) = le_bytes 8 v"
| "item_enc (I_Float v) = le_bytes 4 v"
| "item_enc (I_Double v) = le_bytes 8 v"
| "item_enc (I_Pointer v) = le_bytes 8 v"
| "item_enc (I_String v) = enc_string v"
| "item_enc (I_String16 v) = enc_string16 v"
| "item_enc (I_CString v) = padded (v @ [0])"
| "item_enc (I_Buffer v) = padded v"

fun item_ok :: "parcel_env \<Rightarrow> parcel_item \<Rightarrow> bool" where
  "item_ok E (I_String v) \<longleftrightarrow> string_ok E v"
| "item_ok E (I_String16 v) \<longleftrightarrow> string16_ok E v"
| "item_ok E (I_CString v) \<longleftrightarrow> cstring_ok E v"
| "item_ok E (I_Buffer v) \<longleftrightarrow> buffer_ok E (length v) v"
| "item_ok E _ \<longleftrightarrow> True"

fun write_items :: "parcel_env \<Rightarrow> parcel_item list \<Rightarrow> parcel \<Rightarrow> (bool \<times> parcel) option" where
  "write_items E [] p = Some (True, p)"
| "write_items E (i # is) p = do {
     (ok, q) \<leftarrow> write_item E i p;
     if \<not> ok then Some (False, q) else write_items E is q
   }"

fun read_items :: "item_type list \<Rightarrow> parcel \<Rightarrow> (parcel_item option list \<times> parcel) option" where
  "read_items [] p = Some ([], p)"
| "read_items (t # ts) p = do {
     (i, q) \<leftarrow> read_item t p;
     (is, r) \<leftarrow> read_items ts q;
     Some (i # is, r)
   }"

section \<open>Every item is written and read by its codec\<close>

lemma tagged_reads:
  "reader_spec rd bs v \<Longrightarrow> reader_spec (tagged c rd) bs (Some (c v))"
  "reader_spec rd' bs (True, v) \<Longrightarrow> reader_spec (tagged_ref c rd') bs (Some (c v))"
  "reader_spec rd'' bs (Some v) \<Longrightarrow> reader_spec (tagged_ptr c rd'') bs (Some (c v))"
  by (auto simp: reader_spec_def tagged_def tagged_ref_def tagged_ptr_def)

lemmas codec_writes =
  bool_codec.writes
  bool_unaligned_codec.writes
  int8_codec.writes
  int8_unaligned_codec.writes
  int16_codec.writes
  int16_unaligned_codec.writes
  int32_codec.writes
  int64_codec.writes
  uint8_codec.writes
  uint8_unaligned_codec.writes
  uint16_codec.writes
  uint16_unaligned_codec.writes
  uint32_codec.writes
  uint64_codec.writes
  float_codec.writes
  double_codec.writes
  pointer_codec.writes
  string_codec.writes
  string16_codec.writes
  cstring_codec.writes
  buffer_codec.writes

lemmas codec_reads =
  bool_codec.reads
  bool_unaligned_codec.reads
  int8_codec.reads
  int8_unaligned_codec.reads
  int16_codec.reads
  int16_unaligned_codec.reads
  int32_codec.reads
  int64_codec.reads
  uint8_codec.reads
  uint8_unaligned_codec.reads
  uint16_codec.reads
  uint16_unaligned_codec.reads
  uint32_codec.reads
  uint64_codec.reads
  float_codec.reads
  double_codec.reads
  pointer_codec.reads
  string_codec.reads
  string16_codec.reads
  cstring_codec.reads
  buffer_codec.reads

lemma write_item_spec: "item_ok E i \<Longrightarrow> writer_spec (write_item E i) (item_enc i)"
  by (cases i) (simp_all add: codec_writes)

lemma read_item_spec: "item_ok E i \<Longrightarrow> reader_spec (read_item (item_type_of i)) (item_enc i) (Some i)"
  by (cases i) (simp_all add: tagged_reads codec_reads [simplified])

section \<open>Sequences\<close>

definition items_enc :: "parcel_item list \<Rightarrow> byte list" where
  "items_enc is = concat (map item_enc is)"

lemma items_enc_simps [simp]:
  "items_enc [] = []" "items_enc (i # is) = item_enc i @ items_enc is"
  by (simp_all add: items_enc_def)

lemma write_items_spec:
  "list_all (item_ok E) is \<Longrightarrow> writer_spec (write_items E is) (items_enc is)"
proof (induction "is")
  case Nil
  show ?case by (auto intro!: writer_specI)
next
  case (Cons i "is")
  then have "writer_spec (\<lambda>p. do { (ok, q) \<leftarrow> write_item E i p; if \<not> ok then Some (False, q)
      else write_items E is q }) (item_enc i @ items_enc is)"
    by (intro writer_spec_seq) (simp_all add: write_item_spec)
  then show ?case by (simp add: fun_eq_iff [symmetric] cong: if_cong)
qed

lemma read_items_spec:
  "list_all (item_ok E) is \<Longrightarrow> reader_spec (read_items (map item_type_of is)) (items_enc is) (map Some is)"
proof (induction "is")
  case Nil
  show ?case by (simp add: reader_spec_def)
next
  case (Cons i "is")
  have "reader_spec (\<lambda>p. do { (js, r) \<leftarrow> read_items (map item_type_of is) p; Some (Some i # js, r) })
      (items_enc is) (map Some (i # is))"
    using Cons by (intro reader_spec_map [where f = "Cons (Some i)"]) auto
  with read_item_spec [of E i] Cons.prems
  have "reader_spec (\<lambda>p. do { (j, q) \<leftarrow> read_item (item_type_of i) p;
      (js, r) \<leftarrow> read_items (map item_type_of is) q; Some (j # js, r) })
      (item_enc i @ items_enc is) (map Some (i # is))"
    by (intro reader_spec_bind) auto
  then show ?case by simp
qed

interpretation items_codec:
  parcel_codec "\<lambda>is. if map item_type_of is = ts then write_items E is else (\<lambda>p. Some (False, p))"
    "read_items ts" items_enc "map Some"
    "\<lambda>is. list_all (item_ok E) is \<and> map item_type_of is = ts" for E ts
  by unfold_locales (auto simp: write_items_spec read_items_spec)

lemma write_items_outcome:
  assumes "parcel_wf p" "list_all (item_ok E) is"
  shows "\<exists>ok q pre. write_items E is p = Some (ok, q) \<and> appended p pre q \<and> prefix pre (items_enc is) \<and>
      (ok \<longrightarrow> pre = items_enc is) \<and> (ample p (length (items_enc is)) \<longrightarrow> ok)"
  using write_items_spec [OF assms(2)] assms(1) by (simp add: writer_spec_def)

text \<open>Reads of every type but the unaligned \<^verbatim>\<open>bool\<close> are safe, whatever the parcel holds.\<close>

lemma tagged_safe:
  "reader_safe rd \<Longrightarrow> reader_safe (tagged c rd)"
  "reader_safe rd' \<Longrightarrow> reader_safe (tagged_ref c' rd')"
  "reader_safe rd'' \<Longrightarrow> reader_safe (tagged_ptr c'' rd'')"
  unfolding reader_safe_def tagged_def tagged_ref_def tagged_ptr_def by fastforce+

lemma read_cstring_safe: "reader_safe read_cstring"
  using ReadCString_safe unfolding reader_safe_def read_cstring_def by fastforce

lemma read_buffer_safe: "reader_safe (read_buffer n)"
proof (rule reader_safeI)
  fix p assume "parcel_wf p"
  then obtain r q where "ReadUnpadBuffer n p = Some (r, q)" "read_frame p q" "handed_out n p r"
    by (rule buffer_reader_safe [where rd = "ReadUnpadBuffer n"]) auto
  then show "\<exists>v p'. read_buffer n p = Some (v, p') \<and> read_frame p p'"
    by (simp add: read_buffer_def)
qed

lemma read_item_safe: "t \<noteq> T_BoolUnaligned \<Longrightarrow> reader_safe (read_item t)"
  by (cases t)
     (simp_all add: tagged_safe padded_value_safe scalar_reader_defs Read_value_safe Read_ref_safe
       ReadString_safe ReadString16_safe read_cstring_safe read_buffer_safe)

lemma read_items_safe: "T_BoolUnaligned \<notin> set ts \<Longrightarrow> reader_safe (read_items ts)"
proof (induction ts)
  case Nil
  show ?case by (simp add: reader_safe_def)
next
  case (Cons t ts)
  then have "reader_safe (\<lambda>p. do { (i, q) \<leftarrow> read_item t p;
      (is, r) \<leftarrow> read_items ts q; Some (i # is, r) })"
    by (intro reader_safe_bind reader_safe_map read_item_safe) auto
  then show ?case by simp
qed

section \<open>A concrete parcel\<close>

text \<open>A fresh parcel over a C heap that refuses nothing, for closed instances.\<close>

definition sample_parcel :: parcel where
  "sample_parcel = Parcel_new (DefaultAllocator 1 \<lparr>refuses = \<lambda>_. False, junk = \<lambda>_. 0xAA\<rparr>)"

lemma sample_parcel_wf: "parcel_wf sample_parcel"
  unfolding sample_parcel_def by (intro Parcel_new_wf default_alloc.Allocator_contract_axioms)

lemma sample_parcel_ample: "n \<le> DEFAULT_CPACITY \<Longrightarrow> ample sample_parcel n"
  by (auto simp: ample_def sample_parcel_def Parcel_new_def DefaultAllocator_def
    DefaultAllocator_Realloc_def DEFAULT_CPACITY_def split: option.splits)

lemma sample_parcel_plain: "plain sample_parcel" "drained sample_parcel"
  by (simp_all add: plain_def drained_def sample_parcel_def Parcel_new_def)

definition sample_items :: "parcel_item list" where
  "sample_items =
     [I_Int32 7, I_Bool True, I_Int8 0xFF, I_String [0x68, 0x69], I_Uint64 9, I_CString [0x61],
      I_String16 [0x4E2D], I_Int16Unaligned 5, I_Buffer [1, 2, 3]]"

lemma sample_items_ok: "list_all (item_ok sample_env) sample_items"
  by (simp add: sample_items_def string_ok_def string16_ok_def cstring_ok_def buffer_ok_def
    sample_env_documented)

lemma sample_items_length: "length (items_enc sample_items) \<le> DEFAULT_CPACITY"
  by (simp add: sample_items_def enc_string_def enc_string16_def GetPadSize_eq DEFAULT_CPACITY_def)

section \<open>Properties\<close>

text \<open>
  C1: the round trip of the parcel. Whatever sequence of typed values is written to a well-formed
  parcel without objects that has been read to its end, if every write reports success then reading
  the same sequence of types yields exactly the values, in order, and consumes exactly what was written.
\<close>

theorem parcel_round_trip:
  assumes "parcel_wf p" "plain p" "drained p" "list_all (item_ok E) is"
    and "write_items E is p = Some (True, q)"
  shows "\<exists>r. read_items (map item_type_of is) q = Some (map Some is, r) \<and> drained r \<and> parcel_wf r"
  using items_codec.round_trip [of E "is" "map item_type_of is" p q] assms by simp

theorem parcel_round_trip_witness:
  "\<exists>q r. write_items sample_env sample_items sample_parcel = Some (True, q) \<and>
     read_items (map item_type_of sample_items) q = Some (map Some sample_items, r)"
proof -
  obtain q where q: "write_items sample_env sample_items sample_parcel = Some (True, q)"
    using write_items_outcome [OF sample_parcel_wf sample_items_ok]
      sample_parcel_ample [OF sample_items_length] by auto
  then show ?thesis
    using parcel_round_trip [OF sample_parcel_wf sample_parcel_plain sample_items_ok q] by blast
qed

text \<open>
  C2: memory safety and effect of writing. A sequence of typed writes to a well-formed parcel never
  leaves the data region, keeps the parcel well-formed, appends a prefix of the items' encoding without
  touching what was there, appends all of it when success is reported, keeps the capacity under the
  maximum, and does report success when the parcel is writable, memory is granted and the encoding fits
  the maximum capacity.
\<close>

theorem parcel_write_outcome:
  assumes "parcel_wf p" "list_all (item_ok E) is"
  shows "\<exists>ok q pre. write_items E is p = Some (ok, q) \<and> parcel_wf q \<and> content q = content p @ pre \<and>
      prefix pre (items_enc is) \<and> (ok \<longrightarrow> pre = items_enc is) \<and>
      (dataCapacity p \<le> maxDataCapacity p \<longrightarrow> dataCapacity q \<le> maxDataCapacity p) \<and>
      (ample p (length (items_enc is)) \<longrightarrow> ok)"
proof -
  obtain ok q pre where q: "write_items E is p = Some (ok, q)" "appended p pre q"
      "prefix pre (items_enc is)" "ok \<longrightarrow> pre = items_enc is" "ample p (length (items_enc is)) \<longrightarrow> ok"
    using write_items_outcome [OF assms] by blast
  have "parcel_wf q \<and> content q = content p @ pre \<and>
      (dataCapacity p \<le> maxDataCapacity p \<longrightarrow> dataCapacity q \<le> maxDataCapacity p)"
    using q(2) by (simp add: appended_def)
  with q show ?thesis by blast
qed

theorem parcel_write_outcome_witness:
  "\<exists>q. write_items sample_env sample_items sample_parcel = Some (True, q) \<and>
     content q = content sample_parcel @ items_enc sample_items"
  using parcel_write_outcome [OF sample_parcel_wf sample_items_ok]
    sample_parcel_ample [OF sample_items_length] by auto

text \<open>
  C3: memory safety of reading. On any well-formed parcel, whatever its bytes, its cursors and its object
  table, a sequence of typed reads (all types but the unaligned \<^verbatim>\<open>bool\<close>, whose representation the code does
  not check) stays inside the data region and changes only the read cursor and the next-object index.
\<close>

theorem parcel_read_safe:
  assumes "parcel_wf p" "T_BoolUnaligned \<notin> set ts"
  shows "\<exists>vs r i. read_items ts p = Some (vs, p\<lparr>readCursor := r, nextObjectIdx := i\<rparr>)"
  using read_items_safe [OF assms(2)] assms(1) unfolding reader_safe_def read_frame_def by fastforce

theorem parcel_read_safe_witness:
  "\<exists>vs r i. read_items [T_Int32, T_String, T_Buffer 3] sample_parcel =
     Some (vs, sample_parcel\<lparr>readCursor := r, nextObjectIdx := i\<rparr>)"
  by (rule parcel_read_safe [OF sample_parcel_wf]) simp

end
