(* ===== verification/Parcel_Vector.thy ===== *)
theory Parcel_Vector
  imports Parcel_Items
begin

text \<open>
  Vectors in a parcel: the templates \<^verbatim>\<open>WriteVector\<close>, \<^verbatim>\<open>WriteFixedAlignVector\<close>, \<^verbatim>\<open>ReadVector\<close> and
  \<^verbatim>\<open>ReadFixedAlignVector\<close>, their typed instances, and the readers of string vectors. A vector is a list;
  a read takes the old contents (\<^const>\<open>None\<close> for a null pointer) and returns the contents afterwards, also
  after a failure half way. Exceptions of \<^verbatim>\<open>resize\<close> are not modelled.
\<close>

section \<open>Templates\<close>

fun write_each :: "('a \<Rightarrow> parcel \<Rightarrow> (bool \<times> parcel) option) \<Rightarrow> 'a list \<Rightarrow> parcel \<Rightarrow> (bool \<times> parcel) option" where
  "write_each Write [] p = Some (True, p)"
| "write_each Write (v # vs) p = do {
     (ok, p1) \<leftarrow> Write v p;
     if \<not> ok then Some (False, p1) else write_each Write vs p1
   }"

definition WriteVector ::
    "nat \<Rightarrow> ('a \<Rightarrow> parcel \<Rightarrow> (bool \<times> parcel) option) \<Rightarrow> 'a list \<Rightarrow> parcel \<Rightarrow> (bool \<times> parcel) option" where
  "WriteVector sizeof_T1 Write val p =
     (if int (length val) > INT32_MAX then Some (False, p)
      else do {
        (ok, p1) \<leftarrow> WriteInt32 (of_nat (length val)) p;
        if \<not> ok then Some (False, p1)
        else do {
          (ok2, p2) \<leftarrow> write_each Write val p1;
          if \<not> ok2 then Some (False, p2)
          else let padSize = GetPadSize (size_mul (length val) sizeof_T1);
                   (ok3, p3) = EnsureWritableCapacity padSize p2
               in if \<not> ok3 then Some (False, p3)
                  else do { p4 \<leftarrow> WritePadBytes padSize p3; Some (True, p4) }
        }
      })"

definition WriteFixedAlignVector ::
    "nat \<Rightarrow> ('a \<Rightarrow> parcel \<Rightarrow> (bool \<times> parcel) option) \<Rightarrow> 'a list \<Rightarrow> parcel \<Rightarrow> (bool \<times> parcel) option" where
  "WriteFixedAlignVector sizeof_Type SpecialWrite originVal p =
     (if int (length originVal) > INT32_MAX then Some (False, p)
      else do {
        (ok, p1) \<leftarrow> WriteInt32 (of_nat (length originVal)) p;
        if \<not> ok then Some (False, p1)
        else do {
          (ok2, p2) \<leftarrow> write_each SpecialWrite originVal p1;
          if \<not> ok2 then Some (False, p2)
          else let padSize = GetPadSize (size_mul (length originVal) sizeof_Type);
                   (ok3, p3) = EnsureWritableCapacity padSize p2
               in if \<not> ok3 then Some (False, p3)
                  else do { p4 \<leftarrow> WritePadBytes padSize p3; Some (True, p4) }
        }
      })"

text \<open>\<^verbatim>\<open>std::vector\<close>: the largest number of elements of a size, and \<^verbatim>\<open>resize\<close>.\<close>

definition vector_max_size :: "nat \<Rightarrow> nat" where
  "vector_max_size sizeof_T = (2 ^ 63 - 1) div sizeof_T"

definition vector_resize :: "'a \<Rightarrow> nat \<Rightarrow> 'a list \<Rightarrow> 'a list" where
  "vector_resize dflt n val = take n val @ replicate (n - length val) dflt"

fun read_each ::
    "('a \<Rightarrow> parcel \<Rightarrow> ((bool \<times> 'a) \<times> parcel) option) \<Rightarrow> 'a list \<Rightarrow> parcel \<Rightarrow> ((bool \<times> 'a list) \<times> parcel) option" where
  "read_each Read [] p = Some ((True, []), p)"
| "read_each Read (v # vs) p = do {
     ((ok, v'), p1) \<leftarrow> Read v p;
     if \<not> ok then Some ((False, v' # vs), p1)
     else do {
       ((ok2, vs'), p2) \<leftarrow> read_each Read vs p1;
       Some ((ok2, v' # vs'), p2)
     }
   }"

definition ReadVector ::
    "nat \<Rightarrow> 'a \<Rightarrow> ('a \<Rightarrow> parcel \<Rightarrow> ((bool \<times> 'a) \<times> parcel) option) \<Rightarrow> 'a list option \<Rightarrow> parcel \<Rightarrow>
     ((bool \<times> 'a list option) \<times> parcel) option" where
  "ReadVector sizeof_T dflt Read vec p =
     (case vec of
        None \<Rightarrow> Some ((False, None), p)
      | Some val \<Rightarrow> do {
          (len, p1) \<leftarrow> ReadInt32 p;
          if sint len < 0 then Some ((False, Some val), p1)
          else let readAbleSize = GetReadableBytes p1 div sizeof_T; sz = unat len in
            if sz > readAbleSize \<or> sz > vector_max_size sizeof_T then Some ((False, Some val), p1)
            else do {
              ((ok, val'), p2) \<leftarrow> read_each Read (vector_resize dflt sz val) p1;
              if \<not> ok then Some ((False, Some val'), p2)
              else Some ((True, Some val'), SkipBytes (GetPadSize (size_mul sz sizeof_T)) p2)
            }
        })"

text \<open>In \<^verbatim>\<open>ReadFixedAlignVector\<close> an element is read into a fresh variable \<open>tmp\<close> and stored on success only.\<close>

fun read_each_fixed ::
    "'a \<Rightarrow> ('a \<Rightarrow> parcel \<Rightarrow> ((bool \<times> 'a) \<times> parcel) option) \<Rightarrow> 'a list \<Rightarrow> parcel \<Rightarrow> ((bool \<times> 'a list) \<times> parcel) option" where
  "read_each_fixed tmp SpecialRead [] p = Some ((True, []), p)"
| "read_each_fixed tmp SpecialRead (v # vs) p = do {
     ((ok, parcelVal), p1) \<leftarrow> SpecialRead tmp p;
     if \<not> ok then Some ((False, v # vs), p1)
     else do {
       ((ok2, vs'), p2) \<leftarrow> read_each_fixed tmp SpecialRead vs p1;
       Some ((ok2, parcelVal # vs'), p2)
     }
   }"

definition ReadFixedAlignVector ::
    "nat \<Rightarrow> 'a \<Rightarrow> ('a \<Rightarrow> parcel \<Rightarrow> ((bool \<times> 'a) \<times> parcel) option) \<Rightarrow> 'a list option \<Rightarrow> parcel \<Rightarrow>
     ((bool \<times> 'a list option) \<times> parcel) option" where
  "ReadFixedAlignVector sizeof_Type dflt SpecialRead vec p =
     (case vec of
        None \<Rightarrow> Some ((False, None), p)
      | Some val \<Rightarrow> do {
          (len, p1) \<leftarrow> ReadInt32 p;
          if sint len < 0 then Some ((False, Some val), p1)
          else let readAbleSize = GetReadableBytes p1 div sizeof_Type; sz = unat len in
            if sz > readAbleSize \<or> sz > vector_max_size sizeof_Type then Some ((False, Some val), p1)
            else do {
              ((ok, val'), p2) \<leftarrow> read_each_fixed dflt SpecialRead (vector_resize dflt sz val) p1;
              if \<not> ok then Some ((False, Some val'), p2)
              else Some ((True, Some val'), SkipBytes (GetPadSize (size_mul sz sizeof_Type)) p2)
            }
        })"

section \<open>Typed vectors\<close>

text \<open>\<^verbatim>\<open>sizeof(std::string)\<close> and \<^verbatim>\<open>sizeof(std::u16string)\<close> of the toolchain's standard library.\<close>

definition SIZEOF_STRING :: nat where
  "SIZEOF_STRING = 24"

definition WriteBoolVector :: "bool list \<Rightarrow> parcel \<Rightarrow> (bool \<times> parcel) option" where
  "WriteBoolVector val = WriteFixedAlignVector 4 WriteBool val"

definition WriteInt8Vector :: "8 word list \<Rightarrow> parcel \<Rightarrow> (bool \<times> parcel) option" where
  "WriteInt8Vector val = WriteVector 1 WriteInt8Unaligned val"

definition WriteInt16Vector :: "16 word list \<Rightarrow> parcel \<Rightarrow> (bool \<times> parcel) option" where
  "WriteInt16Vector val = WriteFixedAlignVector 4 WriteInt16 val"

definition WriteInt32Vector :: "32 word list \<Rightarrow> parcel \<Rightarrow> (bool \<times> parcel) option" where
  "WriteInt32Vector val = WriteVector 4 WriteInt32 val"

definition WriteInt64Vector :: "64 word list \<Rightarrow> parcel \<Rightarrow> (bool \<times> parcel) option" where
  "WriteInt64Vector val = WriteVector 8 WriteInt64 val"

definition WriteUInt8Vector :: "8 word list \<Rightarrow> parcel \<Rightarrow> (bool \<times> parcel) option" where
  "WriteUInt8Vector val = WriteVector 1 WriteUint8Unaligned val"

definition WriteUInt16Vector :: "16 word list \<Rightarrow> parcel \<Rightarrow> (bool \<times> parcel) option" where
  "WriteUInt16Vector val = WriteVector 2 WriteUint16Unaligned val"

definition WriteUInt32Vector :: "32 word list \<Rightarrow> parcel \<Rightarrow> (bool \<times> parcel) option" where
  "WriteUInt32Vector val = WriteVector 4 WriteUint32 val"

definition WriteUInt64Vector :: "64 word list \<Rightarrow> parcel \<Rightarrow> (bool \<times> parcel) option" where
  "WriteUInt64Vector val = WriteVector 8 WriteUint64 val"

definition WriteFloatVector :: "32 word list \<Rightarrow> parcel \<Rightarrow> (bool \<times> parcel) option" where
  "WriteFloatVector val = WriteVector 4 WriteFloat val"

definition WriteDoubleVector :: "64 word list \<Rightarrow> parcel \<Rightarrow> (bool \<times> parcel) option" where
  "WriteDoubleVector val = WriteVector 8 WriteDouble val"

definition WriteStringVector :: "parcel_env \<Rightarrow> byte list list \<Rightarrow> parcel \<Rightarrow> (bool \<times> parcel) option" where
  "WriteStringVector E val = WriteVector SIZEOF_STRING (WriteString E) val"

definition WriteString16Vector :: "parcel_env \<Rightarrow> 16 word list list \<Rightarrow> parcel \<Rightarrow> (bool \<times> parcel) option" where
  "WriteString16Vector E val = WriteVector SIZEOF_STRING (WriteString16 E) val"

definition ReadBoolVector :: "bool list option \<Rightarrow> parcel \<Rightarrow> ((bool \<times> bool list option) \<times> parcel) option" where
  "ReadBoolVector val = ReadFixedAlignVector 4 False ReadBool_ref val"

definition ReadInt8Vector :: "8 word list option \<Rightarrow> parcel \<Rightarrow> ((bool \<times> 8 word list option) \<times> parcel) option" where
  "ReadInt8Vector val = ReadVector 1 0 ReadInt8Unaligned_ref val"

definition ReadInt16Vector :: "16 word list option \<Rightarrow> parcel \<Rightarrow> ((bool \<times> 16 word list option) \<times> parcel) option" where
  "ReadInt16Vector val = ReadFixedAlignVector 4 0 ReadInt16_ref val"

definition ReadInt32Vector :: "32 word list option \<Rightarrow> parcel \<Rightarrow> ((bool \<times> 32 word list option) \<times> parcel) option" where
  "ReadInt32Vector val = ReadVector 4 0 ReadInt32_ref val"

definition ReadInt64Vector :: "64 word list option \<Rightarrow> parcel \<Rightarrow> ((bool \<times> 64 word list option) \<times> parcel) option" where
  "ReadInt64Vector val = ReadVector 8 0 ReadInt64_ref val"

definition ReadUInt8Vector :: "8 word list option \<Rightarrow> parcel \<Rightarrow> ((bool \<times> 8 word list option) \<times> parcel) option" where
  "ReadUInt8Vector val = ReadVector 1 0 ReadUint8Unaligned_ref val"

definition ReadUInt16Vector :: "16 word list option \<Rightarrow> parcel \<Rightarrow> ((bool \<times> 16 word list option) \<times> parcel) option" where
  "ReadUInt16Vector val = ReadVector 2 0 ReadUint16Unaligned_ref val"

definition ReadUInt32Vector :: "32 word list option \<Rightarrow> parcel \<Rightarrow> ((bool \<times> 32 word list option) \<times> parcel) option" where
  "ReadUInt32Vector val = ReadVector 4 0 ReadUint32_ref val"

definition ReadUInt64Vector :: "64 word list option \<Rightarrow> parcel \<Rightarrow> ((bool \<times> 64 word list option) \<times> parcel) option" where
  "ReadUInt64Vector val = ReadVector 8 0 ReadUint64_ref val"

definition ReadFloatVector :: "32 word list option \<Rightarrow> parcel \<Rightarrow> ((bool \<times> 32 word list option) \<times> parcel) option" where
  "ReadFloatVector val = ReadVector 4 0 ReadFloat_ref val"

definition ReadDoubleVector :: "64 word list option \<Rightarrow> parcel \<Rightarrow> ((bool \<times> 64 word list option) \<times> parcel) option" where
  "ReadDoubleVector val = ReadVector 8 0 ReadDouble_ref val"

text \<open>The loops of the string vector readers, which ignore failures of single strings.\<close>

fun read_each_value :: "(parcel \<Rightarrow> ('a \<times> parcel) option) \<Rightarrow> nat \<Rightarrow> parcel \<Rightarrow> ('a list \<times> parcel) option" where
  "read_each_value Read 0 p = Some ([], p)"
| "read_each_value Read (Suc n) p = do {
     (v, p1) \<leftarrow> Read p;
     (vs, p2) \<leftarrow> read_each_value Read n p1;
     Some (v # vs, p2)
   }"

definition ReadStringVector ::
    "byte list list option \<Rightarrow> parcel \<Rightarrow> ((bool \<times> byte list list option) \<times> parcel) option" where
  "ReadStringVector vec p =
     (case vec of
        None \<Rightarrow> Some ((False, None), p)
      | Some val \<Rightarrow> do {
          (len, p1) \<leftarrow> ReadInt32 p;
          if sint len < 0 then Some ((False, Some val), p1)
          else let readAbleSize = GetReadableBytes p1; sz = unat len in
            if sz > readAbleSize \<or> vector_max_size SIZEOF_STRING < sz then Some ((False, Some val), p1)
            else do {
              (val', p2) \<leftarrow> read_each_value ReadString sz p1;
              Some ((True, Some val'), p2)
            }
        })"

definition ReadString16Vector ::
    "16 word list list option \<Rightarrow> parcel \<Rightarrow> ((bool \<times> 16 word list list option) \<times> parcel) option" where
  "ReadString16Vector vec p =
     (case vec of
        None \<Rightarrow> Some ((False, None), p)
      | Some val \<Rightarrow> do {
          (len, p1) \<leftarrow> ReadInt32 p;
          if sint len < 0 then Some ((False, Some val), p1)
          else let readAbleSize = GetReadableBytes p1; sz = unat len in
            if sz > readAbleSize \<or> vector_max_size SIZEOF_STRING < sz then Some ((False, Some val), p1)
            else do {
              (val', p2) \<leftarrow> read_each_value ReadString16 sz p1;
              Some ((True, Some val'), p2)
            }
        })"

section \<open>Writing a vector\<close>

lemma write_each_spec:
  "list_all (\<lambda>v. writer_spec (wr v) (enc v)) vs \<Longrightarrow> writer_spec (write_each wr vs) (concat (map enc vs))"
proof (induction vs)
  case Nil
  show ?case by (auto intro!: writer_specI)
next
  case (Cons v vs)
  then have "writer_spec (\<lambda>p. do { (ok, q) \<leftarrow> wr v p; if \<not> ok then Some (False, q)
      else write_each wr vs q }) (enc v @ concat (map enc vs))"
    by (intro writer_spec_seq) simp_all
  then show ?case by simp
qed

text \<open>Padding after at least four written bytes.\<close>

definition ensure_and_pad :: "nat \<Rightarrow> parcel \<Rightarrow> (bool \<times> parcel) option" where
  "ensure_and_pad k p =
     (let (ok, q) = EnsureWritableCapacity k p
      in if \<not> ok then Some (False, q) else do { r \<leftarrow> WritePadBytes k q; Some (True, r) })"

lemma ensure_and_pad_cases:
  assumes wf: "parcel_wf p" and d: "data p \<noteq> None" "4 \<le> writeCursor p" and k: "k < 4"
  obtains (refused) "ensure_and_pad k p = Some (False, p)" "\<not> ample p k"
  | (padded) q where "ensure_and_pad k p = Some (True, q)" "appended p (replicate k 0) q"
proof -
  obtain ok q where e: "EnsureWritableCapacity k p = (ok, q)"
    by (cases "EnsureWritableCapacity k p")
  show ?thesis
  proof (cases ok)
    case False
    then have "q = p" "\<not> ample p k"
      using e Ensure_false [of k p] Ensure_ample [OF wf, of k] d by auto
    then show ?thesis
      using refused e False by (simp add: ensure_and_pad_def)
  next
    case True
    have "k \<le> 2 ^ 63" using k by simp
    note q = Ensure_true [OF wf this, of q]
    have e': "EnsureWritableCapacity k p = (True, q)" using e True by simp
    note q = q [OF e']
    have "4 \<le> writeCursor q + k"
      using appended_fields(2) [OF q(1)] d by simp
    then obtain r where "WritePadBytes k q = Some r" "appended q (replicate k 0) r"
      using WritePadBytes_appends [OF appended_wf [OF q(1)] q(4,3) k q(2)] by blast
    then show ?thesis
      using padded [of r] e' appended_trans [OF q(1)] by (simp add: ensure_and_pad_def)
  qed
qed

lemma writer_then_pad:
  assumes w: "writer_spec w bs" "4 \<le> length bs" and k: "k < 4"
  shows "writer_spec (\<lambda>p. do { (ok, q) \<leftarrow> w p; if \<not> ok then Some (False, q) else ensure_and_pad k q })
    (bs @ replicate k 0)"
proof (rule writer_specI)
  let ?W = "\<lambda>p. do { (ok, q) \<leftarrow> w p; if \<not> ok then Some (False, q) else ensure_and_pad k q }"
  fix p assume wf: "parcel_wf p"
  obtain ok q pre where q: "w p = Some (ok, q)" "appended p pre q" "prefix pre bs" "ok \<Longrightarrow> pre = bs"
      "ample p (length bs) \<Longrightarrow> ok"
    using w(1) wf by (rule writer_specE) blast
  have less: "ample p (length (bs @ replicate k 0)) \<Longrightarrow> ample p (length bs)"
    by (simp add: ample_def)
  show "\<exists>ok p' pre. ?W p = Some (ok, p') \<and> appended p pre p' \<and> prefix pre (bs @ replicate k 0) \<and>
      (ok \<longrightarrow> pre = bs @ replicate k 0) \<and> (ample p (length (bs @ replicate k 0)) \<longrightarrow> ok)"
  proof (cases ok)
    case False
    then show ?thesis
      using q less by (intro writer_fails [of ?W p q pre]) (auto intro: prefix_prefix)
  next
    case True
    then have a: "appended p bs q" using q by simp
    have wq: "parcel_wf q" using appended_wf [OF a] .
    have "content q \<noteq> []"
      using appended_content [OF a] w(2) by auto
    then have d: "data q \<noteq> None"
      by (cases "data q") (auto simp: content_def)
    have c: "4 \<le> writeCursor q"
      using appended_fields(2) [OF a] w(2) by simp
    show ?thesis
    proof (cases rule: ensure_and_pad_cases [OF wq d c k])
      case 1
      have "\<not> ample p (length (bs @ replicate k 0))"
        using 1(2) appended_ample [OF a, of k] by auto
      then show ?thesis
        using True q(1) 1 a by (intro writer_fails [of ?W p q bs]) auto
    next
      case (2 r)
      then show ?thesis
        using True q(1) appended_trans [OF a 2(2)] by (intro writer_succeeds) auto
    qed
  qed
qed

definition enc_vector :: "nat \<Rightarrow> ('a \<Rightarrow> byte list) \<Rightarrow> 'a list \<Rightarrow> byte list" where
  "enc_vector width enc vs =
     (le_bytes 4 (of_nat (length vs) :: 32 word) @ concat (map enc vs)) @
     replicate (GetPadSize (size_mul (length vs) width)) 0"

lemma WriteVector_spec:
  assumes "list_all (\<lambda>v. writer_spec (wr v) (enc v)) vs" "int (length vs) \<le> INT32_MAX"
  shows "writer_spec (WriteVector width wr vs) (enc_vector width enc vs)"
proof -
  let ?k = "GetPadSize (size_mul (length vs) width)" and ?n = "of_nat (length vs) :: 32 word"
  have "writer_spec (WriteInt32 ?n) (le_bytes 4 ?n)"
    by (rule int32_codec.writes [OF TrueI])
  then have "writer_spec (\<lambda>p. do { (ok, q) \<leftarrow> WriteInt32 ?n p; if \<not> ok then Some (False, q)
      else write_each wr vs q }) (le_bytes 4 ?n @ concat (map enc vs))"
    using write_each_spec [OF assms(1)] by (rule writer_spec_seq)
  from writer_then_pad [OF this _ GetPadSize_less [of "size_mul (length vs) width"]]
  have "writer_spec (\<lambda>p. do { (ok, q) \<leftarrow> do { (ok, q) \<leftarrow> WriteInt32 ?n p; if \<not> ok then Some (False, q)
      else write_each wr vs q }; if \<not> ok then Some (False, q) else ensure_and_pad ?k q })
      (enc_vector width enc vs)"
    by (simp add: enc_vector_def)
  moreover have "WriteVector width wr vs = (\<lambda>p. do { (ok, q) \<leftarrow> do { (ok, q) \<leftarrow> WriteInt32 ?n p;
      if \<not> ok then Some (False, q) else write_each wr vs q };
      if \<not> ok then Some (False, q) else ensure_and_pad ?k q })"
    using assms(2)
    by (auto simp: WriteVector_def fun_eq_iff ensure_and_pad_def Let_def split: prod.split
      intro!: Option.bind_cong)
  ultimately show ?thesis by simp
qed

lemma WriteFixedAlignVector_eq: "WriteFixedAlignVector = WriteVector"
  by (simp add: fun_eq_iff WriteFixedAlignVector_def WriteVector_def)

section \<open>Reading a vector\<close>

lemma read_each_reads:
  assumes "\<And>old v. v \<in> set vs \<Longrightarrow> reader_spec (rd old) (enc v) (True, v)" "length old = length vs"
  shows "reader_spec (read_each rd old) (concat (map enc vs)) (True, vs)"
  using assms
proof (induction vs arbitrary: old)
  case Nil
  then show ?case by (simp add: reader_spec_def)
next
  case (Cons v vs)
  then obtain x xs where old: "old = x # xs" "length xs = length vs"
    by (cases old) auto
  let ?k = "\<lambda>(ok, v') q. if \<not> ok then Some ((False, v' # xs), q)
      else do { ((ok2, vs'), r) \<leftarrow> read_each rd xs q; Some ((ok2, v' # vs'), r) }"
  have "reader_spec (read_each rd xs) (concat (map enc vs)) (True, vs)"
    using Cons old by auto
  then have "reader_spec (?k (True, v)) (concat (map enc vs)) (True, v # vs)"
    by (auto simp: reader_spec_def)
  with Cons.prems(1) [of v x] have "reader_spec (\<lambda>p. do { (r, q) \<leftarrow> rd x p; ?k r q })
      (enc v @ concat (map enc vs)) (True, v # vs)"
    by (intro reader_spec_bind) auto
  then show ?case
    by (simp add: old split_def)
qed

lemma read_each_fixed_reads:
  assumes "\<And>v. v \<in> set vs \<Longrightarrow> reader_spec (rd tmp) (enc v) (True, v)" "length old = length vs"
  shows "reader_spec (read_each_fixed tmp rd old) (concat (map enc vs)) (True, vs)"
  using assms
proof (induction vs arbitrary: old)
  case Nil
  then show ?case by (simp add: reader_spec_def)
next
  case (Cons v vs)
  then obtain x xs where old: "old = x # xs" "length xs = length vs"
    by (cases old) auto
  let ?k = "\<lambda>(ok, v') q. if \<not> ok then Some ((False, x # xs), q)
      else do { ((ok2, vs'), r) \<leftarrow> read_each_fixed tmp rd xs q; Some ((ok2, v' # vs'), r) }"
  have "reader_spec (read_each_fixed tmp rd xs) (concat (map enc vs)) (True, vs)"
    using Cons old by auto
  then have "reader_spec (?k (True, v)) (concat (map enc vs)) (True, v # vs)"
    by (auto simp: reader_spec_def)
  with Cons.prems(1) [of v] have "reader_spec (\<lambda>p. do { (r, q) \<leftarrow> rd tmp p; ?k r q })
      (enc v @ concat (map enc vs)) (True, v # vs)"
    by (intro reader_spec_bind) auto
  then show ?case
    by (simp add: old split_def)
qed

lemma length_vector_resize [simp]: "length (vector_resize d n xs) = n"
  by (simp add: vector_resize_def)

lemma concat_width: "(\<And>v. length (enc v) = w) \<Longrightarrow> length (concat (map enc vs)) = length vs * w"
  by (induction vs) auto

text \<open>The part of a vector read after its length, shared by the two templates.\<close>

definition read_vector_body ::
    "nat \<Rightarrow> ('a list \<Rightarrow> parcel \<Rightarrow> ((bool \<times> 'a list) \<times> parcel) option) \<Rightarrow> 'a \<Rightarrow> 'a list \<Rightarrow> 32 word \<Rightarrow> parcel \<Rightarrow>
     ((bool \<times> 'a list option) \<times> parcel) option" where
  "read_vector_body w each dflt val len p1 =
     (if sint len < 0 then Some ((False, Some val), p1)
      else let readAbleSize = GetReadableBytes p1 div w; sz = unat len in
        if sz > readAbleSize \<or> sz > vector_max_size w then Some ((False, Some val), p1)
        else do {
          ((ok, val'), p2) \<leftarrow> each (vector_resize dflt sz val) p1;
          if \<not> ok then Some ((False, Some val'), p2)
          else Some ((True, Some val'), SkipBytes (GetPadSize (size_mul sz w)) p2)
        })"

lemma ReadVector_body:
  "ReadVector w dflt rd (Some val) =
     (\<lambda>p. do { (len, p1) \<leftarrow> ReadInt32 p; read_vector_body w (read_each rd) dflt val len p1 })"
  "ReadFixedAlignVector w dflt rd (Some val) =
     (\<lambda>p. do { (len, p1) \<leftarrow> ReadInt32 p; read_vector_body w (read_each_fixed dflt rd) dflt val len p1 })"
  by (simp_all add: fun_eq_iff ReadVector_def ReadFixedAlignVector_def read_vector_body_def)

lemma read_vector_body_reads:
  assumes each: "\<And>old. length old = length vs \<Longrightarrow> reader_spec (each old) bs (True, vs)"
    and len: "length bs = length vs * w" "0 < w" "w \<le> 8" "int (length vs) \<le> INT32_MAX"
  shows "reader_spec (read_vector_body w each dflt val (of_nat (length vs)))
    (bs @ replicate (GetPadSize (size_mul (length vs) w)) 0) (True, Some vs)"
proof (rule reader_specI)
  fix p rest
  let ?n = "length vs" and ?k = "GetPadSize (size_mul (length vs) w)"
  assume p: "parcel_wf p" "plain p" "unread p = (bs @ replicate ?k 0) @ rest"
  then have u: "unread p = bs @ replicate ?k 0 @ rest" by simp
  have n: "sint (of_nat ?n :: 32 word) = int ?n" "unat (of_nat ?n :: 32 word) = ?n"
    using len(4) to_int32_small [of ?n] by (simp_all add: to_int32_def unat_of_nat)
  have "?n * w div w \<le> GetReadableBytes p div w"
    using unread_readable [OF p(1) u] len(1) by (intro div_le_mono) simp
  then have fits: "?n \<le> GetReadableBytes p div w"
    using len(2) by simp
  have "?n \<le> vector_max_size w"
  proof -
    have "?n * w \<le> ?n * 8"
      using len(3) by simp
    also have "\<dots> \<le> 2 ^ 63 - 1"
      using len(4) by simp
    finally have "?n * w \<le> 2 ^ 63 - 1" .
    then show ?thesis
      using len(2) by (simp add: vector_max_size_def less_eq_div_iff_mult_less_eq)
  qed
  moreover have "each (vector_resize dflt ?n val) p = Some ((True, vs), advance (length bs) p)"
    using each [of "vector_resize dflt ?n val"] p(1,2) u by (intro reader_specD) auto
  moreover have "SkipBytes ?k (advance (length bs) p) = advance (length bs + ?k) p"
    using SkipBytes_advance [OF advance_wf [OF p(1) u], of "replicate ?k 0" rest] u by simp
  ultimately show "read_vector_body w each dflt val (of_nat ?n) p =
      Some ((True, Some vs), advance (length (bs @ replicate ?k 0)) p)"
    using n fits by (simp add: read_vector_body_def Let_def)
qed

lemma vector_reads:
  assumes "\<And>old. length old = length vs \<Longrightarrow> reader_spec (each old) (concat (map enc vs)) (True, vs)"
    and "\<And>v. length (enc v) = w" "0 < w" "w \<le> 8" "int (length vs) \<le> INT32_MAX"
  shows "reader_spec (\<lambda>p. do { (len, p1) \<leftarrow> ReadInt32 p; read_vector_body w each dflt val len p1 })
    (enc_vector w enc vs) (True, Some vs)"
  unfolding enc_vector_def append.assoc
proof (rule reader_spec_bind)
  show "reader_spec ReadInt32 (le_bytes 4 (of_nat (length vs) :: 32 word)) (of_nat (length vs))"
    using int32_codec.reads [OF TrueI] by simp
  show "reader_spec (read_vector_body w each dflt val (of_nat (length vs)))
      (concat (map enc vs) @ replicate (GetPadSize (size_mul (length vs) w)) 0) (True, Some vs)"
    by (intro read_vector_body_reads assms concat_width)
qed

section \<open>Vectors are codecs\<close>

text \<open>
  A codec for elements of a fixed width, read through a reference, gives a codec for vectors of them: the
  contract of \<^verbatim>\<open>WriteVector\<close> and \<^verbatim>\<open>ReadVector\<close>.
\<close>

locale element_codec =
  fixes wr :: "'v \<Rightarrow> parcel \<Rightarrow> (bool \<times> parcel) option"
    and rd :: "'v \<Rightarrow> parcel \<Rightarrow> ((bool \<times> 'v) \<times> parcel) option"
    and enc :: "'v \<Rightarrow> byte list"
    and width :: nat
    and dflt :: 'v
    and val :: "'v list"
  assumes elem_writes: "writer_spec (wr v) (enc v)"
    and elem_reads: "reader_spec (rd old) (enc v) (True, v)"
    and elem_width: "length (enc v) = width" "0 < width" "width \<le> 8"
begin

lemma vector_writes:
  "int (length vs) \<le> INT32_MAX \<Longrightarrow> writer_spec (WriteVector width wr vs) (enc_vector width enc vs)"
  using WriteVector_spec [of wr enc vs] elem_writes by (simp add: list_all_iff)

lemma vector_read:
  "int (length vs) \<le> INT32_MAX \<Longrightarrow>
   reader_spec (ReadVector width dflt rd (Some val)) (enc_vector width enc vs) (True, Some vs)"
  unfolding ReadVector_body
  using elem_reads elem_width by (intro vector_reads read_each_reads) auto

lemma vector_read_fixed:
  "int (length vs) \<le> INT32_MAX \<Longrightarrow>
   reader_spec (ReadFixedAlignVector width dflt rd (Some val)) (enc_vector width enc vs) (True, Some vs)"
  unfolding ReadVector_body
  using elem_reads elem_width by (intro vector_reads read_each_fixed_reads) auto

end

sublocale element_codec \<subseteq> vec: parcel_codec "WriteVector width wr" "ReadVector width dflt rd (Some val)"
    "enc_vector width enc" "\<lambda>vs. (True, Some vs)" "\<lambda>vs. int (length vs) \<le> INT32_MAX"
  by unfold_locales (simp_all add: vector_writes vector_read)

sublocale element_codec \<subseteq> fixed: parcel_codec "WriteFixedAlignVector width wr"
    "ReadFixedAlignVector width dflt rd (Some val)" "enc_vector width enc" "\<lambda>vs. (True, Some vs)"
    "\<lambda>vs. int (length vs) \<le> INT32_MAX"
  by unfold_locales (simp_all add: WriteFixedAlignVector_eq vector_writes vector_read_fixed)

interpretation bool_vector: element_codec WriteBool ReadBool_ref "\<lambda>b. le_bytes 4 (of_bool b :: 32 word)" 4 False val for val
  by unfold_locales (simp_all add: bool_codec.writes [simplified] padded_scalar_ref_reads(1))

interpretation int8_vector: element_codec WriteInt8Unaligned ReadInt8Unaligned_ref "\<lambda>v. [v]" 1 0 val for val
  by unfold_locales (simp_all add: int8_unaligned_codec.writes [simplified] int8_unaligned_codec.reads [simplified])

interpretation int16_vector: element_codec WriteInt16 ReadInt16_ref "\<lambda>v. le_bytes 4 (scast v :: 32 word)" 4 0 val for val
  by unfold_locales (simp_all add: int16_ref_codec.writes [simplified] int16_ref_codec.reads [simplified])

interpretation int32_vector: element_codec WriteInt32 ReadInt32_ref "le_bytes 4" 4 0 val for val
  by unfold_locales (simp_all add: int32_ref_codec.writes [simplified] int32_ref_codec.reads [simplified])

interpretation int64_vector: element_codec WriteInt64 ReadInt64_ref "le_bytes 8" 8 0 val for val
  by unfold_locales (simp_all add: int64_ref_codec.writes [simplified] int64_ref_codec.reads [simplified])

interpretation uint8_vector: element_codec WriteUint8Unaligned ReadUint8Unaligned_ref "\<lambda>v. [v]" 1 0 val for val
  by unfold_locales (simp_all add: uint8_unaligned_codec.writes [simplified] uint8_unaligned_codec.reads [simplified])

interpretation uint16_vector: element_codec WriteUint16Unaligned ReadUint16Unaligned_ref "le_bytes 2" 2 0 val for val
  by unfold_locales (simp_all add: uint16_unaligned_codec.writes [simplified] uint16_unaligned_codec.reads [simplified])

interpretation uint32_vector: element_codec WriteUint32 ReadUint32_ref "le_bytes 4" 4 0 val for val
  by unfold_locales (simp_all add: uint32_ref_codec.writes [simplified] uint32_ref_codec.reads [simplified])

interpretation uint64_vector: element_codec WriteUint64 ReadUint64_ref "le_bytes 8" 8 0 val for val
  by unfold_locales (simp_all add: uint64_ref_codec.writes [simplified] uint64_ref_codec.reads [simplified])

interpretation float_vector: element_codec WriteFloat ReadFloat_ref "le_bytes 4" 4 0 val for val
  by unfold_locales (simp_all add: float_ref_codec.writes [simplified] float_ref_codec.reads [simplified])

interpretation double_vector: element_codec WriteDouble ReadDouble_ref "le_bytes 8" 8 0 val for val
  by unfold_locales (simp_all add: double_ref_codec.writes [simplified] double_ref_codec.reads [simplified])

text \<open>String vectors: the elements carry their own length and padding, the vector adds none.\<close>

lemma read_each_value_reads:
  "list_all (\<lambda>v. reader_spec rd (enc v) v) vs \<Longrightarrow>
   reader_spec (read_each_value rd (length vs)) (concat (map enc vs)) vs"
proof (induction vs)
  case Nil
  show ?case by (simp add: reader_spec_def)
next
  case (Cons v vs)
  have "reader_spec (\<lambda>p. do { (xs, r) \<leftarrow> read_each_value rd (length vs) p; Some (v # xs, r) })
      (concat (map enc vs)) (v # vs)"
    using Cons by (intro reader_spec_map [where f = "Cons v"]) auto
  with Cons.prems have "reader_spec (\<lambda>p. do { (x, q) \<leftarrow> rd p;
      (xs, r) \<leftarrow> read_each_value rd (length vs) q; Some (x # xs, r) }) (enc v @ concat (map enc vs)) (v # vs)"
    by (intro reader_spec_bind) auto
  then show ?case by simp
qed

lemma concat_length_ge:
  "(\<And>v. 1 \<le> length (enc v)) \<Longrightarrow> length vs \<le> length (concat (map enc vs))"
proof (induction vs)
  case (Cons v vs)
  then show ?case using Cons.prems [of v] by fastforce
qed simp

definition read_value_body ::
    "(parcel \<Rightarrow> ('a \<times> parcel) option) \<Rightarrow> 'a list \<Rightarrow> 32 word \<Rightarrow> parcel \<Rightarrow> ((bool \<times> 'a list option) \<times> parcel) option" where
  "read_value_body rd val len p1 =
     (if sint len < 0 then Some ((False, Some val), p1)
      else let readAbleSize = GetReadableBytes p1; sz = unat len in
        if sz > readAbleSize \<or> vector_max_size SIZEOF_STRING < sz then Some ((False, Some val), p1)
        else do {
          (val', p2) \<leftarrow> read_each_value rd sz p1;
          Some ((True, Some val'), p2)
        })"

lemma ReadStringVector_body:
  "ReadStringVector (Some val) = (\<lambda>p. do { (len, p1) \<leftarrow> ReadInt32 p; read_value_body ReadString val len p1 })"
  by (simp add: fun_eq_iff ReadStringVector_def read_value_body_def)

lemma ReadString16Vector_body:
  "ReadString16Vector (Some val) = (\<lambda>p. do { (len, p1) \<leftarrow> ReadInt32 p; read_value_body ReadString16 val len p1 })"
  by (simp add: fun_eq_iff ReadString16Vector_def read_value_body_def)

lemma value_vector_reads:
  assumes "list_all (\<lambda>v. reader_spec rd (enc v) v) vs" "\<And>v. 1 \<le> length (enc v)" "int (length vs) \<le> INT32_MAX"
  shows "reader_spec (\<lambda>p. do { (len, p1) \<leftarrow> ReadInt32 p; read_value_body rd val len p1 })
    (enc_vector SIZEOF_STRING enc vs) (True, Some vs)"
proof -
  let ?n = "of_nat (length vs) :: 32 word"
  have pad: "GetPadSize (size_mul (length vs) SIZEOF_STRING) = 0"
  proof -
    have "length vs * 24 = 4 * (length vs * 6)" by simp
    then have "(length vs * 24 + 3) mod 4 = 3" by presburger
    then show ?thesis
      using assms(3) by (simp add: GetPadSize_eq SIZEOF_STRING_def size_mul_small)
  qed
  have n: "sint ?n = int (length vs)" "unat ?n = length vs" "length vs \<le> vector_max_size SIZEOF_STRING"
    using assms(3) to_int32_small [of "length vs"]
    by (simp_all add: to_int32_def unat_of_nat vector_max_size_def SIZEOF_STRING_def)
  have "reader_spec (read_value_body rd val ?n) (concat (map enc vs)) (True, Some vs)"
  proof (rule reader_specI)
    fix p rest assume p: "parcel_wf p" "plain p" "unread p = concat (map enc vs) @ rest"
    have "length vs \<le> GetReadableBytes p"
      using concat_length_ge [of enc vs] assms(2) unread_readable [OF p(1,3)] by simp
    then show "read_value_body rd val ?n p = Some ((True, Some vs), advance (length (concat (map enc vs))) p)"
      using n reader_specD [OF read_each_value_reads [OF assms(1)] p]
      by (simp add: read_value_body_def Let_def)
  qed
  then show ?thesis
    using reader_spec_bind [OF int32_codec.reads [OF TrueI, of ?n], of "read_value_body rd val"]
    by (simp add: enc_vector_def pad)
qed

definition strings_ok :: "parcel_env \<Rightarrow> byte list list \<Rightarrow> bool" where
  "strings_ok E vs \<longleftrightarrow> list_all (string_ok E) vs \<and> int (length vs) \<le> INT32_MAX"

definition strings16_ok :: "parcel_env \<Rightarrow> 16 word list list \<Rightarrow> bool" where
  "strings16_ok E vs \<longleftrightarrow> list_all (string16_ok E) vs \<and> int (length vs) \<le> INT32_MAX"

interpretation string_vector: parcel_codec "WriteStringVector E" "ReadStringVector (Some val)"
    "enc_vector SIZEOF_STRING enc_string" "\<lambda>vs. (True, Some vs)" "strings_ok E" for E val
proof unfold_locales
  fix vs assume ok: "strings_ok E vs"
  then show "writer_spec (WriteStringVector E vs) (enc_vector SIZEOF_STRING enc_string vs)"
    unfolding WriteStringVector_def strings_ok_def
    by (intro WriteVector_spec) (auto simp: list_all_iff string_codec.writes)
  show "reader_spec (ReadStringVector (Some val)) (enc_vector SIZEOF_STRING enc_string vs) (True, Some vs)"
    unfolding ReadStringVector_body using ok string_codec.reads [of E, simplified]
    by (intro value_vector_reads) (auto simp: strings_ok_def list_all_iff enc_string_def)
qed

interpretation string16_vector: parcel_codec "WriteString16Vector E" "ReadString16Vector (Some val)"
    "enc_vector SIZEOF_STRING enc_string16" "\<lambda>vs. (True, Some vs)" "strings16_ok E" for E val
proof unfold_locales
  fix vs assume ok: "strings16_ok E vs"
  then show "writer_spec (WriteString16Vector E vs) (enc_vector SIZEOF_STRING enc_string16 vs)"
    unfolding WriteString16Vector_def strings16_ok_def
    by (intro WriteVector_spec) (auto simp: list_all_iff string16_codec.writes)
  show "reader_spec (ReadString16Vector (Some val)) (enc_vector SIZEOF_STRING enc_string16 vs) (True, Some vs)"
    unfolding ReadString16Vector_body using ok string16_codec.reads [of E, simplified]
    by (intro value_vector_reads) (auto simp: strings16_ok_def list_all_iff enc_string16_def)
qed

section \<open>Properties\<close>

text \<open>The vector types of the parcel's interface.\<close>

datatype vector_item =
    V_Bool "bool list"
  | V_Int8 "8 word list"
  | V_Int16 "16 word list"
  | V_Int32 "32 word list"
  | V_Int64 "64 word list"
  | V_UInt8 "8 word list"
  | V_UInt16 "16 word list"
  | V_UInt32 "32 word list"
  | V_UInt64 "64 word list"
  | V_Float "32 word list"
  | V_Double "64 word list"
  | V_String "byte list list"
  | V_String16 "16 word list list"

fun write_vector_item :: "parcel_env \<Rightarrow> vector_item \<Rightarrow> parcel \<Rightarrow> (bool \<times> parcel) option" where
  "write_vector_item E (V_Bool vs) = WriteBoolVector vs"
| "write_vector_item E (V_Int8 vs) = WriteInt8Vector vs"
| "write_vector_item E (V_Int16 vs) = WriteInt16Vector vs"
| "write_vector_item E (V_Int32 vs) = WriteInt32Vector vs"
| "write_vector_item E (V_Int64 vs) = WriteInt64Vector vs"
| "write_vector_item E (V_UInt8 vs) = WriteUInt8Vector vs"
| "write_vector_item E (V_UInt16 vs) = WriteUInt16Vector vs"
| "write_vector_item E (V_UInt32 vs) = WriteUInt32Vector vs"
| "write_vector_item E (V_UInt64 vs) = WriteUInt64Vector vs"
| "write_vector_item E (V_Float vs) = WriteFloatVector vs"
| "write_vector_item E (V_Double vs) = WriteDoubleVector vs"
| "write_vector_item E (V_String vs) = WriteStringVector E vs"
| "write_vector_item E (V_String16 vs) = WriteString16Vector E vs"

text \<open>Reading the type of an item into a vector that was empty before.\<close>

definition into :: "('a list \<Rightarrow> vector_item) \<Rightarrow> ('a list option \<Rightarrow> parcel \<Rightarrow> ((bool \<times> 'a list option) \<times> parcel) option) \<Rightarrow>
    parcel \<Rightarrow> ((bool \<times> vector_item option) \<times> parcel) option" where
  "into c rd p = do { ((ok, r), q) \<leftarrow> rd (Some []) p; Some ((ok, map_option c r), q) }"

fun read_vector_item :: "vector_item \<Rightarrow> parcel \<Rightarrow> ((bool \<times> vector_item option) \<times> parcel) option" where
  "read_vector_item (V_Bool _) = into V_Bool ReadBoolVector"
| "read_vector_item (V_Int8 _) = into V_Int8 ReadInt8Vector"
| "read_vector_item (V_Int16 _) = into V_Int16 ReadInt16Vector"
| "read_vector_item (V_Int32 _) = into V_Int32 ReadInt32Vector"
| "read_vector_item (V_Int64 _) = into V_Int64 ReadInt64Vector"
| "read_vector_item (V_UInt8 _) = into V_UInt8 ReadUInt8Vector"
| "read_vector_item (V_UInt16 _) = into V_UInt16 ReadUInt16Vector"
| "read_vector_item (V_UInt32 _) = into V_UInt32 ReadUInt32Vector"
| "read_vector_item (V_UInt64 _) = into V_UInt64 ReadUInt64Vector"
| "read_vector_item (V_Float _) = into V_Float ReadFloatVector"
| "read_vector_item (V_Double _) = into V_Double ReadDoubleVector"
| "read_vector_item (V_String _) = into V_String ReadStringVector"
| "read_vector_item (V_String16 _) = into V_String16 ReadString16Vector"

fun vector_item_ok :: "parcel_env \<Rightarrow> vector_item \<Rightarrow> bool" where
  "vector_item_ok E (V_Bool vs) \<longleftrightarrow> int (length vs) \<le> INT32_MAX"
| "vector_item_ok E (V_Int8 vs) \<longleftrightarrow> int (length vs) \<le> INT32_MAX"
| "vector_item_ok E (V_Int16 vs) \<longleftrightarrow> int (length vs) \<le> INT32_MAX"
| "vector_item_ok E (V_Int32 vs) \<longleftrightarrow> int (length vs) \<le> INT32_MAX"
| "vector_item_ok E (V_Int64 vs) \<longleftrightarrow> int (length vs) \<le> INT32_MAX"
| "vector_item_ok E (V_UInt8 vs) \<longleftrightarrow> int (length vs) \<le> INT32_MAX"
| "vector_item_ok E (V_UInt16 vs) \<longleftrightarrow> int (length vs) \<le> INT32_MAX"
| "vector_item_ok E (V_UInt32 vs) \<longleftrightarrow> int (length vs) \<le> INT32_MAX"
| "vector_item_ok E (V_UInt64 vs) \<longleftrightarrow> int (length vs) \<le> INT32_MAX"
| "vector_item_ok E (V_Float vs) \<longleftrightarrow> int (length vs) \<le> INT32_MAX"
| "vector_item_ok E (V_Double vs) \<longleftrightarrow> int (length vs) \<le> INT32_MAX"
| "vector_item_ok E (V_String vs) \<longleftrightarrow> strings_ok E vs"
| "vector_item_ok E (V_String16 vs) \<longleftrightarrow> strings16_ok E vs"

lemma into_reads: "reader_spec (rd (Some [])) bs (True, Some v) \<Longrightarrow> reader_spec (into c rd) bs (True, Some (c v))"
  by (auto simp: reader_spec_def into_def)

lemma vector_codecI:
  assumes "writer_spec w bs" "reader_spec (rd (Some [])) bs (True, Some v)"
  shows "\<exists>bs. writer_spec w bs \<and> reader_spec (into c rd) bs (True, Some (c v))"
  using assms into_reads by blast

lemma vector_item_codec:
  assumes "vector_item_ok E i"
  shows "\<exists>bs. writer_spec (write_vector_item E i) bs \<and> reader_spec (read_vector_item i) bs (True, Some i)"
proof (cases i)
  case (V_Bool vs)
  with assms show ?thesis
    using vector_codecI [of _ _ ReadBoolVector vs V_Bool,
      OF bool_vector.fixed.writes [folded WriteBoolVector_def] bool_vector.fixed.reads [folded ReadBoolVector_def]]
    by simp
next
  case (V_Int8 vs)
  with assms show ?thesis
    using vector_codecI [of _ _ ReadInt8Vector vs V_Int8,
      OF int8_vector.vec.writes [folded WriteInt8Vector_def] int8_vector.vec.reads [folded ReadInt8Vector_def]]
    by simp
next
  case (V_Int16 vs)
  with assms show ?thesis
    using vector_codecI [of _ _ ReadInt16Vector vs V_Int16,
      OF int16_vector.fixed.writes [folded WriteInt16Vector_def] int16_vector.fixed.reads [folded ReadInt16Vector_def]]
    by simp
next
  case (V_Int32 vs)
  with assms show ?thesis
    using vector_codecI [of _ _ ReadInt32Vector vs V_Int32,
      OF int32_vector.vec.writes [folded WriteInt32Vector_def] int32_vector.vec.reads [folded ReadInt32Vector_def]]
    by simp
next
  case (V_Int64 vs)
  with assms show ?thesis
    using vector_codecI [of _ _ ReadInt64Vector vs V_Int64,
      OF int64_vector.vec.writes [folded WriteInt64Vector_def] int64_vector.vec.reads [folded ReadInt64Vector_def]]
    by simp
next
  case (V_UInt8 vs)
  with assms show ?thesis
    using vector_codecI [of _ _ ReadUInt8Vector vs V_UInt8,
      OF uint8_vector.vec.writes [folded WriteUInt8Vector_def] uint8_vector.vec.reads [folded ReadUInt8Vector_def]]
    by simp
next
  case (V_UInt16 vs)
  with assms show ?thesis
    using vector_codecI [of _ _ ReadUInt16Vector vs V_UInt16,
      OF uint16_vector.vec.writes [folded WriteUInt16Vector_def] uint16_vector.vec.reads [folded ReadUInt16Vector_def]]
    by simp
next
  case (V_UInt32 vs)
  with assms show ?thesis
    using vector_codecI [of _ _ ReadUInt32Vector vs V_UInt32,
      OF uint32_vector.vec.writes [folded WriteUInt32Vector_def] uint32_vector.vec.reads [folded ReadUInt32Vector_def]]
    by simp
next
  case (V_UInt64 vs)
  with assms show ?thesis
    using vector_codecI [of _ _ ReadUInt64Vector vs V_UInt64,
      OF uint64_vector.vec.writes [folded WriteUInt64Vector_def] uint64_vector.vec.reads [folded ReadUInt64Vector_def]]
    by simp
next
  case (V_Float vs)
  with assms show ?thesis
    using vector_codecI [of _ _ ReadFloatVector vs V_Float,
      OF float_vector.vec.writes [folded WriteFloatVector_def] float_vector.vec.reads [folded ReadFloatVector_def]]
    by simp
next
  case (V_Double vs)
  with assms show ?thesis
    using vector_codecI [of _ _ ReadDoubleVector vs V_Double,
      OF double_vector.vec.writes [folded WriteDoubleVector_def] double_vector.vec.reads [folded ReadDoubleVector_def]]
    by simp
next
  case (V_String vs)
  with assms show ?thesis
    using vector_codecI [of _ _ ReadStringVector vs V_String,
      OF string_vector.writes string_vector.reads]
    by simp
next
  case (V_String16 vs)
  with assms show ?thesis
    using vector_codecI [of _ _ ReadString16Vector vs V_String16,
      OF string16_vector.writes string16_vector.reads]
    by simp
qed

text \<open>
  C8: the round trip of vectors. A vector of any of the thirteen element types that was written
  successfully to a drained, well-formed parcel without objects is read back element for element, with its
  padding consumed, and the reader is again at the end of the data.
\<close>

theorem vector_round_trip:
  assumes "parcel_wf p" "plain p" "drained p" "vector_item_ok E i" "write_vector_item E i p = Some (True, q)"
  shows "\<exists>r. read_vector_item i q = Some ((True, Some i), r) \<and> drained r \<and> parcel_wf r"
proof -
  obtain bs where "writer_spec (write_vector_item E i) bs" "reader_spec (read_vector_item i) bs (True, Some i)"
    using vector_item_codec [OF assms(4)] by blast
  then have "parcel_codec (\<lambda>_. write_vector_item E i) (read_vector_item i) (\<lambda>_. bs) (\<lambda>_. (True, Some i)) (\<lambda>_. True)"
    by unfold_locales
  from parcel_codec.round_trip [OF this TrueI assms(1-3,5)] show ?thesis .
qed

theorem vector_round_trip_witness:
  "\<exists>q r. write_vector_item sample_env (V_Int8 [1, 2, 3, 4, 5]) sample_parcel = Some (True, q) \<and>
     read_vector_item (V_Int8 [1, 2, 3, 4, 5]) q = Some ((True, Some (V_Int8 [1, 2, 3, 4, 5])), r)"
proof -
  have "length (enc_vector 1 (\<lambda>v. [v]) [1, 2, 3, 4, 5 :: 8 word]) \<le> DEFAULT_CPACITY"
    by (simp add: enc_vector_def GetPadSize_eq size_mul_def DEFAULT_CPACITY_def)
  then obtain q where q: "write_vector_item sample_env (V_Int8 [1, 2, 3, 4, 5]) sample_parcel = Some (True, q)"
    using int8_vector.vec.write_succeeds [OF _ sample_parcel_wf sample_parcel_ample, of "[1, 2, 3, 4, 5]"]
    by (auto simp: WriteInt8Vector_def)
  have "vector_item_ok sample_env (V_Int8 [1, 2, 3, 4, 5])"
    by simp
  then show ?thesis
    using vector_round_trip [OF sample_parcel_wf sample_parcel_plain _ q] q by blast
qed

end
