(* ===== verification/Parcel_Objects.thy ===== *)
theory Parcel_Objects
  imports Parcel_Items
begin

text \<open>
  Flattened objects in a parcel: the table of object offsets, remote objects and parcelables, rewinding
  the write cursor, and the check that plain reads do not return bytes of an object. Classes derived from
  \<^verbatim>\<open>Parcelable\<close> are client code: their \<^verbatim>\<open>Marshalling\<close> is a field of the modelled object, and the static
  \<^verbatim>\<open>Unmarshalling\<close> a parameter of the reads.
\<close>

section \<open>Parcelables\<close>

record parcelable =
  obj_id :: nat
  asRemote :: bool
  behavior :: "8 word"
  Marshalling :: "parcel \<Rightarrow> (bool \<times> parcel) option"

datatype BehaviorFlag = IPC | RPC | HOLD_OBJECT

fun behavior_code :: "BehaviorFlag \<Rightarrow> 8 word" where
  "behavior_code IPC = 0x01"
| "behavior_code RPC = 0x02"
| "behavior_code HOLD_OBJECT = 0x10"

definition SetBehavior :: "BehaviorFlag \<Rightarrow> parcelable \<Rightarrow> parcelable" where
  "SetBehavior b object = object\<lparr>behavior := behavior object OR behavior_code b\<rparr>"

definition ClearBehavior :: "BehaviorFlag \<Rightarrow> parcelable \<Rightarrow> parcelable" where
  "ClearBehavior b object = object\<lparr>behavior := behavior object AND NOT (behavior_code b)\<rparr>"

definition TestBehavior :: "BehaviorFlag \<Rightarrow> parcelable \<Rightarrow> bool" where
  "TestBehavior b object \<longleftrightarrow> behavior object AND behavior_code b \<noteq> 0"

section \<open>The table of object offsets\<close>

definition EnsureObjectsCapacity :: "parcel_env \<Rightarrow> parcel \<Rightarrow> bool \<times> parcel" where
  "EnsureObjectsCapacity E p =
     (if size_sub (objectsCapacity p) (objectCursor p) \<ge> 1 then (True, p)
      else if allocator p = None then (False, p)
      else let newCapacity = size_mul (size_add (objectsCapacity p) 2) 3 div 2;
               newBytes = size_mul newCapacity 8
           in case realloc_offsets E (objectOffsets p) (newBytes div 8) of
                None \<Rightarrow> (False, p)
              | Some newOffsets \<Rightarrow>
                  (True, p\<lparr>objectOffsets := Some newOffsets, objectsCapacity := newCapacity\<rparr>))"

text \<open>The linear search of the table that \<^verbatim>\<open>WriteObjectOffset\<close> and \<^verbatim>\<open>CheckOffsets\<close> share.\<close>

fun offset_recorded :: "nat list \<Rightarrow> nat \<Rightarrow> nat \<Rightarrow> nat \<Rightarrow> bool option" where
  "offset_recorded os offset index 0 = Some False"
| "offset_recorded os offset index (Suc k) =
     (if length os \<le> index then None
      else if os ! index = offset then Some True
      else offset_recorded os offset (Suc index) k)"

definition offsets_array :: "parcel \<Rightarrow> nat list" where
  "offsets_array p = (case objectOffsets p of None \<Rightarrow> [] | Some os \<Rightarrow> os)"

definition WriteObjectOffset :: "nat \<Rightarrow> parcel \<Rightarrow> (bool \<times> parcel) option" where
  "WriteObjectOffset offset p =
     (if offset > dataSize p then Some (False, p)
      else do {
        found \<leftarrow> offset_recorded (offsets_array p) offset 0 (objectCursor p);
        if found then Some (False, p)
        else do {
          os' \<leftarrow> mem_write (objectCursor p) [offset] (offsets_array p);
          Some (True, p\<lparr>objectOffsets := Some os', objectCursor := size_add (objectCursor p) 1\<rparr>)
        }
      })"

definition CheckOffsets :: "parcel \<Rightarrow> bool option" where
  "CheckOffsets p =
     (let readPos = readCursor p in
      if size_add readPos FLAT_OBJECT_SIZE > dataSize p then Some False
      else offset_recorded (offsets_array p) readPos 0 (objectCursor p))"

fun inject_loop :: "parcel_env \<Rightarrow> nat list \<Rightarrow> nat \<Rightarrow> nat \<Rightarrow> parcel \<Rightarrow> parcel option" where
  "inject_loop E newObjectOffsets index 0 p = Some p"
| "inject_loop E newObjectOffsets index (Suc k) p =
     (let (ok, p1) = EnsureObjectsCapacity E p in
      if ok then
        (if length newObjectOffsets \<le> index then None
         else do {
           (_, p2) \<leftarrow> WriteObjectOffset (newObjectOffsets ! index) p1;
           inject_loop E newObjectOffsets (Suc index) k p2
         })
      else inject_loop E newObjectOffsets (Suc index) k p1)"

definition InjectOffsets :: "parcel_env \<Rightarrow> nat list option \<Rightarrow> nat \<Rightarrow> parcel \<Rightarrow> parcel option" where
  "InjectOffsets E offsets offsetSize p =
     (if offsetSize = 0 then Some p
      else case offsets of
          None \<Rightarrow> Some p
        | Some newObjectOffsets \<Rightarrow> inject_loop E newObjectOffsets 0 offsetSize p)"

definition IsReadObjectData :: "nat \<Rightarrow> nat \<Rightarrow> parcel \<Rightarrow> bool option" where
  "IsReadObjectData nextObj upperBound p = do {
     offset \<leftarrow> mem_read nextObj 1 (offsets_array p);
     d \<leftarrow> data p;
     hdr \<leftarrow> mem_read (hd offset) 4 d;
     Some ((le_word hdr :: 32 word) = BINDER_TYPE_FD \<or> (le_word hdr :: 32 word) = BINDER_TYPE_HANDLE)
   }"

section \<open>Writing objects\<close>

definition WriteRemoteObject :: "parcel_env \<Rightarrow> parcelable option \<Rightarrow> parcel \<Rightarrow> (bool \<times> parcel) option" where
  "WriteRemoteObject E object p =
     (let placeholder = writeCursor p in
      case object of
        None \<Rightarrow> Some (False, p)
      | Some ob \<Rightarrow>
          if \<not> asRemote ob then Some (False, p)
          else let (ok, p1) = EnsureObjectsCapacity E p in
            if \<not> ok then Some (False, p1)
            else do {
              (ok2, p2) \<leftarrow> Marshalling ob p1;
              if \<not> ok2 then Some (False, p2)
              else do {
                (_, p3) \<leftarrow> WriteObjectOffset placeholder p2;
                Some (True, if TestBehavior HOLD_OBJECT ob
                            then p3\<lparr>objectHolder := objectHolder p3 @ [Some (obj_id ob)]\<rparr> else p3)
              }
            })"

definition WriteParcelable :: "parcel_env \<Rightarrow> parcelable option \<Rightarrow> parcel \<Rightarrow> (bool \<times> parcel) option" where
  "WriteParcelable E object p =
     (let placeholder = writeCursor p; restorSize = dataSize p in
      case object of
        None \<Rightarrow> WriteInt32 0 p
      | Some ob \<Rightarrow>
          if \<not> asRemote ob then do {
            (ok, p1) \<leftarrow> WriteInt32 1 p;
            if \<not> ok then Some (False, p1) else Marshalling ob p1
          }
          else do {
            (ok, p1) \<leftarrow> WriteInt32 1 p;
            if \<not> ok then Some (False, p1)
            else do {
              (ok2, p2) \<leftarrow> WriteRemoteObject E (Some ob) p1;
              if ok2 then Some (True, p2)
              else Some (False, p2\<lparr>writeCursor := placeholder, dataSize := restorSize\<rparr>)
            }
          })"

text \<open>\<^verbatim>\<open>WriteStrongParcelable\<close> also marks the object; the marked object is returned.\<close>

definition WriteStrongParcelable ::
    "parcel_env \<Rightarrow> parcelable option \<Rightarrow> parcel \<Rightarrow> ((bool \<times> parcelable option) \<times> parcel) option" where
  "WriteStrongParcelable E object p =
     (case object of
        None \<Rightarrow> do { (_, p1) \<leftarrow> WriteInt32 0 p; Some ((True, None), p1) }
      | Some ob \<Rightarrow> do {
          let ob' = SetBehavior HOLD_OBJECT ob;
          (ok, p1) \<leftarrow> WriteParcelable E (Some ob') p;
          Some ((ok, Some ob'), p1)
        })"

definition WriteObject ::
    "parcel_env \<Rightarrow> (parcel \<Rightarrow> (bool \<times> parcel) option) \<Rightarrow> parcelable option \<Rightarrow> parcel \<Rightarrow> (bool \<times> parcel) option" where
  "WriteObject E marshal_null object p =
     (case object of None \<Rightarrow> marshal_null p | Some ob \<Rightarrow> WriteRemoteObject E (Some ob) p)"

section \<open>Reading objects\<close>

definition ReadObject ::
    "(parcel \<Rightarrow> ('t option \<times> parcel) option) \<Rightarrow> parcel \<Rightarrow> ('t option \<times> parcel) option" where
  "ReadObject Unmarshalling p = do {
     ok \<leftarrow> CheckOffsets p;
     if \<not> ok then Some (None, p) else Unmarshalling p
   }"

definition ReadParcelable ::
    "(parcel \<Rightarrow> ('t option \<times> parcel) option) \<Rightarrow> parcel \<Rightarrow> ('t option \<times> parcel) option" where
  "ReadParcelable Unmarshalling p = do {
     (sz, p1) \<leftarrow> ReadInt32 p;
     if sz = 0 then Some (None, p1) else Unmarshalling p1
   }"

definition ReadStrongParcelable ::
    "(parcel \<Rightarrow> ('t option \<times> parcel) option) \<Rightarrow> parcel \<Rightarrow> ('t option \<times> parcel) option" where
  "ReadStrongParcelable Unmarshalling p = do {
     (sz, p1) \<leftarrow> ReadInt32 p;
     if sz = 0 then Some (None, p1) else Unmarshalling p1
   }"

section \<open>Rewinding the write cursor\<close>

text \<open>The loop that finds how many objects end at or before the new position, from the last one down.\<close>

fun objects_kept :: "nat list \<Rightarrow> nat \<Rightarrow> nat \<Rightarrow> nat option" where
  "objects_kept os newPosition 0 = Some 0"
| "objects_kept os newPosition (Suc k) =
     (if length os \<le> k then None
      else if size_add (os ! k) FLAT_OBJECT_SIZE \<le> newPosition then Some (Suc k)
      else objects_kept os newPosition k)"

definition holder_resize :: "nat \<Rightarrow> nat option list \<Rightarrow> nat option list" where
  "holder_resize n h = take n h @ replicate (n - length h) None"

definition RewindWrite :: "parcel_env \<Rightarrow> nat \<Rightarrow> parcel \<Rightarrow> (bool \<times> parcel) option" where
  "RewindWrite E newPosition p =
     (if newPosition > dataSize p then Some (False, p)
      else let p1 = p\<lparr>writeCursor := newPosition, dataSize := newPosition\<rparr> in
        if objectOffsets p1 = None \<or> objectCursor p1 = 0 then Some (True, p1)
        else do {
          let os = offsets_array p1;
          last \<leftarrow> mem_read (objectCursor p1 - 1) 1 os;
          if size_add (hd last) FLAT_OBJECT_SIZE > newPosition then do {
            objectSize \<leftarrow> objects_kept os newPosition (objectCursor p1);
            if objectSize = 0 then Some (True, ClearObjects p1)
            else case realloc_offsets E (Some os) objectSize of
                None \<Rightarrow> Some (False, p1)
              | Some newOffsets \<Rightarrow>
                  Some (True, p1\<lparr>objectOffsets := Some newOffsets, objectCursor := objectSize,
                                 objectsCapacity := objectSize,
                                 objectHolder := holder_resize objectSize (objectHolder p1),
                                 nextObjectIdx := 0\<rparr>)
          }
          else Some (True, p1)
        })"

end
