(* ===== verification/Parcel_Object_Safety.thy ===== *)
theory Parcel_Object_Safety
  imports Parcel_Objects
begin

text \<open>
  Correctness of the object table: every operation on it stays inside the array, offsets are recorded
  once, plain reads never return bytes of a flattened object, and rewinding drops exactly the objects
  that no longer lie in the data.
\<close>

section \<open>The table and its invariant\<close>

definition offsets :: "parcel \<Rightarrow> nat list" where
  "offsets p = take (objectCursor p) (offsets_array p)"

definition realloc_documented :: "parcel_env \<Rightarrow> bool" where
  "realloc_documented E \<longleftrightarrow>
     (\<forall>old n os. realloc_offsets E old n = Some os \<longrightarrow>
        length os = n \<and> n < 2 ^ 60 \<and>
        (\<forall>xs k. old = Some xs \<and> k \<le> length xs \<and> k \<le> n \<longrightarrow> take k os = take k xs))"

lemma sample_env_realloc: "realloc_documented sample_env"
  by (auto simp: realloc_documented_def sample_env_def min_def split: option.splits if_splits)

text \<open>
  \<open>seen_upto c p\<close>: the objects before the next-object index end at or before position \<open>c\<close>, so that
  \<^verbatim>\<open>ValidateReadData\<close> may skip them for reads from there on.
\<close>

definition seen_upto :: "nat \<Rightarrow> parcel \<Rightarrow> bool" where
  "seen_upto c p \<longleftrightarrow>
     nextObjectIdx p \<le> objectCursor p \<and> (\<forall>j < nextObjectIdx p. offsets p ! j + FLAT_OBJECT_SIZE \<le> c)"

definition objects_wf :: "parcel \<Rightarrow> bool" where
  "objects_wf p \<longleftrightarrow>
     parcel_wf p \<and> objectsCapacity p < 2 ^ 60 \<and> distinct (offsets p) \<and>
     list_all (\<lambda>off. off \<le> dataSize p) (offsets p) \<and> seen_upto (readCursor p) p"

lemma length_offsets: "parcel_wf p \<Longrightarrow> length (offsets p) = objectCursor p"
  by (auto simp: offsets_def offsets_array_def parcel_wf_def split: option.splits)

lemma length_offsets_array: "parcel_wf p \<Longrightarrow> length (offsets_array p) = objectsCapacity p"
  by (auto simp: offsets_array_def parcel_wf_def split: option.splits)

lemma objects_wf_offset:
  assumes "objects_wf p" "off \<in> set (offsets p)"
  shows "off < 2 ^ 63" "size_add off FLAT_OBJECT_SIZE = off + FLAT_OBJECT_SIZE"
proof -
  show "off < 2 ^ 63"
    using assms by (auto simp: objects_wf_def parcel_wf_def list_all_iff)
  then show "size_add off FLAT_OBJECT_SIZE = off + FLAT_OBJECT_SIZE"
    by (simp add: size_simps FLAT_OBJECT_SIZE_def)
qed

lemma Parcel_new_objects_wf: "Allocator_contract al \<Longrightarrow> objects_wf (Parcel_new al)"
  using Parcel_new_wf [of al]
  by (simp add: objects_wf_def offsets_def offsets_array_def seen_upto_def Parcel_new_def)

lemma offset_recorded_eq:
  "index + k \<le> length os \<Longrightarrow> offset_recorded os off index k = Some (off \<in> set (take k (drop index os)))"
proof (induction k arbitrary: index)
  case (Suc k)
  then have "drop index os = os ! index # drop (Suc index) os"
    by (simp add: Cons_nth_drop_Suc)
  with Suc show ?case by auto
qed simp

lemma offset_recorded_table:
  assumes "parcel_wf p"
  shows "offset_recorded (offsets_array p) off 0 (objectCursor p) = Some (off \<in> set (offsets p))"
proof -
  have "objectCursor p \<le> length (offsets_array p)"
    using assms length_offsets_array [OF assms] by (simp add: parcel_wf_def)
  then show ?thesis
    by (simp add: offset_recorded_eq offsets_def)
qed

section \<open>Plain reads and objects\<close>

lemma validate_loop_refuses:
  "validate_loop objects objSize r u i = Some None \<Longrightarrow> objects ! i < u \<Longrightarrow> i < objSize \<Longrightarrow>
   \<exists>j. i \<le> j \<and> j < objSize \<and> objects ! j < u \<and> r < size_add (objects ! j) FLAT_OBJECT_SIZE"
proof (induction objects objSize r u i rule: validate_loop.induct)
  case (1 objects objSize r u i)
  show ?case
  proof (cases "r < size_add (objects ! i) FLAT_OBJECT_SIZE")
    case False
    then have "Suc i < objSize" "objects ! Suc i < u" "validate_loop objects objSize r u (Suc i) = Some None"
      "\<not> length objects \<le> i" "\<not> length objects \<le> Suc i"
      using "1.prems"(1) unfolding validate_loop.simps [of objects objSize r u i] by (auto split: if_splits)
    then obtain j where "Suc i \<le> j" "j < objSize" "objects ! j < u" "r < size_add (objects ! j) FLAT_OBJECT_SIZE"
      using "1.IH" False by blast
    then show ?thesis by (auto intro!: exI [of _ j])
  qed (use "1.prems" in blast)
qed

lemma validate_loop_accepts:
  "validate_loop objects objSize r u i = Some (Some k) \<Longrightarrow> i < objSize \<Longrightarrow>
   i < k \<and> k \<le> objSize \<and> (\<forall>j. i \<le> j \<and> j < k \<longrightarrow> size_add (objects ! j) FLAT_OBJECT_SIZE \<le> r) \<and>
   (k < objSize \<longrightarrow> u \<le> objects ! k)"
proof (induction objects objSize r u i rule: validate_loop.induct)
  case (1 objects objSize r u i)
  have here: "size_add (objects ! i) FLAT_OBJECT_SIZE \<le> r" "\<not> length objects \<le> i"
    using "1.prems"(1) unfolding validate_loop.simps [of objects objSize r u i] by (auto split: if_splits)
  show ?case
  proof (cases "Suc i < objSize \<and> objects ! Suc i < u")
    case True
    then have rest: "\<not> length objects \<le> Suc i" "validate_loop objects objSize r u (Suc i) = Some (Some k)"
      using "1.prems"(1) here by (subst (asm) validate_loop.simps, simp split: if_splits)+
    then have "Suc i < k \<and> k \<le> objSize \<and>
        (\<forall>j. Suc i \<le> j \<and> j < k \<longrightarrow> size_add (objects ! j) FLAT_OBJECT_SIZE \<le> r) \<and>
        (k < objSize \<longrightarrow> u \<le> objects ! k)"
      using "1.IH" here True by simp
    then show ?thesis
      using here by (metis Suc_leI Suc_lessD le_antisym not_less)
  next
    case False
    then have "k = Suc i"
      using "1.prems"(1) by (subst (asm) validate_loop.simps) (simp split: if_splits)
    with False here "1.prems"(2) show ?thesis
      by (auto simp: less_Suc_eq_le dest: le_antisym)
  qed
qed

text \<open>No object of the table intersects the positions from \<open>c\<close> to below \<open>u\<close>.\<close>

definition clear_of :: "nat \<Rightarrow> nat \<Rightarrow> parcel \<Rightarrow> bool" where
  "clear_of c u p \<longleftrightarrow> list_all (\<lambda>off. u \<le> off \<or> off + FLAT_OBJECT_SIZE \<le> c) (offsets p)"

lemma clear_ofI:
  assumes "parcel_wf p" "sorted (offsets p)" "k \<le> objectCursor p"
    and "\<And>j. j < k \<Longrightarrow> offsets p ! j + FLAT_OBJECT_SIZE \<le> c"
    and "k < objectCursor p \<Longrightarrow> u \<le> offsets p ! k"
  shows "clear_of c u p"
proof -
  have "u \<le> offsets p ! j \<or> offsets p ! j + FLAT_OBJECT_SIZE \<le> c" if "j < objectCursor p" for j
    using assms(3-5) that sorted_nth_mono [OF assms(2), of k j] length_offsets [OF assms(1)]
    by (cases "j < k") auto
  then show ?thesis
    by (auto simp: clear_of_def list_all_length length_offsets [OF assms(1)])
qed

lemma ValidateReadData_correct:
  assumes wf: "objects_wf p" and srt: "sorted (offsets p)"
  obtains i where "ValidateReadData u p = Some (clear_of (readCursor p) u p, p\<lparr>nextObjectIdx := i\<rparr>)"
    "seen_upto (readCursor p) (p\<lparr>nextObjectIdx := i\<rparr>)"
proof -
  let ?os = "offsets_array p" and ?n = "objectCursor p" and ?i = "nextObjectIdx p" and ?c = "readCursor p"
  have pw: "parcel_wf p" and seen: "seen_upto ?c p" and idx: "?i \<le> ?n"
    using wf by (auto simp: objects_wf_def seen_upto_def)
  have n: "?n \<le> length ?os"
    using pw length_offsets_array [OF pw] by (simp add: parcel_wf_def)
  have nth: "offsets p ! j = ?os ! j" "size_add (?os ! j) FLAT_OBJECT_SIZE = ?os ! j + FLAT_OBJECT_SIZE"
    if "j < ?n" for j
    using that n objects_wf_offset(2) [OF wf, of "offsets p ! j"] length_offsets [OF pw]
    by (simp_all add: offsets_def in_set_conv_nth) (metis nth_take)
  have before: "j < ?i \<Longrightarrow> offsets p ! j + FLAT_OBJECT_SIZE \<le> ?c" for j
    using seen by (simp add: seen_upto_def)
  show ?thesis
  proof (cases "?i < ?n \<and> ?os ! ?i < u")
    case False
    have "clear_of ?c u p"
      using before False nth idx by (intro clear_ofI [OF pw srt idx]) auto
    moreover have "ValidateReadData u p = Some (True, p)"
      using False n by (auto simp: ValidateReadData_def offsets_array_def split: option.splits)
    ultimately show ?thesis
      using that [of ?i] seen by simp
  next
    case True
    then obtain os where os: "objectOffsets p = Some os" "?os = os"
      using n by (auto simp: offsets_array_def split: option.splits)
    then obtain r where r: "validate_loop os ?n ?c u ?i = Some r"
      using validate_loop_total [of ?i ?n os] True n by auto
    have run: "ValidateReadData u p = (case r of None \<Rightarrow> Some (False, p)
        | Some k \<Rightarrow> Some (True, p\<lparr>nextObjectIdx := k\<rparr>))"
      using True os r n by (auto simp: ValidateReadData_def split: option.split)
    show ?thesis
    proof (cases r)
      case None
      then obtain j where "j < ?n" "os ! j < u" "?c < size_add (os ! j) FLAT_OBJECT_SIZE"
        using validate_loop_refuses r True os by blast
      then have "\<not> clear_of ?c u p"
        using nth os length_offsets [OF pw] by (auto simp: clear_of_def list_all_length)
      then show ?thesis
        using that [of ?i] run None seen by simp
    next
      case (Some k)
      then have k: "?i < k" "k \<le> ?n" "k < ?n \<longrightarrow> u \<le> os ! k"
        "\<And>j. ?i \<le> j \<Longrightarrow> j < k \<Longrightarrow> size_add (os ! j) FLAT_OBJECT_SIZE \<le> ?c"
        using validate_loop_accepts [of os ?n ?c u ?i k] r True by auto
      have upto: "offsets p ! j + FLAT_OBJECT_SIZE \<le> ?c" if "j < k" for j
        using that before [of j] k(2) k(4) [of j] nth [of j] os by (cases "j < ?i") auto
      then have "clear_of ?c u p"
        using k nth os by (intro clear_ofI [OF pw srt k(2)]) auto
      moreover have "seen_upto ?c (p\<lparr>nextObjectIdx := k\<rparr>)"
        using upto k by (simp add: seen_upto_def offsets_def offsets_array_def cong: option.case_cong)
      ultimately show ?thesis
        using that [of k] run Some by simp
    qed
  qed
qed

text \<open>What a plain read of \<open>n\<close> bytes does in the presence of objects.\<close>

lemma Read_T_objects:
  assumes wf: "objects_wf p" and srt: "sorted (offsets p)" and n: "0 < n" "n \<le> GetReadableBytes p"
  shows "\<exists>r i. Read_T n p = Some (r, p\<lparr>nextObjectIdx := i, readCursor := readCursor p + n\<rparr>) \<and>
      (r \<noteq> None \<longleftrightarrow> clear_of (readCursor p) (readCursor p + n) p) \<and>
      seen_upto (readCursor p) (p\<lparr>nextObjectIdx := i\<rparr>)"
proof -
  have pw: "parcel_wf p"
    using wf by (simp add: objects_wf_def)
  obtain d where d: "data p = Some d" "readCursor p + n \<le> length d"
    using pw n by (rule readable_data)
  have small: "size_add (readCursor p) n = readCursor p + n"
    using readable_bounds [OF pw n(2)] n(1) by (intro size_add_small) auto
  obtain i where "ValidateReadData (readCursor p + n) p =
        Some (clear_of (readCursor p) (readCursor p + n) p, p\<lparr>nextObjectIdx := i\<rparr>)"
      "seen_upto (readCursor p) (p\<lparr>nextObjectIdx := i\<rparr>)"
    using wf srt by (rule ValidateReadData_correct)
  then show ?thesis
    using n d small by (auto simp: Read_T_def buf_simps Let_def)
qed

section \<open>Recording offsets\<close>

lemma offsets_cong:
  "objectOffsets q = objectOffsets p \<Longrightarrow> objectCursor q = objectCursor p \<Longrightarrow> offsets q = offsets p"
  by (simp add: offsets_def offsets_array_def)

lemma seen_upto_cong:
  "offsets q = offsets p \<Longrightarrow> objectCursor q = objectCursor p \<Longrightarrow> nextObjectIdx q = nextObjectIdx p \<Longrightarrow>
   seen_upto c q = seen_upto c p"
  by (simp add: seen_upto_def)

lemma EnsureObjectsCapacity_cases:
  assumes E: "realloc_documented E" and wf: "objects_wf p"
  obtains (refused) "EnsureObjectsCapacity E p = (False, p)"
  | (granted) os c where "EnsureObjectsCapacity E p = (True, p\<lparr>objectOffsets := Some os, objectsCapacity := c\<rparr>)"
      "objects_wf (p\<lparr>objectOffsets := Some os, objectsCapacity := c\<rparr>)" "objectCursor p < c"
      "offsets (p\<lparr>objectOffsets := Some os, objectsCapacity := c\<rparr>) = offsets p"
proof -
  have pw: "parcel_wf p" and cur: "objectCursor p \<le> objectsCapacity p" and cap: "objectsCapacity p < 2 ^ 60"
    using wf by (auto simp: objects_wf_def parcel_wf_def)
  have sub: "size_sub (objectsCapacity p) (objectCursor p) = objectsCapacity p - objectCursor p"
    using cur cap by (simp add: size_simps)
  show ?thesis
  proof (cases "objectCursor p < objectsCapacity p")
    case True
    then obtain os where os: "objectOffsets p = Some os"
      using pw by (auto simp: parcel_wf_def)
    have "p\<lparr>objectOffsets := Some os, objectsCapacity := objectsCapacity p\<rparr> = p"
      using os by simp
    moreover have "EnsureObjectsCapacity E p = (True, p)"
      using True sub by (simp add: EnsureObjectsCapacity_def Suc_le_eq)
    ultimately show ?thesis
      using granted [where os = os and c = "objectsCapacity p"] True wf by simp
  next
    case False
    let ?c = "(objectsCapacity p + 2) * 3 div 2"
    have "size_mul (size_add (objectsCapacity p) 2) 3 div 2 = ?c" "size_mul ?c 8 div 8 = ?c"
      using cap by (simp_all add: size_simps)
    then have run: "EnsureObjectsCapacity E p =
        (if allocator p = None then (False, p)
         else case realloc_offsets E (objectOffsets p) ?c of None \<Rightarrow> (False, p)
           | Some os \<Rightarrow> (True, p\<lparr>objectOffsets := Some os, objectsCapacity := ?c\<rparr>))"
      using False sub by (simp add: EnsureObjectsCapacity_def Let_def cong: option.case_cong)
    show ?thesis
    proof (cases "allocator p = None \<or> realloc_offsets E (objectOffsets p) ?c = None")
      case True
      then show ?thesis using refused run by auto
    next
      case granted': False
      then obtain os where os: "realloc_offsets E (objectOffsets p) ?c = Some os"
        by auto
      let ?q = "p\<lparr>objectOffsets := Some os, objectsCapacity := ?c\<rparr>"
      have len: "length os = ?c" "?c < 2 ^ 60"
        and keep: "\<And>xs k. objectOffsets p = Some xs \<Longrightarrow> k \<le> length xs \<Longrightarrow> k \<le> ?c \<Longrightarrow> take k os = take k xs"
        using E os unfolding realloc_documented_def by blast+
      have lt: "objectCursor p < ?c"
        using cur by simp
      have off: "offsets ?q = offsets p"
        using keep cur lt pw
        by (cases "objectOffsets p") (auto simp: offsets_def offsets_array_def parcel_wf_def)
      have "parcel_wf ?q"
        using pw len lt by (auto simp: parcel_wf_def)
      then have "objects_wf ?q"
        using wf off len(2) seen_upto_cong [of ?q p] by (simp add: objects_wf_def)
      then show ?thesis
        using granted [where os = os and c = ?c] run granted' os lt off by simp
    qed
  qed
qed

lemma WriteObjectOffset_safe:
  assumes wf: "objects_wf p" and room: "objectCursor p < objectsCapacity p"
  shows "\<exists>q. WriteObjectOffset off p = Some (off \<le> dataSize p \<and> off \<notin> set (offsets p), q) \<and> objects_wf q \<and>
      offsets q = offsets p @ (if off \<le> dataSize p \<and> off \<notin> set (offsets p) then [off] else []) \<and>
      content q = content p \<and> dataSize q = dataSize p \<and> writeCursor q = writeCursor p \<and> writable q = writable p \<and>
      objectsCapacity q = objectsCapacity p"
proof (cases "off \<le> dataSize p \<and> off \<notin> set (offsets p)")
  case False
  then show ?thesis
    using wf offset_recorded_table [of p off] by (auto simp: WriteObjectOffset_def objects_wf_def)
next
  case True
  let ?n = "objectCursor p"
  have pw: "parcel_wf p" and cap: "objectsCapacity p < 2 ^ 60" and seen: "seen_upto (readCursor p) p"
    using wf by (auto simp: objects_wf_def)
  obtain os where os: "objectOffsets p = Some os" "length os = objectsCapacity p" "offsets_array p = os"
    using pw room by (auto simp: parcel_wf_def offsets_array_def)
  let ?os' = "take ?n os @ [off] @ drop (?n + 1) os"
  let ?q = "p\<lparr>objectOffsets := Some ?os', objectCursor := Suc ?n\<rparr>"
  have "size_add ?n 1 = Suc ?n"
    using room cap by (simp add: size_simps)
  then have run: "WriteObjectOffset off p = Some (True, ?q)"
    using True os room offset_recorded_table [OF pw, of off]
    by (simp add: WriteObjectOffset_def buf_simps)
  have off: "offsets ?q = offsets p @ [off]"
    using os room by (simp add: offsets_def offsets_array_def min_def)
  have "seen_upto (readCursor p) ?q"
    using seen length_offsets [OF pw] unfolding seen_upto_def off by (auto simp: nth_append)
  moreover have "parcel_wf ?q"
    using pw os room by (simp add: parcel_wf_def)
  ultimately have "objects_wf ?q"
    using wf True unfolding objects_wf_def off by simp
  then show ?thesis
    using run off True by simp
qed

lemma inject_loop_safe:
  assumes E: "realloc_documented E"
  shows "objects_wf p \<Longrightarrow> index + k \<le> length offs \<Longrightarrow>
    \<exists>q new. inject_loop E offs index k p = Some q \<and> objects_wf q \<and> offsets q = offsets p @ new \<and>
      subseq new (take k (drop index offs)) \<and> content q = content p"
proof (induction k arbitrary: index p)
  case 0
  then show ?case by simp
next
  case (Suc k)
  have cons: "take (Suc k) (drop index offs) = offs ! index # take k (drop (Suc index) offs)"
    using Suc.prems(2) by (simp add: Cons_nth_drop_Suc [symmetric])
  show ?case
  proof (cases rule: EnsureObjectsCapacity_cases [OF E Suc.prems(1)])
    case refused: 1
    obtain q new where "inject_loop E offs (Suc index) k p = Some q" "objects_wf q"
        "offsets q = offsets p @ new" "subseq new (take k (drop (Suc index) offs))" "content q = content p"
      using Suc.IH [OF Suc.prems(1), of "Suc index"] Suc.prems(2) by auto
    then show ?thesis
      using refused cons by (auto intro!: exI [of _ new])
  next
    case granted: (2 os c)
    let ?p1 = "p\<lparr>objectOffsets := Some os, objectsCapacity := c\<rparr>"
    have "\<exists>ok p2 new1. WriteObjectOffset (offs ! index) ?p1 = Some (ok, p2) \<and> objects_wf p2 \<and>
        offsets p2 = offsets p @ new1 \<and> (new1 = [] \<or> new1 = [offs ! index]) \<and> content p2 = content p"
      using WriteObjectOffset_safe [OF granted(2), of "offs ! index"] granted(3,4)
      by (auto split: if_splits)
    then obtain ok p2 new1 where p2: "WriteObjectOffset (offs ! index) ?p1 = Some (ok, p2)" "objects_wf p2"
        "offsets p2 = offsets p @ new1" "new1 = [] \<or> new1 = [offs ! index]" "content p2 = content p"
      by blast
    obtain q new where q: "inject_loop E offs (Suc index) k p2 = Some q" "objects_wf q"
        "offsets q = offsets p2 @ new" "subseq new (take k (drop (Suc index) offs))" "content q = content p2"
      using Suc.IH [OF p2(2), of "Suc index"] Suc.prems(2) by auto
    have "subseq (new1 @ new) (take (Suc k) (drop index offs))"
      using p2(4) q(4) cons by auto
    then show ?thesis
      using granted p2 q Suc.prems(2) by (auto intro!: exI [of _ "new1 @ new"])
  qed
qed

section \<open>Rewinding\<close>

lemma objects_kept_total: "k \<le> length os \<Longrightarrow> \<exists>n. objects_kept os pos k = Some n \<and> n \<le> k"
proof (induction k)
  case (Suc k)
  then obtain n where "objects_kept os pos k = Some n" "n \<le> k" by auto
  with Suc.prems show ?case by auto
qed simp

lemma filter_sorted_last:
  fixes pos :: nat
  assumes "sorted (xs @ [x])" "x + c \<le> pos"
  shows "filter (\<lambda>y. y + c \<le> pos) (xs @ [x]) = xs @ [x]"
proof -
  have "y + c \<le> pos" if "y \<in> set xs" for y
    using assms that by (fastforce simp: sorted_append)
  with assms(2) show ?thesis by (simp add: filter_id_conv)
qed

lemma objects_kept_filter:
  assumes "sorted (take k os)" "k \<le> length os"
    and "\<And>off. off \<in> set (take k os) \<Longrightarrow> size_add off FLAT_OBJECT_SIZE = off + FLAT_OBJECT_SIZE"
  shows "\<exists>n. objects_kept os pos k = Some n \<and> n \<le> k \<and>
    take n os = filter (\<lambda>off. off + FLAT_OBJECT_SIZE \<le> pos) (take k os)"
  using assms
proof (induction k)
  case 0
  then show ?case by simp
next
  case (Suc k)
  have tk: "take (Suc k) os = take k os @ [os ! k]"
    using Suc.prems(2) by (simp add: take_Suc_conv_app_nth)
  have srt: "sorted (take k os)"
    using Suc.prems(1) by (simp add: tk sorted_append)
  have add: "size_add (os ! k) FLAT_OBJECT_SIZE = os ! k + FLAT_OBJECT_SIZE"
    using Suc.prems(3) by (simp add: tk)
  show ?case
  proof (cases "os ! k + FLAT_OBJECT_SIZE \<le> pos")
    case True
    then have "filter (\<lambda>off. off + FLAT_OBJECT_SIZE \<le> pos) (take (Suc k) os) = take (Suc k) os"
      using Suc.prems(1) filter_sorted_last unfolding tk by blast
    then show ?thesis
      using True add Suc.prems(2) by simp
  next
    case False
    obtain n where "objects_kept os pos k = Some n" "n \<le> k"
        "take n os = filter (\<lambda>off. off + FLAT_OBJECT_SIZE \<le> pos) (take k os)"
      using Suc.IH srt Suc.prems(2,3) tk by auto
    then show ?thesis
      using False add Suc.prems(2) by (auto simp: tk)
  qed
qed

lemma truncate_wf:
  assumes "parcel_wf p" "pos \<le> dataSize p"
  shows "parcel_wf (p\<lparr>writeCursor := pos, dataSize := pos\<rparr>)"
    "content (p\<lparr>writeCursor := pos, dataSize := pos\<rparr>) = take pos (content p)"
  using assms by (auto simp: parcel_wf_def content_def min_def split: option.split)

text \<open>The table after it has been cut to its first \<open>m\<close> entries.\<close>

lemma cut_table:
  fixes h :: "nat option list"
  assumes E: "realloc_documented E" and pw: "parcel_wf p" and m: "m \<le> objectCursor p"
    and os: "realloc_offsets E (Some (offsets_array p)) m = Some os"
  defines "q \<equiv> p\<lparr>objectOffsets := Some os, objectCursor := m, objectsCapacity := m,
      objectHolder := h, nextObjectIdx := 0\<rparr>"
  shows "parcel_wf q" "offsets q = take m (offsets_array p)" "objectsCapacity q < 2 ^ 60"
    "seen_upto (readCursor q) q"
proof -
  have "m \<le> length (offsets_array p)"
    using m pw length_offsets_array [OF pw] by (auto simp: parcel_wf_def)
  then have "length os = m" "m < 2 ^ 60" "take m os = take m (offsets_array p)"
    using E os unfolding realloc_documented_def by blast+
  then show "parcel_wf q" "offsets q = take m (offsets_array p)" "objectsCapacity q < 2 ^ 60"
    "seen_upto (readCursor q) q"
    using pw by (simp_all add: q_def parcel_wf_def offsets_def offsets_array_def seen_upto_def)
qed

lemma ClearObjects_wf:
  "parcel_wf p \<Longrightarrow> parcel_wf (ClearObjects p)" "offsets (ClearObjects p) = []"
  "content (ClearObjects p) = content p" "seen_upto c (ClearObjects p)"
  by (simp_all add: ClearObjects_def parcel_wf_def offsets_def offsets_array_def seen_upto_def)

lemma RewindWrite_outcome:
  assumes E: "realloc_documented E" and wf: "objects_wf p" and srt: "sorted (offsets p)"
    and pos: "pos \<le> dataSize p"
  shows "\<exists>ok q. RewindWrite E pos p = Some (ok, q) \<and> content q = take pos (content p) \<and> dataSize q = pos \<and>
      writeCursor q = pos \<and>
      (ok \<longrightarrow> objects_wf q \<and> offsets q = filter (\<lambda>off. off + FLAT_OBJECT_SIZE \<le> pos) (offsets p))"
proof -
  have pw: "parcel_wf p" and seen: "seen_upto (readCursor p) p" and cap: "objectsCapacity p < 2 ^ 60"
    using wf by (auto simp: objects_wf_def)
  let ?p1 = "p\<lparr>writeCursor := pos, dataSize := pos\<rparr>" and ?n = "objectCursor p" and ?os = "offsets_array p"
  let ?fit = "\<lambda>off. off + FLAT_OBJECT_SIZE \<le> pos"
  note p1 = truncate_wf [OF pw pos]
  have arr: "offsets_array ?p1 = ?os" and offs: "offsets ?p1 = offsets p"
    by (simp_all add: offsets_array_def offsets_def cong: option.case_cong)
  have n: "?n \<le> length ?os"
    using pw length_offsets_array [OF pw] by (simp add: parcel_wf_def)
  have add: "\<And>off. off \<in> set (take ?n ?os) \<Longrightarrow> size_add off FLAT_OBJECT_SIZE = off + FLAT_OBJECT_SIZE"
    using objects_wf_offset(2) [OF wf] by (simp add: offsets_def)
  have keep: "objects_wf q" if "parcel_wf q" "offsets q = filter ?fit (offsets p)" "dataSize q = pos"
    "objectsCapacity q < 2 ^ 60" "seen_upto (readCursor q) q" for q
    using wf that by (auto simp: objects_wf_def list_all_iff)
  show ?thesis
  proof (cases "?n = 0")
    case True
    then have "objects_wf ?p1" "offsets p = []"
      using p1 cap seen offs keep [of ?p1] seen_upto_cong [of ?p1 p] by (simp_all add: offsets_def)
    then show ?thesis
      using True pos offs p1 by (auto simp: RewindWrite_def Let_def)
  next
    case False
    then have oo: "objectOffsets p = Some ?os"
      using n by (auto simp: offsets_array_def split: option.splits)
    let ?last = "?os ! (?n - 1)"
    have split: "offsets p = take (?n - 1) ?os @ [?last]"
      using False n take_Suc_conv_app_nth [of "?n - 1" ?os] by (simp add: offsets_def)
    have last: "size_add ?last FLAT_OBJECT_SIZE = ?last + FLAT_OBJECT_SIZE"
      using objects_wf_offset(2) [OF wf, of ?last] split by simp
    have rd: "mem_read (?n - 1) 1 ?os = Some [?last]"
      using False n by (simp add: mem_read_def Cons_nth_drop_Suc [symmetric])
    show ?thesis
    proof (cases "?fit ?last")
      case True
      then have "filter ?fit (offsets p) = offsets p"
        using srt filter_sorted_last unfolding split by blast
      then have "objects_wf ?p1" "offsets ?p1 = filter ?fit (offsets p)"
        using p1 cap seen offs keep [of ?p1] seen_upto_cong [of ?p1 p] by simp_all
      then show ?thesis
        using True False pos oo arr rd last p1 by (auto simp: RewindWrite_def Let_def)
    next
      case drop: False
      obtain m where m: "objects_kept ?os pos ?n = Some m" "m \<le> ?n" "take m ?os = filter ?fit (offsets p)"
        using objects_kept_filter [of ?n ?os pos] srt n add by (auto simp: offsets_def)
      have run: "RewindWrite E pos p = (if m = 0 then Some (True, ClearObjects ?p1)
          else case realloc_offsets E (Some ?os) m of None \<Rightarrow> Some (False, ?p1)
            | Some os \<Rightarrow> Some (True, ?p1\<lparr>objectOffsets := Some os, objectCursor := m, objectsCapacity := m,
                objectHolder := holder_resize m (objectHolder p), nextObjectIdx := 0\<rparr>))"
        using False drop pos oo arr rd last m
        by (simp add: RewindWrite_def Let_def cong: option.case_cong)
      show ?thesis
      proof (cases "m = 0")
        case True
        then have "objects_wf (ClearObjects ?p1)"
          using p1 m(3) ClearObjects_wf [where p = ?p1]
          by (intro keep) (simp_all add: ClearObjects_def)
        then show ?thesis
          using True run p1 m(3) ClearObjects_wf [where p = ?p1] by (auto simp: ClearObjects_def)
      next
        case pos: False
        show ?thesis
        proof (cases "realloc_offsets E (Some ?os) m")
          case None
          then show ?thesis using pos run p1 by auto
        next
          case (Some os)
          note cut = cut_table [OF E p1(1), of m os "holder_resize m (objectHolder p)"]
          show ?thesis
            using pos run p1 m Some cut arr keep by (auto cong: option.case_cong)
        qed
      qed
    qed
  qed
qed

section \<open>Remote objects\<close>

lemma appended_objects_wf:
  assumes "appended p bs q" "objects_wf p"
  shows "objects_wf q" "offsets q = offsets p"
proof -
  show off: "offsets q = offsets p"
    using assms(1) by (intro offsets_cong) (simp_all add: appended_fields)
  show "objects_wf q"
    using assms off seen_upto_cong [of q p] appended_wf [OF assms(1)] appended_fields [OF assms(1)]
    by (auto simp: objects_wf_def list_all_iff)
qed

lemma ensure_objects_content:
  assumes "objects_wf (p\<lparr>objectOffsets := Some os, objectsCapacity := c\<rparr>)"
    "appended (p\<lparr>objectOffsets := Some os, objectsCapacity := c\<rparr>) bs q"
  shows "content q = content p @ bs" "dataSize q = dataSize p + length bs" "objects_wf q"
    "objectsCapacity q = c" "objectCursor q = objectCursor p"
  using appended_content [OF assms(2)] appended_fields [OF assms(2)] appended_objects_wf [OF assms(2,1)]
  by simp_all

lemma CheckOffsets_eq:
  assumes "objects_wf p"
  shows "CheckOffsets p =
    Some (size_add (readCursor p) FLAT_OBJECT_SIZE \<le> dataSize p \<and> readCursor p \<in> set (offsets p))"
  using offset_recorded_table [of p "readCursor p"] assms
  by (auto simp: CheckOffsets_def objects_wf_def Let_def)

text \<open>
  A marshalling function that writes plain data: it is defined, appends a prefix of \<open>bs\<close>, and all of it
  when it reports success. It may fail for reasons of its own.
\<close>

definition marshals :: "(parcel \<Rightarrow> (bool \<times> parcel) option) \<Rightarrow> byte list \<Rightarrow> bool" where
  "marshals m bs \<longleftrightarrow>
     (\<forall>p. parcel_wf p \<longrightarrow>
        (\<exists>ok q pre. m p = Some (ok, q) \<and> appended p pre q \<and> prefix pre bs \<and> (ok \<longrightarrow> pre = bs)))"

lemma writer_marshals: "writer_spec m bs \<Longrightarrow> marshals m bs"
  unfolding writer_spec_def marshals_def by blast

lemma marshalsE:
  assumes "marshals m bs" "parcel_wf p"
  obtains ok q pre where "m p = Some (ok, q)" "appended p pre q" "prefix pre bs" "ok \<Longrightarrow> pre = bs"
  using assms unfolding marshals_def by blast

lemma WriteRemoteObject_outcome:
  assumes E: "realloc_documented E" and wf: "objects_wf p" "writable p" and ob: "asRemote ob"
    and m: "marshals (Marshalling ob) bs"
  shows "\<exists>ok q pre. WriteRemoteObject E (Some ob) p = Some (ok, q) \<and> objects_wf q \<and> writable q \<and>
      content q = content p @ pre \<and> prefix pre bs \<and>
      (if ok then pre = bs \<and> set (offsets q) = insert (dataSize p) (set (offsets p)) \<and>
                  (TestBehavior HOLD_OBJECT ob \<longrightarrow> Some (obj_id ob) \<in> set (objectHolder q))
       else offsets q = offsets p)"
proof (cases rule: EnsureObjectsCapacity_cases [OF E wf(1)])
  case 1
  then show ?thesis
    using wf ob by (intro exI [of _ False] exI [of _ p] exI [of _ "[]"]) (simp add: WriteRemoteObject_def)
next
  case granted: (2 os c)
  let ?p1 = "p\<lparr>objectOffsets := Some os, objectsCapacity := c\<rparr>"
  have p1: "parcel_wf ?p1" and wc: "writeCursor p = dataSize p"
    using granted(2) wf by (simp_all add: objects_wf_def parcel_wf_def)
  obtain ok2 p2 pre where p2: "Marshalling ob ?p1 = Some (ok2, p2)" "appended ?p1 pre p2" "prefix pre bs"
      "ok2 \<Longrightarrow> pre = bs"
    using m p1 by (rule marshalsE) blast
  note c2 = ensure_objects_content [OF granted(2) p2(2)]
  have w2: "writable p2" and o2: "offsets p2 = offsets p"
    using appended_fields(11) [OF p2(2)] appended_objects_wf(2) [OF p2(2) granted(2)] wf(2) granted(4) by simp_all
  show ?thesis
  proof (cases ok2)
    case False
    then show ?thesis
      using granted ob p2 c2 w2 o2
      by (intro exI [of _ False] exI [of _ p2] exI [of _ pre]) (simp add: WriteRemoteObject_def)
  next
    case True
    have "\<exists>b q. WriteObjectOffset (dataSize p) p2 = Some (b, q) \<and> objects_wf q \<and>
        set (offsets q) = insert (dataSize p) (set (offsets p)) \<and> content q = content p2 \<and> writable q"
      using WriteObjectOffset_safe [OF c2(3), of "dataSize p"] c2 granted(3) o2 w2
      by (cases "dataSize p \<in> set (offsets p)") (auto simp: insert_absorb)
    then obtain b q where q: "WriteObjectOffset (dataSize p) p2 = Some (b, q)" "objects_wf q"
        "set (offsets q) = insert (dataSize p) (set (offsets p))" "content q = content p2" "writable q"
      by blast
    let ?q = "if TestBehavior HOLD_OBJECT ob then q\<lparr>objectHolder := objectHolder q @ [Some (obj_id ob)]\<rparr> else q"
    have "objects_wf ?q" "offsets ?q = offsets q"
      using q(2) by (auto simp: objects_wf_def parcel_wf_def seen_upto_def offsets_def offsets_array_def)
    moreover have "WriteRemoteObject E (Some ob) p = Some (True, ?q)"
      using granted ob p2 True q(1) wc by (simp add: WriteRemoteObject_def)
    ultimately show ?thesis
      using q p2 c2 True by (intro exI [of _ True] exI [of _ ?q] exI [of _ bs]) auto
  qed
qed

section \<open>Properties\<close>

text \<open>A parcel of 40 bytes with one object at offset 8, for closed instances.\<close>

definition object_parcel :: parcel where
  "object_parcel = sample_parcel\<lparr>data := Some (replicate 40 0), dataSize := 40, dataCapacity := 40,
     writeCursor := 40, objectOffsets := Some [8, 0, 0], objectCursor := 1, objectsCapacity := 3\<rparr>"

lemma object_parcel_wf: "objects_wf object_parcel" "writable object_parcel"
  using sample_parcel_wf
  by (simp_all add: objects_wf_def object_parcel_def parcel_wf_def offsets_def offsets_array_def
    seen_upto_def sample_parcel_def Parcel_new_def)

lemma object_parcel_offsets: "offsets object_parcel = [8]"
  by (simp add: object_parcel_def offsets_def offsets_array_def)

lemma object_parcel_fields:
  "readCursor object_parcel = 0" "dataSize object_parcel = 40" "GetReadableBytes object_parcel = 40"
  by (simp_all add: object_parcel_def sample_parcel_def Parcel_new_def GetReadableBytes_def size_sub_def)

text \<open>
  C4: plain reads and flattened objects. With the object table in ascending order, a plain read of \<open>n\<close>
  available bytes returns data exactly when the bytes it would return meet no object of the table; either
  way the cursor moves past them and the invariant of the table is kept.
\<close>

theorem plain_read_avoids_objects:
  assumes "objects_wf p" "sorted (offsets p)" "0 < n" "n \<le> GetReadableBytes p"
  shows "\<exists>r p'. Read_T n p = Some (r, p') \<and> (r \<noteq> None \<longleftrightarrow> clear_of (readCursor p) (readCursor p + n) p) \<and>
      readCursor p' = readCursor p + n \<and> offsets p' = offsets p \<and> objects_wf p'"
proof -
  obtain r i where run: "Read_T n p = Some (r, p\<lparr>nextObjectIdx := i, readCursor := readCursor p + n\<rparr>)"
      "r \<noteq> None \<longleftrightarrow> clear_of (readCursor p) (readCursor p + n) p"
      "seen_upto (readCursor p) (p\<lparr>nextObjectIdx := i\<rparr>)"
    using Read_T_objects [OF assms] by blast
  let ?q = "p\<lparr>nextObjectIdx := i, readCursor := readCursor p + n\<rparr>"
  have pw: "parcel_wf p"
    using assms(1) by (simp add: objects_wf_def)
  have off: "offsets ?q = offsets p"
    by (intro offsets_cong) simp_all
  have "readCursor p + n < SIZE_MOD"
    using readable_bounds [OF pw assms(4)] assms(3) by auto
  then have "parcel_wf ?q"
    using pw by (simp add: parcel_wf_def)
  moreover have "seen_upto (readCursor ?q) ?q"
    using run(3) off by (auto simp: seen_upto_def offsets_def offsets_array_def cong: option.case_cong)
  ultimately have "objects_wf ?q"
    using assms(1) off by (simp add: objects_wf_def)
  then show ?thesis
    using run off by (intro exI [of _ r] exI [of _ ?q]) simp
qed

theorem plain_read_avoids_objects_witness:
  "\<exists>r p'. Read_T 12 object_parcel = Some (r, p') \<and> r = None \<and> readCursor p' = 12"
proof -
  have "\<not> clear_of 0 12 object_parcel"
    by (simp add: clear_of_def object_parcel_offsets FLAT_OBJECT_SIZE_def)
  then show ?thesis
    using plain_read_avoids_objects [OF object_parcel_wf(1), of 12]
    by (auto simp: object_parcel_offsets object_parcel_fields)
qed

text \<open>
  Offsets handed over by the driver. \<^verbatim>\<open>InjectOffsets\<close> with an array of at least the given size never
  leaves the arrays, keeps the table free of duplicates and within the data, records a subsequence of the
  given offsets after those already there, and does not touch the data.
\<close>

theorem InjectOffsets_safe:
  assumes "realloc_documented E" "objects_wf p" "n \<le> length offs"
  shows "\<exists>q new. InjectOffsets E (Some offs) n p = Some q \<and> objects_wf q \<and> offsets q = offsets p @ new \<and>
      subseq new (take n offs) \<and> content q = content p"
  using inject_loop_safe [OF assms(1,2), of 0 n offs] assms(2,3)
  by (cases "n = 0") (simp_all add: InjectOffsets_def)

theorem InjectOffsets_safe_witness:
  "\<exists>q new. InjectOffsets sample_env (Some [32, 8, 99]) 3 object_parcel = Some q \<and>
     offsets q = [8] @ new \<and> subseq new [32, 8, 99]"
  using InjectOffsets_safe [OF sample_env_realloc object_parcel_wf(1), of 3 "[32, 8, 99]"]
  by (auto simp: object_parcel_offsets)

text \<open>
  C5: rewinding the write cursor. For a position inside the data and a table in ascending order,
  \<^verbatim>\<open>RewindWrite\<close> is defined, cuts the content to that position, and when it reports success leaves exactly
  the objects that lie completely inside what remains.
\<close>

theorem RewindWrite_drops_objects:
  assumes "realloc_documented E" "objects_wf p" "sorted (offsets p)" "pos \<le> dataSize p"
  shows "\<exists>ok q. RewindWrite E pos p = Some (ok, q) \<and> content q = take pos (content p) \<and>
      dataSize q = pos \<and> writeCursor q = pos \<and>
      (ok \<longrightarrow> objects_wf q \<and> offsets q = filter (\<lambda>off. off + FLAT_OBJECT_SIZE \<le> pos) (offsets p))"
  by (rule RewindWrite_outcome [OF assms])

theorem RewindWrite_drops_objects_witness:
  "\<exists>ok q. RewindWrite sample_env 16 object_parcel = Some (ok, q) \<and>
     content q = take 16 (content object_parcel) \<and> dataSize q = 16"
  using RewindWrite_drops_objects [OF sample_env_realloc object_parcel_wf(1), of 16]
  by (auto simp: object_parcel_offsets object_parcel_fields FLAT_OBJECT_SIZE_def)

text \<open>
  Remote objects are found where they were written. Writing a remote object whose marshalling writes at
  least a flat object's worth of plain data is defined; if it reports success, the data grew by exactly
  the marshalled bytes, the object's position is in the table, and \<^verbatim>\<open>CheckOffsets\<close> with the read cursor at
  that position answers true.
\<close>

theorem WriteRemoteObject_recorded:
  assumes "realloc_documented E" "objects_wf p" "writable p" "asRemote ob"
    "marshals (Marshalling ob) bs" "FLAT_OBJECT_SIZE \<le> length bs"
  shows "\<exists>ok q. WriteRemoteObject E (Some ob) p = Some (ok, q) \<and> objects_wf q \<and>
      (ok \<longrightarrow> content q = content p @ bs \<and>
        (\<forall>r. parcel_wf r \<and> objects_wf r \<and> content r = content q \<and> offsets r = offsets q \<and>
             readCursor r = dataSize p \<longrightarrow> CheckOffsets r = Some True))"
proof -
  obtain ok q pre where q: "WriteRemoteObject E (Some ob) p = Some (ok, q)" "objects_wf q"
      "content q = content p @ pre" "ok \<Longrightarrow> pre = bs"
      "ok \<Longrightarrow> set (offsets q) = insert (dataSize p) (set (offsets p))"
    using WriteRemoteObject_outcome [OF assms(1-5)] by (auto split: if_splits)
  have "CheckOffsets r = Some True"
    if ok and r: "parcel_wf r" "objects_wf r" "content r = content q" "offsets r = offsets q"
      "readCursor r = dataSize p" for r
  proof -
    have pw: "parcel_wf p"
      using assms(2) by (simp add: objects_wf_def)
    have "dataSize r = dataSize p + length bs"
      using q(3,4) that length_content [OF r(1)] length_content [OF pw] by simp
    moreover have "dataSize r < 2 ^ 63"
      using r(1) by (auto simp: parcel_wf_def)
    ultimately have "size_add (readCursor r) FLAT_OBJECT_SIZE \<le> dataSize r"
      using r(5) assms(6) by (simp add: size_add_small)
    then show ?thesis
      using CheckOffsets_eq [OF r(2)] q(5) that by simp
  qed
  then show ?thesis
    using q by blast
qed

definition sample_object :: parcelable where
  "sample_object = \<lparr>obj_id = 1, asRemote = True, behavior = 0, Marshalling = write_items sample_env
     [I_Uint64 0, I_Uint64 0, I_Uint64 0]\<rparr>"

lemma sample_object_marshals: "marshals (Marshalling sample_object) (replicate 24 0)"
  using writer_marshals [OF write_items_spec [of sample_env "[I_Uint64 0, I_Uint64 0, I_Uint64 0]"]]
  by (simp add: sample_object_def replicate_add [symmetric])

theorem WriteRemoteObject_recorded_witness:
  "\<exists>ok q. WriteRemoteObject sample_env (Some sample_object) object_parcel = Some (ok, q) \<and> objects_wf q"
  using WriteRemoteObject_recorded [OF sample_env_realloc object_parcel_wf _ sample_object_marshals]
  by (auto simp: sample_object_def FLAT_OBJECT_SIZE_def)

lemma Write_T_false: "Write_T bs p = Some (False, q) \<Longrightarrow> q = p"
  using Ensure_false [of "length bs" p]
  by (auto simp: Write_T_def Let_def split: prod.splits if_splits bind_splits)


definition failing_object :: parcelable where
  "failing_object = \<lparr>obj_id = 2, asRemote = True, behavior = 0, Marshalling = \<lambda>p. Some (False, p)\<rparr>"


text \<open>With one free slot in the table, writing a plain remote object uses it up.\<close>

lemma Ensure_slot: "objects_wf p \<Longrightarrow> objectCursor p < objectsCapacity p \<Longrightarrow> EnsureObjectsCapacity E p = (True, p)"
  by (simp add: EnsureObjectsCapacity_def objects_wf_def size_simps Suc_le_eq)

lemma WriteRemoteObject_last_slot:
  assumes p: "objects_wf p" "Suc (objectCursor p) = objectsCapacity p" "dataSize p \<notin> set (offsets p)"
    and ob: "asRemote ob" "writer_spec (Marshalling ob) bs" "ample p (length bs)" "behavior ob = 0"
  shows "\<exists>q. WriteRemoteObject E (Some ob) p = Some (True, q) \<and> objects_wf q \<and>
      objectCursor q = objectsCapacity q \<and> offsets q = offsets p @ [dataSize p] \<and> dataSize p \<le> dataSize q"
proof -
  have pw: "parcel_wf p" and wc: "writeCursor p = dataSize p"
    using p(1) ob(3) by (auto simp: objects_wf_def parcel_wf_def ample_def)
  obtain ok p2 pre where p2: "Marshalling ob p = Some (ok, p2)" "appended p pre p2" "ample p (length bs) \<Longrightarrow> ok"
    using ob(2) pw by (rule writer_specE) blast
  note o2 = appended_objects_wf [OF p2(2) p(1)] and f2 = appended_fields [OF p2(2)]
  obtain q where q: "WriteObjectOffset (dataSize p) p2 = Some (True, q)" "objects_wf q"
      "offsets q = offsets p @ [dataSize p]" "dataSize q = dataSize p2" "objectsCapacity q = objectsCapacity p"
    using WriteObjectOffset_safe [OF o2(1), of "dataSize p"] p f2 o2(2) by auto
  have "objectCursor q = objectsCapacity q"
    using q length_offsets [of q] length_offsets [OF pw] p(2) by (simp add: objects_wf_def)
  moreover have "WriteRemoteObject E (Some ob) p = Some (True, q)"
    using ob p2 q(1) wc p Ensure_slot [OF p(1)]
    by (simp add: WriteRemoteObject_def TestBehavior_def)
  ultimately show ?thesis
    using q f2 by auto
qed

definition nested_object :: "parcel_env \<Rightarrow> parcelable" where
  "nested_object E = \<lparr>obj_id = 3, asRemote = True, behavior = 0,
     Marshalling = (\<lambda>p. do {
       (ok, q) \<leftarrow> WriteInt32 0 p;
       if \<not> ok then Some (False, q) else WriteRemoteObject E (Some sample_object) q
     })\<rparr>"

text \<open>
  C7: a remote object whose marshalling writes another remote object can write past the table of offsets.
  When the table has exactly one free slot and memory is available, the slot checked for the outer object
  is used by the inner one, and recording the outer object writes outside the array.
\<close>

theorem nested_remote_object_overflows:
  assumes p: "objects_wf p" "Suc (objectCursor p) = objectsCapacity p" "dataSize p \<notin> set (offsets p)"
    "ample p 28"
  shows "WriteRemoteObject E (Some (nested_object E)) p = None"
proof -
  have pw: "parcel_wf p" and wc: "writeCursor p = dataSize p"
    using p by (auto simp: objects_wf_def parcel_wf_def ample_def)
  have "ample p (length (le_bytes 4 (0 :: 32 word)))"
    using p(4) by (simp add: ample_def)
  then obtain p1 where w: "WriteInt32 0 p = Some (True, p1)"
    using int32_codec.write_succeeds [OF TrueI pw] by blast
  have a: "appended p (le_bytes 4 (0 :: 32 word)) p1"
    using int32_codec.write_appends [OF TrueI pw w] .
  note o1 = appended_objects_wf [OF a p(1)] and f1 = appended_fields [OF a]
  have "dataSize p1 \<notin> set (offsets p1)"
    using p(1) f1 o1(2) by (auto simp: objects_wf_def list_all_iff)
  moreover have "ample p1 (length (replicate 24 (0::byte)))"
    using appended_ample [OF a, of 24] p(4) by simp
  moreover have "writer_spec (Marshalling sample_object) (replicate 24 0)"
    using write_items_spec [of sample_env "[I_Uint64 0, I_Uint64 0, I_Uint64 0]"]
    by (simp add: sample_object_def replicate_add [symmetric])
  ultimately obtain q where q: "WriteRemoteObject E (Some sample_object) p1 = Some (True, q)" "objects_wf q"
      "objectCursor q = objectsCapacity q" "offsets q = offsets p1 @ [dataSize p1]" "dataSize p1 \<le> dataSize q"
    using WriteRemoteObject_last_slot [OF o1(1), of sample_object "replicate 24 0" E] f1(7,8) p(2)
    by (auto simp: sample_object_def)
  have qw: "parcel_wf q"
    using q(2) by (simp add: objects_wf_def)
  have "offset_recorded (offsets_array q) (dataSize p) 0 (objectCursor q) = Some False"
    using offset_recorded_table [OF qw, of "dataSize p"] q(4) o1(2) f1 p(3) by auto
  then have "WriteObjectOffset (dataSize p) q = None"
    using q(3,5) f1 length_offsets_array [OF qw] by (simp add: WriteObjectOffset_def mem_write_def)
  then show ?thesis
    using w q(1) p(2) wc Ensure_slot [OF p(1)] by (simp add: WriteRemoteObject_def nested_object_def)
qed

definition full_parcel :: parcel where
  "full_parcel = sample_parcel\<lparr>data := Some (replicate 64 0), dataSize := 48, dataCapacity := 64,
     writeCursor := 48, objectOffsets := Some [0, 24, 0], objectCursor := 2, objectsCapacity := 3\<rparr>"

theorem nested_remote_object_overflows_witness:
  "WriteRemoteObject sample_env (Some (nested_object sample_env)) full_parcel = None"
proof -
  have "objects_wf full_parcel"
    using sample_parcel_wf
    by (simp add: objects_wf_def full_parcel_def parcel_wf_def offsets_def offsets_array_def
      seen_upto_def sample_parcel_def Parcel_new_def)
  moreover have "ample full_parcel 28" "Suc (objectCursor full_parcel) = objectsCapacity full_parcel"
    "dataSize full_parcel \<notin> set (offsets full_parcel)"
    using sample_parcel_ample [of 76]
    by (simp_all add: ample_def full_parcel_def offsets_def offsets_array_def DEFAULT_CPACITY_def
      sample_parcel_def Parcel_new_def)
  ultimately show ?thesis
    using nested_remote_object_overflows by blast
qed

end
