(* ===== verification/Parcel_State.thy ===== *)
theory Parcel_State
  imports Parcel_Vector Parcel_Object_Safety
begin

text \<open>
  The parcel as a state machine: what each operation of its public interface keeps of the well-formedness
  invariant, and runs of arbitrary sequences of them, including the control operations that change
  capacity, allocator and cursors.
\<close>

section \<open>Control operations\<close>

lemma SetMaxCapacity_wf:
  "parcel_wf p \<Longrightarrow> n < SIZE_MOD \<Longrightarrow> parcel_wf (snd (SetMaxCapacity n p))"
  "content (snd (SetMaxCapacity n p)) = content p"
  by (auto simp: SetMaxCapacity_def parcel_wf_def)

lemma SetDataCapacity_wf:
  assumes wf: "parcel_wf p"
  shows "parcel_wf (snd (SetDataCapacity n p)) \<and> content (snd (SetDataCapacity n p)) = content p"
proof (cases "allocator p")
  case (Some al)
  have A: "Allocator_contract al"
    using wf Some by (simp add: parcel_wf_def)
  show ?thesis
  proof (cases "dataSize p \<ge> n \<or> Realloc al (data p) n = None")
    case True
    then show ?thesis using wf Some by (auto simp: SetDataCapacity_def)
  next
    case False
    then obtain nd where nd: "Realloc al (data p) n = Some nd" by auto
    note len = Allocator_contract.Realloc_length [OF A nd]
    have "take (dataSize p) nd = content p"
    proof (cases "data p")
      case None
      then show ?thesis using wf by (simp add: content_def parcel_wf_def)
    next
      case d: (Some d)
      then have "dataSize p \<le> length d" using wf by (simp add: parcel_wf_def)
      then show ?thesis
        using Allocator_contract.Realloc_keeps [OF A nd [unfolded d]] False d by (simp add: content_def)
    qed
    then show ?thesis
      using False Some nd len wf by (auto simp: SetDataCapacity_def parcel_wf_def content_def)
  qed
qed (use wf in \<open>simp add: SetDataCapacity_def\<close>)

lemma memcpy_s_documentedD:
  assumes "memcpy_s_documented E" "memcpy_s E win src = (eok, win')"
  shows "length win' = length win" "eok \<longrightarrow> win' = src @ drop (length src) win"
  using assms unfolding memcpy_s_documented_def by blast+

lemma SetAllocator_wf:
  assumes E: "memcpy_s_documented E" and wf: "parcel_wf p"
    and al: "\<And>a. newAlloc = Some a \<Longrightarrow> Allocator_contract a"
  shows "\<exists>ok q. SetAllocator E newAlloc p = Some (ok, q) \<and> parcel_wf q \<and> content q = content p"
proof (cases newAlloc)
  case None
  then show ?thesis using wf by (auto simp: SetAllocator_def)
next
  case (Some a)
  then have A: "Allocator_contract a" using al by simp
  show ?thesis
  proof (cases "data p \<noteq> None \<and> dataSize p > 0 \<and> allocator p \<noteq> None \<and>
      map_option alloc_addr (allocator p) \<noteq> Some (alloc_addr a)")
    case False
    have "parcel_wf (p\<lparr>allocator := Some a\<rparr>)"
      using wf A by (simp add: parcel_wf_def)
    then show ?thesis
      using False Some wf by (auto simp: SetAllocator_def)
  next
    case True
    then obtain d where d: "data p = Some d" by auto
    have len: "dataSize p \<le> length d" "length d < 2 ^ 63"
      using wf d by (auto simp: parcel_wf_def)
    show ?thesis
    proof (cases "Alloc a (dataSize p)")
      case None
      then show ?thesis using True Some wf by (auto simp: SetAllocator_def)
    next
      case nd: (Some nd)
      obtain eok nd' where m: "memcpy_s E nd (take (dataSize p) d) = (eok, nd')"
        by (cases "memcpy_s E nd (take (dataSize p) d)")
      have l: "length nd = dataSize p"
        using Allocator_contract.Alloc_length [OF A nd] by simp
      have m': "length nd' = length nd" "eok \<longrightarrow> nd' = take (dataSize p) d"
        using memcpy_s_documentedD [OF E m] l len by auto
      have run: "SetAllocator E newAlloc p = Some (if eok then (True, p\<lparr>data := Some nd',
          dataCapacity := dataSize p, allocator := Some a\<rparr>) else (False, p))"
        using True Some nd d m len by (simp add: SetAllocator_def buf_simps)
      show ?thesis
      proof (cases eok)
        case eok: True
        have "parcel_wf (p\<lparr>data := Some nd', dataCapacity := dataSize p, allocator := Some a\<rparr>)"
          using wf A m' l len by (simp add: parcel_wf_def)
        then show ?thesis
          using run eok m' d by (auto simp: content_def)
      qed (use run wf in auto)
    qed
  qed
qed

lemma FlushBuffer_wf: "parcel_wf p \<Longrightarrow> parcel_wf (FlushBuffer p)"
  by (auto simp: FlushBuffer_def Let_def parcel_wf_def ClearObjects_def)

lemma ParseFrom_wf:
  "parcel_wf p \<Longrightarrow> length d < 2 ^ 63 \<Longrightarrow> parcel_wf (snd (ParseFrom (Some d) (length d) p))"
  by (auto simp: ParseFrom_def Let_def parcel_wf_def ClearObjects_def)

lemma RewindRead_wf: "parcel_wf p \<Longrightarrow> parcel_wf (snd (RewindRead n p))"
  by (auto simp: RewindRead_def parcel_wf_def)

lemma RewindWrite_wf:
  assumes E: "realloc_documented E" and wf: "parcel_wf p"
  shows "\<exists>ok q. RewindWrite E n p = Some (ok, q) \<and> parcel_wf q"
proof (cases "n \<le> dataSize p")
  case True
  let ?p1 = "p\<lparr>writeCursor := n, dataSize := n\<rparr>"
  note p1 = truncate_wf(1) [OF wf True]
  have arr: "offsets_array ?p1 = offsets_array p"
    by (simp add: offsets_array_def cong: option.case_cong)
  have len: "objectCursor p \<le> length (offsets_array p)"
    using wf length_offsets_array [OF wf] by (simp add: parcel_wf_def)
  show ?thesis
  proof (cases "objectCursor p = 0 \<or> objectOffsets p = None")
    case False
    then have rd: "mem_read (objectCursor p - 1) 1 (offsets_array p) =
        Some [offsets_array p ! (objectCursor p - 1)]" and oo: "objectOffsets p = Some (offsets_array p)"
      using len by (auto simp: mem_read_def offsets_array_def Cons_nth_drop_Suc [symmetric])
    obtain m where m: "objects_kept (offsets_array p) n (objectCursor p) = Some m" "m \<le> objectCursor p"
      using objects_kept_total [OF len] by blast
    have "parcel_wf (?p1\<lparr>objectOffsets := Some os, objectCursor := m, objectsCapacity := m,
        objectHolder := h, nextObjectIdx := 0\<rparr>)"
      if "realloc_offsets E (Some (offsets_array p)) m = Some os" for os h
      using cut_table(1) [OF E p1, of m os h] that m(2) arr by simp
    then show ?thesis
      using True False rd oo m p1 arr ClearObjects_wf(1) [OF p1]
      by (auto simp: RewindWrite_def Let_def split: option.splits)
  qed (use True p1 in \<open>auto simp: RewindWrite_def Let_def\<close>)
qed (use wf in \<open>auto simp: RewindWrite_def\<close>)

section \<open>Runs\<close>

text \<open>
  The operations a client may perform in any order. \<^verbatim>\<open>SetDataSize\<close> is left out: it does not keep the
  invariant (see below), nor does the unaligned \<^verbatim>\<open>bool\<close> read have a meaning for every byte.
\<close>

datatype parcel_op =
    Op_SetMaxCapacity nat
  | Op_SetDataCapacity nat
  | Op_SetAllocator "allocator option"
  | Op_FlushBuffer
  | Op_ParseFrom "byte list"
  | Op_SkipBytes nat
  | Op_RewindRead nat
  | Op_RewindWrite nat
  | Op_Write parcel_item
  | Op_WriteVector vector_item
  | Op_Read item_type

fun run_op :: "parcel_env \<Rightarrow> parcel_op \<Rightarrow> parcel \<Rightarrow> parcel option" where
  "run_op E (Op_SetMaxCapacity n) p = Some (snd (SetMaxCapacity n p))"
| "run_op E (Op_SetDataCapacity n) p = Some (snd (SetDataCapacity n p))"
| "run_op E (Op_SetAllocator al) p = map_option snd (SetAllocator E al p)"
| "run_op E Op_FlushBuffer p = Some (FlushBuffer p)"
| "run_op E (Op_ParseFrom d) p = Some (snd (ParseFrom (Some d) (length d) p))"
| "run_op E (Op_SkipBytes n) p = Some (SkipBytes n p)"
| "run_op E (Op_RewindRead n) p = Some (snd (RewindRead n p))"
| "run_op E (Op_RewindWrite n) p = map_option snd (RewindWrite E n p)"
| "run_op E (Op_Write i) p = map_option snd (write_item E i p)"
| "run_op E (Op_WriteVector v) p = map_option snd (write_vector_item E v p)"
| "run_op E (Op_Read t) p = map_option snd (read_item t p)"

fun run_ops :: "parcel_env \<Rightarrow> parcel_op list \<Rightarrow> parcel \<Rightarrow> parcel option" where
  "run_ops E [] p = Some p"
| "run_ops E (op # ops) p = do { q \<leftarrow> run_op E op p; run_ops E ops q }"

text \<open>What the arguments of an operation must satisfy: the types and contracts of the interface.\<close>

fun op_ok :: "parcel_env \<Rightarrow> parcel_op \<Rightarrow> bool" where
  "op_ok E (Op_SetMaxCapacity n) \<longleftrightarrow> n < SIZE_MOD"
| "op_ok E (Op_SetAllocator al) \<longleftrightarrow> (\<forall>a. al = Some a \<longrightarrow> Allocator_contract a)"
| "op_ok E (Op_ParseFrom d) \<longleftrightarrow> length d < 2 ^ 63"
| "op_ok E (Op_Write i) \<longleftrightarrow> item_ok E i"
| "op_ok E (Op_WriteVector v) \<longleftrightarrow> vector_item_ok E v"
| "op_ok E (Op_Read t) \<longleftrightarrow> t \<noteq> T_BoolUnaligned"
| "op_ok E _ \<longleftrightarrow> True"

lemma writer_spec_wf: "writer_spec w bs \<Longrightarrow> parcel_wf p \<Longrightarrow> \<exists>q. map_option snd (w p) = Some q \<and> parcel_wf q"
  unfolding writer_spec_def by (fastforce dest: appended_wf)

lemma reader_safe_wf: "reader_safe r \<Longrightarrow> parcel_wf p \<Longrightarrow> \<exists>q. map_option snd (r p) = Some q \<and> parcel_wf q"
  by (fastforce elim: reader_safeE)

lemma run_op_wf:
  assumes "memcpy_s_documented E" "realloc_documented E" "parcel_wf p" "op_ok E op"
  shows "\<exists>q. run_op E op p = Some q \<and> parcel_wf q"
proof (cases op)
  case (Op_SetAllocator al)
  then obtain ok q where "SetAllocator E al p = Some (ok, q)" "parcel_wf q"
    using SetAllocator_wf [OF assms(1,3), of al] assms(4) by auto
  then show ?thesis using Op_SetAllocator by simp
next
  case (Op_RewindWrite n)
  then show ?thesis using RewindWrite_wf [OF assms(2,3), of n] by auto
next
  case (Op_WriteVector v)
  then show ?thesis using vector_item_codec [of E v] writer_spec_wf assms(3,4) by auto
next
  case (Op_Read t)
  then show ?thesis using reader_safe_wf [OF read_item_safe [of t] assms(3)] assms(4) by simp
next
  case (Op_Write i)
  then show ?thesis using writer_spec_wf [OF write_item_spec [of E i] assms(3)] assms(4) by simp
next
  case (Op_SkipBytes n)
  then show ?thesis using read_frame_wf [OF SkipBytes_frame] assms(3) by simp
qed (use assms(3,4) SetMaxCapacity_wf(1) SetDataCapacity_wf FlushBuffer_wf ParseFrom_wf RewindRead_wf in auto)

lemma run_ops_wf:
  assumes E: "memcpy_s_documented E" "realloc_documented E"
  shows "parcel_wf p \<Longrightarrow> list_all (op_ok E) ops \<Longrightarrow> \<exists>q. run_ops E ops p = Some q \<and> parcel_wf q"
proof (induction ops arbitrary: p)
  case (Cons op ops)
  obtain q where "run_op E op p = Some q" "parcel_wf q"
    using run_op_wf [OF E Cons.prems(1), of op] Cons.prems(2) by auto
  then show ?case
    using Cons.IH [of q] Cons.prems(2) by simp
qed simp

section \<open>Properties\<close>



text \<open>
  Changing the allocator or the capacity never changes what the parcel holds, whether the operation
  succeeds or fails.
\<close>

theorem control_operations_keep_content:
  assumes "memcpy_s_documented E" "parcel_wf p" "Allocator_contract a"
  shows "(\<exists>ok q. SetAllocator E (Some a) p = Some (ok, q) \<and> content q = content p \<and> parcel_wf q) \<and>
    content (snd (SetDataCapacity n p)) = content p \<and> content (snd (SetMaxCapacity m p)) = content p"
  using SetAllocator_wf [OF assms(1,2), of "Some a"] assms(3) SetDataCapacity_wf [OF assms(2), of n]
    SetMaxCapacity_wf(2) by auto

theorem control_operations_keep_content_witness:
  "(\<exists>ok q. SetAllocator sample_env (Some (DefaultAllocator 2 \<lparr>refuses = \<lambda>_. False, junk = \<lambda>_. 0\<rparr>)) object_parcel =
      Some (ok, q) \<and> content q = content object_parcel \<and> parcel_wf q) \<and>
    content (snd (SetDataCapacity 100 object_parcel)) = content object_parcel \<and>
    content (snd (SetMaxCapacity 300000 object_parcel)) = content object_parcel"
  by (rule control_operations_keep_content [OF sample_env_documented])
     (use object_parcel_wf in \<open>auto simp: objects_wf_def intro: default_alloc.Allocator_contract_axioms\<close>)

text \<open>
  C10: \<^verbatim>\<open>SetDataSize\<close> breaks the bounds of the parcel. If the data size of a writable parcel is set to its
  capacity while the write cursor is lower, the next write succeeds and adds its size to the data size,
  which then exceeds the capacity; a read at the old end is accepted and reads outside the data region.
\<close>

theorem SetDataSize_then_read_out_of_bounds:
  assumes "parcel_wf p" "writable p" "plain p" "data p \<noteq> None" "writeCursor p + 4 \<le> dataCapacity p"
  shows "\<exists>p1 p2 p3. SetDataSize (dataCapacity p) p = (True, p1) \<and> WriteInt32 v p1 = Some (True, p2) \<and>
    dataSize p2 = dataCapacity p2 + 4 \<and> RewindRead (dataCapacity p) p2 = (True, p3) \<and> ReadInt32 p3 = None"
proof -
  let ?c = "dataCapacity p" and ?w = "writeCursor p"
  let ?p1 = "p\<lparr>dataSize := ?c\<rparr>"
  obtain d where d: "data p = Some d" "length d = ?c" "?c < 2 ^ 63"
    using assms by (auto simp: parcel_wf_def)
  have "4 \<le> ?c - ?w"
    using assms(5) by simp
  then have e: "EnsureWritableCapacity 4 ?p1 = (True, ?p1)"
    using assms d by (simp add: EnsureWritableCapacity_def GetWritableBytes_def size_simps)
  let ?d' = "take ?w d @ le_bytes 4 v @ drop (?w + 4) d"
  let ?p2 = "p\<lparr>data := Some ?d', writeCursor := ?w + 4, dataSize := ?c + 4\<rparr>"
  have "size_add ?w 4 = ?w + 4" "size_add ?c 4 = ?c + 4"
    using assms(5) d by (simp_all add: size_simps)
  then have w: "WriteInt32 v ?p1 = Some (True, ?p2)"
    using assms(5) d e by (simp add: WriteInt32_def Write_word_def Write_T_def buf_simps)
  let ?p3 = "?p2\<lparr>readCursor := ?c, nextObjectIdx := 0\<rparr>"
  have r: "RewindRead ?c ?p2 = (True, ?p3)"
    by (simp add: RewindRead_def)
  have "GetReadableBytes ?p3 = 4"
    using d by (simp add: GetReadableBytes_def size_simps)
  moreover have "ValidateReadData u ?p3 = Some (True, ?p3)" for u
    using assms(3) by (intro ValidateReadData_plain) (simp add: plain_def)
  moreover have "length ?d' = ?c"
    using assms(5) d by simp
  ultimately have "Read_T 4 ?p3 = None"
    by (simp add: Read_T_def mem_read_def)
  then have "ReadInt32 ?p3 = None"
    by (simp add: ReadInt32_def Read_value_def Read_ref_def)
  then show ?thesis
    using w r by (intro exI [of _ ?p1] exI [of _ ?p2] exI [of _ ?p3]) (simp add: SetDataSize_def)
qed

theorem SetDataSize_then_read_out_of_bounds_witness:
  "\<exists>p p1 p2 p3. SetDataSize 64 p = (True, p1) \<and> WriteInt32 7 p1 = Some (True, p2) \<and>
    dataSize p2 = dataCapacity p2 + 4 \<and> RewindRead 64 p2 = (True, p3) \<and> ReadInt32 p3 = None"
proof -
  let ?p = "sample_parcel\<lparr>data := Some (replicate 64 0), dataSize := 4, dataCapacity := 64, writeCursor := 4\<rparr>"
  have "parcel_wf ?p" "writable ?p" "plain ?p"
    using sample_parcel_wf sample_parcel_plain
    by (simp_all add: parcel_wf_def plain_def sample_parcel_def Parcel_new_def)
  then show ?thesis
    using SetDataSize_then_read_out_of_bounds [of ?p 7] by auto
qed

end
