(* ===== verification/RefBase.thy ===== *)
theory RefBase
  imports CUtils_Prelude
begin

text \<open>
  Reference counting: \<^verbatim>\<open>RefCounter\<close>, \<^verbatim>\<open>WeakRefCounter\<close> and \<^verbatim>\<open>RefBase\<close> (\<^verbatim>\<open>base/src/refbase.cpp\<close>). The state
  is the world of one \<^verbatim>\<open>RefBase\<close> object: the object, its counter and the weak counters that refer to it.
  Deleted parts are kept as such, and an access to a deleted part is \<^const>\<open>None\<close>. Operations are atomic
  steps of one thread at a time; a \<^verbatim>\<open>compare_exchange_weak\<close> loop is its successful iteration.

  The virtual hooks \<^verbatim>\<open>OnFirstStrongRef\<close>, \<^verbatim>\<open>OnLastStrongRef\<close> and \<^verbatim>\<open>OnAttemptPromoted\<close> have their default bodies;
  the answer of \<^verbatim>\<open>CanPromote\<close> is part of the counter. The debug trackers are not modelled.
\<close>

section \<open>State\<close>

definition INITIAL_PRIMARY_VALUE :: int where
  "INITIAL_PRIMARY_VALUE = 2 ^ 28"

definition FLAG_EXTEND_LIFE_TIME :: "32 word" where
  "FLAG_EXTEND_LIFE_TIME = 0x00000002"

text \<open>The callbacks: \<^verbatim>\<open>callback_\<close> deletes the object when set; \<^verbatim>\<open>canPromote_\<close> is unset or has an answer.\<close>

record ref_counter =
  atomicStrong :: int
  atomicWeak :: int
  atomicRefCount :: int
  atomicFlags :: "32 word"
  atomicAttempt :: int
  callback :: bool
  canPromote :: "bool option"

text \<open>A weak counter: its own count and whether its cookie still points to the object.\<close>

record weak_counter =
  wcWeak :: int
  cookie :: bool

text \<open>
  The world of an object: whether it is alive and holds its counter (\<^verbatim>\<open>refs_\<close>), the counter unless freed,
  the weak counters by number unless freed, and how often the object was deleted.
\<close>

record ref_world =
  object_alive :: bool
  object_refs :: bool
  counter :: "ref_counter option"
  weakrefs :: "weak_counter option list"
  deletions :: nat

definition RefCounter_new :: "ref_counter" where
  "RefCounter_new =
     \<lparr>atomicStrong = INITIAL_PRIMARY_VALUE, atomicWeak = 0, atomicRefCount = 0, atomicFlags = 0,
      atomicAttempt = 0, callback = False, canPromote = None\<rparr>"

section \<open>RefCounter\<close>

definition get_counter :: "ref_world \<Rightarrow> ref_counter option" where
  "get_counter w = counter w"

definition put_counter :: "ref_counter \<Rightarrow> ref_world \<Rightarrow> ref_world" where
  "put_counter c w = w\<lparr>counter := Some c\<rparr>"

definition IncRefCount :: "ref_world \<Rightarrow> ref_world option" where
  "IncRefCount w = do {
     c \<leftarrow> get_counter w;
     Some (put_counter (c\<lparr>atomicRefCount := atomicRefCount c + 1\<rparr>) w)
   }"

definition DecRefCount :: "ref_world \<Rightarrow> ref_world option" where
  "DecRefCount w = do {
     c \<leftarrow> get_counter w;
     if atomicRefCount c > 0 then
       (let curCount = atomicRefCount c; w1 = put_counter (c\<lparr>atomicRefCount := curCount - 1\<rparr>) w
        in Some (if curCount = 1 then w1\<lparr>counter := None\<rparr> else w1))
     else Some w
   }"

definition SetCallback :: "ref_world \<Rightarrow> ref_world option" where
  "SetCallback w = do { c \<leftarrow> get_counter w; Some (put_counter (c\<lparr>callback := True\<rparr>) w) }"

definition RemoveCallback :: "ref_world \<Rightarrow> ref_world option" where
  "RemoveCallback w = do { c \<leftarrow> get_counter w; Some (put_counter (c\<lparr>callback := False\<rparr>) w) }"

definition IsRefPtrValid :: "ref_world \<Rightarrow> bool option" where
  "IsRefPtrValid w = do { c \<leftarrow> get_counter w; Some (callback c) }"

definition SetCanPromote :: "bool \<Rightarrow> ref_world \<Rightarrow> ref_world option" where
  "SetCanPromote b w = do { c \<leftarrow> get_counter w; Some (put_counter (c\<lparr>canPromote := Some b\<rparr>) w) }"

definition IsLifeTimeExtended :: "ref_counter \<Rightarrow> bool" where
  "IsLifeTimeExtended c \<longleftrightarrow> atomicFlags c AND FLAG_EXTEND_LIFE_TIME \<noteq> 0"

definition RefCounter_ExtendObjectLifetime :: "ref_world \<Rightarrow> ref_world option" where
  "RefCounter_ExtendObjectLifetime w = do {
     c \<leftarrow> get_counter w;
     Some (put_counter (c\<lparr>atomicFlags := atomicFlags c OR FLAG_EXTEND_LIFE_TIME\<rparr>) w)
   }"

definition IncStrongRefCount :: "ref_world \<Rightarrow> (int \<times> ref_world) option" where
  "IncStrongRefCount w = do {
     c \<leftarrow> get_counter w;
     let curCount = atomicStrong c;
     if curCount \<ge> 0 then
       (let c1 = c\<lparr>atomicStrong := curCount + 1\<rparr>;
            c2 = (if curCount = INITIAL_PRIMARY_VALUE
                  then c1\<lparr>atomicStrong := atomicStrong c1 - INITIAL_PRIMARY_VALUE\<rparr> else c1)
        in Some (curCount, put_counter c2 w))
     else Some (curCount, w)
   }"

definition DecStrongRefCount :: "ref_world \<Rightarrow> (int \<times> ref_world) option" where
  "DecStrongRefCount w = do {
     c \<leftarrow> get_counter w;
     let curCount = atomicStrong c;
     if curCount = INITIAL_PRIMARY_VALUE then Some (curCount, w)
     else if curCount > 0 then Some (curCount, put_counter (c\<lparr>atomicStrong := curCount - 1\<rparr>) w)
     else Some (curCount, w)
   }"

definition IncWeakRefCount :: "ref_world \<Rightarrow> (int \<times> ref_world) option" where
  "IncWeakRefCount w = do {
     c \<leftarrow> get_counter w;
     Some (atomicWeak c, put_counter (c\<lparr>atomicWeak := atomicWeak c + 1\<rparr>) w)
   }"

text \<open>\<^verbatim>\<open>delete\<close> of the object: the destructor \<^verbatim>\<open>~RefBase\<close> runs first.\<close>

definition RefBase_dtor :: "ref_world \<Rightarrow> ref_world option" where
  "RefBase_dtor w =
     (if \<not> object_refs w then Some w
      else do {
        w1 \<leftarrow> RemoveCallback w;
        c \<leftarrow> get_counter w1;
        w2 \<leftarrow> (if (IsLifeTimeExtended c \<and> atomicWeak c = 0) \<or> atomicStrong c = INITIAL_PRIMARY_VALUE
               then DecRefCount w1 else Some w1);
        Some (w2\<lparr>object_refs := False\<rparr>)
      })"

definition RefPtrCallback :: "ref_world \<Rightarrow> ref_world option" where
  "RefPtrCallback w =
     (if \<not> object_alive w then None
      else do {
        w1 \<leftarrow> RefBase_dtor w;
        Some (w1\<lparr>object_alive := False, deletions := Suc (deletions w1)\<rparr>)
      })"

definition DecWeakRefCount :: "ref_world \<Rightarrow> (int \<times> ref_world) option" where
  "DecWeakRefCount w = do {
     c \<leftarrow> get_counter w;
     let curCount = atomicWeak c;
     let w1 = (if curCount > 0 then put_counter (c\<lparr>atomicWeak := curCount - 1\<rparr>) w else w);
     if curCount \<noteq> 1 then Some (curCount, w1)
     else do {
       c1 \<leftarrow> get_counter w1;
       w2 \<leftarrow> (if IsLifeTimeExtended c1 then (if callback c1 then RefPtrCallback w1 else Some w1)
              else if atomicStrong c1 = INITIAL_PRIMARY_VALUE
                   then (if callback c1 then RefPtrCallback w1 else Some w1)
                   else DecRefCount w1);
       Some (curCount, w2)
     }
   }"

definition SetAttemptAcquire :: "ref_world \<Rightarrow> ref_world option" where
  "SetAttemptAcquire w = do {
     c \<leftarrow> get_counter w; Some (put_counter (c\<lparr>atomicAttempt := atomicAttempt c + 1\<rparr>) w)
   }"

definition ClearAttemptAcquire :: "ref_world \<Rightarrow> ref_world option" where
  "ClearAttemptAcquire w = do {
     c \<leftarrow> get_counter w; Some (put_counter (c\<lparr>atomicAttempt := atomicAttempt c - 1\<rparr>) w)
   }"

text \<open>
  \<^verbatim>\<open>RefCounter::AttemptIncStrongRef\<close>: the result and the value stored through \<^verbatim>\<open>outCount\<close>, if any. The code
  after the label \<^verbatim>\<open>ATTEMPT_SUCCESS\<close> is \<open>attempt_success\<close>.
\<close>

definition attempt_success :: "int \<Rightarrow> ref_world \<Rightarrow> ((bool \<times> int option) \<times> ref_world) option" where
  "attempt_success curCount w = do {
     c \<leftarrow> get_counter w;
     if curCount = INITIAL_PRIMARY_VALUE then
       Some ((True, Some curCount),
             put_counter (c\<lparr>atomicStrong := atomicStrong c - INITIAL_PRIMARY_VALUE\<rparr>) w)
     else if curCount < 0 \<or> (\<not> IsLifeTimeExtended c \<and> curCount = 0) then do {
       (_, w1) \<leftarrow> DecWeakRefCount w;
       Some ((False, None), w1)
     }
     else Some ((True, None), w)
   }"

definition RefCounter_AttemptIncStrongRef :: "ref_world \<Rightarrow> ((bool \<times> int option) \<times> ref_world) option" where
  "RefCounter_AttemptIncStrongRef w = do {
     c0 \<leftarrow> get_counter w;
     let curCount = atomicStrong c0;
     (_, w1) \<leftarrow> IncWeakRefCount w;
     c \<leftarrow> get_counter w1;
     if (curCount > 0 \<and> curCount \<noteq> INITIAL_PRIMARY_VALUE) \<or>
        (curCount = INITIAL_PRIMARY_VALUE \<and> \<not> IsLifeTimeExtended c)
     then attempt_success curCount (put_counter (c\<lparr>atomicStrong := curCount + 1\<rparr>) w1)
     else if IsLifeTimeExtended c then
       (case canPromote c of
          None \<Rightarrow> Some ((False, None), w1)
        | Some b \<Rightarrow>
            if \<not> b then Some ((False, None), w1)
            else attempt_success (atomicStrong c)
                   (put_counter (c\<lparr>atomicStrong := atomicStrong c + 1\<rparr>) w1))
     else attempt_success curCount w1
   }"

definition RefCounter_AttemptIncStrong :: "ref_world \<Rightarrow> (bool \<times> ref_world) option" where
  "RefCounter_AttemptIncStrong w = do {
     (_, w1) \<leftarrow> IncWeakRefCount w;
     c \<leftarrow> get_counter w1;
     let curCount = atomicStrong c;
     if curCount > 0 then Some (True, put_counter (c\<lparr>atomicStrong := curCount + 1\<rparr>) w1)
     else do { (_, w2) \<leftarrow> DecWeakRefCount w1; Some (False, w2) }
   }"

section \<open>WeakRefCounter\<close>

definition get_weak :: "nat \<Rightarrow> ref_world \<Rightarrow> weak_counter option" where
  "get_weak i w = (if i < length (weakrefs w) then weakrefs w ! i else None)"

definition put_weak :: "nat \<Rightarrow> weak_counter option \<Rightarrow> ref_world \<Rightarrow> ref_world" where
  "put_weak i v w = w\<lparr>weakrefs := (weakrefs w)[i := v]\<rparr>"

definition WeakRefCounter_new :: "ref_world \<Rightarrow> (nat \<times> ref_world) option" where
  "WeakRefCounter_new w = do {
     w1 \<leftarrow> IncRefCount w;
     Some (length (weakrefs w1), w1\<lparr>weakrefs := weakrefs w1 @ [Some \<lparr>wcWeak = 0, cookie = True\<rparr>]\<rparr>)
   }"

definition WeakRefCounter_delete :: "nat \<Rightarrow> ref_world \<Rightarrow> ref_world option" where
  "WeakRefCounter_delete i w = do { w1 \<leftarrow> DecRefCount w; Some (put_weak i None w1) }"

definition WeakRefCounter_GetRefPtr :: "nat \<Rightarrow> ref_world \<Rightarrow> (bool \<times> ref_world) option" where
  "WeakRefCounter_GetRefPtr i w = do {
     k \<leftarrow> get_weak i w;
     if cookie k then do {
       valid \<leftarrow> IsRefPtrValid w;
       Some (valid, put_weak i (Some (k\<lparr>cookie := valid\<rparr>)) w)
     }
     else Some (False, w)
   }"

definition WeakRefCounter_IncWeakRefCount :: "nat \<Rightarrow> ref_world \<Rightarrow> ref_world option" where
  "WeakRefCounter_IncWeakRefCount i w = do {
     k \<leftarrow> get_weak i w;
     let w1 = put_weak i (Some (k\<lparr>wcWeak := wcWeak k + 1\<rparr>)) w;
     if wcWeak k = 0 then do { (_, w2) \<leftarrow> IncWeakRefCount w1; Some w2 } else Some w1
   }"

definition WeakRefCounter_DecWeakRefCount :: "nat \<Rightarrow> ref_world \<Rightarrow> ref_world option" where
  "WeakRefCounter_DecWeakRefCount i w = do {
     k \<leftarrow> get_weak i w;
     let w1 = put_weak i (Some (k\<lparr>wcWeak := wcWeak k - 1\<rparr>)) w;
     if wcWeak k = 1 then do { (_, w2) \<leftarrow> DecWeakRefCount w1; WeakRefCounter_delete i w2 } else Some w1
   }"

definition WeakRefCounter_AttemptIncStrongRef :: "nat \<Rightarrow> ref_world \<Rightarrow> (bool \<times> ref_world) option" where
  "WeakRefCounter_AttemptIncStrongRef i w = do {
     k \<leftarrow> get_weak i w;
     ((ok, _), w1) \<leftarrow> RefCounter_AttemptIncStrongRef w;
     Some (ok, w1)
   }"

section \<open>RefBase\<close>

definition RefBase_new :: "bool \<Rightarrow> ref_world option" where
  "RefBase_new can_promote = do {
     let w = \<lparr>object_alive = True, object_refs = True, counter = Some RefCounter_new, weakrefs = [], deletions = 0\<rparr>;
     w1 \<leftarrow> IncRefCount w;
     w2 \<leftarrow> SetCallback w1;
     SetCanPromote can_promote w2
   }"

text \<open>Member functions of the object: undefined once it has been deleted, no effect without a counter.\<close>

definition on_object :: "(ref_world \<Rightarrow> 'a option) \<Rightarrow> 'a \<Rightarrow> ref_world \<Rightarrow> 'a option" where
  "on_object f none w = (if \<not> object_alive w then None else if \<not> object_refs w then Some none else f w)"

definition RefBase_ExtendObjectLifetime :: "ref_world \<Rightarrow> ref_world option" where
  "RefBase_ExtendObjectLifetime w = (if \<not> object_alive w then None else RefCounter_ExtendObjectLifetime w)"

definition IncWeakRef :: "ref_world \<Rightarrow> ref_world option" where
  "IncWeakRef w = on_object (\<lambda>w. map_option snd (IncWeakRefCount w)) w w"

definition DecWeakRef :: "ref_world \<Rightarrow> ref_world option" where
  "DecWeakRef w = on_object (\<lambda>w. map_option snd (DecWeakRefCount w)) w w"

definition IncStrongRef :: "ref_world \<Rightarrow> ref_world option" where
  "IncStrongRef w = on_object (\<lambda>w. do {
     w1 \<leftarrow> IncWeakRef w;
     (_, w2) \<leftarrow> IncStrongRefCount w1;
     Some w2
   }) w w"

definition DecStrongRef :: "ref_world \<Rightarrow> ref_world option" where
  "DecStrongRef w = on_object (\<lambda>w. do {
     (curCount, w1) \<leftarrow> DecStrongRefCount w;
     w2 \<leftarrow> (if curCount = 1 then do {
              c \<leftarrow> get_counter w1;
              if \<not> IsLifeTimeExtended c \<and> callback c then RefPtrCallback w1 else Some w1
            } else Some w1);
     (_, w3) \<leftarrow> DecWeakRefCount w2;
     Some w3
   }) w w"

definition CreateWeakRef :: "ref_world \<Rightarrow> (nat option \<times> ref_world) option" where
  "CreateWeakRef w = on_object (\<lambda>w. do { (i, w1) \<leftarrow> WeakRefCounter_new w; Some (Some i, w1) }) (None, w) w"

definition GetSptrRefCount :: "ref_world \<Rightarrow> int option" where
  "GetSptrRefCount w = on_object (\<lambda>w. map_option atomicStrong (get_counter w)) 0 w"

definition GetWptrRefCount :: "ref_world \<Rightarrow> int option" where
  "GetWptrRefCount w = on_object (\<lambda>w. map_option atomicWeak (get_counter w)) 0 w"

definition CheckIsAttemptAcquireSet :: "ref_world \<Rightarrow> ref_world option" where
  "CheckIsAttemptAcquireSet w =
     (if \<not> object_alive w \<or> \<not> object_refs w then None
      else do {
        c \<leftarrow> get_counter w;
        if atomicAttempt c > 0 then do {
          w1 \<leftarrow> ClearAttemptAcquire w;
          (_, w2) \<leftarrow> DecStrongRefCount w1;
          (_, w3) \<leftarrow> DecWeakRefCount w2;
          Some w3
        }
        else Some w
      })"

definition AttemptAcquire :: "ref_world \<Rightarrow> (bool \<times> ref_world) option" where
  "AttemptAcquire w = on_object (\<lambda>w. do {
     ((ok, _), w1) \<leftarrow> RefCounter_AttemptIncStrongRef w;
     if ok then do { w2 \<leftarrow> SetAttemptAcquire w1; Some (True, w2) } else Some (False, w1)
   }) (False, w) w"

definition RefBase_AttemptIncStrongRef :: "ref_world \<Rightarrow> (bool \<times> ref_world) option" where
  "RefBase_AttemptIncStrongRef w = on_object (\<lambda>w. do {
     ((ok, _), w1) \<leftarrow> RefCounter_AttemptIncStrongRef w;
     Some (ok, w1)
   }) (False, w) w"

definition RefBase_AttemptIncStrong :: "ref_world \<Rightarrow> (bool \<times> ref_world) option" where
  "RefBase_AttemptIncStrong w = on_object (\<lambda>w. do {
     (ok, w1) \<leftarrow> RefCounter_AttemptIncStrong w;
     if ok then do { w2 \<leftarrow> SetAttemptAcquire w1; Some (True, w2) } else Some (False, w1)
   }) (False, w) w"

definition IsAttemptAcquireSet :: "ref_world \<Rightarrow> bool option" where
  "IsAttemptAcquireSet w = on_object (\<lambda>w. do { c \<leftarrow> get_counter w; Some (atomicAttempt c > 0) }) False w"

definition IsExtendLifeTimeSet :: "ref_world \<Rightarrow> bool option" where
  "IsExtendLifeTimeSet w = on_object (\<lambda>w. do { c \<leftarrow> get_counter w; Some (IsLifeTimeExtended c) }) False w"

end
