(* ===== verification/RefBase_Threads.thy ===== *)
theory RefBase_Threads
  imports RefBase
begin

text \<open>
  Reference counting by several threads (\<^verbatim>\<open>base/src/refbase.cpp\<close>): the operations of \<^verbatim>\<open>RefBase\<close> again, now one access
  to an atomic counter at a time, in every interleaving of any number of threads, for an object whose lifetime is not
  extended. Threads hold strong pointers and weak counters of their own, hand them to each other, copy and drop strong
  pointers (\<^verbatim>\<open>IncStrongRef\<close>, \<^verbatim>\<open>DecStrongRef\<close>), make and drop weak counters (\<^verbatim>\<open>CreateWeakRef\<close>, \<^verbatim>\<open>WeakRefCounter\<close>) and
  promote weak counters (\<^verbatim>\<open>AttemptIncStrongRef\<close>). The run begins when the creator of the object holds the first strong
  pointer, so that no other thread has seen the initial value of the count; fewer than $2^{28}$ strong pointers exist at
  a time. \<open>r_bad\<close> is set by an access to the freed counter or to the deleted object.
\<close>

section \<open>State\<close>

text \<open>Where a thread is: what it read last, and for a drop of a weak counter that it goes on to free that counter.\<close>

datatype ref_at =
    At_idle
  | Inc_load | Inc_add int
  | Dec_sub int | Dec_last int
  | Weak_load bool | Weak_sub bool int | Weak_last bool int
  | Ref_load nat | Ref_sub nat int
  | Try_weak int | Try_strong int
  | New_weak

record ref_thread =
  strongs :: nat
  weaks :: nat
  at :: ref_at

record ref_state =
  r_strong :: int
  r_weak :: int
  r_ref :: int
  r_alive :: bool
  r_deletions :: nat
  r_freed :: bool
  r_bad :: bool
  loc :: "nat \<Rightarrow> ref_thread"

definition ref_start :: ref_state where
  "ref_start = \<lparr>r_strong = 1, r_weak = 1, r_ref = 1, r_alive = True, r_deletions = 0, r_freed = False, r_bad = False,
     loc = (\<lambda>_. \<lparr>strongs = 0, weaks = 0, at = At_idle\<rparr>)(0 := \<lparr>strongs = 1, weaks = 0, at = At_idle\<rparr>)\<rparr>"

definition set_thread :: "nat \<Rightarrow> ref_thread \<Rightarrow> ref_state \<Rightarrow> ref_state" where
  "set_thread t l s = s\<lparr>loc := (loc s)(t := l)\<rparr>"

definition goto :: "nat \<Rightarrow> ref_at \<Rightarrow> ref_state \<Rightarrow> ref_state" where
  "goto t a s = set_thread t ((loc s t)\<lparr>at := a\<rparr>) s"

definition use_counter :: "ref_state \<Rightarrow> ref_state" where
  "use_counter s = s\<lparr>r_bad := (r_bad s \<or> r_freed s)\<rparr>"

definition use_object :: "ref_state \<Rightarrow> ref_state" where
  "use_object s = s\<lparr>r_bad := (r_bad s \<or> \<not> r_alive s)\<rparr>"

definition delete_object :: "ref_state \<Rightarrow> ref_state" where
  "delete_object s = (use_object s)\<lparr>r_alive := False, r_deletions := r_deletions s + 1\<rparr>"

section \<open>Operations\<close>

text \<open>\<^verbatim>\<open>IncStrongRef\<close>: the weak count, the load, the increment.\<close>

definition IncStrongRef_begin :: "nat \<Rightarrow> ref_state \<Rightarrow> ref_state" where
  "IncStrongRef_begin t s = goto t Inc_load ((use_counter (use_object s))\<lparr>r_weak := r_weak s + 1\<rparr>)"

definition got_strong :: "nat \<Rightarrow> ref_state \<Rightarrow> ref_state" where
  "got_strong t s = set_thread t ((loc s t)\<lparr>strongs := strongs (loc s t) + 1, at := At_idle\<rparr>) s"

definition IncStrongRefCount_load :: "nat \<Rightarrow> ref_state \<Rightarrow> ref_state" where
  "IncStrongRefCount_load t s = (if r_strong s \<ge> 0 then goto t (Inc_add (r_strong s)) (use_counter s) else got_strong t (use_counter s))"

definition add_strong :: "ref_state \<Rightarrow> ref_state" where
  "add_strong s = (use_counter s)\<lparr>r_strong := r_strong s + 1 - (if r_strong s = INITIAL_PRIMARY_VALUE then INITIAL_PRIMARY_VALUE else 0)\<rparr>"

definition IncStrongRefCount_add :: "nat \<Rightarrow> ref_state \<Rightarrow> ref_state" where
  "IncStrongRefCount_add t s = got_strong t (add_strong s)"

text \<open>\<^verbatim>\<open>DecStrongRef\<close>: the load, the decrement, the deletion after the last one, and then the weak count.\<close>

definition DecStrongRefCount_load :: "nat \<Rightarrow> ref_state \<Rightarrow> ref_state" where
  "DecStrongRefCount_load t s =
     (let s1 = set_thread t ((loc s t)\<lparr>strongs := strongs (loc s t) - 1\<rparr>) (use_counter (use_object s)); curCount = r_strong s
      in if curCount = INITIAL_PRIMARY_VALUE then goto t (Dec_last curCount) s1
         else if curCount > 0 then goto t (Dec_sub curCount) s1
         else goto t (Dec_last curCount) s1)"

definition DecStrongRefCount_sub :: "nat \<Rightarrow> ref_state \<Rightarrow> ref_state" where
  "DecStrongRefCount_sub t s = goto t (Dec_last (r_strong s)) ((use_counter s)\<lparr>r_strong := r_strong s - 1\<rparr>)"

definition DecStrongRef_last :: "int \<Rightarrow> nat \<Rightarrow> ref_state \<Rightarrow> ref_state" where
  "DecStrongRef_last curCount t s =
     (let s1 = use_counter s in goto t (Weak_load False) (if curCount = 1 \<and> r_alive s then delete_object s1 else s1))"

text \<open>\<^verbatim>\<open>RefCounter::DecWeakRefCount\<close>; the flag says that \<^verbatim>\<open>WeakRefCounter::DecWeakRefCount\<close> calls it and deletes itself.\<close>

definition DecWeakRefCount_load :: "bool \<Rightarrow> nat \<Rightarrow> ref_state \<Rightarrow> ref_state" where
  "DecWeakRefCount_load own t s =
     goto t (if r_weak s > 0 then Weak_sub own (r_weak s) else Weak_last own (r_weak s)) (use_counter s)"

definition DecWeakRefCount_sub :: "bool \<Rightarrow> nat \<Rightarrow> ref_state \<Rightarrow> ref_state" where
  "DecWeakRefCount_sub own t s = goto t (Weak_last own (r_weak s)) ((use_counter s)\<lparr>r_weak := r_weak s - 1\<rparr>)"

definition DecWeakRefCount_last :: "bool \<Rightarrow> int \<Rightarrow> nat \<Rightarrow> ref_state \<Rightarrow> ref_state" where
  "DecWeakRefCount_last own curCount t s =
     (if curCount \<noteq> 1 then goto t (if own then Ref_load 1 else At_idle) s
      else let s1 = use_counter s
           in goto t (Ref_load (if own then 2 else 1))
                (if r_strong s = INITIAL_PRIMARY_VALUE \<and> r_alive s then delete_object s1 else s1))"

text \<open>\<^verbatim>\<open>DecRefCount\<close>, of which \<open>k\<close> calls are left.\<close>

definition DecRefCount_load :: "nat \<Rightarrow> nat \<Rightarrow> ref_state \<Rightarrow> ref_state" where
  "DecRefCount_load k t s =
     goto t (if r_ref s > 0 then Ref_sub k (r_ref s) else if k \<le> 1 then At_idle else Ref_load (k - 1)) (use_counter s)"

definition DecRefCount_sub :: "nat \<Rightarrow> nat \<Rightarrow> ref_state \<Rightarrow> ref_state" where
  "DecRefCount_sub k t s =
     (let s1 = (use_counter s)\<lparr>r_ref := r_ref s - 1, r_freed := (r_freed s \<or> r_ref s = 1)\<rparr>
      in goto t (if k \<le> 1 then At_idle else Ref_load (k - 1)) s1)"

text \<open>A weak counter: made from a strong pointer, and dropped.\<close>

definition WeakRefCounter_make :: "nat \<Rightarrow> ref_state \<Rightarrow> ref_state" where
  "WeakRefCounter_make t s = goto t New_weak ((use_counter (use_object s))\<lparr>r_ref := r_ref s + 1\<rparr>)"

definition WeakRefCounter_inc :: "nat \<Rightarrow> ref_state \<Rightarrow> ref_state" where
  "WeakRefCounter_inc t s =
     set_thread t ((loc s t)\<lparr>weaks := weaks (loc s t) + 1, at := At_idle\<rparr>) ((use_counter s)\<lparr>r_weak := r_weak s + 1\<rparr>)"

definition WeakRefCounter_drop :: "nat \<Rightarrow> ref_state \<Rightarrow> ref_state" where
  "WeakRefCounter_drop t s = DecWeakRefCount_load True t (set_thread t ((loc s t)\<lparr>weaks := weaks (loc s t) - 1\<rparr>) s)"

text \<open>\<^verbatim>\<open>RefCounter::AttemptIncStrongRef\<close>: the load, the weak count, and the loop; a weak exchange may fail for no reason.\<close>

definition Attempt_load :: "nat \<Rightarrow> ref_state \<Rightarrow> ref_state" where
  "Attempt_load t s = goto t (Try_weak (r_strong s)) (use_counter s)"

definition Attempt_weak :: "int \<Rightarrow> nat \<Rightarrow> ref_state \<Rightarrow> ref_state" where
  "Attempt_weak curCount t s = goto t (Try_strong curCount) ((use_counter s)\<lparr>r_weak := r_weak s + 1\<rparr>)"

definition Attempt_loop :: "bool \<Rightarrow> int \<Rightarrow> nat \<Rightarrow> ref_state \<Rightarrow> ref_state" where
  "Attempt_loop spurious curCount t s =
     (if curCount > 0
      then if r_strong s = curCount \<and> \<not> spurious then got_strong t (add_strong s) else goto t (Try_strong (r_strong s)) (use_counter s)
      else goto t (Weak_load False) s)"

section \<open>Interleavings\<close>

text \<open>One of \<open>n\<close> threads makes its next access, or hands a pointer to another.\<close>

definition give_strong :: "nat \<Rightarrow> nat \<Rightarrow> ref_state \<Rightarrow> ref_state" where
  "give_strong t u s =
     (let s1 = set_thread t ((loc s t)\<lparr>strongs := strongs (loc s t) - 1\<rparr>) s
      in set_thread u ((loc s1 u)\<lparr>strongs := strongs (loc s1 u) + 1\<rparr>) s1)"

definition give_weak :: "nat \<Rightarrow> nat \<Rightarrow> ref_state \<Rightarrow> ref_state" where
  "give_weak t u s =
     (let s1 = set_thread t ((loc s t)\<lparr>weaks := weaks (loc s t) - 1\<rparr>) s
      in set_thread u ((loc s1 u)\<lparr>weaks := weaks (loc s1 u) + 1\<rparr>) s1)"

inductive ref_access :: "nat \<Rightarrow> ref_state \<Rightarrow> ref_state \<Rightarrow> bool" for t where
  copy: "at (loc s t) = At_idle \<Longrightarrow> strongs (loc s t) > 0 \<Longrightarrow> ref_access t s (IncStrongRef_begin t s)"
| copy_load: "at (loc s t) = Inc_load \<Longrightarrow> ref_access t s (IncStrongRefCount_load t s)"
| copy_add: "at (loc s t) = Inc_add c \<Longrightarrow> r_strong s + 1 < INITIAL_PRIMARY_VALUE \<Longrightarrow> ref_access t s (IncStrongRefCount_add t s)"
| drop_load: "at (loc s t) = At_idle \<Longrightarrow> strongs (loc s t) > 0 \<Longrightarrow> ref_access t s (DecStrongRefCount_load t s)"
| drop_sub: "at (loc s t) = Dec_sub c \<Longrightarrow> ref_access t s (DecStrongRefCount_sub t s)"
| drop_last: "at (loc s t) = Dec_last c \<Longrightarrow> ref_access t s (DecStrongRef_last c t s)"
| weak_load: "at (loc s t) = Weak_load own \<Longrightarrow> ref_access t s (DecWeakRefCount_load own t s)"
| weak_sub: "at (loc s t) = Weak_sub own c \<Longrightarrow> ref_access t s (DecWeakRefCount_sub own t s)"
| weak_last: "at (loc s t) = Weak_last own c \<Longrightarrow> ref_access t s (DecWeakRefCount_last own c t s)"
| ref_load: "at (loc s t) = Ref_load k \<Longrightarrow> ref_access t s (DecRefCount_load k t s)"
| ref_sub: "at (loc s t) = Ref_sub k c \<Longrightarrow> ref_access t s (DecRefCount_sub k t s)"
| make_weak: "at (loc s t) = At_idle \<Longrightarrow> strongs (loc s t) > 0 \<Longrightarrow> ref_access t s (WeakRefCounter_make t s)"
| inc_weak: "at (loc s t) = New_weak \<Longrightarrow> ref_access t s (WeakRefCounter_inc t s)"
| drop_weak: "at (loc s t) = At_idle \<Longrightarrow> weaks (loc s t) > 0 \<Longrightarrow> ref_access t s (WeakRefCounter_drop t s)"
| promote: "at (loc s t) = At_idle \<Longrightarrow> weaks (loc s t) > 0 \<Longrightarrow> ref_access t s (Attempt_load t s)"
| promote_weak: "at (loc s t) = Try_weak c \<Longrightarrow> ref_access t s (Attempt_weak c t s)"
| promote_loop: "at (loc s t) = Try_strong c \<Longrightarrow> r_strong s + 1 < INITIAL_PRIMARY_VALUE \<Longrightarrow> ref_access t s (Attempt_loop spurious c t s)"

inductive ref_thread_step :: "nat \<Rightarrow> ref_state \<Rightarrow> ref_state \<Rightarrow> bool" for n where
  access: "t < n \<Longrightarrow> ref_access t s s' \<Longrightarrow> ref_thread_step n s s'"
| give_s: "t < n \<Longrightarrow> u < n \<Longrightarrow> at (loc s t) = At_idle \<Longrightarrow> strongs (loc s t) > 0 \<Longrightarrow> ref_thread_step n s (give_strong t u s)"
| give_w: "t < n \<Longrightarrow> u < n \<Longrightarrow> at (loc s t) = At_idle \<Longrightarrow> weaks (loc s t) > 0 \<Longrightarrow> ref_thread_step n s (give_weak t u s)"

section \<open>What each thread owns\<close>

text \<open>
  The units of each count a thread accounts for, at every point of its operations. The decrement to zero of the weak
  count takes over the unit of the reference count that the object had; who decremented the strong count to zero is the
  one that has to delete the object.
\<close>

definition strong_units :: "ref_thread \<Rightarrow> int" where
  "strong_units l = int (strongs l) + (case at l of Dec_sub c \<Rightarrow> 1 | _ \<Rightarrow> 0)"

definition weak_units :: "ref_thread \<Rightarrow> int" where
  "weak_units l = int (strongs l) + int (weaks l) + (case at l of
     Inc_load \<Rightarrow> 1 | Inc_add c \<Rightarrow> 1 | Dec_sub c \<Rightarrow> 1 | Dec_last c \<Rightarrow> 1 | Weak_load own \<Rightarrow> 1 | Weak_sub own c \<Rightarrow> 1 | Try_strong c \<Rightarrow> 1 | _ \<Rightarrow> 0)"

definition ref_units :: "ref_thread \<Rightarrow> int" where
  "ref_units l = int (weaks l) + (case at l of
     Weak_load own \<Rightarrow> of_bool own | Weak_sub own c \<Rightarrow> of_bool own | Weak_last own c \<Rightarrow> of_bool own + of_bool (c = 1)
   | Ref_load k \<Rightarrow> int k | Ref_sub k c \<Rightarrow> int k | New_weak \<Rightarrow> 1 | _ \<Rightarrow> 0)"

definition delete_units :: "ref_thread \<Rightarrow> int" where
  "delete_units l = (case at l of Dec_last c \<Rightarrow> of_bool (c = 1) | _ \<Rightarrow> 0)"

text \<open>What holds of a thread by itself: it keeps the pointer it works on, and what it read was sensible.\<close>

definition thread_ok :: "ref_thread \<Rightarrow> bool" where
  "thread_ok l = (case at l of
     Inc_load \<Rightarrow> strongs l > 0 | Inc_add c \<Rightarrow> strongs l > 0 \<and> c \<ge> 0 | Dec_sub c \<Rightarrow> True | Dec_last c \<Rightarrow> c \<ge> 1
   | Weak_last own c \<Rightarrow> c \<ge> 1 | Ref_load k \<Rightarrow> k \<ge> 1 | Ref_sub k c \<Rightarrow> k \<ge> 1
   | Try_weak c \<Rightarrow> weaks l > 0 \<and> c \<ge> 0 | Try_strong c \<Rightarrow> weaks l > 0 \<and> c \<ge> 0 | New_weak \<Rightarrow> strongs l > 0 | _ \<Rightarrow> True)"

definition sum_units :: "nat \<Rightarrow> (ref_thread \<Rightarrow> int) \<Rightarrow> ref_state \<Rightarrow> int" where
  "sum_units n f s = (\<Sum>i<n. f (loc s i))"

definition ref_threads_inv :: "nat \<Rightarrow> ref_state \<Rightarrow> bool" where
  "ref_threads_inv n s \<longleftrightarrow> (\<forall>i<n. thread_ok (loc s i)) \<and>
     r_strong s = sum_units n strong_units s \<and> r_strong s < INITIAL_PRIMARY_VALUE \<and>
     r_weak s = sum_units n weak_units s \<and>
     r_ref s = sum_units n ref_units s + of_bool (r_weak s > 0) \<and>
     of_bool (r_alive s) = of_bool (r_strong s > 0) + sum_units n delete_units s \<and>
     int (r_deletions s) + of_bool (r_alive s) = 1 \<and>
     (r_freed s \<longleftrightarrow> r_ref s = 0) \<and> \<not> r_bad s"

lemma units_nonneg: "0 \<le> strong_units l" "0 \<le> weak_units l" "0 \<le> ref_units l" "0 \<le> delete_units l"
  by (auto simp: strong_units_def weak_units_def ref_units_def delete_units_def split: ref_at.splits)

lemma total_member:
  assumes "t < n" "\<And>l. 0 \<le> f l"
  shows "f (loc s t) \<le> sum_units n f s"
  unfolding sum_units_def using assms by (intro member_le_sum) auto

lemma ref_inv_bounds:
  assumes inv: "ref_threads_inv n s" and t: "t < n"
  shows "thread_ok (loc s t)" "strong_units (loc s t) \<le> r_strong s" "r_strong s < INITIAL_PRIMARY_VALUE"
    "weak_units (loc s t) \<le> r_weak s" "ref_units (loc s t) + of_bool (r_weak s > 0) \<le> r_ref s"
    "r_strong s > 0 \<Longrightarrow> r_alive s \<and> delete_units (loc s t) = 0" "delete_units (loc s t) > 0 \<Longrightarrow> r_alive s \<and> r_strong s \<le> 0"
    "int (r_deletions s) + of_bool (r_alive s) = 1" "r_freed s \<longleftrightarrow> r_ref s = 0" "\<not> r_bad s"
proof -
  note tot = total_member [OF t, of strong_units s] total_member [OF t, of weak_units s] total_member [OF t, of ref_units s]
    total_member [OF t, of delete_units s]
  have alive: "of_bool (r_alive s) = of_bool (r_strong s > 0) + sum_units n delete_units s" using inv by (simp add: ref_threads_inv_def)
  show "r_strong s > 0 \<Longrightarrow> r_alive s \<and> delete_units (loc s t) = 0" "delete_units (loc s t) > 0 \<Longrightarrow> r_alive s \<and> r_strong s \<le> 0"
    using alive tot(4) [OF units_nonneg(4)] units_nonneg(4) [of "loc s t"] by (auto simp: of_bool_def split: if_splits)
qed (use inv t total_member [OF t, of strong_units s] total_member [OF t, of weak_units s] total_member [OF t, of ref_units s] units_nonneg
  in \<open>auto simp: ref_threads_inv_def\<close>)

text \<open>A step of one thread keeps the invariant when it moves every count by what the thread's units move.\<close>

lemma ref_inv_upd:
  assumes inv: "ref_threads_inv n s" and t: "t < n" and loc: "loc s' = (loc s)(t := loc s' t)" and ok: "thread_ok (loc s' t)"
    and strong: "r_strong s' - r_strong s = strong_units (loc s' t) - strong_units (loc s t)" "r_strong s' < INITIAL_PRIMARY_VALUE"
    and weak: "r_weak s' - r_weak s = weak_units (loc s' t) - weak_units (loc s t)"
    and ref: "r_ref s' - r_ref s = ref_units (loc s' t) - ref_units (loc s t) + of_bool (r_weak s' > 0) - of_bool (r_weak s > 0)"
    and alive: "(of_bool (r_alive s') :: int) - of_bool (r_alive s) =
      of_bool (r_strong s' > 0) - of_bool (r_strong s > 0) + delete_units (loc s' t) - delete_units (loc s t)"
    and deleted: "int (r_deletions s') + of_bool (r_alive s') = int (r_deletions s) + of_bool (r_alive s)"
    and freed: "r_freed s' \<longleftrightarrow> r_ref s' = 0" and bad: "\<not> r_bad s'"
  shows "ref_threads_inv n s'"
proof -
  have tot: "sum_units n f s' = sum_units n f s - f (loc s t) + f (loc s' t)" for f
    unfolding sum_units_def using sum_one_thread [OF t, of f "loc s" "loc s' t"] by (simp add: loc [symmetric])
  have "thread_ok (loc s' i)" if "i < n" for i
    using inv ok that fun_cong [OF loc, of i] by (cases "i = t") (auto simp: ref_threads_inv_def)
  then show ?thesis using inv strong weak ref alive deleted freed bad
    unfolding ref_threads_inv_def tot by (auto simp: algebra_simps)
qed

lemmas ref_access_defs = set_thread_def goto_def use_counter_def use_object_def delete_object_def IncStrongRef_begin_def got_strong_def
  IncStrongRefCount_load_def add_strong_def IncStrongRefCount_add_def DecStrongRefCount_load_def DecStrongRefCount_sub_def
  DecStrongRef_last_def DecWeakRefCount_load_def DecWeakRefCount_sub_def DecWeakRefCount_last_def DecRefCount_load_def
  DecRefCount_sub_def WeakRefCounter_make_def WeakRefCounter_inc_def WeakRefCounter_drop_def Attempt_load_def Attempt_weak_def
  Attempt_loop_def Let_def

lemmas unit_simps = strong_units_def weak_units_def ref_units_def delete_units_def thread_ok_def

lemma ref_access_inv:
  assumes inv: "ref_threads_inv n s" and t: "t < n" and step: "ref_access t s s'"
  shows "ref_threads_inv n s'"
  using step ref_inv_bounds [OF inv t]
  by (cases rule: ref_access.cases; intro ref_inv_upd [OF inv t])
    (auto simp: ref_access_defs unit_simps of_bool_def split: if_splits)

text \<open>Handing over a pointer moves units from one thread to another.\<close>

lemma total_move:
  assumes "t < n" "u < n" and "f l = f (loc s t) - c" and "f l' = f (loc (set_thread t l s) u) + c"
  shows "sum_units n f (set_thread u l' (set_thread t l s)) = sum_units n f s"
  using assms sum_one_thread [OF assms(1), of f "loc s" l] sum_one_thread [OF assms(2), of f "(loc s)(t := l)" l']
  by (simp add: sum_units_def set_thread_def)

lemma ref_inv_move:
  assumes inv: "ref_threads_inv n s" and tu: "t < n" "u < n" and s': "s' = set_thread u l' (set_thread t l s)"
    and ok: "thread_ok l" "thread_ok (loc (set_thread t l s) u) \<Longrightarrow> thread_ok l'"
    and units: "\<exists>c. strong_units l = strong_units (loc s t) - c \<and> strong_units l' = strong_units (loc (set_thread t l s) u) + c"
      "\<exists>c. weak_units l = weak_units (loc s t) - c \<and> weak_units l' = weak_units (loc (set_thread t l s) u) + c"
      "\<exists>c. ref_units l = ref_units (loc s t) - c \<and> ref_units l' = ref_units (loc (set_thread t l s) u) + c"
      "\<exists>c. delete_units l = delete_units (loc s t) - c \<and> delete_units l' = delete_units (loc (set_thread t l s) u) + c"
  shows "ref_threads_inv n s'"
proof -
  have tot: "sum_units n f s' = sum_units n f s" if "\<exists>c. f l = f (loc s t) - c \<and> f l' = f (loc (set_thread t l s) u) + c" for f
    using that total_move [OF tu] unfolding s' by blast
  have "thread_ok (loc (set_thread t l s) i)" if "i < n" for i
    using inv ok(1) that by (cases "i = t") (auto simp: ref_threads_inv_def set_thread_def)
  then have threads: "\<forall>i<n. thread_ok (loc s' i)"
    using ok(2) tu(2) by (auto simp: s' set_thread_def)
  have fields: "r_strong s' = r_strong s" "r_weak s' = r_weak s" "r_ref s' = r_ref s" "r_alive s' = r_alive s"
      "r_deletions s' = r_deletions s" "r_freed s' = r_freed s" "r_bad s' = r_bad s"
    by (simp_all add: s' set_thread_def)
  show ?thesis using inv threads unfolding ref_threads_inv_def fields units [THEN tot] by blast
qed

lemma ref_give_inv:
  assumes inv: "ref_threads_inv n s" and tu: "t < n" "u < n" and idle: "at (loc s t) = At_idle"
  shows "strongs (loc s t) > 0 \<Longrightarrow> ref_threads_inv n (give_strong t u s)"
    and "weaks (loc s t) > 0 \<Longrightarrow> ref_threads_inv n (give_weak t u s)"
proof -
  assume "strongs (loc s t) > 0"
  then show "ref_threads_inv n (give_strong t u s)"
    unfolding give_strong_def Let_def
    by (intro ref_inv_move [OF inv tu refl]) (auto simp: set_thread_def unit_simps idle split: ref_at.splits)
next
  assume "weaks (loc s t) > 0"
  then show "ref_threads_inv n (give_weak t u s)"
    unfolding give_weak_def Let_def
    by (intro ref_inv_move [OF inv tu refl]) (auto simp: set_thread_def unit_simps idle split: ref_at.splits)
qed

lemma ref_start_inv:
  assumes "0 < n"
  shows "ref_threads_inv n ref_start"
proof -
  have "sum_units n f ref_start = f \<lparr>strongs = 1, weaks = 0, at = At_idle\<rparr>" if "f \<lparr>strongs = 0, weaks = 0, at = At_idle\<rparr> = 0" for f
    using sum_one_thread [OF assms, of f "\<lambda>_. \<lparr>strongs = 0, weaks = 0, at = At_idle\<rparr>"] that by (simp add: sum_units_def ref_start_def)
  then show ?thesis
    by (simp add: ref_threads_inv_def unit_simps) (simp add: ref_start_def thread_ok_def INITIAL_PRIMARY_VALUE_def)
qed

interpretation ref_threads: inductive_invariant "\<lambda>s. s = ref_start \<and> 0 < n" "ref_thread_step n" "ref_threads_inv n"
  for n
proof
  show "s = ref_start \<and> 0 < n \<Longrightarrow> ref_threads_inv n s" for s using ref_start_inv by blast
  fix s s' assume inv: "ref_threads_inv n s" and "ref_thread_step n s s'"
  from this(2) show "ref_threads_inv n s'"
    by (cases rule: ref_thread_step.cases) (auto intro: ref_access_inv [OF inv] ref_give_inv [OF inv])
qed

text \<open>The run begins where the sequential model is after the construction and the first strong pointer.\<close>

lemma ref_start_sequential:
  obtains w c where "RefBase_new b = Some w" "IncStrongRef w \<noteq> None" "counter (the (IncStrongRef w)) = Some c"
    "atomicStrong c = r_strong ref_start" "atomicWeak c = r_weak ref_start" "atomicRefCount c = r_ref ref_start"
    "object_alive (the (IncStrongRef w)) = r_alive ref_start"
proof -
  have "\<exists>w c. RefBase_new b = Some w \<and> IncStrongRef w \<noteq> None \<and> counter (the (IncStrongRef w)) = Some c \<and>
      atomicStrong c = 1 \<and> atomicWeak c = 1 \<and> atomicRefCount c = 1 \<and> object_alive (the (IncStrongRef w))"
    by (simp add: RefBase_new_def IncStrongRef_def IncWeakRef_def on_object_def IncWeakRefCount_def IncStrongRefCount_def IncRefCount_def
      SetCallback_def SetCanPromote_def get_counter_def put_counter_def RefCounter_new_def INITIAL_PRIMARY_VALUE_def Let_def)
  then show ?thesis using that by (auto simp: ref_start_def)
qed

section \<open>Properties\<close>

text \<open>
  C13. Reference counting is safe for threads. In every interleaving of the single accesses of any number of threads that
  copy, drop, hand over and promote pointers to an object, no access goes to the freed counter or the deleted object; the
  object is deleted at most once, never while a thread has a strong pointer, which includes those that promotion
  gave it; the counter is not freed while a thread has a pointer; and when all operations are done and no pointer is
  left, the object was deleted exactly once and the counter is freed. Between operations the strong count is the number
  of strong pointers.
\<close>

theorem refbase_threads_safe:
  assumes "reach (\<lambda>s. s = ref_start \<and> 0 < n) (ref_thread_step n) s"
  shows "\<not> r_bad s \<and> r_deletions s \<le> 1 \<and>
    (\<forall>t<n. strongs (loc s t) > 0 \<longrightarrow> r_alive s \<and> r_deletions s = 0) \<and>
    (\<forall>t<n. strongs (loc s t) > 0 \<or> weaks (loc s t) > 0 \<longrightarrow> \<not> r_freed s) \<and>
    ((\<forall>t<n. at (loc s t) = At_idle) \<longrightarrow> r_strong s = (\<Sum>t<n. int (strongs (loc s t)))) \<and>
    ((\<forall>t<n. at (loc s t) = At_idle \<and> strongs (loc s t) = 0 \<and> weaks (loc s t) = 0) \<longrightarrow>
      r_deletions s = 1 \<and> \<not> r_alive s \<and> r_freed s)"
proof -
  have inv: "ref_threads_inv n s" by (rule ref_threads.always [OF assms])
  have alive: "r_alive s \<and> r_deletions s = 0 \<and> \<not> r_freed s" if "t < n" "strongs (loc s t) > 0" for t
  proof -
    have "1 \<le> strong_units (loc s t)" "1 \<le> weak_units (loc s t)" using that(2) units_nonneg
      by (auto simp: strong_units_def weak_units_def split: ref_at.splits)
    then have "r_strong s > 0" "r_weak s > 0" using ref_inv_bounds(2,4) [OF inv that(1)] by linarith+
    then show ?thesis using ref_inv_bounds(5-9) [OF inv that(1)] units_nonneg(3) [of "loc s t"] by auto
  qed
  have weak: "\<not> r_freed s" if "t < n" "weaks (loc s t) > 0" for t
  proof -
    have "1 \<le> ref_units (loc s t)" using that(2) by (auto simp: ref_units_def split: ref_at.splits)
    then show ?thesis using ref_inv_bounds(5,9) [OF inv that(1)] by (auto simp: of_bool_def split: if_splits)
  qed
  have idle: "r_strong s = (\<Sum>t<n. int (strongs (loc s t)))" if "\<forall>t<n. at (loc s t) = At_idle"
    using inv that by (simp add: ref_threads_inv_def sum_units_def strong_units_def)
  have "r_deletions s = 1 \<and> \<not> r_alive s \<and> r_freed s"
    if "\<forall>t<n. at (loc s t) = At_idle \<and> strongs (loc s t) = 0 \<and> weaks (loc s t) = 0"
  proof -
    have "sum_units n f s = 0" if "\<And>l. at l = At_idle \<and> strongs l = 0 \<and> weaks l = 0 \<Longrightarrow> f l = 0" for f
      using \<open>\<forall>t<n. at (loc s t) = At_idle \<and> strongs (loc s t) = 0 \<and> weaks (loc s t) = 0\<close> that by (simp add: sum_units_def)
    then have "sum_units n strong_units s = 0" "sum_units n weak_units s = 0" "sum_units n ref_units s = 0" "sum_units n delete_units s = 0"
      by (simp_all add: unit_simps)
    then show ?thesis using inv unfolding ref_threads_inv_def by (auto simp: of_bool_def split: if_splits)
  qed
  moreover have "\<not> r_bad s \<and> r_deletions s \<le> 1" using inv by (auto simp: ref_threads_inv_def of_bool_def split: if_splits)
  ultimately show ?thesis using alive weak idle by blast
qed

text \<open>A promotion that has read the count, when the last strong pointer goes.\<close>

definition ref_sample :: ref_state where
  "ref_sample = DecStrongRefCount_sub 0 (DecStrongRefCount_load 0 (Attempt_load 1 (give_weak 0 1 (WeakRefCounter_inc 0 (WeakRefCounter_make 0 ref_start)))))"

theorem refbase_threads_safe_witness:
  "reach (\<lambda>s. s = ref_start \<and> 0 < (2 :: nat)) (ref_thread_step 2) ref_sample \<and> \<not> r_bad ref_sample \<and> r_strong ref_sample = 0 \<and>
   at (loc ref_sample 1) = Try_weak 1 \<and> weaks (loc ref_sample 1) = 1 \<and> \<not> r_freed ref_sample"
proof -
  let ?R = "reach (\<lambda>s. s = ref_start \<and> 0 < (2 :: nat)) (ref_thread_step 2)"
  note defs = ref_access_defs give_weak_def ref_start_def
  have "?R ref_start" by (rule reach.start) simp
  then have "?R (WeakRefCounter_make 0 ref_start)"
    by (rule reach.more) (rule ref_thread_step.access [of 0], simp, rule ref_access.make_weak, simp_all add: defs)
  then have "?R (WeakRefCounter_inc 0 (WeakRefCounter_make 0 ref_start))"
    by (rule reach.more) (rule ref_thread_step.access [of 0], simp, rule ref_access.inc_weak, simp add: defs)
  then have "?R (give_weak 0 1 (WeakRefCounter_inc 0 (WeakRefCounter_make 0 ref_start)))"
    by (rule reach.more) (rule ref_thread_step.give_w, simp_all add: defs)
  then have "?R (Attempt_load 1 (give_weak 0 1 (WeakRefCounter_inc 0 (WeakRefCounter_make 0 ref_start))))"
    by (rule reach.more) (rule ref_thread_step.access [of 1], simp, rule ref_access.promote, simp_all add: defs)
  then have "?R (DecStrongRefCount_load 0 (Attempt_load 1 (give_weak 0 1 (WeakRefCounter_inc 0 (WeakRefCounter_make 0 ref_start)))))"
    by (rule reach.more) (rule ref_thread_step.access [of 0], simp, rule ref_access.drop_load, simp_all add: defs)
  then have r: "?R ref_sample" unfolding ref_sample_def
    by (rule reach.more) (rule ref_thread_step.access [of 0], simp, rule ref_access.drop_sub [of _ _ 1], simp add: defs INITIAL_PRIMARY_VALUE_def)
  have v: "r_strong ref_sample = 0" "at (loc ref_sample 1) = Try_weak 1" "weaks (loc ref_sample 1) = 1"
    by (simp_all add: ref_sample_def defs INITIAL_PRIMARY_VALUE_def)
  have "\<not> r_bad ref_sample" "\<forall>t<2. strongs (loc ref_sample t) > 0 \<or> weaks (loc ref_sample t) > 0 \<longrightarrow> \<not> r_freed ref_sample"
    using refbase_threads_safe [OF r] by blast+
  then have "\<not> r_bad ref_sample" "\<not> r_freed ref_sample" using v(3) by (auto dest: spec [of _ 1])
  with r v show ?thesis by blast
qed

end
