(* ===== verification/RefBase_Copy.thy ===== *)
theory RefBase_Copy
  imports RefBase
begin

text \<open>
  Copying and moving \<^verbatim>\<open>RefBase\<close> objects (\<^verbatim>\<open>base/src/refbase.cpp\<close>): several objects and their counters, which objects own
  by their address. The callback of a counter is the address of the object it deletes. Allocations may fail where the
  code allows it, lifetimes are not extended; \<^const>\<open>None\<close> is the use of a deleted object or a freed counter.
\<close>

section \<open>Objects and counters\<close>

record copy_counter =
  c_strong :: int
  c_weak :: int
  c_ref :: int
  c_callback :: "nat option"

record copy_world =
  objects :: "nat \<Rightarrow> nat option option"
  counters :: "nat \<Rightarrow> copy_counter option"
  next_counter :: nat
  deleted :: "nat list"

text \<open>A new counter for the object at \<open>a\<close>: the count of references is one and the callback deletes the object.\<close>

definition attach_counter :: "nat \<Rightarrow> copy_world \<Rightarrow> copy_world" where
  "attach_counter a w =
     (let c = next_counter w
      in w\<lparr>objects := (objects w)(a \<mapsto> Some c), next_counter := c + 1,
           counters := (counters w)(c \<mapsto> \<lparr>c_strong = INITIAL_PRIMARY_VALUE, c_weak = 0, c_ref = 1, c_callback = Some a\<rparr>)\<rparr>)"

definition copy_RemoveCallback :: "nat \<Rightarrow> copy_world \<Rightarrow> copy_world option" where
  "copy_RemoveCallback c w = do { k \<leftarrow> counters w c; Some (w\<lparr>counters := (counters w)(c \<mapsto> k\<lparr>c_callback := None\<rparr>)\<rparr>) }"

definition copy_DecRefCount :: "nat \<Rightarrow> copy_world \<Rightarrow> copy_world option" where
  "copy_DecRefCount c w = do {
     k \<leftarrow> counters w c;
     if c_ref k > 0
     then Some (w\<lparr>counters := (counters w)(c := (if c_ref k = 1 then None else Some (k\<lparr>c_ref := c_ref k - 1\<rparr>)))\<rparr>)
     else Some w
   }"

section \<open>Construction, copy and move\<close>

definition RefBase_construct :: "nat \<Rightarrow> copy_world \<Rightarrow> copy_world" where
  "RefBase_construct a w = attach_counter a w"

definition RefBase_copy :: "bool \<Rightarrow> nat \<Rightarrow> copy_world \<Rightarrow> copy_world" where
  "RefBase_copy alloc a w = (if alloc then attach_counter a w else w\<lparr>objects := (objects w)(a \<mapsto> None)\<rparr>)"

definition release_counter :: "nat option \<Rightarrow> copy_world \<Rightarrow> copy_world option" where
  "release_counter r w = (case r of None \<Rightarrow> Some w | Some c \<Rightarrow> do { w1 \<leftarrow> copy_RemoveCallback c w; copy_DecRefCount c w1 })"

definition RefBase_copy_assign :: "bool \<Rightarrow> nat \<Rightarrow> copy_world \<Rightarrow> copy_world option" where
  "RefBase_copy_assign alloc a w = do {
     refs \<leftarrow> objects w a;
     w1 \<leftarrow> release_counter refs w;
     Some (if alloc then attach_counter a w1 else w1\<lparr>objects := (objects w1)(a \<mapsto> None)\<rparr>)
   }"

definition RefBase_move :: "nat \<Rightarrow> nat \<Rightarrow> copy_world \<Rightarrow> copy_world option" where
  "RefBase_move a other w = do {
     refs \<leftarrow> objects w other;
     Some (w\<lparr>objects := (objects w)(a \<mapsto> refs, other \<mapsto> None)\<rparr>)
   }"

definition RefBase_move_assign :: "nat \<Rightarrow> nat \<Rightarrow> copy_world \<Rightarrow> copy_world option" where
  "RefBase_move_assign a other w = do {
     refs \<leftarrow> objects w a;
     other_refs \<leftarrow> objects w other;
     if refs = other_refs then Some w
     else do {
       w1 \<leftarrow> release_counter refs w;
       Some (w1\<lparr>objects := (objects w1)(a \<mapsto> other_refs, other \<mapsto> None)\<rparr>)
     }
   }"

definition RefBase_destroy :: "nat \<Rightarrow> copy_world \<Rightarrow> copy_world option" where
  "RefBase_destroy a w = do {
     refs \<leftarrow> objects w a;
     w1 \<leftarrow> (case refs of
              None \<Rightarrow> Some w
            | Some c \<Rightarrow> do {
                w0 \<leftarrow> copy_RemoveCallback c w;
                k \<leftarrow> counters w0 c;
                if c_strong k = INITIAL_PRIMARY_VALUE then copy_DecRefCount c w0 else Some w0
              });
     Some (w1\<lparr>objects := (objects w1)(a := None), deleted := deleted w1 @ [a]\<rparr>)
   }"

section \<open>Strong references\<close>

definition copy_DecWeakRefCount :: "nat \<Rightarrow> copy_world \<Rightarrow> copy_world option" where
  "copy_DecWeakRefCount c w = do {
     k \<leftarrow> counters w c;
     let w1 = (if c_weak k > 0 then w\<lparr>counters := (counters w)(c \<mapsto> k\<lparr>c_weak := c_weak k - 1\<rparr>)\<rparr> else w);
     if c_weak k \<noteq> 1 then Some w1
     else if c_strong k = INITIAL_PRIMARY_VALUE then (case c_callback k of None \<Rightarrow> Some w1 | Some a \<Rightarrow> RefBase_destroy a w1)
     else copy_DecRefCount c w1
   }"

definition copy_IncStrongRef :: "nat \<Rightarrow> copy_world \<Rightarrow> copy_world option" where
  "copy_IncStrongRef a w = do {
     refs \<leftarrow> objects w a;
     case refs of
       None \<Rightarrow> Some w
     | Some c \<Rightarrow> do {
         k \<leftarrow> counters w c;
         let cur = c_strong k;
         let next_strong = (if cur < 0 then cur else if cur = INITIAL_PRIMARY_VALUE then 1 else cur + 1);
         Some (w\<lparr>counters := (counters w)(c \<mapsto> k\<lparr>c_weak := c_weak k + 1, c_strong := next_strong\<rparr>)\<rparr>)
       }
   }"

definition copy_DecStrongRef :: "nat \<Rightarrow> copy_world \<Rightarrow> copy_world option" where
  "copy_DecStrongRef a w = do {
     refs \<leftarrow> objects w a;
     case refs of
       None \<Rightarrow> Some w
     | Some c \<Rightarrow> do {
         k \<leftarrow> counters w c;
         let cur = c_strong k;
         let w1 = (if cur \<noteq> INITIAL_PRIMARY_VALUE \<and> cur > 0 then w\<lparr>counters := (counters w)(c \<mapsto> k\<lparr>c_strong := cur - 1\<rparr>)\<rparr> else w);
         w2 \<leftarrow> (if cur = 1 then (case c_callback k of None \<Rightarrow> Some w1 | Some b \<Rightarrow> RefBase_destroy b w1) else Some w1);
         copy_DecWeakRefCount c w2
       }
   }"

section \<open>Copies are independent\<close>

text \<open>Every object that has a counter has one of its own, which deletes this object.\<close>

definition copy_ok :: "copy_world \<Rightarrow> bool" where
  "copy_ok w \<longleftrightarrow> (\<forall>a c. objects w a = Some (Some c) \<longrightarrow> (\<exists>k. counters w c = Some k \<and> c_callback k = Some a \<and> c_ref k > 0)) \<and>
     (\<forall>c\<ge>next_counter w. counters w c = None)"

lemma copy_ok_own: "copy_ok w \<Longrightarrow> objects w a = Some (Some c) \<Longrightarrow> objects w b = Some (Some c) \<Longrightarrow> a = b"
  unfolding copy_ok_def by (metis option.inject)

lemma attach_counter_ok: "copy_ok w \<Longrightarrow> copy_ok (attach_counter a w)"
  unfolding copy_ok_def attach_counter_def Let_def by (auto split: if_splits) (metis le_refl option.distinct(1))+

lemma release_counter_ok:
  assumes ok: "copy_ok w" and a: "objects w a = Some refs"
  obtains w1 where "release_counter refs w = Some w1" "objects w1 = objects w" "copy_ok (w1\<lparr>objects := (objects w1)(a \<mapsto> None)\<rparr>)"
proof (cases refs)
  case None
  have "copy_ok (w\<lparr>objects := (objects w)(a \<mapsto> None)\<rparr>)" using ok by (simp add: copy_ok_def)
  with None show ?thesis using that by (simp add: release_counter_def)
next
  case (Some c)
  then obtain k where k: "counters w c = Some k" "c_ref k > 0" using ok a unfolding copy_ok_def by blast
  let ?k = "if c_ref k = 1 then None else Some (k\<lparr>c_callback := None, c_ref := c_ref k - 1\<rparr>)"
  let ?w = "w\<lparr>counters := (counters w)(c := ?k)\<rparr>"
  have "release_counter refs w = Some ?w"
    using k by (simp add: release_counter_def Some copy_RemoveCallback_def copy_DecRefCount_def)
  moreover have "copy_ok (?w\<lparr>objects := (objects ?w)(a \<mapsto> None)\<rparr>)"
    using ok copy_ok_own [OF ok a [unfolded Some]] k(1) unfolding copy_ok_def by (auto split: if_splits)
  ultimately show ?thesis using that by simp
qed

text \<open>
  Constructing, copying and assigning never fail to leave every object with a counter of its own, if any; assigning
  even keeps none of the counts the target had.
\<close>

lemma copies_independent:
  assumes ok: "copy_ok w"
  shows "copy_ok (RefBase_construct a w)" "copy_ok (RefBase_copy alloc a w)"
    "objects w a \<noteq> None \<Longrightarrow> \<exists>w'. RefBase_copy_assign alloc a w = Some w' \<and> copy_ok w' \<and>
      (\<forall>b. b \<noteq> a \<longrightarrow> objects w' b = objects w b)"
proof -
  show "copy_ok (RefBase_construct a w)" unfolding RefBase_construct_def by (rule attach_counter_ok [OF ok])
  have "copy_ok (w\<lparr>objects := (objects w)(a \<mapsto> None)\<rparr>)" using ok by (simp add: copy_ok_def)
  then show "copy_ok (RefBase_copy alloc a w)" unfolding RefBase_copy_def using attach_counter_ok [OF ok] by simp
  assume "objects w a \<noteq> None"
  then obtain refs where a: "objects w a = Some refs" by blast
  obtain w1 where w1: "release_counter refs w = Some w1" "objects w1 = objects w" "copy_ok (w1\<lparr>objects := (objects w1)(a \<mapsto> None)\<rparr>)"
    by (rule release_counter_ok [OF ok a])
  have "attach_counter a w1 = attach_counter a (w1\<lparr>objects := (objects w1)(a \<mapsto> None)\<rparr>)" by (simp add: attach_counter_def Let_def)
  then have "copy_ok (attach_counter a w1)" using attach_counter_ok [OF w1(3)] by simp
  then show "\<exists>w'. RefBase_copy_assign alloc a w = Some w' \<and> copy_ok w' \<and> (\<forall>b. b \<noteq> a \<longrightarrow> objects w' b = objects w b)"
    using w1 by (auto simp: RefBase_copy_assign_def a attach_counter_def Let_def)
qed

section \<open>Moved objects\<close>

text \<open>
  A move takes the counter over as it is, with the callback of the object moved from. When the last strong pointer to the
  new object goes, the old one is deleted instead: it is destroyed again if it was already, and the new object stays.
\<close>

lemma moved_object_deletes_source:
  assumes fresh: "a \<noteq> b" "counters w (next_counter w) = None"
  shows "\<exists>w1 w2. RefBase_move b a (RefBase_construct a w) = Some w1 \<and> copy_IncStrongRef b w1 = Some w2 \<and>
      (\<exists>w3. copy_DecStrongRef b w2 = Some w3 \<and> deleted w3 = deleted w @ [a] \<and> objects w3 b \<noteq> None) \<and>
      (\<exists>v1 v2. RefBase_destroy a w1 = Some v1 \<and> copy_IncStrongRef b v1 = Some v2 \<and> copy_DecStrongRef b v2 = None)"
  using fresh
  by (simp add: RefBase_construct_def attach_counter_def RefBase_move_def copy_IncStrongRef_def copy_DecStrongRef_def RefBase_destroy_def
    copy_DecWeakRefCount_def copy_DecRefCount_def copy_RemoveCallback_def INITIAL_PRIMARY_VALUE_def Let_def)

text \<open>Assigning to an object with a strong pointer: the pointer's last reference goes to the new counter, and nothing is deleted.\<close>

lemma assigned_object_leaks:
  assumes "counters w (next_counter w) = None" "counters w (next_counter w + 1) = None"
  shows "\<exists>w1 w2. copy_IncStrongRef a (RefBase_construct a w) = Some w1 \<and> RefBase_copy_assign True a w1 = Some w2 \<and>
      (\<exists>w3. copy_DecStrongRef a w2 = Some w3 \<and> deleted w3 = deleted w \<and> objects w3 a \<noteq> None)"
  using assms
  by (simp add: RefBase_construct_def attach_counter_def RefBase_copy_assign_def release_counter_def copy_IncStrongRef_def
    copy_DecStrongRef_def copy_DecWeakRefCount_def copy_DecRefCount_def copy_RemoveCallback_def INITIAL_PRIMARY_VALUE_def Let_def)

end
