(* ===== verification/RefBase_Spec.thy ===== *)
theory RefBase_Spec
  imports RefBase
begin

text \<open>
  What reference counting promises: an abstract specification of an object's life in terms of the strong
  and weak pointers that exist, and the proof that the counters of \<^verbatim>\<open>refbase.cpp\<close> implement it. A step of
  the specification is what a client does through \<^verbatim>\<open>sptr\<close> and \<^verbatim>\<open>wptr\<close>.
\<close>

section \<open>Specification\<close>

record ref_spec =
  sptrs :: nat
  wptrs :: "nat list"
  had :: bool
  ext :: bool
  alive :: bool

text \<open>The number of weak counters still referred to by some weak pointer.\<close>

definition live :: "nat list \<Rightarrow> nat" where
  "live ns = length (filter (\<lambda>n. 0 < n) ns)"

datatype ref_op =
    Acquire
  | Release
  | WeakNew
  | WeakCopy nat
  | WeakDrop nat
  | Promote nat
  | Extend

definition spec_acquire :: "ref_spec \<Rightarrow> ref_spec" where
  "spec_acquire s = s\<lparr>sptrs := Suc (sptrs s), had := True\<rparr>"

fun ref_step :: "ref_op \<Rightarrow> ref_spec \<Rightarrow> bool \<times> ref_spec" where
  "ref_step Acquire s = (True, spec_acquire s)"
| "ref_step Release s =
     (True, s\<lparr>sptrs := sptrs s - 1, alive := 1 < sptrs s \<or> (ext s \<and> 0 < live (wptrs s))\<rparr>)"
| "ref_step WeakNew s = (True, s\<lparr>wptrs := wptrs s @ [1]\<rparr>)"
| "ref_step (WeakCopy i) s = (True, s\<lparr>wptrs := (wptrs s)[i := Suc (wptrs s ! i)]\<rparr>)"
| "ref_step (WeakDrop i) s =
     (True, s\<lparr>wptrs := (wptrs s)[i := wptrs s ! i - 1],
              alive := alive s \<and> (1 < wptrs s ! i \<or> 0 < sptrs s \<or> 1 < live (wptrs s))\<rparr>)"
| "ref_step (Promote i) s = (if alive s then (True, spec_acquire s) else (False, s))"
| "ref_step Extend s = (True, s\<lparr>ext := True\<rparr>)"

text \<open>
  A client uses pointers it has: it makes a strong or weak pointer from the object only while the object is
  alive, and drops, copies and promotes pointers that exist. The number of strong pointers stays below the
  counter's initial value.
\<close>

fun ref_legal :: "ref_op \<Rightarrow> ref_spec \<Rightarrow> bool" where
  "ref_legal Acquire s \<longleftrightarrow> alive s \<and> Suc (sptrs s) < 2 ^ 28"
| "ref_legal Release s \<longleftrightarrow> 0 < sptrs s"
| "ref_legal WeakNew s \<longleftrightarrow> alive s"
| "ref_legal (WeakCopy i) s \<longleftrightarrow> i < length (wptrs s) \<and> 0 < wptrs s ! i"
| "ref_legal (WeakDrop i) s \<longleftrightarrow> i < length (wptrs s) \<and> 0 < wptrs s ! i"
| "ref_legal (Promote i) s \<longleftrightarrow> i < length (wptrs s) \<and> 0 < wptrs s ! i \<and> Suc (sptrs s) < 2 ^ 28"
| "ref_legal Extend s \<longleftrightarrow> alive s"

definition ref_spec_init :: ref_spec where
  "ref_spec_init = \<lparr>sptrs = 0, wptrs = [], had = False, ext = False, alive = True\<rparr>"

section \<open>The operations of the code\<close>

text \<open>
  The client steps on the counters: the constructors and destructors of \<^verbatim>\<open>sptr\<close> and \<^verbatim>\<open>wptr\<close> and \<^verbatim>\<open>promote\<close>,
  which makes an \<^verbatim>\<open>sptr\<close> from a weak counter.
\<close>

fun ref_impl :: "ref_op \<Rightarrow> ref_world \<Rightarrow> (bool \<times> ref_world) option" where
  "ref_impl Acquire w = do { w1 \<leftarrow> IncStrongRef w; Some (True, w1) }"
| "ref_impl Release w = do { w1 \<leftarrow> DecStrongRef w; Some (True, w1) }"
| "ref_impl WeakNew w = do {
     (r, w1) \<leftarrow> CreateWeakRef w;
     case r of None \<Rightarrow> Some (False, w1)
     | Some i \<Rightarrow> do { w2 \<leftarrow> WeakRefCounter_IncWeakRefCount i w1; Some (True, w2) }
   }"
| "ref_impl (WeakCopy i) w = do { w1 \<leftarrow> WeakRefCounter_IncWeakRefCount i w; Some (True, w1) }"
| "ref_impl (WeakDrop i) w = do { w1 \<leftarrow> WeakRefCounter_DecWeakRefCount i w; Some (True, w1) }"
| "ref_impl (Promote i) w = do {
     (ok, w1) \<leftarrow> WeakRefCounter_AttemptIncStrongRef i w;
     if ok then WeakRefCounter_GetRefPtr i w1 else Some (False, w1)
   }"
| "ref_impl Extend w = do { w1 \<leftarrow> RefBase_ExtendObjectLifetime w; Some (True, w1) }"

section \<open>The relation\<close>

definition weak_rel :: "nat list \<Rightarrow> bool \<Rightarrow> weak_counter option list \<Rightarrow> bool" where
  "weak_rel ns al ks \<longleftrightarrow>
     list_all2 (\<lambda>n k. if n = 0 then k = None
       else \<exists>v. k = Some v \<and> wcWeak v = int n \<and> (al \<longrightarrow> cookie v)) ns ks"

definition counter_rel :: "ref_spec \<Rightarrow> ref_counter \<Rightarrow> bool" where
  "counter_rel s c \<longleftrightarrow>
     atomicStrong c = (if had s then int (sptrs s) else INITIAL_PRIMARY_VALUE) \<and>
     atomicWeak c = int (sptrs s + live (wptrs s)) \<and> atomicRefCount c = int (live (wptrs s)) + 1 \<and>
     IsLifeTimeExtended c = ext s \<and> callback c = alive s \<and> canPromote c = Some True"

definition spec_inv :: "ref_spec \<Rightarrow> bool" where
  "spec_inv s \<longleftrightarrow>
     sptrs s < 2 ^ 28 \<and> (0 < sptrs s \<longrightarrow> alive s \<and> had s) \<and>
     (alive s \<and> had s \<and> \<not> ext s \<longrightarrow> 0 < sptrs s) \<and>
     (\<not> alive s \<and> 0 < live (wptrs s) \<longrightarrow> had s \<and> \<not> ext s)"

definition ref_rel :: "ref_spec \<Rightarrow> ref_world \<Rightarrow> bool" where
  "ref_rel s w \<longleftrightarrow>
     spec_inv s \<and> weak_rel (wptrs s) (alive s) (weakrefs w) \<and>
     object_alive w = alive s \<and> object_refs w = alive s \<and> deletions w = (if alive s then 0 else 1) \<and>
     (if alive s \<or> 0 < live (wptrs s) then \<exists>c. counter w = Some c \<and> counter_rel s c else counter w = None)"

lemma live_simps [simp]: "live [] = 0" "live (n # ns) = (if 0 < n then Suc (live ns) else live ns)"
  "live (ns @ ms) = live ns + live ms"
  by (simp_all add: live_def)

lemma live_update:
  assumes "i < length ns" "0 < ns ! i"
  shows "live (ns[i := m]) = (if 0 < m then live ns else live ns - 1)" "0 < live ns"
proof -
  have "ns = take i ns @ ns ! i # drop (Suc i) ns"
    using assms by (simp add: id_take_nth_drop)
  then have l: "live ns = live (take i ns) + Suc (live (drop (Suc i) ns))"
    using assms by (metis live_simps(2,3))
  then show "0 < live ns" by simp
  have "ns[i := m] = take i ns @ m # drop (Suc i) ns"
    using assms by (simp add: upd_conv_take_nth_drop)
  then show "live (ns[i := m]) = (if 0 < m then live ns else live ns - 1)"
    using l by simp
qed

lemma weak_rel_get:
  assumes "weak_rel ns al (weakrefs w)" "i < length ns" "0 < ns ! i"
  obtains k where "get_weak i w = Some k" "wcWeak k = int (ns ! i)" "al \<Longrightarrow> cookie k"
proof -
  have "i < length (weakrefs w)"
    using assms by (simp add: weak_rel_def list_all2_conv_all_nth)
  moreover have "\<exists>v. weakrefs w ! i = Some v \<and> wcWeak v = int (ns ! i) \<and> (al \<longrightarrow> cookie v)"
    using list_all2_nthD [OF assms(1) [unfolded weak_rel_def] assms(2)] assms(3) by simp
  ultimately show ?thesis
    using that by (auto simp: get_weak_def)
qed

lemma weak_rel_put:
  assumes "weak_rel ns al ks" "i < length ns" "0 < m" "wcWeak k = int m" "al \<Longrightarrow> cookie k"
  shows "weak_rel (ns[i := m]) al (ks[i := Some k])"
  using assms unfolding weak_rel_def by (intro list_all2_update_cong) auto

lemma weak_rel_free:
  assumes "weak_rel ns al ks" "i < length ns"
  shows "weak_rel (ns[i := 0]) al (ks[i := None])"
  using assms unfolding weak_rel_def by (intro list_all2_update_cong) auto

lemma weak_rel_dead: "weak_rel ns al ks \<Longrightarrow> weak_rel ns False ks"
  unfolding weak_rel_def by (erule list_all2_mono) (auto split: if_splits)

lemma init_rel: "\<exists>w. RefBase_new True = Some w \<and> ref_rel ref_spec_init w"
  by (simp add: RefBase_new_def IncRefCount_def SetCallback_def SetCanPromote_def get_counter_def put_counter_def
    RefCounter_new_def ref_rel_def spec_inv_def weak_rel_def ref_spec_init_def counter_rel_def IsLifeTimeExtended_def)

section \<open>Each step refines\<close>

lemmas counter_ops =
  get_counter_def put_counter_def IncRefCount_def DecRefCount_def RemoveCallback_def IncStrongRefCount_def
  DecStrongRefCount_def IncWeakRefCount_def INITIAL_PRIMARY_VALUE_def
lemmas object_ops =
  on_object_def IncStrongRef_def DecStrongRef_def IncWeakRef_def RefBase_dtor_def RefPtrCallback_def DecWeakRefCount_def

lemma ref_rel_counter:
  assumes "ref_rel s w" "alive s \<or> 0 < live (wptrs s)"
  obtains c where "counter w = Some c" "counter_rel s c"
  using assms by (auto simp: ref_rel_def)

lemma extended_cong [simp]:
  "IsLifeTimeExtended (c\<lparr>atomicStrong := a\<rparr>) = IsLifeTimeExtended c"
  "IsLifeTimeExtended (c\<lparr>atomicWeak := a\<rparr>) = IsLifeTimeExtended c"
  "IsLifeTimeExtended (c\<lparr>atomicRefCount := a\<rparr>) = IsLifeTimeExtended c"
  "IsLifeTimeExtended (c\<lparr>callback := b\<rparr>) = IsLifeTimeExtended c"
  by (simp_all add: IsLifeTimeExtended_def)

lemma acquire_refines:
  assumes "ref_rel s w" "alive s" "Suc (sptrs s) < 2 ^ 28"
  shows "\<exists>w'. IncStrongRef w = Some w' \<and> ref_rel (spec_acquire s) w'"
proof -
  obtain c where c: "counter w = Some c" "counter_rel s c"
    using assms(1,2) by (auto elim: ref_rel_counter)
  have "int (sptrs s) \<noteq> 2 ^ 28"
    using assms(3) by simp
  with assms c show ?thesis
    by (auto simp: object_ops counter_ops ref_rel_def spec_acquire_def counter_rel_def spec_inv_def Let_def)
qed

lemma extend_refines:
  assumes "ref_rel s w" "alive s"
  shows "\<exists>w'. RefBase_ExtendObjectLifetime w = Some w' \<and> ref_rel (s\<lparr>ext := True\<rparr>) w'"
proof -
  obtain c where c: "counter w = Some c" "counter_rel s c"
    using assms by (auto elim: ref_rel_counter)
  have "(atomicFlags c OR FLAG_EXTEND_LIFE_TIME) AND FLAG_EXTEND_LIFE_TIME \<noteq> 0"
  proof -
    have "bit ((atomicFlags c OR FLAG_EXTEND_LIFE_TIME) AND FLAG_EXTEND_LIFE_TIME) 1"
      by (simp add: FLAG_EXTEND_LIFE_TIME_def bit_simps)
    then show ?thesis by force
  qed
  with assms c show ?thesis
    by (auto simp: RefBase_ExtendObjectLifetime_def RefCounter_ExtendObjectLifetime_def counter_ops
      ref_rel_def counter_rel_def spec_inv_def IsLifeTimeExtended_def)
qed

lemma release_refines:
  assumes "ref_rel s w" "0 < sptrs s"
  shows "\<exists>w'. DecStrongRef w = Some w' \<and> ref_rel (snd (ref_step Release s)) w'"
proof -
  have inv: "spec_inv s" "alive s" "had s" "sptrs s < 2 ^ 28"
    using assms by (auto simp: ref_rel_def spec_inv_def)
  obtain c where c: "counter w = Some c" "counter_rel s c"
    using assms(1) inv by (auto elim: ref_rel_counter)
  have no: "int (sptrs s) \<noteq> 2 ^ 28"
    using inv(4) by simp
  show ?thesis
  proof (cases "sptrs s = 1")
    case False
    then have "1 < sptrs s" using assms(2) by simp
    then show ?thesis
      using assms c no inv by (auto simp: object_ops counter_ops ref_rel_def counter_rel_def spec_inv_def Let_def)
  next
    case True
    show ?thesis
    proof (cases "ext s")
      case ext: True
      show ?thesis
        using assms c inv True ext weak_rel_dead
        by (auto simp: object_ops counter_ops ref_rel_def counter_rel_def spec_inv_def Let_def)
    next
      case ext: False
      show ?thesis
        using assms c inv True ext weak_rel_dead
        by (auto simp: object_ops counter_ops ref_rel_def counter_rel_def spec_inv_def Let_def)
    qed
  qed
qed

lemmas weak_ops =
  WeakRefCounter_IncWeakRefCount_def WeakRefCounter_DecWeakRefCount_def WeakRefCounter_new_def
  WeakRefCounter_delete_def CreateWeakRef_def put_weak_def

lemma weak_new_refines:
  assumes "ref_rel s w" "alive s"
  shows "\<exists>w'. ref_impl WeakNew w = Some (True, w') \<and> ref_rel (s\<lparr>wptrs := wptrs s @ [1]\<rparr>) w'"
proof -
  obtain c where c: "counter w = Some c" "counter_rel s c"
    using assms by (auto elim: ref_rel_counter)
  have w: "weak_rel (wptrs s) (alive s) (weakrefs w)"
    using assms(1) by (simp add: ref_rel_def)
  then have "weak_rel (wptrs s @ [1]) (alive s) (weakrefs w @ [Some \<lparr>wcWeak = 1, cookie = True\<rparr>])"
    unfolding weak_rel_def by (intro list_all2_appendI) simp_all
  with assms c show ?thesis
    by (auto simp: weak_ops get_weak_def object_ops counter_ops ref_rel_def counter_rel_def spec_inv_def Let_def)
qed

lemma weak_count_rel:
  assumes "ref_rel s w" "live ns = live (wptrs s)" "weak_rel ns (alive s) ks"
  shows "ref_rel (s\<lparr>wptrs := ns\<rparr>) (w\<lparr>weakrefs := ks\<rparr>)"
proof -
  have "spec_inv (s\<lparr>wptrs := ns\<rparr>) = spec_inv s" "\<And>c. counter_rel (s\<lparr>wptrs := ns\<rparr>) c = counter_rel s c"
    by (simp_all add: spec_inv_def counter_rel_def assms(2))
  then show ?thesis
    using assms by (simp add: ref_rel_def)
qed

lemma weak_copy_refines:
  assumes "ref_rel s w" "i < length (wptrs s)" "0 < wptrs s ! i"
  shows "\<exists>w'. WeakRefCounter_IncWeakRefCount i w = Some w' \<and>
    ref_rel (s\<lparr>wptrs := (wptrs s)[i := Suc (wptrs s ! i)]\<rparr>) w'"
proof -
  have rel: "weak_rel (wptrs s) (alive s) (weakrefs w)"
    using assms(1) by (simp add: ref_rel_def)
  then obtain k where k: "get_weak i w = Some k" "wcWeak k = int (wptrs s ! i)" "alive s \<Longrightarrow> cookie k"
    using assms by (auto elim: weak_rel_get)
  have "weak_rel ((wptrs s)[i := Suc (wptrs s ! i)]) (alive s)
      ((weakrefs w)[i := Some (k\<lparr>wcWeak := int (wptrs s ! i) + 1\<rparr>)])"
    using rel assms(2) k by (intro weak_rel_put) auto
  moreover have "live ((wptrs s)[i := Suc (wptrs s ! i)]) = live (wptrs s)"
    using live_update(1) [OF assms(2,3)] by simp
  ultimately show ?thesis
    using weak_count_rel [OF assms(1)] k(1,2) assms(3) by (simp add: weak_ops Let_def)
qed

lemma spec_inv_weak:
  assumes "spec_inv s" "0 < live (wptrs s)"
  shows "spec_inv (s\<lparr>wptrs := ns\<rparr>)"
proof -
  let ?s = "s\<lparr>wptrs := ns\<rparr>"
  have "sptrs ?s = sptrs s" "alive ?s = alive s" "had ?s = had s" "ext ?s = ext s"
    by simp_all
  then show ?thesis
    using assms unfolding spec_inv_def by metis
qed

text \<open>Dropping the last weak pointer of a weak counter: the counter, then the weak counter, are released.\<close>

lemma weak_last_refines:
  assumes "ref_rel s w" "i < length (wptrs s)" "wptrs s ! i = 1"
  shows "\<exists>w'. WeakRefCounter_DecWeakRefCount i w = Some w' \<and> ref_rel (snd (ref_step (WeakDrop i) s)) w'"
proof -
  have rel: "weak_rel (wptrs s) (alive s) (weakrefs w)"
    using assms(1) by (simp add: ref_rel_def)
  then obtain k where k: "get_weak i w = Some k" "wcWeak k = 1"
    using assms by (auto elim: weak_rel_get [where i = i])
  have live: "live ((wptrs s)[i := 0]) = live (wptrs s) - 1" "0 < live (wptrs s)"
    using live_update(1) [of i "wptrs s" 0] live_update(2) [of i "wptrs s"] assms by auto
  obtain c where c: "counter w = Some c" "counter_rel s c"
    using assms(1) live(2) by (auto elim: ref_rel_counter)
  have free: "weak_rel ((wptrs s)[i := 0]) (alive s) ((weakrefs w)[i := None])"
    using weak_rel_free [OF rel assms(2)] .
  note free' = free weak_rel_dead [OF free]
  show ?thesis
  proof (cases "sptrs s + live (wptrs s) = 1")
    case True
    then have "sptrs s = 0" "live (wptrs s) = 1"
      using live(2) by auto
    then show ?thesis
      using assms k c free' live
      by (cases "alive s"; cases "ext s"; cases "had s")
         (auto simp: weak_ops object_ops counter_ops ref_rel_def counter_rel_def spec_inv_def Let_def)
  next
    case False
    then have n: "atomicWeak c \<noteq> 1" "0 < atomicWeak c" and refs: "0 < sptrs s \<or> 1 < live (wptrs s)"
      and r: "atomicRefCount c = int (live (wptrs s)) + 1"
      using c(2) live(2) by (auto simp: counter_rel_def)
    let ?ns = "(wptrs s)[i := 0]" and ?ks = "(weakrefs w)[i := None]"
    let ?s = "s\<lparr>wptrs := ?ns\<rparr>" and ?c = "c\<lparr>atomicWeak := atomicWeak c - 1, atomicRefCount := atomicRefCount c - 1\<rparr>"
    let ?w = "w\<lparr>weakrefs := ?ks, counter := Some ?c\<rparr>"
    have step: "snd (ref_step (WeakDrop i) s) = ?s"
      using assms(3) refs by auto
    have run: "WeakRefCounter_DecWeakRefCount i w = Some ?w"
      using k c(1) n r live(2) by (simp add: weak_ops DecWeakRefCount_def counter_ops Let_def)
    have inv: "spec_inv s"
      using assms(1) by (simp add: ref_rel_def)
    then have some: "alive s \<or> 0 < live ?ns"
      using refs live(1) unfolding spec_inv_def by linarith
    have "spec_inv ?s"
      using spec_inv_weak [OF inv live(2)] .
    moreover have "counter_rel ?s ?c"
      using c(2) live by (simp add: counter_rel_def of_nat_diff)
    ultimately have "ref_rel ?s ?w"
      using assms(1) free some by (simp add: ref_rel_def)
    then show ?thesis
      using run unfolding step by blast
  qed
qed

lemma weak_drop_refines:
  assumes "ref_rel s w" "i < length (wptrs s)" "0 < wptrs s ! i"
  shows "\<exists>w'. WeakRefCounter_DecWeakRefCount i w = Some w' \<and> ref_rel (snd (ref_step (WeakDrop i) s)) w'"
proof (cases "wptrs s ! i = 1")
  case True
  then show ?thesis using weak_last_refines assms by simp
next
  case False
  have rel: "weak_rel (wptrs s) (alive s) (weakrefs w)"
    using assms(1) by (simp add: ref_rel_def)
  then obtain k where k: "get_weak i w = Some k" "wcWeak k = int (wptrs s ! i)" "alive s \<Longrightarrow> cookie k"
    using assms by (auto elim: weak_rel_get)
  have more: "1 < wptrs s ! i" using False assms(3) by simp
  have "weak_rel ((wptrs s)[i := wptrs s ! i - 1]) (alive s)
      ((weakrefs w)[i := Some (k\<lparr>wcWeak := int (wptrs s ! i) - 1\<rparr>)])"
    using rel assms(2) k more by (intro weak_rel_put) auto
  moreover have "live ((wptrs s)[i := wptrs s ! i - 1]) = live (wptrs s)"
    using live_update(1) [OF assms(2,3)] more by simp
  ultimately have "ref_rel (s\<lparr>wptrs := (wptrs s)[i := wptrs s ! i - 1]\<rparr>)
      (w\<lparr>weakrefs := (weakrefs w)[i := Some (k\<lparr>wcWeak := int (wptrs s ! i) - 1\<rparr>)]\<rparr>)"
    by (intro weak_count_rel [OF assms(1)])
  then show ?thesis
    using k(1,2) more by (simp add: weak_ops Let_def)
qed

lemma promote_refines:
  assumes "ref_rel s w" "i < length (wptrs s)" "0 < wptrs s ! i" "Suc (sptrs s) < 2 ^ 28"
  shows "\<exists>w'. ref_impl (Promote i) w = Some (alive s, w') \<and> ref_rel (snd (ref_step (Promote i) s)) w'"
proof -
  have rel: "weak_rel (wptrs s) (alive s) (weakrefs w)"
    using assms(1) by (simp add: ref_rel_def)
  then obtain k where k: "get_weak i w = Some k" "wcWeak k = int (wptrs s ! i)" "alive s \<Longrightarrow> cookie k"
    using assms by (auto elim: weak_rel_get)
  have live: "0 < live (wptrs s)"
    using live_update(2) [OF assms(2,3)] .
  obtain c where c: "counter w = Some c" "counter_rel s c"
    using assms(1) live by (auto elim: ref_rel_counter)
  have no: "int (sptrs s) \<noteq> 2 ^ 28"
    using assms(4) by simp
  note ops = WeakRefCounter_AttemptIncStrongRef_def RefCounter_AttemptIncStrongRef_def attempt_success_def
    WeakRefCounter_GetRefPtr_def IsRefPtrValid_def get_weak_def put_weak_def counter_ops Let_def
  show ?thesis
  proof (cases "alive s")
    case True
    have same: "(weakrefs w)[i := Some (k\<lparr>cookie := True\<rparr>)] = weakrefs w"
      using k True by (auto simp: get_weak_def list_update_same_conv split: if_splits)
    then show ?thesis
      using assms(1,4) k c no True
      by (cases "had s"; cases "ext s"; cases "sptrs s = 0")
         (auto simp: ops ref_rel_def counter_rel_def spec_inv_def spec_acquire_def split: if_splits)
  next
    case False
    then have "had s" "\<not> ext s" "sptrs s = 0"
      using assms(1) live by (auto simp: ref_rel_def spec_inv_def)
    then show ?thesis
      using assms(1) k c no False live
      by (auto simp: ops DecWeakRefCount_def ref_rel_def counter_rel_def spec_inv_def split: if_splits)
  qed
qed

interpretation refbase: simulation ref_rel ref_legal ref_step ref_impl
proof unfold_locales
  fix s w op
  assume "ref_rel s w" "ref_legal op s"
  then show "\<exists>w'. ref_impl op w = Some (fst (ref_step op s), w') \<and> ref_rel (snd (ref_step op s)) w'"
    using acquire_refines [of s w] release_refines [of s w] weak_new_refines [of s w] weak_copy_refines [of s w]
      weak_drop_refines [of s w] promote_refines [of s w] extend_refines [of s w]
    by (cases op) fastforce+
qed

section \<open>Properties\<close>

lemma refbase_run:
  assumes "legal_run ref_legal ref_step ops ref_spec_init"
  obtains w w' where "RefBase_new True = Some w"
    "run_impl ref_impl ops w = Some (fst (run_spec ref_step ops ref_spec_init), w')"
    "ref_rel (snd (run_spec ref_step ops ref_spec_init)) w'"
  using init_rel refbase.run_simulates [OF _ assms] by blast

text \<open>An object that was ever referred to lives only while some pointer refers to it.\<close>

definition held :: "ref_spec \<Rightarrow> bool" where
  "held s \<longleftrightarrow> (alive s \<longrightarrow> 0 < sptrs s \<or> 0 < live (wptrs s) \<or> (wptrs s = [] \<and> \<not> had s))"

lemma ref_step_held:
  assumes "held s" "ref_legal op s"
  shows "held (snd (ref_step op s))"
proof (cases op)
  case (WeakDrop i)
  then show ?thesis
    using assms live_update [of i "wptrs s"] by (auto simp: held_def)
next
  case (WeakCopy i)
  then show ?thesis
    using assms live_update [of i "wptrs s"] by (auto simp: held_def)
qed (use assms in \<open>auto simp: held_def spec_acquire_def\<close>)

lemma run_spec_held:
  "held s \<Longrightarrow> legal_run ref_legal ref_step ops s \<Longrightarrow> held (snd (run_spec ref_step ops s))"
  by (induction ops arbitrary: s) (auto simp: split_def Let_def ref_step_held)

lemma ref_spec_init_held: "held ref_spec_init"
  by (simp add: held_def ref_spec_init_def)

text \<open>
  C11: reference counting implements its specification. For every legal sequence of client steps on a new
  object - making, copying, dropping and promoting strong and weak pointers, extending the life-time -
  the counter code is defined throughout (it never touches the deleted object, counter or weak counter),
  returns what the specification returns, and the object is alive exactly when the specification says so.
\<close>

theorem refbase_refines_spec:
  assumes "legal_run ref_legal ref_step ops ref_spec_init"
  shows "\<exists>w w'. RefBase_new True = Some w \<and>
    run_impl ref_impl ops w = Some (fst (run_spec ref_step ops ref_spec_init), w') \<and>
    object_alive w' = alive (snd (run_spec ref_step ops ref_spec_init))"
proof -
  obtain w w' where "RefBase_new True = Some w"
      "run_impl ref_impl ops w = Some (fst (run_spec ref_step ops ref_spec_init), w')"
      "ref_rel (snd (run_spec ref_step ops ref_spec_init)) w'"
    using assms by (rule refbase_run)
  then show ?thesis
    by (auto simp: ref_rel_def)
qed

definition sample_run :: "ref_op list" where
  "sample_run = [Acquire, WeakNew, Acquire, WeakCopy 0, Release, Promote 0, Release, Release, Promote 0, WeakDrop 0]"

lemma sample_run_legal: "legal_run ref_legal ref_step sample_run ref_spec_init"
  by (simp add: sample_run_def ref_spec_init_def spec_acquire_def)

theorem refbase_refines_spec_witness:
  "\<exists>w w'. RefBase_new True = Some w \<and>
    run_impl ref_impl sample_run w = Some ([True, True, True, True, True, True, True, True, False, True], w') \<and>
    \<not> object_alive w'"
  using refbase_refines_spec [OF sample_run_legal]
  by (simp add: sample_run_def ref_spec_init_def spec_acquire_def)

text \<open>
  C12: no leak and no double deletion. After any legal sequence of steps that ends with no pointer left but
  in which the object was referred to at some time, the object has been deleted exactly once, its counter
  has been freed and every weak counter has been freed.
\<close>

theorem refbase_no_leak:
  assumes "legal_run ref_legal ref_step ops ref_spec_init"
    and "snd (run_spec ref_step ops ref_spec_init) = s"
    and "sptrs s = 0" "live (wptrs s) = 0" "had s \<or> wptrs s \<noteq> []"
  shows "\<exists>w rs w'. RefBase_new True = Some w \<and> run_impl ref_impl ops w = Some (rs, w') \<and>
    deletions w' = 1 \<and> counter w' = None \<and> list_all (\<lambda>k. k = None) (weakrefs w')"
proof -
  obtain w w' where w: "RefBase_new True = Some w"
      "run_impl ref_impl ops w = Some (fst (run_spec ref_step ops ref_spec_init), w')" "ref_rel s w'"
    using assms(1,2) by (auto elim: refbase_run)
  have "\<not> alive s"
    using run_spec_held [OF ref_spec_init_held assms(1)] assms by (auto simp: held_def)
  moreover have "list_all (\<lambda>k. k = None) (weakrefs w')"
  proof -
    have "n = 0" if "n \<in> set (wptrs s)" for n
      using assms(4) that by (auto simp: live_def filter_empty_conv)
    then show ?thesis
      using w(3) by (auto simp: ref_rel_def weak_rel_def list_all2_conv_all_nth list_all_length)
  qed
  ultimately show ?thesis
    using w assms(4) by (auto simp: ref_rel_def)
qed

theorem refbase_no_leak_witness:
  "\<exists>w rs w'. RefBase_new True = Some w \<and> run_impl ref_impl (sample_run @ [WeakDrop 0]) w = Some (rs, w') \<and>
    deletions w' = 1 \<and> counter w' = None \<and> list_all (\<lambda>k. k = None) (weakrefs w')"
  by (rule refbase_no_leak [OF _ refl])
     (simp_all add: sample_run_def ref_spec_init_def spec_acquire_def)

text \<open>
  Promotion. After any legal sequence of steps, promoting an existing weak pointer succeeds exactly
  when the object is alive; on failure nothing but the weak counters' caches changes.
\<close>

theorem promote_iff_alive:
  assumes "legal_run ref_legal ref_step ops ref_spec_init"
    and "ref_legal (Promote i) (snd (run_spec ref_step ops ref_spec_init))"
  shows "\<exists>w rs w' w''. RefBase_new True = Some w \<and> run_impl ref_impl ops w = Some (rs, w') \<and>
    ref_impl (Promote i) w' = Some (object_alive w', w'') \<and> object_alive w'' = object_alive w'"
proof -
  let ?s = "snd (run_spec ref_step ops ref_spec_init)"
  obtain w w' where w: "RefBase_new True = Some w"
      "run_impl ref_impl ops w = Some (fst (run_spec ref_step ops ref_spec_init), w')" "ref_rel ?s w'"
    using assms(1) by (rule refbase_run)
  obtain w'' where "ref_impl (Promote i) w' = Some (fst (ref_step (Promote i) ?s), w'')"
      "ref_rel (snd (ref_step (Promote i) ?s)) w''"
    using refbase.step [OF w(3) assms(2)] by blast
  moreover have "fst (ref_step (Promote i) ?s) = object_alive w'" "alive (snd (ref_step (Promote i) ?s)) = alive ?s"
    using w(3) by (auto simp: ref_rel_def spec_acquire_def)
  ultimately show ?thesis
    using w by (auto simp: ref_rel_def)
qed

theorem promote_iff_alive_witness:
  "\<exists>w rs w' w''. RefBase_new True = Some w \<and> run_impl ref_impl sample_run w = Some (rs, w') \<and>
    ref_impl (Promote 0) w' = Some (object_alive w', w'') \<and> object_alive w'' = object_alive w'"
  by (rule promote_iff_alive [OF sample_run_legal])
     (simp add: sample_run_def ref_spec_init_def spec_acquire_def)

text \<open>
  A promotion that \<^verbatim>\<open>CanPromote\<close> refuses leaks the object. With an extended life-time and no strong
  pointer, the refused attempt keeps the weak count it took: after the last weak pointer is dropped the
  object and its counter still exist, although nothing refers to them.
\<close>

theorem refused_promotion_leaks:
  "\<exists>w w'. RefBase_new False = Some w \<and>
    run_impl ref_impl [Extend, Acquire, WeakNew, Release, Promote 0, WeakDrop 0] w =
      Some ([True, True, True, True, False, True], w') \<and>
    object_alive w' \<and> deletions w' = 0 \<and> map_option atomicWeak (counter w') = Some 1 \<and> weakrefs w' = [None]"
  by (simp add: RefBase_new_def SetCallback_def SetCanPromote_def RefCounter_new_def RefBase_ExtendObjectLifetime_def
    RefCounter_ExtendObjectLifetime_def object_ops weak_ops counter_ops get_weak_def IsLifeTimeExtended_def
    FLAG_EXTEND_LIFE_TIME_def WeakRefCounter_AttemptIncStrongRef_def RefCounter_AttemptIncStrongRef_def Let_def)

end
