(* ===== verification/Smart_Pointers.thy ===== *)
theory Smart_Pointers
  imports RefBase_Spec
begin

text \<open>
  The smart pointers \<^verbatim>\<open>sptr\<close> and \<^verbatim>\<open>wptr\<close> (\<^verbatim>\<open>base/include/refbase.h\<close>). The heap maps the address of each
  \<^verbatim>\<open>RefBase\<close> object to its world. An \<^verbatim>\<open>sptr\<close> is the address of an object or null; a \<^verbatim>\<open>wptr\<close> is an object's
  address with the number of one of its weak counters, or null. An operation that changes a pointer
  returns its new value.
\<close>

section \<open>Heap\<close>

type_synonym ref_heap = "nat \<Rightarrow> ref_world"
type_synonym sptr_val = "nat option"
type_synonym wptr_val = "(nat \<times> nat) option"

definition at :: "nat \<Rightarrow> (ref_world \<Rightarrow> ref_world option) \<Rightarrow> ref_heap \<Rightarrow> ref_heap option" where
  "at a f H = do { w \<leftarrow> f (H a); Some (H(a := w)) }"

text \<open>A call through a pointer that is skipped when the pointer is null.\<close>

definition if_set :: "nat option \<Rightarrow> (ref_world \<Rightarrow> ref_world option) \<Rightarrow> ref_heap \<Rightarrow> ref_heap option" where
  "if_set p f H = (case p of None \<Rightarrow> Some H | Some a \<Rightarrow> at a f H)"

definition if_weak :: "wptr_val \<Rightarrow> (nat \<Rightarrow> ref_world \<Rightarrow> ref_world option) \<Rightarrow> ref_heap \<Rightarrow> ref_heap option" where
  "if_weak p f H = (case p of None \<Rightarrow> Some H | Some (a, i) \<Rightarrow> at a (f i) H)"

section \<open>sptr\<close>

definition sptr_default :: sptr_val where
  "sptr_default = None"

definition sptr_from_raw :: "nat option \<Rightarrow> ref_heap \<Rightarrow> (sptr_val \<times> ref_heap) option" where
  "sptr_from_raw other H = do { H1 \<leftarrow> if_set other IncStrongRef H; Some (other, H1) }"

definition sptr_copy :: "sptr_val \<Rightarrow> ref_heap \<Rightarrow> (sptr_val \<times> ref_heap) option" where
  "sptr_copy other H = do { H1 \<leftarrow> if_set other IncStrongRef H; Some (other, H1) }"

text \<open>Moves return the new value of both pointers.\<close>

definition sptr_move :: "sptr_val \<Rightarrow> sptr_val \<times> sptr_val" where
  "sptr_move other = (other, None)"

definition sptr_move_assign :: "sptr_val \<Rightarrow> sptr_val \<Rightarrow> ref_heap \<Rightarrow> ((sptr_val \<times> sptr_val) \<times> ref_heap) option" where
  "sptr_move_assign self other H = do { H1 \<leftarrow> if_set self DecStrongRef H; Some ((other, None), H1) }"

definition MakeSptr :: "nat \<Rightarrow> bool \<Rightarrow> ref_heap \<Rightarrow> (sptr_val \<times> ref_heap) option" where
  "MakeSptr a can_promote H = do {
     w \<leftarrow> RefBase_new can_promote;
     H1 \<leftarrow> at a IncStrongRef (H(a := w));
     Some (Some a, H1)
   }"

definition sptr_assign_raw :: "sptr_val \<Rightarrow> nat option \<Rightarrow> ref_heap \<Rightarrow> (sptr_val \<times> ref_heap) option" where
  "sptr_assign_raw self other H = do {
     H1 \<leftarrow> if_set other IncStrongRef H;
     H2 \<leftarrow> if_set self DecStrongRef H1;
     Some (other, H2)
   }"

definition sptr_assign :: "sptr_val \<Rightarrow> sptr_val \<Rightarrow> ref_heap \<Rightarrow> (sptr_val \<times> ref_heap) option" where
  "sptr_assign self other H = do {
     let otherRef = other;
     H1 \<leftarrow> if_set otherRef IncStrongRef H;
     H2 \<leftarrow> if_set self DecStrongRef H1;
     Some (otherRef, H2)
   }"

definition sptr_clear :: "sptr_val \<Rightarrow> ref_heap \<Rightarrow> (sptr_val \<times> ref_heap) option" where
  "sptr_clear self H = do { H1 \<leftarrow> if_set self DecStrongRef H; Some (None, H1) }"

definition sptr_dtor :: "sptr_val \<Rightarrow> ref_heap \<Rightarrow> ref_heap option" where
  "sptr_dtor self H = if_set self DecStrongRef H"

text \<open>The constructor from a weak counter, used by \<^verbatim>\<open>promote\<close>.\<close>

definition sptr_from_weak :: "wptr_val \<Rightarrow> ref_heap \<Rightarrow> (sptr_val \<times> ref_heap) option" where
  "sptr_from_weak p H =
     (case p of
        None \<Rightarrow> Some (None, H)
      | Some (a, i) \<Rightarrow> do {
          (ok, w1) \<leftarrow> WeakRefCounter_AttemptIncStrongRef i (H a);
          if ok then do {
            (valid, w2) \<leftarrow> WeakRefCounter_GetRefPtr i w1;
            Some (if valid then Some a else None, H(a := w2))
          }
          else Some (None, H(a := w1))
        })"

section \<open>wptr\<close>

definition wptr_GetRefPtr :: "wptr_val \<Rightarrow> ref_heap \<Rightarrow> (nat option \<times> ref_heap) option" where
  "wptr_GetRefPtr p H =
     (case p of
        None \<Rightarrow> Some (None, H)
      | Some (a, i) \<Rightarrow> do {
          (valid, w1) \<leftarrow> WeakRefCounter_GetRefPtr i (H a);
          Some (if valid then Some a else None, H(a := w1))
        })"

definition wptr_from_raw :: "nat option \<Rightarrow> ref_heap \<Rightarrow> (wptr_val \<times> ref_heap) option" where
  "wptr_from_raw other H =
     (case other of
        None \<Rightarrow> Some (None, H)
      | Some a \<Rightarrow> do {
          (r, w1) \<leftarrow> CreateWeakRef (H a);
          case r of
            None \<Rightarrow> Some (None, H(a := w1))
          | Some i \<Rightarrow> do {
              w2 \<leftarrow> WeakRefCounter_IncWeakRefCount i w1;
              Some (Some (a, i), H(a := w2))
            }
        })"

definition wptr_copy :: "wptr_val \<Rightarrow> ref_heap \<Rightarrow> (wptr_val \<times> ref_heap) option" where
  "wptr_copy other H = do { H1 \<leftarrow> if_weak other WeakRefCounter_IncWeakRefCount H; Some (other, H1) }"

definition wptr_from_sptr :: "sptr_val \<Rightarrow> ref_heap \<Rightarrow> (wptr_val \<times> ref_heap) option" where
  "wptr_from_sptr other H = wptr_from_raw other H"

definition wptr_assign_raw :: "wptr_val \<Rightarrow> nat option \<Rightarrow> ref_heap \<Rightarrow> (wptr_val \<times> ref_heap) option" where
  "wptr_assign_raw self other H = do {
     (newWeakRef, H1) \<leftarrow> wptr_from_raw other H;
     H2 \<leftarrow> if_weak self WeakRefCounter_DecWeakRefCount H1;
     Some (newWeakRef, H2)
   }"

definition wptr_assign :: "wptr_val \<Rightarrow> wptr_val \<Rightarrow> ref_heap \<Rightarrow> (wptr_val \<times> ref_heap) option" where
  "wptr_assign self other H = do {
     H1 \<leftarrow> if_weak other WeakRefCounter_IncWeakRefCount H;
     H2 \<leftarrow> if_weak self WeakRefCounter_DecWeakRefCount H1;
     Some (other, H2)
   }"

definition wptr_assign_sptr :: "wptr_val \<Rightarrow> sptr_val \<Rightarrow> ref_heap \<Rightarrow> (wptr_val \<times> ref_heap) option" where
  "wptr_assign_sptr self other H = do {
     (newWeakRef, H1) \<leftarrow> wptr_from_raw other H;
     H2 \<leftarrow> if_weak self WeakRefCounter_DecWeakRefCount H1;
     Some (newWeakRef, H2)
   }"

definition promote :: "wptr_val \<Rightarrow> ref_heap \<Rightarrow> (sptr_val \<times> ref_heap) option" where
  "promote self H = sptr_from_weak self H"

definition wptr_dtor :: "wptr_val \<Rightarrow> ref_heap \<Rightarrow> ref_heap option" where
  "wptr_dtor self H = if_weak self WeakRefCounter_DecWeakRefCount H"

text \<open>\<^verbatim>\<open>sptr = wptr\<close>: the old object is released before the promotion is attempted.\<close>

definition sptr_assign_wptr :: "sptr_val \<Rightarrow> wptr_val \<Rightarrow> ref_heap \<Rightarrow> (sptr_val \<times> ref_heap) option" where
  "sptr_assign_wptr self other H = do {
     H1 \<leftarrow> if_set self DecStrongRef H;
     (p, H2) \<leftarrow> wptr_GetRefPtr other H1;
     case (p, other) of
       (Some _, Some (a, i)) \<Rightarrow> do {
         (ok, w1) \<leftarrow> WeakRefCounter_AttemptIncStrongRef i (H2 a);
         if ok then wptr_GetRefPtr other (H2(a := w1)) else Some (None, H2(a := w1))
       }
     | _ \<Rightarrow> Some (None, H2)
   }"

definition sptr_eq_raw :: "sptr_val \<Rightarrow> nat option \<Rightarrow> bool" where
  "sptr_eq_raw self other \<longleftrightarrow> other = self"

definition sptr_eq :: "sptr_val \<Rightarrow> sptr_val \<Rightarrow> bool" where
  "sptr_eq self other \<longleftrightarrow> self = other"

definition wptr_eq :: "wptr_val \<Rightarrow> wptr_val \<Rightarrow> ref_heap \<Rightarrow> (bool \<times> ref_heap) option" where
  "wptr_eq self other H = do {
     (p, H1) \<leftarrow> wptr_GetRefPtr self H;
     (q, H2) \<leftarrow> wptr_GetRefPtr other H1;
     Some (p = q, H2)
   }"

section \<open>Objects of the heap follow their specifications\<close>

text \<open>The heap \<open>H\<close> implements the specification \<open>S\<close> of each of its objects.\<close>

definition heap_rel :: "(nat \<Rightarrow> ref_spec) \<Rightarrow> ref_heap \<Rightarrow> bool" where
  "heap_rel S H \<longleftrightarrow> (\<forall>a. ref_rel (S a) (H a))"

lemma heap_rel_upd: "heap_rel S H \<Longrightarrow> ref_rel s w \<Longrightarrow> heap_rel (S(a := s)) (H(a := w))"
  by (simp add: heap_rel_def)

lemma at_refines:
  assumes "heap_rel S H" "\<exists>w'. f (H a) = Some w' \<and> ref_rel s w'"
  shows "\<exists>H'. at a f H = Some H' \<and> heap_rel (S(a := s)) H'"
  using assms heap_rel_upd by (auto simp: at_def)

definition spec_release :: "ref_spec \<Rightarrow> ref_spec" where
  "spec_release s = snd (ref_step Release s)"

lemma acquire_at:
  assumes "heap_rel S H" "alive (S a)" "Suc (sptrs (S a)) < 2 ^ 28"
  shows "\<exists>H'. at a IncStrongRef H = Some H' \<and> heap_rel (S(a := spec_acquire (S a))) H'"
  using assms by (intro at_refines acquire_refines) (auto simp: heap_rel_def)

lemma release_at:
  assumes "heap_rel S H" "0 < sptrs (S a)"
  shows "\<exists>H'. at a DecStrongRef H = Some H' \<and> heap_rel (S(a := spec_release (S a))) H'"
  unfolding spec_release_def
  using assms by (intro at_refines release_refines) (auto simp: heap_rel_def)

lemma spec_release_acquire:
  assumes "spec_inv s" "0 < sptrs s"
  shows "spec_release (spec_acquire s) = s"
  using assms by (auto simp: spec_release_def spec_acquire_def spec_inv_def)

lemma heap_rel_sptrs:
  assumes "heap_rel S H" "0 < sptrs (S a)"
  shows "alive (S a)" "spec_inv (S a)"
proof -
  show inv: "spec_inv (S a)"
    using assms(1) by (simp add: heap_rel_def ref_rel_def)
  with assms(2) show "alive (S a)"
    unfolding spec_inv_def by blast
qed

section \<open>Properties\<close>

text \<open>
  Assignment of strong pointers. Assigning an \<^verbatim>\<open>sptr\<close> to another, both in existence and possibly to the
  same object, is defined; afterwards the object assigned from has one more strong pointer and the object
  held before one fewer. When both are the same object its state is unchanged: assigning a pointer
  to itself or to an equal one never destroys the object.
\<close>

theorem sptr_assign_correct:
  assumes "heap_rel S H" "0 < sptrs (S a)" "0 < sptrs (S b)" "Suc (sptrs (S b)) < 2 ^ 28"
  shows "\<exists>H'. sptr_assign (Some a) (Some b) H = Some (Some b, H') \<and>
    heap_rel (if a = b then S else S(b := spec_acquire (S b), a := spec_release (S a))) H'"
proof -
  have b: "alive (S b)" "spec_inv (S b)"
    using heap_rel_sptrs [OF assms(1,3)] by auto
  obtain H1 where H1: "at b IncStrongRef H = Some H1" "heap_rel (S(b := spec_acquire (S b))) H1"
    using acquire_at [OF assms(1) b(1) assms(4)] by blast
  have "0 < sptrs ((S(b := spec_acquire (S b))) a)"
    using assms(2) by (simp add: spec_acquire_def)
  from release_at [OF H1(2) this] obtain H2 where H2: "at a DecStrongRef H1 = Some H2"
      "heap_rel (S(b := spec_acquire (S b), a := spec_release ((S(b := spec_acquire (S b))) a))) H2"
    by blast
  have "(S(b := spec_acquire (S b), a := spec_release ((S(b := spec_acquire (S b))) a))) =
      (if a = b then S else S(b := spec_acquire (S b), a := spec_release (S a)))"
    using spec_release_acquire [OF b(2) assms(3)] by auto
  then show ?thesis
    using H1(1) H2 by (simp add: sptr_assign_def if_set_def)
qed

lemma sample_heap_rel:
  "\<exists>S H. heap_rel S H \<and> sptrs (S a) = 1 \<and> sptrs (S b) = 1"
proof -
  obtain w where w: "RefBase_new True = Some w" "ref_rel ref_spec_init w"
    using init_rel by blast
  obtain w' where "ref_rel (spec_acquire ref_spec_init) w'"
    using acquire_refines [OF w(2)] by (auto simp: ref_spec_init_def)
  then have "heap_rel (\<lambda>_. spec_acquire ref_spec_init) (\<lambda>_. w')"
    by (simp add: heap_rel_def)
  then show ?thesis
    by (intro exI [of _ "\<lambda>_. spec_acquire ref_spec_init"] exI [of _ "\<lambda>_. w'"])
       (simp add: spec_acquire_def ref_spec_init_def)
qed

theorem sptr_assign_correct_witness:
  "\<exists>S H H'. sptr_assign (Some 5) (Some 5) H = Some (Some 5, H') \<and> heap_rel S H \<and> heap_rel S H'"
proof -
  obtain S H where "heap_rel S H" "sptrs (S 5) = 1"
    using sample_heap_rel by blast
  then show ?thesis
    using sptr_assign_correct [of S H 5 5] by auto
qed

text \<open>
  Promotion of a weak pointer and its result. From a heap that implements its specification, promoting an
  existing weak pointer to object \<open>a\<close> is defined; it yields a strong pointer to \<open>a\<close> and counts it when the
  object is alive, and null with an unchanged specification when it is not.
\<close>

theorem promote_correct:
  assumes "heap_rel S H" "i < length (wptrs (S a))" "0 < wptrs (S a) ! i" "Suc (sptrs (S a)) < 2 ^ 28"
  shows "\<exists>H'. promote (Some (a, i)) H = Some (if alive (S a) then Some a else None, H') \<and>
    heap_rel (if alive (S a) then S(a := spec_acquire (S a)) else S) H'"
proof -
  have "ref_rel (S a) (H a)"
    using assms(1) by (simp add: heap_rel_def)
  from promote_refines [OF this assms(2-4)] obtain w' where
    w': "ref_impl (Promote i) (H a) = Some (alive (S a), w')" "ref_rel (snd (ref_step (Promote i) (S a))) w'"
    by blast
  then have "promote (Some (a, i)) H = Some (if alive (S a) then Some a else None, H(a := w'))"
    by (auto simp: promote_def sptr_from_weak_def bind_eq_Some_conv_pair split: bind_splits if_splits)
  moreover have "heap_rel (S(a := snd (ref_step (Promote i) (S a)))) (H(a := w'))"
    using heap_rel_upd [OF assms(1) w'(2)] .
  moreover have "S(a := snd (ref_step (Promote i) (S a))) = (if alive (S a) then S(a := spec_acquire (S a)) else S)"
    by simp
  ultimately show ?thesis by auto
qed

theorem promote_correct_witness:
  "\<exists>S H H'. heap_rel S H \<and> promote (Some (7, 0)) H = Some (Some 7, H')"
proof -
  have "legal_run ref_legal ref_step [Acquire, WeakNew] ref_spec_init"
    by (simp add: ref_spec_init_def spec_acquire_def)
  then obtain w where w: "ref_rel (snd (run_spec ref_step [Acquire, WeakNew] ref_spec_init)) w"
    by (rule refbase_run)
  let ?S = "\<lambda>_. snd (run_spec ref_step [Acquire, WeakNew] ref_spec_init)"
  have "heap_rel ?S (\<lambda>_. w)"
    using w by (simp add: heap_rel_def)
  then show ?thesis
    using promote_correct [of ?S "\<lambda>_. w" 0 7] by (auto simp: ref_spec_init_def spec_acquire_def)
qed

text \<open>
  \<^verbatim>\<open>sptr = wptr\<close> releases before it promotes. If the strong pointer assigned to is the last one of an object
  with normal life-time and the weak pointer refers to the same object, the object is destroyed and the
  result is null, although a promotion before the release would have kept it.
\<close>

theorem sptr_assign_wptr_destroys:
  assumes "heap_rel S H" "sptrs (S a) = 1" "\<not> ext (S a)" "i < length (wptrs (S a))" "0 < wptrs (S a) ! i"
  shows "\<exists>H'. sptr_assign_wptr (Some a) (Some (a, i)) H = Some (None, H') \<and> \<not> object_alive (H' a)"
proof -
  have pos: "0 < sptrs (S a)" using assms(2) by simp
  obtain H1 where H1: "at a DecStrongRef H = Some H1" "heap_rel (S(a := spec_release (S a))) H1"
    using release_at [OF assms(1) pos] by blast
  then have r: "ref_rel (spec_release (S a)) (H1 a)"
    by (auto simp: heap_rel_def dest: spec [of _ a])
  have s: "\<not> alive (spec_release (S a))" "wptrs (spec_release (S a)) = wptrs (S a)"
    using assms(2,3) by (simp_all add: spec_release_def)
  have live: "0 < live (wptrs (S a))"
    using live_update(2) [OF assms(4,5)] .
  obtain c where c: "counter (H1 a) = Some c" "counter_rel (spec_release (S a)) c"
    using r live s by (auto elim: ref_rel_counter)
  have "weak_rel (wptrs (S a)) False (weakrefs (H1 a))"
    using r s by (simp add: ref_rel_def)
  then obtain k where k: "get_weak i (H1 a) = Some k"
    using assms(4,5) by (auto elim: weak_rel_get)
  have "\<not> callback c" "\<not> object_alive (H1 a)"
    using c(2) r s(1) by (simp_all add: counter_rel_def ref_rel_def)
  then show ?thesis
    using H1(1) c(1) k
    by (auto simp: sptr_assign_wptr_def if_set_def wptr_GetRefPtr_def WeakRefCounter_GetRefPtr_def
      IsRefPtrValid_def get_counter_def put_weak_def)
qed

theorem sptr_assign_wptr_destroys_witness:
  "\<exists>H H'. sptr_assign_wptr (Some 7) (Some (7, 0)) H = Some (None, H') \<and> \<not> object_alive (H' 7)"
proof -
  have "legal_run ref_legal ref_step [Acquire, WeakNew] ref_spec_init"
    by (simp add: ref_spec_init_def spec_acquire_def)
  then obtain w where w: "ref_rel (snd (run_spec ref_step [Acquire, WeakNew] ref_spec_init)) w"
    by (rule refbase_run)
  let ?S = "\<lambda>_. snd (run_spec ref_step [Acquire, WeakNew] ref_spec_init)"
  have "heap_rel ?S (\<lambda>_. w)"
    using w by (simp add: heap_rel_def)
  then show ?thesis
    using sptr_assign_wptr_destroys [of ?S "\<lambda>_. w" 7 0] by (auto simp: ref_spec_init_def spec_acquire_def)
qed

end
