(* ===== verification/Unicode_Ex.thy ===== *)
theory Unicode_Ex
  imports CUtils_Prelude
begin

text \<open>
  Conversion between UTF-8 and UTF-16 (\<^verbatim>\<open>base/src/unicode_ex.cpp\<close>). A \<^verbatim>\<open>char16_t\<close> buffer is a list of 16-bit
  words, a \<^verbatim>\<open>char\<close> buffer a list of bytes; the pointer loops are recursions on the rest of the buffer. A read
  outside the given buffer is \<^const>\<open>None\<close>. Allocations succeed; \<^verbatim>\<open>char\<close> is unsigned, as on the ARM targets.
\<close>

section \<open>Code points and UTF-8\<close>

abbreviation INT_MAX :: int where
  "INT_MAX \<equiv> 2147483647"

definition Utf32CodePointUtf8Length :: "32 word \<Rightarrow> nat" where
  "Utf32CodePointUtf8Length srcChar =
     (if srcChar < 0x80 then 1
      else if srcChar < 0x800 then 2
      else if srcChar < 0x10000 then
        (if srcChar < 0xD800 \<or> srcChar > 0xDFFF then 3 else 0)
      else if srcChar \<le> 0x10FFFF then 4
      else 0)"

definition UTF8_FIRST_BYTE_MARK :: "32 word list" where
  "UTF8_FIRST_BYTE_MARK = [0, 0, 0xC0, 0xE0, 0xF0]"

text \<open>The bytes \<^verbatim>\<open>Utf32CodePointToUtf8\<close> stores, from the last to the first; \<open>utf8_tail\<close> is one of its steps.\<close>

definition utf8_tail :: "32 word \<Rightarrow> byte" where
  "utf8_tail srcChar = ucast ((srcChar OR 0x80) AND 0xBF)"

definition Utf32CodePointToUtf8 :: "32 word \<Rightarrow> nat \<Rightarrow> byte list" where
  "Utf32CodePointToUtf8 srcChar bytes =
     (let (out4, c4) = (if bytes \<ge> 4 then ([utf8_tail srcChar], drop_bit 6 srcChar) else ([], srcChar));
          (out3, c3) = (if bytes \<ge> 3 then (utf8_tail c4 # out4, drop_bit 6 c4) else (out4, c4));
          (out2, c2) = (if bytes \<ge> 2 then (utf8_tail c3 # out3, drop_bit 6 c3) else (out3, c3))
      in if bytes \<ge> 1 then ucast (c2 OR UTF8_FIRST_BYTE_MARK ! bytes) # out2 else out2)"

section \<open>UTF-16 to UTF-8\<close>

definition high_surrogate :: "16 word \<Rightarrow> bool" where
  "high_surrogate u \<longleftrightarrow> u AND 0xFC00 = 0xD800"

definition low_surrogate :: "16 word \<Rightarrow> bool" where
  "low_surrogate u \<longleftrightarrow> u AND 0xFC00 = 0xDC00"

fun utf16_length_loop :: "16 word list \<Rightarrow> int \<Rightarrow> int" where
  "utf16_length_loop [] utf8Len = utf8Len"
| "utf16_length_loop (u # v # rest) utf8Len =
     (if high_surrogate u \<and> low_surrogate v then
        (if utf8Len > INT_MAX - 4 then -1 else utf16_length_loop rest (utf8Len + 4))
      else let charLen = int (Utf32CodePointUtf8Length (ucast u))
           in if utf8Len > INT_MAX - charLen then -1 else utf16_length_loop (v # rest) (utf8Len + charLen))"
| "utf16_length_loop [u] utf8Len =
     (let charLen = int (Utf32CodePointUtf8Length (ucast u))
      in if utf8Len > INT_MAX - charLen then -1 else utf8Len + charLen)"

definition Utf16ToUtf8Length :: "16 word list \<Rightarrow> int" where
  "Utf16ToUtf8Length str16 = (if str16 = [] then -1 else utf16_length_loop str16 0)"

text \<open>The next code point of a UTF-16 buffer and the rest of the buffer, as both loops take it.\<close>

fun next_utf32 :: "16 word list \<Rightarrow> (32 word \<times> 16 word list) option" where
  "next_utf32 [] = None"
| "next_utf32 (u # v # rest) =
     (if high_surrogate u \<and> low_surrogate v
      then Some ((push_bit 10 (ucast u - 0xD800) OR (ucast v - 0xDC00)) + 0x10000, rest)
      else Some (ucast u, v # rest))"
| "next_utf32 [u] = Some (ucast u, [])"

lemma next_utf32_length: "next_utf32 us = Some (c, rest) \<Longrightarrow> length rest < length us"
  by (induction us rule: next_utf32.induct) (auto split: if_splits)

text \<open>What \<^verbatim>\<open>StrncpyStr16ToStr8\<close> writes into a buffer of \<open>str8Len\<close> bytes, terminating zero included.\<close>

function StrncpyStr16ToStr8 :: "16 word list \<Rightarrow> nat \<Rightarrow> byte list" where
  "StrncpyStr16ToStr8 utf16Str str8Len =
     (case next_utf32 utf16Str of
        None \<Rightarrow> [0]
      | Some (utf32, rest) \<Rightarrow>
          let len = Utf32CodePointUtf8Length utf32
          in if str8Len \<le> len then [0]
             else Utf32CodePointToUtf8 utf32 len @ StrncpyStr16ToStr8 rest (str8Len - len))"
  by pat_completeness auto
termination
  by (relation "measure (\<lambda>(us, _). length us)") (auto dest: next_utf32_length)

declare StrncpyStr16ToStr8.simps [simp del]

text \<open>The allocated C string of \<^verbatim>\<open>Char16ToChar8\<close>, or \<^const>\<open>None\<close> for a null pointer.\<close>

definition Char16ToChar8 :: "16 word list \<Rightarrow> byte list option" where
  "Char16ToChar8 str16 =
     (let utf8Len = Utf16ToUtf8Length str16
      in if utf8Len < 0 \<or> utf8Len \<ge> INT_MAX then None
         else Some (StrncpyStr16ToStr8 str16 (nat (utf8Len + 1))))"

text \<open>Assigning a C string to a \<^verbatim>\<open>std::string\<close> copies the bytes before the first zero.\<close>

definition c_string :: "'a::zero list \<Rightarrow> 'a list" where
  "c_string s = takeWhile (\<lambda>b. b \<noteq> 0) s"

definition String16ToString8 :: "16 word list \<Rightarrow> byte list \<Rightarrow> bool \<times> byte list" where
  "String16ToString8 str16 str8 =
     (if length str16 < 1 then (False, str8)
      else case Char16ToChar8 str16 of
          None \<Rightarrow> (False, str8)
        | Some str8Temp \<Rightarrow> (True, c_string str8Temp))"

section \<open>UTF-8 to UTF-16\<close>

definition Utf8CodePointLen :: "byte \<Rightarrow> nat" where
  "Utf8CodePointLen ch =
     unat (drop_bit (unat (drop_bit 3 ch AND 0x1e)) (0xe5000000 :: 32 word) AND 3) + 1"

definition Utf8ShiftAndMask :: "32 word \<Rightarrow> byte \<Rightarrow> 32 word" where
  "Utf8ShiftAndMask codePoint b = push_bit 6 codePoint OR (0x3F AND ucast b)"

definition Utf8ToUtf32CodePoint :: "byte list \<Rightarrow> nat \<Rightarrow> 32 word option" where
  "Utf8ToUtf32CodePoint src len =
     (if len \<in> {1, 2, 3, 4} then do {
        bs \<leftarrow> mem_read 0 len src;
        if len = 1 then Some (ucast (bs ! 0))
        else let first = ucast (bs ! 0) AND (if len = 2 then 0x1f else if len = 3 then 0x0f else 0x07)
             in Some (foldl Utf8ShiftAndMask first (tl bs))
      }
      else Some 0xffff)"

lemma Utf8CodePointLen_pos: "0 < Utf8CodePointLen ch"
  by (simp add: Utf8CodePointLen_def)

function utf8_length_loop :: "byte list \<Rightarrow> int \<Rightarrow> int option" where
  "utf8_length_loop str8 utf16len =
     (if str8 = [] then Some utf16len
      else let u8charlen = Utf8CodePointLen (hd str8)
           in if u8charlen - 1 \<ge> length str8 then Some (-1)
              else do {
                codepoint \<leftarrow> Utf8ToUtf32CodePoint str8 u8charlen;
                utf8_length_loop (drop u8charlen str8)
                  (if codepoint > 0xFFFF then utf16len + 2 else utf16len + 1)
              })"
  by pat_completeness auto
termination
  by (relation "measure (\<lambda>(s, _). length s)") (auto simp: Utf8CodePointLen_pos)

declare utf8_length_loop.simps [simp del]

text \<open>
  \<^verbatim>\<open>Utf8ToUtf16Length\<close>. The loop leaves only with \<^verbatim>\<open>str8 == str8end\<close>, so the last check of the code never
  fires; the count is an unbounded integer here, so that no wrap-around is hidden.
\<close>

definition Utf8ToUtf16Length :: "byte list \<Rightarrow> int option" where
  "Utf8ToUtf16Length str8 = utf8_length_loop str8 0"

text \<open>
  What \<^verbatim>\<open>Utf8ToUtf16\<close> writes into a buffer of \<open>u16len\<close> units, up to the returned pointer. A surrogate pair
  that does not fit is left out.
\<close>

function Utf8ToUtf16 :: "byte list \<Rightarrow> nat \<Rightarrow> 16 word list option" where
  "Utf8ToUtf16 u8 u16len =
     (if u8 = [] \<or> u16len = 0 then Some []
      else let len = Utf8CodePointLen (hd u8)
           in do {
                codepoint \<leftarrow> Utf8ToUtf32CodePoint u8 len;
                if codepoint \<le> 0xFFFF then do {
                  rest \<leftarrow> Utf8ToUtf16 (drop len u8) (u16len - 1);
                  Some (ucast codepoint # rest)
                }
                else if u16len = 1 then Some []
                else let cp = codepoint - 0x10000 in do {
                  rest \<leftarrow> Utf8ToUtf16 (drop len u8) (u16len - 2);
                  Some (ucast (drop_bit 10 cp + 0xD800) # ucast ((cp AND 0x3FF) + 0xDC00) # rest)
                }
              })"
  by pat_completeness auto
termination
  by (relation "measure (\<lambda>(s, _). length s)") (auto simp: Utf8CodePointLen_pos)

declare Utf8ToUtf16.simps [simp del]

definition StrncpyStr8ToStr16 :: "byte list \<Rightarrow> nat \<Rightarrow> 16 word list option" where
  "StrncpyStr8ToStr16 utf8Str u16len = do {
     result \<leftarrow> Utf8ToUtf16 utf8Str (u16len - 1);
     Some (result @ [0])
   }"

definition Char8ToChar16 :: "byte list \<Rightarrow> 16 word list option option" where
  "Char8ToChar16 str8 = do {
     utf16Len \<leftarrow> Utf8ToUtf16Length str8;
     if utf16Len < 0 \<or> utf16Len \<ge> INT_MAX then Some None
     else do {
       str16 \<leftarrow> StrncpyStr8ToStr16 str8 (nat (utf16Len + 1));
       Some (Some str16)
     }
   }"

definition String8ToString16 :: "byte list \<Rightarrow> 16 word list \<Rightarrow> (bool \<times> 16 word list) option" where
  "String8ToString16 str8 str16 =
     (if length str8 < 1 then Some (False, str16)
      else do {
        r \<leftarrow> Char8ToChar16 str8;
        Some (case r of None \<Rightarrow> (False, str16) | Some str16Temp \<Rightarrow> (True, c_string str16Temp))
      })"

section \<open>Code points, bit by bit\<close>

lemma word32_eqI:
  fixes x y :: "32 word"
  assumes "list_all (\<lambda>i. bit x i = bit y i) [0, 1, 2, 3, 4, 5, 6, 7, 8, 9, 10, 11, 12, 13, 14, 15, 16, 17, 18, 19, 20, 21, 22, 23, 24, 25, 26, 27, 28, 29, 30, 31]"
  shows "x = y"
proof -
  have "[0..<32] = [0, 1, 2, 3, 4, 5, 6, 7, 8, 9, 10, 11, 12, 13, 14, 15, 16, 17, 18, 19, 20, 21, 22, 23, 24, 25, 26, 27, 28, 29, 30, 31]"
    by (simp add: upt_conv_Cons)
  with assms have "list_all (\<lambda>i. bit x i = bit y i) [0..<32]"
    by (simp only:)
  then show ?thesis
    by (intro bit_word_eqI) (simp add: list_all_iff)
qed

lemma word16_eqI:
  fixes x y :: "16 word"
  assumes "list_all (\<lambda>i. bit x i = bit y i) [0, 1, 2, 3, 4, 5, 6, 7, 8, 9, 10, 11, 12, 13, 14, 15]"
  shows "x = y"
proof -
  have "[0..<16] = [0, 1, 2, 3, 4, 5, 6, 7, 8, 9, 10, 11, 12, 13, 14, 15]"
    by (simp add: upt_conv_Cons)
  with assms have "list_all (\<lambda>i. bit x i = bit y i) [0..<16]"
    by (simp only:)
  then show ?thesis
    by (intro bit_word_eqI) (simp add: list_all_iff)
qed

lemma less_exp_bit:
  fixes c :: "'a::len word"
  assumes "unat c < 2 ^ n" "n \<le> i"
  shows "\<not> bit c i"
proof -
  have "take_bit n (unat c) = unat c"
    using assms(1) by (simp add: take_bit_nat_eq_self)
  then have "\<not> bit (unat c) i"
    using assms(2) by (metis bit_take_bit_iff not_less)
  then show ?thesis
    by (simp add: bit_unsigned_iff)
qed

lemma utf8_decode_2:
  assumes "c < 0x800"
  shows "Utf8ShiftAndMask (ucast (ucast (drop_bit 6 c OR 0xC0) :: byte) AND 0x1f) (utf8_tail c) = c"
proof -
  have h: "\<And>i. 11 \<le> i \<Longrightarrow> \<not> bit c i"
    using less_exp_bit [of c 11] assms by (simp add: word_less_nat_alt)
  show ?thesis
    by (rule word32_eqI) (simp add: Utf8ShiftAndMask_def utf8_tail_def bit_simps h)
qed

lemma utf8_decode_3:
  assumes "c < 0x10000"
  shows "Utf8ShiftAndMask (Utf8ShiftAndMask (ucast (ucast (drop_bit 12 c OR 0xE0) :: byte) AND 0x0f)
    (utf8_tail (drop_bit 6 c))) (utf8_tail c) = c"
proof -
  have h: "\<And>i. 16 \<le> i \<Longrightarrow> \<not> bit c i"
    using less_exp_bit [of c 16] assms by (simp add: word_less_nat_alt)
  show ?thesis
    by (rule word32_eqI) (simp add: Utf8ShiftAndMask_def utf8_tail_def bit_simps h)
qed

lemma utf8_decode_4:
  assumes "c \<le> 0x10FFFF"
  shows "Utf8ShiftAndMask (Utf8ShiftAndMask (Utf8ShiftAndMask (ucast (ucast (drop_bit 18 c OR 0xF0) :: byte) AND 0x07)
    (utf8_tail (drop_bit 12 c))) (utf8_tail (drop_bit 6 c))) (utf8_tail c) = c"
proof -
  have h: "\<And>i. 21 \<le> i \<Longrightarrow> \<not> bit c i"
    using less_exp_bit [of c 21] assms by (simp add: word_le_nat_alt)
  show ?thesis
    by (rule word32_eqI) (simp add: Utf8ShiftAndMask_def utf8_tail_def bit_simps h)
qed

lemma Utf8CodePointLen_eq:
  "Utf8CodePointLen b = (if unat b < 0xC0 then 1 else if unat b < 0xE0 then 2 else if unat b < 0xF0 then 3 else 4)"
proof -
  define j where "j = unat b div 16"
  have b: "unat b < 256"
    using unsigned_less [of b] by simp
  have "drop_bit 3 b AND 0x1e = drop_bit 3 (push_bit 4 (drop_bit 4 b))"
  proof (rule bit_word_eqI)
    fix i assume "i < LENGTH(8)"
    then have "i \<in> {0, 1, 2, 3, 4, 5, 6, 7}" by auto
    then show "bit (drop_bit 3 b AND 0x1e) i = bit (drop_bit 3 (push_bit 4 (drop_bit 4 b))) i"
      by (auto simp: bit_simps)
  qed
  moreover have "unat (drop_bit 3 (push_bit 4 (drop_bit 4 b))) = 2 * j"
  proof -
    have "unat b div 16 * 16 < 256" "unat b mod 256 = unat b"
      using b by simp_all
    then show ?thesis
      by (simp only: unsigned_drop_bit_eq unsigned_push_bit_eq)
         (simp add: j_def drop_bit_eq_div push_bit_eq_mult take_bit_eq_mod)
  qed
  ultimately have len: "Utf8CodePointLen b = unat (drop_bit (2 * j) (0xe5000000 :: 32 word) AND 3) + 1"
    by (simp add: Utf8CodePointLen_def)
  have "j < 16"
    using b by (simp add: j_def)
  then have "j \<in> {0, 1, 2, 3, 4, 5, 6, 7, 8, 9, 10, 11, 12, 13, 14, 15}"
    by (simp only: insert_iff empty_iff) presburger
  moreover have "unat b < 16 * j + 16" "16 * j \<le> unat b"
    by (simp_all add: j_def dividend_less_div_times mult.commute)
  ultimately show ?thesis
    unfolding len by (elim insertE emptyE) auto
qed

text \<open>A Unicode scalar value, other than the terminator, and its two encodings.\<close>

definition valid_cp :: "32 word \<Rightarrow> bool" where
  "valid_cp c \<longleftrightarrow> 0 < c \<and> c \<le> 0x10FFFF \<and> (c < 0xD800 \<or> 0xDFFF < c)"

definition u8_enc :: "32 word \<Rightarrow> byte list" where
  "u8_enc c = Utf32CodePointToUtf8 c (Utf32CodePointUtf8Length c)"

definition u16_enc :: "32 word \<Rightarrow> 16 word list" where
  "u16_enc c =
     (if c \<le> 0xFFFF then [ucast c]
      else [ucast (drop_bit 10 (c - 0x10000) + 0xD800), ucast (((c - 0x10000) AND 0x3FF) + 0xDC00)])"

lemma u8_enc_cases:
  assumes "valid_cp c"
  obtains (one) "c < 0x80" "Utf32CodePointUtf8Length c = 1" "u8_enc c = [ucast c]"
  | (two) "0x80 \<le> c" "c < 0x800" "Utf32CodePointUtf8Length c = 2"
      "u8_enc c = [ucast (drop_bit 6 c OR 0xC0), utf8_tail c]"
  | (three) "0x800 \<le> c" "c < 0x10000" "Utf32CodePointUtf8Length c = 3"
      "u8_enc c = [ucast (drop_bit 12 c OR 0xE0), utf8_tail (drop_bit 6 c), utf8_tail c]"
  | (four) "0x10000 \<le> c" "c \<le> 0x10FFFF" "Utf32CodePointUtf8Length c = 4"
      "u8_enc c = [ucast (drop_bit 18 c OR 0xF0), utf8_tail (drop_bit 12 c), utf8_tail (drop_bit 6 c), utf8_tail c]"
proof -
  consider "c < 0x80" | "0x80 \<le> c" "c < 0x800" | "0x800 \<le> c" "c < 0x10000" | "0x10000 \<le> c"
    by (meson not_less)
  then show ?thesis
  proof cases
    case 1
    then show ?thesis
      by (intro one) (simp_all add: u8_enc_def Utf32CodePointToUtf8_def Utf32CodePointUtf8Length_def UTF8_FIRST_BYTE_MARK_def)
  next
    case 2
    then have "\<not> c < 0x80" by (simp add: not_less)
    with 2 show ?thesis
      by (intro two) (simp_all add: u8_enc_def Utf32CodePointToUtf8_def Utf32CodePointUtf8Length_def UTF8_FIRST_BYTE_MARK_def)
  next
    case 3
    then have "\<not> c < 0x80" "\<not> c < 0x800"
      by (simp_all add: word_le_nat_alt word_less_nat_alt)
    with 3 assms show ?thesis
      by (intro three) (simp_all add: u8_enc_def Utf32CodePointToUtf8_def Utf32CodePointUtf8Length_def
        UTF8_FIRST_BYTE_MARK_def valid_cp_def numeral_3_eq_3)
  next
    case 4
    then have "\<not> c < 0x80" "\<not> c < 0x800" "\<not> c < 0x10000"
      by (simp_all add: word_le_nat_alt word_less_nat_alt)
    with 4 assms show ?thesis
      by (intro four) (simp_all add: u8_enc_def Utf32CodePointToUtf8_def Utf32CodePointUtf8Length_def
        UTF8_FIRST_BYTE_MARK_def valid_cp_def)
  qed
qed

text \<open>The decoder on an encoded code point.\<close>

lemma disjoint_or_unat:
  fixes c k :: "32 word"
  assumes "c AND k = 0" "unat c + unat k < 256"
  shows "unat (ucast (c OR k) :: byte) = unat c + unat k"
proof -
  have "c OR k = c + k"
    using assms(1) word_plus_and_or [of c k] by simp
  moreover have "unat (c + k) = unat c + unat k"
    using assms(2) by (simp add: unat_add_lem [THEN iffD1])
  ultimately show ?thesis
    using assms(2) by (simp add: unsigned_ucast_eq take_bit_nat_eq_self)
qed

lemma first_byte_ranges:
  fixes c :: "32 word"
  shows "unat c < 32 \<Longrightarrow> unat (ucast (c OR 0xC0) :: byte) = unat c + 0xC0"
    "unat c < 16 \<Longrightarrow> unat (ucast (c OR 0xE0) :: byte) = unat c + 0xE0"
    "unat c < 8 \<Longrightarrow> unat (ucast (c OR 0xF0) :: byte) = unat c + 0xF0"
proof -
  have z: "c AND 0xC0 = 0" if "unat c < 32"
    using less_exp_bit [of c 5] that by (intro word32_eqI) (simp add: bit_simps)
  have y: "c AND 0xE0 = 0" if "unat c < 16"
    using less_exp_bit [of c 4] that by (intro word32_eqI) (simp add: bit_simps)
  have x: "c AND 0xF0 = 0" if "unat c < 8"
    using less_exp_bit [of c 3] that by (intro word32_eqI) (simp add: bit_simps)
  show "unat c < 32 \<Longrightarrow> unat (ucast (c OR 0xC0) :: byte) = unat c + 0xC0"
    using disjoint_or_unat [of c "0xC0"] z by simp
  show "unat c < 16 \<Longrightarrow> unat (ucast (c OR 0xE0) :: byte) = unat c + 0xE0"
    using disjoint_or_unat [of c "0xE0"] y by simp
  show "unat c < 8 \<Longrightarrow> unat (ucast (c OR 0xF0) :: byte) = unat c + 0xF0"
    using disjoint_or_unat [of c "0xF0"] x by simp
qed

lemma unat_drop_bit_32: "unat (drop_bit n (c :: 32 word)) = unat c div 2 ^ n"
proof -
  have "take_bit 32 (unat c) = unat c"
    using unsigned_less [of c] by (intro take_bit_nat_eq_self) simp
  then show ?thesis
    by (simp only: unsigned_drop_bit_eq) (simp add: drop_bit_eq_div)
qed

lemma utf8_tail_nonzero: "utf8_tail c \<noteq> 0"
proof -
  have "bit (utf8_tail c) 7"
    by (simp add: utf8_tail_def bit_simps)
  then show ?thesis by force
qed

lemma unat_nonzero: "0 < unat w \<Longrightarrow> w \<noteq> 0"
  by auto

lemma u8_enc_decodes:
  assumes "valid_cp c"
  shows "Utf8CodePointLen (hd (u8_enc c @ rest)) = length (u8_enc c)"
    "Utf8ToUtf32CodePoint (u8_enc c @ rest) (length (u8_enc c)) = Some c"
    "length (u8_enc c) = Utf32CodePointUtf8Length c" "0 \<notin> set (u8_enc c)" "u8_enc c \<noteq> []"
proof -
  have "Utf8CodePointLen (hd (u8_enc c @ rest)) = length (u8_enc c) \<and>
    Utf8ToUtf32CodePoint (u8_enc c @ rest) (length (u8_enc c)) = Some c \<and>
    length (u8_enc c) = Utf32CodePointUtf8Length c \<and> 0 \<notin> set (u8_enc c) \<and> u8_enc c \<noteq> []"
  proof (cases rule: u8_enc_cases [OF assms])
    case 1
    have c: "unat (ucast c :: byte) = unat c" "unat c < 128" "0 < unat c"
      using 1(1) assms by (simp_all add: unsigned_ucast_eq take_bit_nat_eq_self word_less_nat_alt valid_cp_def)
    moreover have "(ucast (ucast c :: byte) :: 32 word) = c"
      using c(1) by (intro word_unat_eq_iff [THEN iffD2]) (simp add: unsigned_ucast_eq unsigned_take_bit_eq take_bit_nat_eq_self)
    ultimately show ?thesis
      using 1 unat_nonzero [of "ucast c :: byte"]
      by (simp add: Utf8CodePointLen_eq Utf8ToUtf32CodePoint_def mem_read_def)
  next
    case 2
    have "unat (drop_bit 6 c) < 32"
      using 2(2) by (simp add: unat_drop_bit_32 word_less_nat_alt)
    note b = first_byte_ranges(1) [OF this]
    have "ucast (drop_bit 6 c OR 0xC0) \<noteq> (0 :: byte)"
      using b by (intro unat_nonzero) simp
    then show ?thesis
      using 2 b utf8_decode_2 [OF 2(2)] \<open>unat (drop_bit 6 c) < 32\<close> utf8_tail_nonzero [of c]
      by (simp add: Utf8CodePointLen_eq Utf8ToUtf32CodePoint_def mem_read_def numeral_2_eq_2)
  next
    case 3
    have d: "unat (drop_bit 12 c) < 16"
      using 3(2) by (simp add: unat_drop_bit_32 word_less_nat_alt)
    note b = first_byte_ranges(2) [OF d]
    have "ucast (drop_bit 12 c OR 0xE0) \<noteq> (0 :: byte)"
      using b by (intro unat_nonzero) simp
    then show ?thesis
      using 3 b d utf8_decode_3 [OF 3(2)] utf8_tail_nonzero
      by (simp add: Utf8CodePointLen_eq Utf8ToUtf32CodePoint_def mem_read_def eval_nat_numeral)
  next
    case 4
    have d: "unat (drop_bit 18 c) < 8"
      using 4(2) by (simp add: unat_drop_bit_32 word_le_nat_alt)
    note b = first_byte_ranges(3) [OF d]
    have "ucast (drop_bit 18 c OR 0xF0) \<noteq> (0 :: byte)"
      using b by (intro unat_nonzero) simp
    then show ?thesis
      using 4 b d utf8_decode_4 [OF 4(2)] utf8_tail_nonzero
      by (simp add: Utf8CodePointLen_eq Utf8ToUtf32CodePoint_def mem_read_def eval_nat_numeral)
  qed
  then show "Utf8CodePointLen (hd (u8_enc c @ rest)) = length (u8_enc c)"
    "Utf8ToUtf32CodePoint (u8_enc c @ rest) (length (u8_enc c)) = Some c"
    "length (u8_enc c) = Utf32CodePointUtf8Length c" "0 \<notin> set (u8_enc c)" "u8_enc c \<noteq> []"
    by blast+
qed

section \<open>UTF-16 units\<close>

lemma surrogate_range:
  fixes u k :: "16 word"
  assumes "u AND 0xFC00 = k"
  shows "unat u div 1024 = unat k div 1024"
proof -
  have "drop_bit 10 u = drop_bit 10 k"
    using assms by (intro word16_eqI) (auto simp: bit_simps dest: bit_imp_le_length)
  then have "unat (drop_bit 10 u) = unat (drop_bit 10 k)"
    by simp
  moreover have "take_bit 16 (unat w) = unat w" for w :: "16 word"
    using unsigned_less [of w] by (intro take_bit_nat_eq_self) simp
  ultimately show ?thesis
    by (simp only: unsigned_drop_bit_eq) (simp add: drop_bit_eq_div)
qed

lemma ucast_16_32:
  fixes c :: "32 word"
  assumes "unat c < 65536"
  shows "(ucast (ucast c :: 16 word) :: 32 word) = c" "unat (ucast c :: 16 word) = unat c"
proof -
  show u: "unat (ucast c :: 16 word) = unat c"
    using assms by (simp add: unsigned_ucast_eq take_bit_nat_eq_self)
  show "(ucast (ucast c :: 16 word) :: 32 word) = c"
    using assms by (intro word_unat_eq_iff [THEN iffD2])
      (simp add: unsigned_ucast_eq unsigned_take_bit_eq take_bit_nat_eq_self)
qed

lemma bmp_not_surrogate:
  assumes "valid_cp c" "c \<le> 0xFFFF"
  shows "\<not> high_surrogate (ucast c)"
proof
  assume "high_surrogate (ucast c)"
  then have "unat (ucast c :: 16 word) div 1024 = 54"
    using surrogate_range [of "ucast c" "0xD800"] by (simp add: high_surrogate_def)
  moreover have "unat (ucast c :: 16 word) = unat c"
    using assms(2) by (intro ucast_16_32) (simp add: word_le_nat_alt)
  ultimately have "unat c div 1024 = 54" by simp
  then have "55296 \<le> unat c" "unat c < 56320"
    by simp_all
  with assms(1) show False
    by (auto simp: valid_cp_def word_less_nat_alt)
qed

text \<open>The surrogate pair of a supplementary code point, given the 20 bits it carries.\<close>

lemma surrogate_pair:
  fixes d :: "32 word"
  assumes "unat d < 2 ^ 20"
  defines "hi \<equiv> ucast (drop_bit 10 d + 0xD800) :: 16 word" and "lo \<equiv> ucast ((d AND 0x3FF) + 0xDC00) :: 16 word"
  shows "high_surrogate hi" "low_surrogate lo" "ucast hi - 0xD800 = drop_bit 10 d" "ucast lo - 0xDC00 = d AND 0x3FF"
proof -
  have h: "\<And>i. 20 \<le> i \<Longrightarrow> \<not> bit d i"
    using less_exp_bit [OF assms(1)] .
  have "drop_bit 10 d AND 0xD800 = 0" "(d AND 0x3FF) AND 0xDC00 = 0"
    by (rule word32_eqI; simp add: bit_simps h)+
  then have or: "drop_bit 10 d + 0xD800 = drop_bit 10 d OR 0xD800" "(d AND 0x3FF) + 0xDC00 = (d AND 0x3FF) OR 0xDC00"
    using word_plus_and_or [of "drop_bit 10 d" "0xD800"] word_plus_and_or [of "d AND 0x3FF" "0xDC00"] by simp_all
  show "high_surrogate hi" "low_surrogate lo"
    unfolding high_surrogate_def low_surrogate_def hi_def lo_def or
    by (rule word16_eqI; simp add: bit_simps h)+
  have "(ucast hi :: 32 word) = drop_bit 10 d + 0xD800" "(ucast lo :: 32 word) = (d AND 0x3FF) + 0xDC00"
    unfolding hi_def lo_def or by (rule word32_eqI; simp add: bit_simps h)+
  then show "ucast hi - 0xD800 = drop_bit 10 d" "ucast lo - 0xDC00 = d AND 0x3FF"
    by simp_all
qed

lemma supplementary_bits:
  assumes "valid_cp c" "\<not> c \<le> 0xFFFF"
  shows "unat (c - 0x10000) < 2 ^ 20" "Utf32CodePointUtf8Length c = 4"
proof -
  have le: "0x10000 \<le> c" and c: "65535 < unat c" "unat c \<le> 0x10FFFF"
    using assms by (simp_all add: valid_cp_def word_le_nat_alt)
  then show "unat (c - 0x10000) < 2 ^ 20"
    by (simp add: unat_sub)
  show "Utf32CodePointUtf8Length c = 4"
    using c by (simp add: Utf32CodePointUtf8Length_def word_le_nat_alt word_less_nat_alt)
qed

lemma u16_enc_next:
  assumes "valid_cp c"
  shows "next_utf32 (u16_enc c @ rest) = Some (c, rest)"
proof (cases "c \<le> 0xFFFF")
  case True
  then have "(ucast (ucast c :: 16 word) :: 32 word) = c"
    by (intro ucast_16_32) (simp add: word_le_nat_alt)
  then show ?thesis
    using True bmp_not_surrogate [OF assms True] by (cases rest) (simp_all add: u16_enc_def)
next
  case False
  let ?d = "c - 0x10000"
  note d = supplementary_bits(1) [OF assms False]
  note p = surrogate_pair [OF d]
  have "push_bit 10 (drop_bit 10 ?d) OR (?d AND 0x3FF) = ?d"
    by (rule word32_eqI) (simp add: bit_simps)
  then show ?thesis
    using False p by (simp add: u16_enc_def)
qed

section \<open>Whole strings\<close>

abbreviation utf8_of :: "32 word list \<Rightarrow> byte list" where
  "utf8_of cs \<equiv> concat (map u8_enc cs)"

abbreviation utf16_of :: "32 word list \<Rightarrow> 16 word list" where
  "utf16_of cs \<equiv> concat (map u16_enc cs)"

lemma utf16_length_step:
  "utf16_length_loop us n =
     (case next_utf32 us of None \<Rightarrow> n
      | Some (c, rest) \<Rightarrow>
          let l = int (if length us = Suc (Suc (length rest)) then 4 else Utf32CodePointUtf8Length c)
          in if n > INT_MAX - l then -1 else utf16_length_loop rest (n + l))"
  by (cases us rule: next_utf32.cases) (auto simp: Let_def)

lemma u16_enc_length: "length (u16_enc c) = (if c \<le> 0xFFFF then 1 else 2)"
  by (simp add: u16_enc_def)

lemma utf16_length_of:
  assumes "list_all valid_cp cs" "0 \<le> n" "n + int (length (utf8_of cs)) \<le> INT_MAX"
  shows "utf16_length_loop (utf16_of cs) n = n + int (length (utf8_of cs))"
  using assms
proof (induction cs arbitrary: n)
  case (Cons c cs)
  have c: "valid_cp c" using Cons.prems by simp
  note d = u8_enc_decodes(3) [OF c]
  have l: "(if length (u16_enc c @ utf16_of cs) = Suc (Suc (length (utf16_of cs))) then 4 else Utf32CodePointUtf8Length c)
    = length (u8_enc c)"
    using d supplementary_bits(2) [OF c] by (simp add: u16_enc_length)
  have "utf16_length_loop (u16_enc c @ utf16_of cs) n = utf16_length_loop (utf16_of cs) (n + int (length (u8_enc c)))"
    using Cons.prems u16_enc_next [OF c] by (subst utf16_length_step) (simp only: option.case prod.case l, simp)
  then show ?case
    using Cons by simp
qed simp

lemma StrncpyStr16ToStr8_of:
  assumes "list_all valid_cp cs" "length (utf8_of cs) < n"
  shows "StrncpyStr16ToStr8 (utf16_of cs) n = utf8_of cs @ [0]"
  using assms
proof (induction cs arbitrary: n)
  case (Cons c cs)
  have c: "valid_cp c" using Cons.prems by simp
  note d = u8_enc_decodes(3) [OF c]
  show ?case
    using Cons d u16_enc_next [OF c, of "utf16_of cs"]
    by (subst StrncpyStr16ToStr8.simps) (simp add: u8_enc_def [symmetric] Let_def)
qed (simp add: StrncpyStr16ToStr8.simps)

lemma utf8_length_of:
  assumes "list_all valid_cp cs"
  shows "utf8_length_loop (utf8_of cs) n = Some (n + int (length (utf16_of cs)))"
  using assms
proof (induction cs arbitrary: n)
  case (Cons c cs)
  have c: "valid_cp c" using Cons.prems by simp
  note d = u8_enc_decodes(1,2) [OF c, of "utf8_of cs"] u8_enc_decodes(3-5) [OF c]
  have "\<not> length (u8_enc c @ utf8_of cs) \<le> length (u8_enc c) - 1"
    using u8_enc_decodes(5) [OF c] by (cases "u8_enc c") simp_all
  then show ?case
    using Cons d
    by (subst utf8_length_loop.simps) (simp add: Let_def u16_enc_length not_le not_less)
qed (simp add: utf8_length_loop.simps)

lemma Utf8ToUtf16_of:
  assumes "list_all valid_cp cs"
  shows "Utf8ToUtf16 (utf8_of cs) (length (utf16_of cs)) = Some (utf16_of cs)"
  using assms
proof (induction cs)
  case (Cons c cs)
  have c: "valid_cp c" using Cons.prems by simp
  note d = u8_enc_decodes(1,2) [OF c, of "utf8_of cs"] u8_enc_decodes(3-5) [OF c]
  have "Utf8ToUtf16 (utf8_of cs) (length (utf16_of cs)) = Some (utf16_of cs)"
    using Cons by simp
  then show ?case
    using d
    by (subst Utf8ToUtf16.simps) (simp add: Let_def u16_enc_def [of c])
qed (simp add: Utf8ToUtf16.simps)

lemma u16_enc_nonzero:
  assumes "valid_cp c"
  shows "0 \<notin> set (u16_enc c)"
proof (cases "c \<le> 0xFFFF")
  case True
  then have "unat (ucast c :: 16 word) = unat c"
    by (intro ucast_16_32) (simp add: word_le_nat_alt)
  then have "(ucast c :: 16 word) \<noteq> 0"
    using assms by (intro unat_nonzero) (simp add: valid_cp_def word_less_nat_alt)
  with True show ?thesis by (simp add: u16_enc_def)
next
  case False
  have "w \<noteq> 0" if "high_surrogate w \<or> low_surrogate w" for w
    using that by (auto simp: high_surrogate_def low_surrogate_def)
  with surrogate_pair(1,2) [OF supplementary_bits(1) [OF assms False]] False show ?thesis
    by (auto simp: u16_enc_def)
qed

lemma c_string_snoc: "0 \<notin> set s \<Longrightarrow> c_string (s @ [0]) = s"
  by (induction s) (auto simp: c_string_def)

lemma encodings_nonempty:
  assumes "list_all valid_cp cs" "cs \<noteq> []"
  shows "utf16_of cs \<noteq> []" "utf8_of cs \<noteq> []"
  using assms u8_enc_decodes(5) by (cases cs; simp add: u16_enc_def)+

lemma encodings_no_zero:
  assumes "list_all valid_cp cs"
  shows "0 \<notin> set (utf16_of cs)" "0 \<notin> set (utf8_of cs)"
  using assms u16_enc_nonzero u8_enc_decodes(4) by (auto simp: list_all_iff)

lemma u16_le_u8:
  assumes "list_all valid_cp cs"
  shows "length (utf16_of cs) \<le> length (utf8_of cs)"
  using assms
proof (induction cs)
  case (Cons c cs)
  have c: "valid_cp c" using Cons.prems by simp
  have "0 < length (u8_enc c)" "\<not> c \<le> 0xFFFF \<Longrightarrow> length (u8_enc c) = 4"
    using u8_enc_decodes(5) [OF c] u8_enc_decodes(3) [OF c] supplementary_bits(2) [OF c] by (metis length_greater_0_conv)+
  moreover from this(1) have "Suc 0 \<le> length (u8_enc c)" by (rule Suc_leI)
  moreover have "length (utf16_of cs) \<le> length (utf8_of cs)"
    using Cons by simp
  ultimately show ?case
    by (auto simp: u16_enc_length intro: add_mono [of "Suc 0", simplified])
qed simp

lemma Utf16ToUtf8Length_of:
  assumes "list_all valid_cp cs" "cs \<noteq> []" "int (length (utf8_of cs)) < INT_MAX"
  shows "Utf16ToUtf8Length (utf16_of cs) = int (length (utf8_of cs))"
  using utf16_length_of [OF assms(1), of 0] assms(3) encodings_nonempty [OF assms(1,2)]
  by (simp add: Utf16ToUtf8Length_def)

text \<open>
  C14. The two string conversions are inverse to each other on well-formed text: for every non-empty sequence of
  Unicode scalar values other than the terminator whose UTF-8 form is shorter than \<^verbatim>\<open>INT_MAX\<close> bytes,
  \<^verbatim>\<open>String16ToString8\<close> takes its UTF-16 form to its UTF-8 form and \<^verbatim>\<open>String8ToString16\<close> takes it back,
  both with result true.
\<close>

theorem unicode_conversions_agree:
  assumes "list_all valid_cp cs" "cs \<noteq> []" "int (length (utf8_of cs)) < INT_MAX"
  shows "String16ToString8 (utf16_of cs) str8 = (True, utf8_of cs)
    \<and> String8ToString16 (utf8_of cs) str16 = Some (True, utf16_of cs)"
proof (rule conjI)
  note ne = encodings_nonempty [OF assms(1,2)] and nz = encodings_no_zero [OF assms(1)]
  note l = Utf16ToUtf8Length_of [OF assms]
  have "StrncpyStr16ToStr8 (utf16_of cs) (nat (int (length (utf8_of cs)) + 1)) = utf8_of cs @ [0]"
    using assms(1) by (intro StrncpyStr16ToStr8_of) simp_all
  then have "Char16ToChar8 (utf16_of cs) = Some (utf8_of cs @ [0])"
    using assms(3) by (simp add: Char16ToChar8_def l)
  then show "String16ToString8 (utf16_of cs) str8 = (True, utf8_of cs)"
    using ne nz by (simp add: String16ToString8_def c_string_snoc)
next
  note ne = encodings_nonempty [OF assms(1,2)] and nz = encodings_no_zero [OF assms(1)]
  have m: "Utf8ToUtf16Length (utf8_of cs) = Some (int (length (utf16_of cs)))"
    using utf8_length_of [OF assms(1)] by (simp add: Utf8ToUtf16Length_def)
  have "nat (int (length (utf16_of cs)) + 1) - 1 = length (utf16_of cs)"
    by simp
  then have "Char8ToChar16 (utf8_of cs) = Some (Some (utf16_of cs @ [0]))"
    using assms(3) u16_le_u8 [OF assms(1)] Utf8ToUtf16_of [OF assms(1)]
    by (simp only: Char8ToChar16_def m StrncpyStr8ToStr16_def) simp
  then show "String8ToString16 (utf8_of cs) str16 = Some (True, utf16_of cs)"
    using ne nz by (simp add: String8ToString16_def c_string_snoc)
qed

lemma unicode_conversions_agree_witness:
  "String16ToString8 (utf16_of [0x41, 0xE9, 0x20AC, 0x1F600]) [] = (True, utf8_of [0x41, 0xE9, 0x20AC, 0x1F600])
   \<and> String8ToString16 (utf8_of [0x41, 0xE9, 0x20AC, 0x1F600]) [] = Some (True, utf16_of [0x41, 0xE9, 0x20AC, 0x1F600])
   \<and> utf8_of [0x41, 0xE9, 0x20AC, 0x1F600] = [0x41, 0xC3, 0xA9, 0xE2, 0x82, 0xAC, 0xF0, 0x9F, 0x98, 0x80]"
proof -
  have v: "list_all valid_cp [0x41, 0xE9, 0x20AC, 0x1F600]"
    by (simp add: valid_cp_def)
  have e: "utf8_of [0x41, 0xE9, 0x20AC, 0x1F600] = [0x41, 0xC3, 0xA9, 0xE2, 0x82, 0xAC, 0xF0, 0x9F, 0x98, 0x80]"
    by (simp add: u8_enc_def Utf32CodePointUtf8Length_def Utf32CodePointToUtf8_def UTF8_FIRST_BYTE_MARK_def utf8_tail_def)
  have b: "int (length (utf8_of [0x41, 0xE9, 0x20AC, 0x1F600])) < INT_MAX"
    unfolding e by simp
  show ?thesis
    using unicode_conversions_agree [OF v _ b] e by blast
qed

section \<open>Memory safety on arbitrary input\<close>

lemma Utf8CodePointLen_le_4: "Utf8CodePointLen b \<in> {1, 2, 3, 4}"
  by (simp add: Utf8CodePointLen_eq)

lemma Utf8ToUtf32CodePoint_safe:
  "len \<in> {1, 2, 3, 4} \<Longrightarrow> len \<le> length src \<Longrightarrow> \<exists>c. Utf8ToUtf32CodePoint src len = Some c"
  by (auto simp: Utf8ToUtf32CodePoint_def mem_read_def)

text \<open>The length pass never reads outside the buffer, and if it accepts it then the copy pass stays inside too.\<close>

lemma utf8_length_loop_safe:
  "\<exists>n. utf8_length_loop s k = Some n \<and> (n = -1 \<or> 
     (k \<le> n \<and> (\<forall>j. \<exists>out. Utf8ToUtf16 s j = Some out \<and> length out \<le> j)))"
proof (induction s k rule: utf8_length_loop.induct)
  case (1 s k)
  let ?l = "Utf8CodePointLen (hd s)"
  show ?case
  proof (cases "s = [] \<or> length s \<le> ?l - 1")
    case True
    then show ?thesis
      by (auto simp: utf8_length_loop.simps [of s] Utf8ToUtf16.simps [of "[]"] Let_def)
  next
    case False
    then have "?l \<le> length s"
      by linarith
    with Utf8ToUtf32CodePoint_safe [OF Utf8CodePointLen_le_4] obtain c where
      c: "Utf8ToUtf32CodePoint s ?l = Some c" by blast
    let ?k = "if c > 0xFFFF then k + 2 else k + 1"
    from 1 False c obtain n where
      n: "utf8_length_loop (drop ?l s) ?k = Some n"
        "n = -1 \<or> (?k \<le> n \<and> (\<forall>j. \<exists>out. Utf8ToUtf16 (drop ?l s) j = Some out \<and> length out \<le> j))"
      by (simp add: not_le) metis
    have "\<exists>out. Utf8ToUtf16 s j = Some out \<and> length out \<le> j" if "n \<noteq> -1" for j
    proof -
      from n(2) that have "\<forall>j. \<exists>out. Utf8ToUtf16 (drop ?l s) j = Some out \<and> length out \<le> j"
        by blast
      then obtain o1 o2 where "Utf8ToUtf16 (drop ?l s) (j - 1) = Some o1" "length o1 \<le> j - 1"
        "Utf8ToUtf16 (drop ?l s) (j - 2) = Some o2" "length o2 \<le> j - 2" by metis
      then show ?thesis
        using False c by (auto simp: Utf8ToUtf16.simps [of s] Let_def)
    qed
    moreover have "utf8_length_loop s k = Some n"
      using False n(1) c by (simp add: utf8_length_loop.simps [of s k] Let_def)
    moreover have "k \<le> n" if "n \<noteq> -1"
      using n(2) that by (auto split: if_splits)
    ultimately show ?thesis by blast
  qed
qed

lemma Utf32CodePointToUtf8_length:
  "n \<le> 4 \<Longrightarrow> length (Utf32CodePointToUtf8 c n) = n"
  by (auto simp: Utf32CodePointToUtf8_def Let_def)

lemma Utf32CodePointUtf8Length_le_4: "Utf32CodePointUtf8Length c \<le> 4"
  by (simp add: Utf32CodePointUtf8Length_def)

lemma StrncpyStr16ToStr8_fits:
  "0 < n \<Longrightarrow> length (StrncpyStr16ToStr8 us n) \<le> n"
proof (induction us n rule: StrncpyStr16ToStr8.induct)
  case (1 us n)
  show ?case
  proof (cases "next_utf32 us")
    case (Some p)
    obtain c rest where p: "p = (c, rest)" by (cases p)
    let ?l = "Utf32CodePointUtf8Length c"
    have "length (Utf32CodePointToUtf8 c ?l) = ?l"
      by (simp add: Utf32CodePointToUtf8_length Utf32CodePointUtf8Length_le_4)
    moreover have "length (StrncpyStr16ToStr8 rest (n - ?l)) \<le> n - ?l" if "\<not> n \<le> ?l"
      using 1 that Some p by auto
    ultimately show ?thesis
      using \<open>0 < n\<close> Some p by (subst StrncpyStr16ToStr8.simps) (auto simp: Let_def)
  qed (use 1 in \<open>simp add: StrncpyStr16ToStr8.simps [of us]\<close>)
qed


end
