(* ===== verification/String_Ex.thy ===== *)
theory String_Ex
  imports Unicode_Ex
begin

text \<open>
  String utilities (\<^verbatim>\<open>base/src/string_ex.cpp\<close>). A \<^verbatim>\<open>std::string\<close> is its list of bytes, \<^verbatim>\<open>string::npos\<close> is
  \<^const>\<open>None\<close>, an output argument is returned beside the result and keeps its old value where the code leaves it
  alone. The \<^verbatim>\<open>ctype\<close> functions are those of the C locale; \<^verbatim>\<open>long\<close> has 64 bits.
\<close>

section \<open>Characters and searching\<close>

definition isdigit :: "byte \<Rightarrow> bool" where
  "isdigit c \<longleftrightarrow> 0x30 \<le> c \<and> c \<le> 0x39"

definition isupper :: "byte \<Rightarrow> bool" where
  "isupper c \<longleftrightarrow> 0x41 \<le> c \<and> c \<le> 0x5A"

definition islower :: "byte \<Rightarrow> bool" where
  "islower c \<longleftrightarrow> 0x61 \<le> c \<and> c \<le> 0x7A"

definition isalpha :: "byte \<Rightarrow> bool" where
  "isalpha c \<longleftrightarrow> isupper c \<or> islower c"

definition toupper :: "byte \<Rightarrow> byte" where
  "toupper c = (if islower c then c - 0x20 else c)"

definition tolower :: "byte \<Rightarrow> byte" where
  "tolower c = (if isupper c then c + 0x20 else c)"

text \<open>\<open>find_sub\<close> is the first position of an occurrence, \<open>str_find\<close> is \<^verbatim>\<open>std::string::find\<close> from a position.\<close>

fun find_sub :: "'a list \<Rightarrow> 'a list \<Rightarrow> nat option" where
  "find_sub sub s =
     (if take (length sub) s = sub then Some 0
      else case s of [] \<Rightarrow> None | _ # s' \<Rightarrow> map_option Suc (find_sub sub s'))"

declare find_sub.simps [simp del]

definition str_find :: "'a list \<Rightarrow> 'a list \<Rightarrow> nat \<Rightarrow> nat option" where
  "str_find s sub pos = (if pos \<le> length s then map_option ((+) pos) (find_sub sub (drop pos s)) else None)"

lemma find_sub_Some:
  "find_sub sub s = Some p \<Longrightarrow> s = take p s @ sub @ drop (p + length sub) s \<and> p + length sub \<le> length s"
proof (induction s arbitrary: p)
  case Nil
  then show ?case by (auto simp: find_sub.simps [of sub "[]"] split: if_splits)
next
  case (Cons x s)
  show ?case
  proof (cases "take (length sub) (x # s) = sub")
    case True
    with Cons.prems have "p = 0" by (simp add: find_sub.simps [of sub "x # s"])
    with True show ?thesis
      by (metis append_Nil append_take_drop_id length_take min.absorb_iff2 min.commute plus_nat.add_0 take0)
  next
    case False
    with Cons.prems obtain q where "find_sub sub s = Some q" "p = Suc q"
      by (auto simp: find_sub.simps [of sub "x # s"])
    with Cons.IH show ?thesis by simp
  qed
qed

lemma find_sub_None:
  "find_sub sub s = None \<longleftrightarrow> \<not> sublist sub s"
proof (induction s)
  case Nil
  then show ?case by (auto simp: find_sub.simps [of sub "[]"])
next
  case (Cons x s)
  have "take (length sub) (x # s) = sub \<longleftrightarrow> prefix sub (x # s)"
    by (metis append_eq_conv_conj prefix_def take_is_prefix)
  then show ?case
    using Cons by (auto simp: find_sub.simps [of sub "x # s"] sublist_Cons_right)
qed

section \<open>The operations\<close>

definition UpperStr :: "byte list \<Rightarrow> byte list" where
  "UpperStr str = map toupper str"

definition LowerStr :: "byte list \<Rightarrow> byte list" where
  "LowerStr str = map tolower str"

lemma str_find_bounds:
  assumes "str_find s sub pos = Some p"
  shows "pos \<le> p" "p + length sub \<le> length s"
  using assms find_sub_Some by (fastforce simp: str_find_def split: if_splits)+

lemma replace_shrinks:
  assumes "src \<noteq> []" "str_find s src pos = Some p"
  shows "length (take p s @ dst @ drop (p + length src) s) - (p + length dst) < length s - pos"
proof -
  have "0 < length src" using assms(1) by simp
  with str_find_bounds [OF assms(2)] show ?thesis
    by (simp del: length_greater_0_conv)
qed

lemma split_shrinks:
  assumes "sep \<noteq> []" "str_find s sep 0 = Some p"
  shows "length (take (length s - length sep - p) (drop (length sep + p) s)) < length s"
proof -
  have "0 < length sep" using assms(1) by simp
  with str_find_bounds [OF assms(2)] show ?thesis
    by (simp del: length_greater_0_conv)
qed

text \<open>The loop of \<^verbatim>\<open>ReplaceStr\<close>; \<^verbatim>\<open>replace(pos, n, dst)\<close> is the splice in its body.\<close>

function replace_loop :: "byte list \<Rightarrow> byte list \<Rightarrow> byte list \<Rightarrow> nat \<Rightarrow> byte list" where
  "replace_loop src dst strTmp pos =
     (if src = [] then strTmp
      else case str_find strTmp src pos of
          None \<Rightarrow> strTmp
        | Some p \<Rightarrow> replace_loop src dst (take p strTmp @ dst @ drop (p + length src) strTmp) (p + length dst))"
  by pat_completeness auto
termination
  by (relation "measure (\<lambda>(_, _, s, pos). length s - pos)") (simp, simp del: length_append add: replace_shrinks)

declare replace_loop.simps [simp del]

definition ReplaceStr :: "byte list \<Rightarrow> byte list \<Rightarrow> byte list \<Rightarrow> byte list" where
  "ReplaceStr str src dst = (if src = [] then str else replace_loop src dst str 0)"

text \<open>\<^verbatim>\<open>find_first_not_of\<close> and \<^verbatim>\<open>find_last_not_of\<close> of a single character, and the two erasures between them.\<close>

fun find_first_not_of :: "'a \<Rightarrow> 'a list \<Rightarrow> nat option" where
  "find_first_not_of c [] = None"
| "find_first_not_of c (x # s) = (if x \<noteq> c then Some 0 else map_option Suc (find_first_not_of c s))"

definition find_last_not_of :: "'a \<Rightarrow> 'a list \<Rightarrow> nat option" where
  "find_last_not_of c s = map_option (\<lambda>i. length s - 1 - i) (find_first_not_of c (rev s))"

definition TrimStr :: "byte list \<Rightarrow> byte \<Rightarrow> byte list" where
  "TrimStr str cTrim =
     (if length str = 1 \<and> str ! 0 = cTrim then []
      else let strTmp = (case find_first_not_of cTrim str of Some firstBound \<Rightarrow> drop firstBound str | None \<Rightarrow> str)
           in case find_last_not_of cTrim strTmp of
                Some lastBound \<Rightarrow> if lastBound \<noteq> length strTmp - 1 then take (lastBound + 1) strTmp else strTmp
              | None \<Rightarrow> strTmp)"

text \<open>Streaming an \<^verbatim>\<open>int\<close> in hexadecimal prints its bits as an unsigned number.\<close>

definition hex_digit :: "bool \<Rightarrow> nat \<Rightarrow> byte" where
  "hex_digit upper d = (if d < 10 then word_of_nat (0x30 + d) else word_of_nat ((if upper then 0x41 else 0x61) + (d - 10)))"

fun hex_digits :: "bool \<Rightarrow> nat \<Rightarrow> byte list" where
  "hex_digits upper n = (if n < 16 then [hex_digit upper n] else hex_digits upper (n div 16) @ [hex_digit upper (n mod 16)])"

declare hex_digits.simps [simp del]

definition DexToHexString :: "32 word \<Rightarrow> bool \<Rightarrow> byte list" where
  "DexToHexString value upper = hex_digits upper (unat value)"

abbreviation SPACE :: byte where
  "SPACE \<equiv> 0x20"

definition split_part :: "bool \<Rightarrow> byte list \<Rightarrow> byte list" where
  "split_part needTrim s = (if needTrim then TrimStr s SPACE else s)"

definition push_part :: "bool \<Rightarrow> byte list \<Rightarrow> byte list list" where
  "push_part canEmpty strPart = (if strPart \<noteq> [] \<or> canEmpty then [strPart] else [])"

function split_loop :: "byte list \<Rightarrow> bool \<Rightarrow> bool \<Rightarrow> byte list \<Rightarrow> byte list list" where
  "split_loop sep canEmpty needTrim strTmp =
     (if sep = [] then push_part canEmpty (split_part needTrim strTmp)
      else case str_find strTmp sep 0 of
          None \<Rightarrow> push_part canEmpty (split_part needTrim strTmp)
        | Some pos \<Rightarrow> push_part canEmpty (split_part needTrim (take pos strTmp))
            @ split_loop sep canEmpty needTrim (take (length strTmp - length sep - pos) (drop (length sep + pos) strTmp)))"
  by pat_completeness auto
termination
  by (relation "measure (\<lambda>(_, _, _, s). length s)") (simp, simp del: length_take length_drop diff_diff_left add: split_shrinks)

declare split_loop.simps [simp del]

definition SplitStr :: "byte list \<Rightarrow> byte list \<Rightarrow> bool \<Rightarrow> bool \<Rightarrow> byte list list" where
  "SplitStr str sep canEmpty needTrim = split_loop sep canEmpty needTrim (split_part needTrim str)"

text \<open>
  \<^verbatim>\<open>strtol\<close> in base 10 on a C string that starts with no white space: the value clamped to a \<^verbatim>\<open>long\<close>, the rest
  of the string from \<^verbatim>\<open>*end\<close>, and whether \<^verbatim>\<open>errno\<close> became \<^verbatim>\<open>ERANGE\<close>.
\<close>

definition digit_val :: "byte \<Rightarrow> int" where
  "digit_val c = int (unat c) - 0x30"

definition digits_val :: "byte list \<Rightarrow> int" where
  "digits_val ds = foldl (\<lambda>a d. 10 * a + digit_val d) 0 ds"

definition LONG_MAX :: int where
  "LONG_MAX = 2 ^ 63 - 1"

definition strtol :: "byte list \<Rightarrow> int \<times> byte list \<times> bool" where
  "strtol addr =
     (let (neg, s) = (case addr of c # s \<Rightarrow> if c = 0x2D then (True, s) else if c = 0x2B then (False, s) else (False, addr)
                      | [] \<Rightarrow> (False, []));
          ds = takeWhile isdigit s;
          v = (if neg then - digits_val ds else digits_val ds)
      in if ds = [] then (0, addr, False)
         else (if v > LONG_MAX then (LONG_MAX, drop (length ds) s, True)
               else if v < - LONG_MAX - 1 then (- LONG_MAX - 1, drop (length ds) s, True)
               else (v, drop (length ds) s, False)))"

definition StrToInt :: "byte list \<Rightarrow> int \<Rightarrow> bool \<times> int" where
  "StrToInt str val =
     (if str = [] \<or> (\<not> isdigit (hd str) \<and> hd str \<noteq> 0x2D) then (False, val)
      else let addr = c_string str;
               (result, end', erange) = strtol addr
           in if end' = addr \<or> end' \<noteq> [] \<or> erange \<or> result > INT_MAX \<or> result < - INT_MAX - 1
              then (False, val) else (True, result))"

definition IsNumericStr :: "byte list \<Rightarrow> bool" where
  "IsNumericStr str = (if str = [] then False else list_all isdigit str)"

definition IsAlphaStr :: "byte list \<Rightarrow> bool" where
  "IsAlphaStr str = (if str = [] then False else list_all isalpha str)"

definition IsUpperStr :: "byte list \<Rightarrow> bool" where
  "IsUpperStr str = (if str = [] then False else list_all isupper str)"

definition IsLowerStr :: "byte list \<Rightarrow> bool" where
  "IsLowerStr str = (if str = [] then False else list_all islower str)"

definition IsSubStr :: "byte list \<Rightarrow> byte list \<Rightarrow> bool" where
  "IsSubStr str sub = (if sub = [] \<or> str = [] then False else str_find str sub 0 \<noteq> None)"

definition GetFirstSubStrBetween ::
    "byte list \<Rightarrow> byte list \<Rightarrow> byte list \<Rightarrow> byte list \<Rightarrow> nat option \<times> byte list" where
  "GetFirstSubStrBetween str left right sub =
     (if left = [] \<or> right = [] then (None, sub)
      else case str_find str left 0 of
          None \<Rightarrow> (None, sub)
        | Some leftPos \<Rightarrow>
            (case str_find str right (leftPos + length left) of
               None \<Rightarrow> (None, sub)
             | Some rightPos \<Rightarrow>
                 (Some rightPos,
                  take (rightPos - (leftPos + length left)) (drop (leftPos + length left) str))))"

lemma GetFirstSubStrBetween_bounds:
  assumes "GetFirstSubStrBetween str left right sub = (Some p, sub')"
  shows "0 < p" "p + length right \<le> length str" "length (drop p str) < length str"
proof -
  from assms obtain leftPos where l: "left \<noteq> []" and f: "str_find str right (leftPos + length left) = Some p"
    by (auto simp: GetFirstSubStrBetween_def split: if_splits option.splits)
  have "0 < length left" using l by simp
  with str_find_bounds [OF f] show "0 < p" "p + length right \<le> length str" by linarith+
  moreover have "right \<noteq> []" using assms by (auto simp: GetFirstSubStrBetween_def)
  ultimately show "length (drop p str) < length str" by (cases right) auto
qed

text \<open>\<open>between_loop\<close> is the loop of \<^verbatim>\<open>GetSubStrBetween\<close>, \<open>sub\<close> the vector it pushes to.\<close>

function between_loop :: "byte list \<Rightarrow> byte list \<Rightarrow> byte list \<Rightarrow> byte list \<Rightarrow> byte list list \<Rightarrow> byte list list" where
  "between_loop left right strTmp subString sub =
     (case GetFirstSubStrBetween strTmp left right subString of
        (None, _) \<Rightarrow> sub
      | (Some pos, subString') \<Rightarrow> between_loop left right (drop pos strTmp) subString' (sub @ [subString']))"
  by pat_completeness auto
termination
  by (relation "measure (\<lambda>(_, _, s, _, _). length s)")
     (auto simp del: length_drop simp: GetFirstSubStrBetween_bounds(3) [OF sym])

declare between_loop.simps [simp del]

definition GetSubStrBetween :: "byte list \<Rightarrow> byte list \<Rightarrow> byte list \<Rightarrow> byte list list \<Rightarrow> byte list list" where
  "GetSubStrBetween str left right sub = between_loop left right str [] sub"

definition IsSameTextStr :: "byte list \<Rightarrow> byte list \<Rightarrow> bool" where
  "IsSameTextStr first second \<longleftrightarrow> UpperStr first = UpperStr second"

definition IsAsciiString :: "byte list \<Rightarrow> bool" where
  "IsAsciiString str = list_all (\<lambda>c. c AND 0x80 = 0) str"

definition Str8ToStr16 :: "byte list \<Rightarrow> 16 word list option" where
  "Str8ToStr16 str = do {
     (ok, str16Value) \<leftarrow> String8ToString16 str [];
     Some (if \<not> ok then [] else str16Value)
   }"

definition Str16ToStr8 :: "16 word list \<Rightarrow> byte list" where
  "Str16ToStr8 str16 =
     (let (ok, str8Value) = String16ToString8 str16 [] in if \<not> ok then [] else str8Value)"

definition GetUtf16ToUtf8Length :: "16 word list \<Rightarrow> int" where
  "GetUtf16ToUtf8Length str16 = (if length str16 = 0 then -1 else Utf16ToUtf8Length str16)"

text \<open>
  The overload of \<^verbatim>\<open>Char16ToChar8\<close> that fills a caller's buffer, \<^const>\<open>None\<close> for a null one: the result and the
  buffer afterwards. A write past the buffer is undefined and gives \<^const>\<open>None\<close> as a whole.
\<close>

definition Char16ToChar8_buffer :: "16 word list \<Rightarrow> byte list option \<Rightarrow> int \<Rightarrow> (int \<times> byte list option) option" where
  "Char16ToChar8_buffer str16 buffer bufferLen =
     (case buffer of
        None \<Rightarrow> Some (-1, buffer)
      | Some buf \<Rightarrow>
          if bufferLen \<le> 0 then Some (-1, buffer)
          else if length str16 = 0 then Some (-2, buffer)
          else let utf8Len = Utf16ToUtf8Length str16
               in if utf8Len < 0 \<or> utf8Len \<ge> INT_MAX \<or> utf8Len + 1 > bufferLen then Some (-3, buffer)
                  else do {
                    buf' \<leftarrow> mem_write 0 (StrncpyStr16ToStr8 str16 (nat (utf8Len + 1))) buf;
                    Some (utf8Len + 1, Some buf')
                  })"

end
