(* ===== verification/String_Spec.thy ===== *)
theory String_Spec
  imports String_Ex
begin

text \<open>
  What the string utilities compute: splitting and joining, replacement as a split and a join, trimming, reading and
  printing of integers, the text between two markers, and the caller's buffer of \<^verbatim>\<open>Char16ToChar8\<close>.
\<close>

section \<open>First occurrences\<close>

lemma find_sub_first:
  assumes "find_sub sub s = Some p" "sub \<noteq> []"
  shows "\<not> sublist sub (take (p + length sub - 1) s)"
  using assms
proof (induction s arbitrary: p)
  case Nil
  then show ?case by (auto simp: find_sub.simps [of sub "[]"] split: if_splits)
next
  case (Cons x s)
  have l: "0 < length sub" using Cons.prems(2) by simp
  show ?case
  proof (cases "take (length sub) (x # s) = sub")
    case True
    with Cons.prems have "p = 0" by (simp add: find_sub.simps [of sub "x # s"])
    moreover have "length (take (length sub - 1) (x # s)) < length sub"
      using l by (simp del: length_greater_0_conv)
    ultimately show ?thesis
      using sublist_length_le by (metis add_0 not_less)
  next
    case False
    with Cons.prems obtain q where q: "find_sub sub s = Some q" "p = Suc q"
      by (auto simp: find_sub.simps [of sub "x # s"])
    have t: "take (p + length sub - 1) (x # s) = x # take (q + length sub - 1) s"
      using q(2) l by (cases "q + length sub") auto
    have "\<not> prefix sub (x # take (q + length sub - 1) s)"
      using False unfolding t [symmetric] by (metis append_eq_conv_conj prefix_def prefix_order.trans take_is_prefix)
    then show ?thesis
      unfolding t sublist_Cons_right using Cons.IH [OF q(1) Cons.prems(2)] by blast
  qed
qed

lemma find_sub_least:
  assumes "find_sub sub s = Some p" "s = a @ sub @ b"
  shows "p \<le> length a"
  using assms
proof (induction s arbitrary: p a)
  case Nil
  then show ?case by (simp add: find_sub.simps [of "[]" "[]"])
next
  case (Cons x s)
  show ?case
  proof (cases "take (length sub) (x # s) = sub")
    case True
    with Cons.prems(1) show ?thesis by (simp add: find_sub.simps [of sub "x # s"])
  next
    case False
    with Cons.prems(1) obtain q where q: "find_sub sub s = Some q" "p = Suc q"
      by (auto simp: find_sub.simps [of sub "x # s"])
    from False Cons.prems(2) obtain a' where "a = x # a'" "s = a' @ sub @ b"
      by (cases a) auto
    with Cons.IH [OF q(1)] q(2) show ?thesis by simp
  qed
qed

lemma str_find_0 [simp]: "str_find s sub 0 = find_sub sub s"
  by (cases "find_sub sub s") (simp_all add: str_find_def)

section \<open>Splitting and replacing\<close>

fun join :: "'a list \<Rightarrow> 'a list list \<Rightarrow> 'a list" where
  "join sep [] = []"
| "join sep [p] = p"
| "join sep (p # q # ps) = p @ sep @ join sep (q # ps)"

lemma join_Cons: "ps \<noteq> [] \<Longrightarrow> join sep (p # ps) = p @ sep @ join sep ps"
  by (cases ps) auto

lemma split_plain:
  assumes "sep \<noteq> []"
  shows "split_loop sep True False s =
    (case find_sub sep s of None \<Rightarrow> [s] | Some p \<Rightarrow> take p s # split_loop sep True False (drop (p + length sep) s))"
  using assms by (subst split_loop.simps) (auto simp: push_part_def split_part_def add.commute split: option.splits)

lemma split_plain_nonempty: "sep \<noteq> [] \<Longrightarrow> split_loop sep True False s \<noteq> []"
  by (subst split_plain) (auto split: option.splits)

lemma split_plain_join:
  assumes "sep \<noteq> []"
  shows "join sep (split_loop sep True False s) = s \<and> list_all (\<lambda>p. \<not> sublist sep p) (split_loop sep True False s)"
proof (induction s rule: length_induct)
  case (1 s)
  show ?case
  proof (cases "find_sub sep s")
    case None
    then show ?thesis
      using find_sub_None [of sep s] by (simp add: split_plain [OF assms, of s])
  next
    case (Some p)
    note f = find_sub_Some [OF Some]
    have "length (drop (p + length sep) s) < length s"
      using f assms by (cases sep) auto
    with 1 have IH: "join sep (split_loop sep True False (drop (p + length sep) s)) = drop (p + length sep) s"
      "list_all (\<lambda>p. \<not> sublist sep p) (split_loop sep True False (drop (p + length sep) s))"
      by blast+
    have "prefix (take p s) (take (p + length sep - 1) s)"
      using assms by (cases sep) (auto simp: prefix_def take_add)
    then have "\<not> sublist sep (take p s)"
      using find_sub_first [OF Some assms] sublist_order.order.trans prefix_imp_sublist by blast
    then show ?thesis
      using IH f split_plain_nonempty [OF assms] by (simp add: split_plain [OF assms, of s] Some join_Cons)
  qed
qed

lemma split_loop_general:
  "split_loop sep canEmpty needTrim s =
     filter (\<lambda>p. p \<noteq> [] \<or> canEmpty) (map (split_part needTrim) (split_loop sep True False s))"
proof (induction sep canEmpty needTrim s rule: split_loop.induct)
  case (1 sep canEmpty needTrim s)
  have id: "split_part False t = t" for t by (simp add: split_part_def)
  show ?case
  proof (cases "sep = [] \<or> find_sub sep s = None")
    case True
    then show ?thesis
      by (auto simp: split_loop.simps [of _ _ _ s] push_part_def id)
  next
    case False
    then obtain p where p: "sep \<noteq> []" "find_sub sep s = Some p" by auto
    with 1 show ?thesis
      by (simp add: split_loop.simps [of _ _ _ s] push_part_def id)
  qed
qed

text \<open>
  C16. \<^verbatim>\<open>SplitStr\<close> cuts the string at its separators and loses nothing else: with empty parts kept and no
  trimming, joining the parts by the separator gives the string back and no part contains the separator; with any
  other options it yields those very parts of the (trimmed) string, each trimmed if asked for, less the empty ones.
\<close>

theorem SplitStr_join:
  assumes "sep \<noteq> []"
  shows "join sep (SplitStr str sep True False) = str
    \<and> list_all (\<lambda>p. \<not> sublist sep p) (SplitStr str sep True False)
    \<and> SplitStr str sep canEmpty needTrim =
      filter (\<lambda>p. p \<noteq> [] \<or> canEmpty) (map (split_part needTrim) (SplitStr (split_part needTrim str) sep True False))"
proof (intro conjI)
  have id: "split_part False t = t" for t by (simp add: split_part_def)
  show "join sep (SplitStr str sep True False) = str" and "list_all (\<lambda>p. \<not> sublist sep p) (SplitStr str sep True False)"
    using split_plain_join [OF assms] by (simp_all add: SplitStr_def id)
  show "SplitStr str sep canEmpty needTrim =
      filter (\<lambda>p. p \<noteq> [] \<or> canEmpty) (map (split_part needTrim) (SplitStr (split_part needTrim str) sep True False))"
    by (simp add: SplitStr_def id split_loop_general [of sep canEmpty needTrim])
qed

lemma SplitStr_join_witness:
  "join [0x2C] (SplitStr [0x61, 0x2C, 0x2C, 0x62] [0x2C] True False) = [0x61, 0x2C, 0x2C, 0x62]
   \<and> list_all (\<lambda>p. \<not> sublist [0x2C] p) (SplitStr [0x61, 0x2C, 0x2C, 0x62] [0x2C] True False)
   \<and> SplitStr [0x61, 0x2C, 0x2C, 0x62] [0x2C] False True =
      filter (\<lambda>p. p \<noteq> [] \<or> False) (map (split_part True) (SplitStr (split_part True [0x61, 0x2C, 0x2C, 0x62]) [0x2C] True False))"
  using SplitStr_join [of "[0x2C]"] by blast

lemma replace_loop_join:
  assumes "src \<noteq> []"
  shows "replace_loop src dst (pre @ s) (length pre) = pre @ join dst (split_loop src True False s)"
proof (induction s arbitrary: pre rule: length_induct)
  case (1 s)
  have f: "str_find (pre @ s) src (length pre) = map_option ((+) (length pre)) (find_sub src s)"
    by (simp add: str_find_def)
  show ?case
  proof (cases "find_sub src s")
    case None
    with assms f show ?thesis
      by (simp add: replace_loop.simps [of src] split_plain [OF assms, of s])
  next
    case (Some p)
    let ?pre = "pre @ take p s @ dst" and ?s = "drop (p + length src) s"
    note b = find_sub_Some [OF Some]
    have "length ?s < length s"
      using b assms by (cases src) auto
    with 1 have IH: "replace_loop src dst (?pre @ ?s) (length ?pre) = ?pre @ join dst (split_loop src True False ?s)"
      by blast
    have "replace_loop src dst (pre @ s) (length pre) = replace_loop src dst (?pre @ ?s) (length ?pre)"
      using assms f Some b by (subst replace_loop.simps) (simp add: ac_simps min_absorb2)
    then show ?thesis
      using IH by (simp add: split_plain [OF assms, of s] Some join_Cons split_plain_nonempty [OF assms])
  qed
qed

text \<open>
  \<^verbatim>\<open>ReplaceStr\<close>, which searches and splices in place, replaces exactly the occurrences that \<^verbatim>\<open>SplitStr\<close>
  finds, from left to right and without looking again at replaced text: its result is the parts of the split joined
  by the new text, also where the new text contains the old one.
\<close>

theorem ReplaceStr_is_split_join:
  assumes "src \<noteq> []"
  shows "ReplaceStr str src dst = join dst (SplitStr str src True False)"
  using assms replace_loop_join [OF assms, of dst "[]" str]
  by (simp add: ReplaceStr_def SplitStr_def split_part_def)

lemma ReplaceStr_is_split_join_witness:
  "ReplaceStr [0x61, 0x62, 0x61] [0x61] [0x61, 0x61] = join [0x61, 0x61] (SplitStr [0x61, 0x62, 0x61] [0x61] True False)"
  by (rule ReplaceStr_is_split_join) simp

section \<open>Trimming\<close>

definition strip :: "'a \<Rightarrow> 'a list \<Rightarrow> 'a list" where
  "strip c s = rev (dropWhile ((=) c) (rev (dropWhile ((=) c) s)))"

lemma find_first_not_of_None: "find_first_not_of c s = None \<longleftrightarrow> list_all ((=) c) s"
  by (induction s) auto

lemma find_first_not_of_Some: "find_first_not_of c s = Some i \<Longrightarrow> drop i s = dropWhile ((=) c) s \<and> i < length s"
  by (induction s arbitrary: i) (auto split: if_splits)

lemma trim_end:
  assumes "\<not> list_all ((=) c) s"
  shows "(case find_last_not_of c s of
      Some i \<Rightarrow> if i \<noteq> length s - 1 then take (i + 1) s else s | None \<Rightarrow> s) = rev (dropWhile ((=) c) (rev s))"
proof -
  have "find_first_not_of c (rev s) \<noteq> None"
    using assms by (simp add: find_first_not_of_None)
  then obtain j where j: "find_first_not_of c (rev s) = Some j" by blast
  note d = find_first_not_of_Some [OF j]
  then have l: "j < length s" by simp
  from d have "rev (dropWhile ((=) c) (rev s)) = take (length s - j) s"
    by (metis rev_drop rev_rev_ident length_rev)
  moreover have "length s - 1 - j + 1 = length s - j" using l by linarith
  moreover have "take (length s - j) s = s" if "length s - 1 - j = length s - 1"
    proof -
    have "j = 0" using that l by linarith
    then show ?thesis by simp
  qed
  ultimately show ?thesis
    using j by (simp add: find_last_not_of_def)
qed

lemma dropWhile_not_all: "\<not> list_all ((=) c) s \<Longrightarrow> \<not> list_all ((=) c) (dropWhile ((=) c) s)"
  by (induction s) auto

text \<open>
  \<^verbatim>\<open>TrimStr\<close> removes exactly the leading and the trailing run of the character from every string that has
  another one, and turns the string of one such character into the empty string; a longer string of nothing but
  the character is returned unchanged.
\<close>

theorem TrimStr_strips:
  "TrimStr str cTrim =
     (if list_all ((=) cTrim) str then (if length str = 1 then [] else str) else strip cTrim str)"
proof (cases "list_all ((=) cTrim) str")
  case True
  then have n: "find_first_not_of cTrim str = None" "find_first_not_of cTrim (rev str) = None"
    by (simp_all add: find_first_not_of_None)
  have "str ! 0 = cTrim" if "length str = 1"
    using True that by (cases str) auto
  with n True show ?thesis
    by (auto simp: TrimStr_def find_last_not_of_def)
next
  case False
  then have "find_first_not_of cTrim str \<noteq> None"
    by (simp add: find_first_not_of_None)
  then obtain i where i: "find_first_not_of cTrim str = Some i" by blast
  have n: "\<not> (length str = 1 \<and> str ! 0 = cTrim)"
    using False by (cases str) auto
  have d: "drop i str = dropWhile ((=) cTrim) str"
    using find_first_not_of_Some [OF i] by blast
  show ?thesis
    unfolding TrimStr_def strip_def if_not_P [OF n] if_not_P [OF False] Let_def i option.case d
    by (rule trim_end [OF dropWhile_not_all [OF False]])
qed

section \<open>Reading and printing integers\<close>

text \<open>The reading of a whole string as a decimal number with an optional minus sign.\<close>

definition decimal :: "byte list \<Rightarrow> int option" where
  "decimal s =
     (let neg = (s \<noteq> [] \<and> hd s = 0x2D); ds = (if neg then tl s else s)
      in if ds \<noteq> [] \<and> list_all isdigit ds then Some (if neg then - digits_val ds else digits_val ds) else None)"

lemma isdigit_not_sign: "isdigit c \<Longrightarrow> c \<noteq> 0x2D \<and> c \<noteq> 0x2B \<and> c \<noteq> 0"
  by (auto simp: isdigit_def)

lemma takeWhile_all: "drop (length (takeWhile P s)) s = [] \<longleftrightarrow> list_all P s"
  by (induction s) auto

lemma strtol_value:
  assumes "s \<noteq> []" "isdigit (hd s) \<or> hd s = 0x2D" "strtol s = (result, end', erange)"
  shows "decimal s = (if end' = s \<or> end' \<noteq> [] then None
      else Some (if hd s = 0x2D then - digits_val (tl s) else digits_val s))"
    and "end' \<noteq> s \<Longrightarrow> end' = [] \<Longrightarrow>
      (erange \<longleftrightarrow> the (decimal s) > LONG_MAX \<or> the (decimal s) < - LONG_MAX - 1) \<and> (\<not> erange \<longrightarrow> result = the (decimal s))"
proof -
  define neg where "neg = (hd s = 0x2D)"
  define t where "t = (if neg then tl s else s)"
  have "(case s of c # s' \<Rightarrow> if c = 0x2D then (True, s') else if c = 0x2B then (False, s') else (False, s) | [] \<Rightarrow> (False, []))
    = (neg, t)"
    using assms(1,2) isdigit_not_sign [of "hd s"] by (cases s) (auto simp: neg_def t_def)
  note st = assms(3) [unfolded strtol_def this Let_def prod.case]
  have len: "length (drop n t) < length s" if "t \<noteq> []" "0 < n" for n
    using that by (cases s) (auto simp: t_def split: if_splits)
  show dec: "decimal s = (if end' = s \<or> end' \<noteq> [] then None
      else Some (if hd s = 0x2D then - digits_val (tl s) else digits_val s))"
  proof (cases "takeWhile isdigit t = []")
    case True
    then have "end' = s" using st by simp
    moreover have "t = [] \<or> \<not> list_all isdigit t"
      using True by (cases t) (auto split: if_splits)
    ultimately show ?thesis
      using assms(1) by (auto simp: decimal_def t_def neg_def)
  next
    case False
    then have e: "end' = drop (length (takeWhile isdigit t)) t"
      using st by (auto split: if_splits)
    have "t \<noteq> []" using False by auto
    then have "end' \<noteq> s"
      using len [of "length (takeWhile isdigit t)"] False e by force
    moreover have "end' = [] \<longleftrightarrow> list_all isdigit t"
      unfolding e by (rule takeWhile_all)
    ultimately show ?thesis
      using assms(1) \<open>t \<noteq> []\<close> by (auto simp: decimal_def t_def neg_def)
  qed
  show "(erange \<longleftrightarrow> the (decimal s) > LONG_MAX \<or> the (decimal s) < - LONG_MAX - 1) \<and> (\<not> erange \<longrightarrow> result = the (decimal s))"
    if ne: "end' \<noteq> s" and e: "end' = []"
  proof -
    have f: "takeWhile isdigit t \<noteq> []" using st ne by (auto split: if_splits)
    then have "end' = drop (length (takeWhile isdigit t)) t" using st by (auto split: if_splits)
    then have "takeWhile isdigit t = t" using e by (metis append_Nil2 append_take_drop_id takeWhile_eq_take)
    moreover have "the (decimal s) = (if neg then - digits_val t else digits_val t)"
      unfolding dec using ne e by (simp add: neg_def t_def)
    ultimately show ?thesis
      using st f by (simp only:) (auto split: if_splits)
  qed
qed

lemma StrToInt_eq:
  "StrToInt str val =
     (case decimal (c_string str) of
        Some v \<Rightarrow> if - INT_MAX - 1 \<le> v \<and> v \<le> INT_MAX then (True, v) else (False, val)
      | None \<Rightarrow> (False, val))"
proof (cases "str = [] \<or> (\<not> isdigit (hd str) \<and> hd str \<noteq> 0x2D)")
  case True
  then have "decimal (c_string str) = None"
    by (cases str) (auto simp: c_string_def decimal_def)
  with True show ?thesis by (auto simp: StrToInt_def)
next
  case False
  let ?s = "c_string str"
  have s: "?s \<noteq> []" "hd ?s = hd str"
    using False isdigit_not_sign by (cases str; auto simp: c_string_def)+
  obtain result end' erange where st: "strtol ?s = (result, end', erange)" by (metis prod_cases3)
  note v = strtol_value [OF s(1) _ st]
  have d: "isdigit (hd ?s) \<or> hd ?s = 0x2D" using False s by auto
  show ?thesis
  proof (cases "end' = ?s \<or> end' \<noteq> []")
    case True
    then show ?thesis
      using False st v(1) [OF d] by (auto simp: StrToInt_def)
  next
    case ok: False
    then obtain w where w: "decimal ?s = Some w" using v(1) [OF d] by simp
    with ok v(2) [OF d] have "erange \<longleftrightarrow> w > LONG_MAX \<or> w < - LONG_MAX - 1" "\<not> erange \<Longrightarrow> result = w"
      by auto
    then show ?thesis
      using False ok st w by (auto simp: StrToInt_def LONG_MAX_def)
  qed
qed

text \<open>\<^verbatim>\<open>ToString\<close> is \<^verbatim>\<open>std::to_string\<close>: the shortest decimal form.\<close>

fun dec_digits :: "nat \<Rightarrow> byte list" where
  "dec_digits n = (if n < 10 then [word_of_nat (0x30 + n)] else dec_digits (n div 10) @ [word_of_nat (0x30 + n mod 10)])"

declare dec_digits.simps [simp del]

definition ToString :: "int \<Rightarrow> byte list" where
  "ToString iValue = (if iValue < 0 then 0x2D # dec_digits (nat (- iValue)) else dec_digits (nat iValue))"

lemma word_digit:
  assumes "n < 10"
  shows "isdigit (word_of_nat (0x30 + n))" "digit_val (word_of_nat (0x30 + n)) = int n"
proof -
  have "unat (word_of_nat m :: byte) = m" if "m < 256" for m
    using that by (simp add: unat_of_nat)
  from this [of "0x30 + n"] have "unat (word_of_nat (0x30 + n) :: byte) = 0x30 + n"
    using assms by linarith
  then show "isdigit (word_of_nat (0x30 + n))" "digit_val (word_of_nat (0x30 + n)) = int n"
    using assms by (simp_all add: isdigit_def digit_val_def word_le_nat_alt)
qed

lemma dec_digits_value:
  "list_all isdigit (dec_digits n) \<and> digits_val (dec_digits n) = int n \<and> dec_digits n \<noteq> []"
proof (induction n rule: dec_digits.induct)
  case (1 n)
  show ?case
  proof (cases "n < 10")
    case True
    then show ?thesis
      using word_digit [OF True] by (simp add: dec_digits.simps [of n] digits_val_def)
  next
    case False
    have "n mod 10 < 10" by simp
    note d = word_digit [OF this]
    have "digits_val (dec_digits n) = 10 * digits_val (dec_digits (n div 10)) + int (n mod 10)"
      using False d(2) by (simp add: dec_digits.simps [of n] digits_val_def)
    with 1 [OF False] False d(1) show ?thesis
      by (simp add: dec_digits.simps [of n] zdiv_int zmod_int)
  qed
qed

lemma decimal_ToString: "decimal (c_string (ToString v)) = Some v"
proof -
  note d = dec_digits_value
  have c: "c_string (ToString v) = ToString v"
    using d [of "nat v"] d [of "nat (- v)"] isdigit_not_sign
    by (auto simp: c_string_def ToString_def list_all_iff takeWhile_eq_all_conv)
  show ?thesis
  proof (cases "v < 0")
    case True
    then show ?thesis using d [of "nat (- v)"] unfolding c by (simp add: decimal_def ToString_def)
  next
    case False
    have "hd (dec_digits (nat v)) \<noteq> 0x2D"
      using d [of "nat v"] isdigit_not_sign by (cases "dec_digits (nat v)") auto
    then show ?thesis using False d [of "nat v"] unfolding c by (simp add: decimal_def ToString_def)
  qed
qed

text \<open>
  \<^verbatim>\<open>StrToInt\<close> accepts exactly the decimal numbers: its result is true with the value of the string up to its
  first zero byte when that is an optional minus sign and at least one digit and the value fits an \<^verbatim>\<open>int\<close>, and
  false with the output left alone in every other case (an empty string, a plus sign, trailing text, a value
  beyond \<^verbatim>\<open>int\<close> or beyond \<^verbatim>\<open>long\<close>). In particular it reads back every \<^verbatim>\<open>int\<close> that \<^verbatim>\<open>ToString\<close> prints.
\<close>

theorem StrToInt_correct:
  assumes "- INT_MAX - 1 \<le> v" "v \<le> INT_MAX"
  shows "StrToInt str val =
     (case decimal (c_string str) of
        Some w \<Rightarrow> if - INT_MAX - 1 \<le> w \<and> w \<le> INT_MAX then (True, w) else (False, val)
      | None \<Rightarrow> (False, val))
    \<and> StrToInt (ToString v) old = (True, v)"
  using assms by (simp only: StrToInt_eq decimal_ToString option.case) simp

lemma StrToInt_correct_witness:
  "StrToInt [0x2B, 0x35] 7 =
     (case decimal (c_string [0x2B, 0x35]) of
        Some w \<Rightarrow> if - INT_MAX - 1 \<le> w \<and> w \<le> INT_MAX then (True, w) else (False, 7)
      | None \<Rightarrow> (False, 7))
    \<and> StrToInt (ToString (-2147483648)) 0 = (True, -2147483648)"
  by (rule StrToInt_correct) simp_all

section \<open>Text between two markers\<close>

lemma find_sub_complete: "s = a @ sub @ b \<Longrightarrow> find_sub sub s \<noteq> None"
  by (simp add: find_sub_None sublist_def) blast

lemma find_sub_parts:
  assumes "find_sub sub s = Some p" "sub \<noteq> []"
  shows "\<exists>a b. s = a @ sub @ b \<and> length a = p \<and> \<not> sublist sub (butlast (a @ sub))"
proof -
  note f = find_sub_Some [OF assms(1)]
  let ?a = "take p s" and ?b = "drop (p + length sub) s"
  have "take (p + length sub) s = ?a @ sub"
    using f by (metis append.assoc append_eq_conv_conj length_append length_take min.absorb2 add_leD1)
  then have "butlast (?a @ sub) = take (p + length sub - 1) s"
    using f by (metis butlast_take)
  then have "\<not> sublist sub (butlast (?a @ sub))"
    using find_sub_first [OF assms] by simp
  moreover have "length ?a = p" using f by simp
  ultimately show ?thesis using f by blast
qed

text \<open>
  \<^verbatim>\<open>GetFirstSubStrBetween\<close> finds the text between the first left marker and the first right marker after it:
  on success the string is that text in its place, no earlier occurrence of either marker exists, and the returned
  position is the one of the right marker; it fails, with the output left alone, exactly when a marker is empty or
  no left marker is followed by a right one.
\<close>

theorem GetFirstSubStrBetween_spec:
  "case GetFirstSubStrBetween str left right sub of
     (Some pos, found) \<Rightarrow>
       (\<exists>a b. str = a @ left @ found @ right @ b \<and> pos = length a + length left + length found
          \<and> \<not> sublist left (butlast (a @ left)) \<and> \<not> sublist right (butlast (found @ right)))
   | (None, found) \<Rightarrow> found = sub \<and> \<not> (left \<noteq> [] \<and> right \<noteq> [] \<and> (\<exists>a m b. str = a @ left @ m @ right @ b))"
proof (cases "left = [] \<or> right = []")
  case True
  then show ?thesis by (auto simp: GetFirstSubStrBetween_def)
next
  case False
  then have ne: "left \<noteq> []" "right \<noteq> []" by auto
  show ?thesis
  proof (cases "find_sub left str")
    case None
    then have "\<nexists>a m b. str = a @ left @ m @ right @ b"
      using find_sub_complete [of str _ left] by blast
    with None False show ?thesis by (auto simp: GetFirstSubStrBetween_def)
  next
    case (Some l)
    obtain a t where a: "str = a @ left @ t" "length a = l" "\<not> sublist left (butlast (a @ left))"
      using find_sub_parts [OF Some ne(1)] by blast
    have f: "str_find str right (l + length left) = map_option ((+) (l + length left)) (find_sub right t)"
      using a by (simp add: str_find_def)
    show ?thesis
    proof (cases "find_sub right t")
      case None
      have "\<not> str = a' @ left @ m @ right @ b" for a' m b
      proof
        assume s: "str = a' @ left @ m @ right @ b"
        have "l \<le> length a'" using find_sub_least [OF Some] s by blast
        moreover have "t = drop (l + length left) str"
          using a by simp
        ultimately have "t = (drop (l + length left) (a' @ left) @ m) @ right @ b"
          unfolding s by simp
        with None find_sub_complete show False by blast
      qed
      then show ?thesis
        using None f Some False by (auto simp: GetFirstSubStrBetween_def)
    next
      case r: (Some r)
      obtain found b where b: "t = found @ right @ b" "length found = r" "\<not> sublist right (butlast (found @ right))"
        using find_sub_parts [OF r ne(2)] by blast
      then have "GetFirstSubStrBetween str left right sub = (Some (l + length left + r), found)"
        using a f r Some False by (simp add: GetFirstSubStrBetween_def)
      then show ?thesis
        using a b by auto
    qed
  qed
qed

section \<open>The caller's buffer\<close>

text \<open>
  \<^verbatim>\<open>Char16ToChar8\<close> on a caller's buffer of the stated length never writes outside it: for every input it is
  defined and keeps the buffer's length, and for well-formed text it returns the number of bytes with the
  terminator and the buffer starts with the UTF-8 form and a zero byte exactly when they fit.
\<close>

theorem Char16ToChar8_buffer_correct:
  assumes "int (length buf) = bufferLen" "0 < bufferLen"
    and cs: "list_all valid_cp cs" "cs \<noteq> []" "int (length (utf8_of cs)) < INT_MAX"
  shows "(\<exists>r buf'. Char16ToChar8_buffer str16 (Some buf) bufferLen = Some (r, Some buf') \<and> length buf' = length buf)
    \<and> Char16ToChar8_buffer (utf16_of cs) (Some buf) bufferLen =
        (if length (utf8_of cs) < length buf
         then Some (int (length (utf8_of cs)) + 1, Some (utf8_of cs @ [0] @ drop (length (utf8_of cs) + 1) buf))
         else Some (-3, Some buf))"
proof (rule conjI)
  let ?n = "Utf16ToUtf8Length str16"
  let ?out = "StrncpyStr16ToStr8 str16 (nat (?n + 1))"
  show "\<exists>r buf'. Char16ToChar8_buffer str16 (Some buf) bufferLen = Some (r, Some buf') \<and> length buf' = length buf"
  proof (cases "0 \<le> ?n \<and> ?n + 1 \<le> bufferLen")
    case True
    then have "length ?out \<le> nat (?n + 1)"
      by (intro StrncpyStr16ToStr8_fits) simp
    with True assms have "length ?out \<le> length buf" by linarith
    then show ?thesis
      using assms by (auto simp: Char16ToChar8_buffer_def mem_write_def Let_def)
  next
    case False
    then show ?thesis using assms by (auto simp: Char16ToChar8_buffer_def Let_def)
  qed
next
  have n: "Utf16ToUtf8Length (utf16_of cs) = int (length (utf8_of cs))"
    by (rule Utf16ToUtf8Length_of [OF cs])
  have w: "StrncpyStr16ToStr8 (utf16_of cs) (nat (int (length (utf8_of cs)) + 1)) = utf8_of cs @ [0]"
    using cs(1) by (intro StrncpyStr16ToStr8_of) simp_all
  have ne: "length (utf16_of cs) \<noteq> 0"
    using encodings_nonempty(1) [OF cs(1,2)] by blast
  show "Char16ToChar8_buffer (utf16_of cs) (Some buf) bufferLen =
        (if length (utf8_of cs) < length buf
         then Some (int (length (utf8_of cs)) + 1, Some (utf8_of cs @ [0] @ drop (length (utf8_of cs) + 1) buf))
         else Some (-3, Some buf))"
    using assms cs(3) ne by (auto simp: Char16ToChar8_buffer_def n w mem_write_def Let_def)
qed

lemma Char16ToChar8_buffer_correct_witness:
  "(\<exists>r buf'. Char16ToChar8_buffer [0xD800] (Some [7, 7]) 2 = Some (r, Some buf') \<and> length buf' = length [7, 7 :: byte])
   \<and> Char16ToChar8_buffer (utf16_of [0x41]) (Some [7, 7]) 2 =
       (if length (utf8_of [0x41]) < length [7, 7 :: byte]
        then Some (int (length (utf8_of [0x41])) + 1, Some (utf8_of [0x41] @ [0] @ drop (length (utf8_of [0x41]) + 1) [7, 7]))
        else Some (-3, Some [7, 7]))"
proof -
  have "list_all valid_cp [0x41]" by (simp add: valid_cp_def)
  moreover have "int (length (utf8_of [0x41])) < INT_MAX"
    by (simp add: u8_enc_def Utf32CodePointUtf8Length_def Utf32CodePointToUtf8_def)
  ultimately show ?thesis
    using Char16ToChar8_buffer_correct [of "[7, 7]" 2 "[0x41]" "[0xD800]"]
    by (simp only: list.size of_nat_Suc) simp
qed

end
