(* ===== verification/Sorted_Vector.thy ===== *)
theory Sorted_Vector
  imports CUtils_Prelude "HOL-Library.Multiset"
begin

text \<open>
  The sorted vector (\<^verbatim>\<open>base/include/sorted_vector.h\<close>). The object is its \<^verbatim>\<open>vec_\<close>, a list; the template
  argument \<^verbatim>\<open>AllowDuplicate\<close> is a boolean argument of the operations that consult it. The standard algorithms are
  written out as the code relies on them: the two binary searches, \<^verbatim>\<open>std::merge\<close>, \<^verbatim>\<open>std::unique_copy\<close> and
  \<^verbatim>\<open>std::sort\<close>. An access outside the vector is \<^const>\<open>None\<close>. The capacity, which only \<^verbatim>\<open>SetCapcity\<close> and
  \<^verbatim>\<open>Capacity\<close> show, is left out.
\<close>

section \<open>Standard algorithms\<close>

text \<open>The binary search of \<^verbatim>\<open>std::lower_bound\<close> and \<^verbatim>\<open>std::upper_bound\<close>: \<open>go\<close> tells whether to go right of an element.\<close>

function partition_search :: "('a \<Rightarrow> bool) \<Rightarrow> 'a list \<Rightarrow> nat \<Rightarrow> nat \<Rightarrow> nat" where
  "partition_search go v first len =
     (if len = 0 then first
      else let half = len div 2; mid = first + half
           in if go (v ! mid) then partition_search go v (mid + 1) (len - half - 1)
              else partition_search go v first half)"
  by pat_completeness auto
termination
  by (relation "measure (\<lambda>(_, _, _, len). len)") auto

declare partition_search.simps [simp del]

definition lower_bound :: "'a::linorder list \<Rightarrow> 'a \<Rightarrow> nat" where
  "lower_bound v item = partition_search (\<lambda>x. x < item) v 0 (length v)"

definition upper_bound :: "'a::linorder list \<Rightarrow> 'a \<Rightarrow> nat" where
  "upper_bound v item = partition_search (\<lambda>x. \<not> item < x) v 0 (length v)"

fun std_merge :: "'a::linorder list \<Rightarrow> 'a list \<Rightarrow> 'a list" where
  "std_merge (x # xs) (y # ys) = (if y < x then y # std_merge (x # xs) ys else x # std_merge xs (y # ys))"
| "std_merge xs [] = xs"
| "std_merge [] ys = ys"

fun unique_copy :: "'a list \<Rightarrow> 'a list" where
  "unique_copy (x # y # xs) = (if x = y then unique_copy (x # xs) else x # unique_copy (y # xs))"
| "unique_copy xs = xs"

section \<open>The operations\<close>

definition SortedVector_empty :: "'a list" where
  "SortedVector_empty = []"

definition copy_from_unique :: "'a list \<Rightarrow> 'a list" where
  "copy_from_unique rhs = [] @ rhs"

definition copy_from_duplicate :: "bool \<Rightarrow> 'a list \<Rightarrow> 'a list" where
  "copy_from_duplicate AllowDuplicate rhs = (if AllowDuplicate then [] @ rhs else [] @ unique_copy rhs)"

text \<open>The assignments; \<open>same\<close> tells that both sides are one object.\<close>

definition assign_unique :: "bool \<Rightarrow> 'a list \<Rightarrow> 'a list \<Rightarrow> 'a list" where
  "assign_unique same rhs vec = (if same then vec else [] @ rhs)"

definition assign_duplicate :: "bool \<Rightarrow> bool \<Rightarrow> 'a list \<Rightarrow> 'a list \<Rightarrow> 'a list" where
  "assign_duplicate AllowDuplicate same rhs vec =
     (if same then vec else if AllowDuplicate then [] @ rhs else [] @ unique_copy rhs)"

definition SortedVector_from :: "bool \<Rightarrow> 'a::linorder list \<Rightarrow> 'a list" where
  "SortedVector_from AllowDuplicate invec =
     (if invec = [] then []
      else let newvector = sort invec
           in if AllowDuplicate then newvector else [] @ unique_copy newvector)"

definition SV_Clear :: "'a list \<Rightarrow> 'a list" where
  "SV_Clear vec = []"

definition SV_Size :: "'a list \<Rightarrow> nat" where
  "SV_Size vec = length vec"

definition SV_IsEmpty :: "'a list \<Rightarrow> bool" where
  "SV_IsEmpty vec \<longleftrightarrow> vec = []"

definition NOT_FOUND :: int where
  "NOT_FOUND = -1"

definition IndexOf :: "'a::linorder list \<Rightarrow> 'a \<Rightarrow> int" where
  "IndexOf vec item =
     (if vec = [] then NOT_FOUND
      else let it = lower_bound vec item
           in if it = length vec \<or> vec ! it \<noteq> item then NOT_FOUND else int it)"

definition OrderOf :: "'a::linorder list \<Rightarrow> 'a \<Rightarrow> nat" where
  "OrderOf vec item = upper_bound vec item"

definition SV_at :: "'a list \<Rightarrow> nat \<Rightarrow> 'a option" where
  "SV_at vec index = (if index < length vec then Some (vec ! index) else None)"

definition SV_Back :: "'a list \<Rightarrow> 'a option" where
  "SV_Back vec = (if vec = [] then None else Some (last vec))"

definition SV_Front :: "'a list \<Rightarrow> 'a option" where
  "SV_Front vec = (if vec = [] then None else Some (hd vec))"

definition PopBack :: "'a list \<Rightarrow> 'a list option" where
  "PopBack vec = (if vec = [] then None else Some (butlast vec))"

definition MirrorItemAt :: "'a list \<Rightarrow> int \<Rightarrow> 'a option" where
  "MirrorItemAt vec index =
     (let i = (if index < 0 then int (length vec) + index else index)
      in if 0 \<le> i \<and> i < int (length vec) then Some (vec ! nat i) else None)"

definition Add :: "bool \<Rightarrow> 'a::linorder list \<Rightarrow> 'a \<Rightarrow> int \<times> 'a list" where
  "Add AllowDuplicate vec item =
     (let index = IndexOf vec item
      in if index \<noteq> NOT_FOUND \<and> \<not> AllowDuplicate then (-1, vec)
         else let it = upper_bound vec item
              in (int it, take it vec @ item # drop it vec))"

text \<open>The capacity is apart from the content: the result and the capacity after \<^verbatim>\<open>SetCapcity\<close>, from the one before.\<close>

definition CAPCITY_NOT_CHANGED :: int where
  "CAPCITY_NOT_CHANGED = -1"

definition SetCapcity :: "nat \<Rightarrow> nat \<Rightarrow> int \<times> nat" where
  "SetCapcity sz capacity = (if sz < capacity then (CAPCITY_NOT_CHANGED, capacity) else (int sz, max capacity sz))"

text \<open>A write through the reference \<^verbatim>\<open>EditItemAt\<close> returns.\<close>

definition EditItemAt :: "'a list \<Rightarrow> nat \<Rightarrow> 'a \<Rightarrow> 'a list option" where
  "EditItemAt vec index val = (if index < length vec then Some (vec[index := val]) else None)"

definition Merge_sorted :: "bool \<Rightarrow> 'a::linorder list \<Rightarrow> 'a list \<Rightarrow> nat \<times> 'a list" where
  "Merge_sorted AllowDuplicate vec sortedVector =
     (let newVec = std_merge vec sortedVector;
          vec' = (if \<not> AllowDuplicate then [] @ unique_copy newVec else newVec)
      in (length vec', vec'))"

definition Merge :: "bool \<Rightarrow> 'a::linorder list \<Rightarrow> 'a list \<Rightarrow> nat \<times> 'a list" where
  "Merge AllowDuplicate vec invec =
     (let sortedVector = SortedVector_from AllowDuplicate invec;
          (_, vec') = Merge_sorted AllowDuplicate vec sortedVector
      in (length vec', vec'))"

text \<open>The position of the returned iterator and the vector.\<close>

definition SV_Erase :: "'a list \<Rightarrow> nat \<Rightarrow> nat \<times> 'a list" where
  "SV_Erase vec index =
     (if index \<ge> length vec then (length vec, vec) else (index, take index vec @ drop (index + 1) vec))"

section \<open>The searches on a sorted vector\<close>

lemma partition_search_correct:
  assumes "\<And>i j. i \<le> j \<Longrightarrow> j < length v \<Longrightarrow> go (v ! j) \<Longrightarrow> go (v ! i)"
    "first + len \<le> length v" "\<And>i. i < first \<Longrightarrow> go (v ! i)"
    "\<And>i. first + len \<le> i \<Longrightarrow> i < length v \<Longrightarrow> \<not> go (v ! i)"
  shows "partition_search go v first len = length (takeWhile go v)"
  using assms
proof (induction go v first len rule: partition_search.induct)
  case (1 go v first len)
  let ?mid = "first + len div 2"
  show ?case
  proof (cases "len = 0")
    case True
    have "takeWhile go v = take first v"
      by (rule takeWhile_eq_take_P_nth) (use "1.prems" True in auto)
    then have "length (takeWhile go v) = first"
      using "1.prems"(2) by simp
    then show ?thesis using True by (simp add: partition_search.simps)
  next
    case False
    then have mid: "?mid < length v" "?mid < first + len" using "1.prems"(2) by auto
    show ?thesis
    proof (cases "go (v ! ?mid)")
      case True
      have "partition_search go v (?mid + 1) (len - len div 2 - 1) = length (takeWhile go v)"
      proof (rule "1.IH"(1) [OF False refl refl True])
        show "?mid + 1 + (len - len div 2 - 1) \<le> length v" using False "1.prems"(2) by linarith
        show "go (v ! i)" if "i < ?mid + 1" for i
          using "1.prems"(1) [of i ?mid] that True mid by simp
        show "\<not> go (v ! i)" if "?mid + 1 + (len - len div 2 - 1) \<le> i" "i < length v" for i
          using "1.prems"(4) [of i] that mid by linarith
      qed (use "1.prems"(1) in blast)
      with True False show ?thesis by (simp add: partition_search.simps [of go v first len] Let_def)
    next
      case not: False
      have "partition_search go v first (len div 2) = length (takeWhile go v)"
      proof (rule "1.IH"(2) [OF False refl refl not])
        show "first + len div 2 \<le> length v" using mid by simp
        show "\<not> go (v ! i)" if "first + len div 2 \<le> i" "i < length v" for i
          using "1.prems"(1) [of ?mid i] that not by blast
      qed (use "1.prems"(1,3) in blast)+
      with not False show ?thesis by (simp add: partition_search.simps [of go v first len] Let_def)
    qed
  qed
qed

lemma lower_bound_eq:
  "sorted v \<Longrightarrow> lower_bound v x = length (takeWhile (\<lambda>y. y < x) v)"
  unfolding lower_bound_def
  by (rule partition_search_correct) (auto dest: sorted_nth_mono intro: le_less_trans)

lemma upper_bound_eq:
  "sorted v \<Longrightarrow> upper_bound v x = length (takeWhile (\<lambda>y. \<not> x < y) v)"
  unfolding upper_bound_def
  by (rule partition_search_correct) (auto dest: sorted_nth_mono simp: not_less intro: order.trans)

section \<open>The invariant\<close>

definition sv_inv :: "bool \<Rightarrow> 'a::linorder list \<Rightarrow> bool" where
  "sv_inv AllowDuplicate v \<longleftrightarrow> sorted v \<and> (AllowDuplicate \<or> distinct v)"

lemma unique_copy_eq: "unique_copy xs = remdups_adj xs"
  by (induction xs rule: unique_copy.induct) auto

lemma std_merge_mset: "mset (std_merge xs ys) = mset xs + mset ys"
  by (induction xs ys rule: std_merge.induct) auto

lemma std_merge_set: "set (std_merge xs ys) = set xs \<union> set ys"
  using std_merge_mset [of xs ys] by (metis set_mset_mset set_mset_union)

lemma std_merge_sorted: "sorted xs \<Longrightarrow> sorted ys \<Longrightarrow> sorted (std_merge xs ys)"
  by (induction xs ys rule: std_merge.induct) (fastforce simp: std_merge_set)+

lemma sorted_unique_distinct: "sorted xs \<Longrightarrow> distinct (unique_copy xs)"
  by (induction xs rule: unique_copy.induct) (auto simp: unique_copy_eq)

lemma unique_copy_inv: "sorted xs \<Longrightarrow> sv_inv d (unique_copy xs)"
  by (simp add: sv_inv_def sorted_unique_distinct) (simp add: unique_copy_eq sorted_remdups_adj)

lemma IndexOf_eq:
  assumes "sorted v"
  shows "IndexOf v x = (if x \<in> set v then int (length (takeWhile (\<lambda>y. y < x) v)) else -1)"
proof (cases "x \<in> set v")
  case True
  let ?n = "length (takeWhile (\<lambda>y. y < x) v)"
  from True have "\<exists>y\<in>set v. \<not> y < x" by auto
  then have n: "?n < length v"
    by (metis length_takeWhile_le nat_less_le takeWhile_eq_all_conv takeWhile_eq_take take_all_iff)
  then have "x \<le> v ! ?n"
    using nth_length_takeWhile [of "\<lambda>y. y < x" v] by (simp add: not_less)
  obtain i where i: "i < length v" "v ! i = x" using True by (auto simp: in_set_conv_nth)
  have "?n \<le> i"
  proof (rule ccontr)
    assume "\<not> ?n \<le> i"
    then have "takeWhile (\<lambda>y. y < x) v ! i < x" "takeWhile (\<lambda>y. y < x) v ! i = v ! i"
      by (metis (mono_tags) not_le nth_mem set_takeWhileD, simp add: takeWhile_nth)
    with i show False by simp
  qed
  with \<open>x \<le> v ! ?n\<close> i assms have "v ! ?n = x"
    by (metis order_antisym sorted_nth_mono)
  with True n assms show ?thesis
    by (auto simp: IndexOf_def lower_bound_eq)
next
  case False
  then have "v ! i \<noteq> x" if "i < length v" for i
    using that by auto
  with False show ?thesis
    using assms length_takeWhile_le [of "\<lambda>y. y < x" v]
    by (auto simp: IndexOf_def lower_bound_eq NOT_FOUND_def Let_def le_less)
qed

text \<open>The vector \<^verbatim>\<open>Add\<close> inserts into: the new item comes after its equals.\<close>

lemma Add_eq:
  assumes "sorted v"
  shows "Add d v x =
    (if x \<in> set v \<and> \<not> d then (-1, v)
     else (int (length (takeWhile (\<lambda>y. y \<le> x) v)), takeWhile (\<lambda>y. y \<le> x) v @ x # dropWhile (\<lambda>y. y \<le> x) v))"
proof -
  have "IndexOf v x \<noteq> NOT_FOUND \<longleftrightarrow> x \<in> set v"
    by (simp add: IndexOf_eq [OF assms] NOT_FOUND_def)
  moreover have "upper_bound v x = length (takeWhile (\<lambda>y. y \<le> x) v)"
    using upper_bound_eq [OF assms] by (simp add: not_less)
  moreover have "take (length (takeWhile P v)) v = takeWhile P v" "drop (length (takeWhile P v)) v = dropWhile P v" for P
    by (simp_all add: takeWhile_eq_take [symmetric] dropWhile_eq_drop)
  ultimately show ?thesis
    by (simp add: Add_def)
qed

lemma Add_inv:
  assumes "sv_inv d v"
  shows "sv_inv d (snd (Add d v x))"
proof (cases "x \<in> set v \<and> \<not> d")
  case True
  with assms show ?thesis by (simp add: Add_eq sv_inv_def)
next
  case False
  let ?l = "takeWhile (\<lambda>y. y \<le> x) v" and ?r = "dropWhile (\<lambda>y. y \<le> x) v"
  have v: "sorted (?l @ ?r)" "d \<or> distinct (?l @ ?r)" using assms by (simp_all add: sv_inv_def)
  have l: "\<forall>y\<in>set ?l. y \<le> x" using set_takeWhileD by fastforce
  have r: "\<forall>y\<in>set ?r. x < y"
  proof (cases ?r)
    case (Cons z zs)
    then have "x < z" using hd_dropWhile [of "\<lambda>y. y \<le> x" v] by simp
    with v(1) Cons show ?thesis by (auto simp: sorted_append)
  next
    case Nil
    then show ?thesis by (simp only: list.set) simp
  qed
  have "sorted (?l @ x # ?r)"
    using v(1) l r by (force simp: sorted_append less_imp_le)
  moreover have "d \<or> distinct (?l @ x # ?r)"
    using v(2) False r set_takeWhileD [of _ "\<lambda>y. y \<le> x" v] by (fastforce simp: not_less)
  ultimately show ?thesis
    using False assms by (auto simp: Add_eq sv_inv_def)
qed

lemma Add_mset:
  assumes "sv_inv d v"
  shows "mset (snd (Add d v x)) = (if x \<in> set v \<and> \<not> d then mset v else add_mset x (mset v))"
proof -
  have "mset (takeWhile P v) + mset (dropWhile P v) = mset v" for P
    by (metis mset_append takeWhile_dropWhile_id)
  then show ?thesis
    using assms by (simp add: Add_eq sv_inv_def)
qed

lemma SortedVector_from_inv: "sv_inv d (SortedVector_from d xs)"
  by (auto simp: SortedVector_from_def sv_inv_def Let_def unique_copy_inv [of _ False, unfolded sv_inv_def, simplified])

lemma Merge_sorted_inv:
  "sv_inv d v \<Longrightarrow> sv_inv d w \<Longrightarrow> sv_inv d (snd (Merge_sorted d v w))"
  using unique_copy_inv [of "std_merge v w" d] std_merge_sorted [of v w]
  by (auto simp: Merge_sorted_def sv_inv_def Let_def)

section \<open>Bulk operations and repeated insertion\<close>

text \<open>
  The contract of a container kept by insertion: its content, seen through \<open>abs\<close>, determines the container.
\<close>

locale ordered_container =
  fixes inv :: "'c \<Rightarrow> bool" and emp :: 'c and add :: "'a \<Rightarrow> 'c \<Rightarrow> 'c" and build :: "'a list \<Rightarrow> 'c"
    and merge :: "'c \<Rightarrow> 'c \<Rightarrow> 'c" and abs :: "'c \<Rightarrow> 'b" and ins :: "'a \<Rightarrow> 'b \<Rightarrow> 'b" and un :: "'b \<Rightarrow> 'b \<Rightarrow> 'b"
  assumes inv_emp: "inv emp"
    and inv_add: "inv c \<Longrightarrow> inv (add x c)"
    and inv_build: "inv (build xs)"
    and inv_merge: "inv c \<Longrightarrow> inv d \<Longrightarrow> inv (merge c d)"
    and abs_add: "inv c \<Longrightarrow> abs (add x c) = ins x (abs c)"
    and abs_build: "abs (build xs) = fold ins xs (abs emp)"
    and abs_merge: "inv c \<Longrightarrow> inv d \<Longrightarrow> abs (merge c d) = un (abs c) (abs d)"
    and un_ins: "un s (ins x t) = ins x (un s t)"
    and un_emp: "un s (abs emp) = s"
    and abs_inj: "inv c \<Longrightarrow> inv d \<Longrightarrow> abs c = abs d \<Longrightarrow> c = d"
begin

lemma fold_add: "inv c \<Longrightarrow> inv (fold add xs c) \<and> abs (fold add xs c) = fold ins xs (abs c)"
  by (induction xs arbitrary: c) (simp_all add: inv_add abs_add)

lemma build_is_repeated_add: "build xs = fold add xs emp"
  using fold_add [OF inv_emp, of xs] by (intro abs_inj) (simp_all add: inv_build abs_build)

lemma un_fold: "un s (fold ins xs t) = fold ins xs (un s t)"
  by (induction xs arbitrary: t) (simp_all add: un_ins)

lemma merge_is_repeated_add:
  assumes "inv c"
  shows "merge c (build xs) = fold add xs c"
proof (rule abs_inj)
  show "inv (merge c (build xs))" "inv (fold add xs c)"
    using assms fold_add by (simp_all add: inv_merge inv_build)
  show "abs (merge c (build xs)) = abs (fold add xs c)"
    using assms fold_add [OF assms, of xs] by (simp add: abs_merge inv_build abs_build un_fold un_emp)
qed

end

lemma fold_add_mset: "fold add_mset xs m = mset xs + m"
  by (induction xs arbitrary: m) auto

lemma fold_insert: "fold insert xs s = set xs \<union> s"
  by (induction xs arbitrary: s) auto

lemma sv_inv_empty: "sv_inv d SortedVector_empty"
  by (simp add: sv_inv_def SortedVector_empty_def)

lemma content_from:
  "mset (SortedVector_from True xs) = mset xs" "set (SortedVector_from d xs) = set xs"
  by (auto simp: SortedVector_from_def unique_copy_eq Let_def)

lemma content_merge:
  "mset (snd (Merge_sorted True v w)) = mset v + mset w" "set (snd (Merge_sorted d v w)) = set v \<union> set w"
  by (auto simp: Merge_sorted_def Let_def std_merge_mset std_merge_set unique_copy_eq)

lemma Add_set: "sv_inv d v \<Longrightarrow> set (snd (Add d v x)) = insert x (set v)"
  using arg_cong [where f = set_mset, OF Add_mset [of d v x]] by (auto split: if_splits)

interpretation duplicates: ordered_container "sv_inv True" SortedVector_empty "\<lambda>x v. snd (Add True v x)"
  "SortedVector_from True" "\<lambda>v w. snd (Merge_sorted True v w)" mset add_mset "(+)"
proof unfold_locales
  show "v = w" if "sv_inv True v" "sv_inv True w" "mset v = mset w" for v w :: "'a list"
    using that by (metis sv_inv_def properties_for_sort)
qed (simp_all add: sv_inv_empty Add_inv SortedVector_from_inv Merge_sorted_inv Add_mset content_from content_merge
  fold_add_mset SortedVector_empty_def [THEN arg_cong [where f = mset]])

interpretation uniques: ordered_container "sv_inv False" SortedVector_empty "\<lambda>x v. snd (Add False v x)"
  "SortedVector_from False" "\<lambda>v w. snd (Merge_sorted False v w)" set insert "(\<union>)"
proof unfold_locales
  show "v = w" if "sv_inv False v" "sv_inv False w" "set v = set w" for v w :: "'a list"
    using that sorted_distinct_set_unique [of v w] by (simp add: sv_inv_def)
qed (simp_all add: sv_inv_empty Add_inv SortedVector_from_inv Merge_sorted_inv Add_set content_from content_merge
  fold_insert SortedVector_empty_def [THEN arg_cong [where f = set]])

section \<open>Properties\<close>

text \<open>The operations that change a vector, but for writes through references, as steps.\<close>

datatype 'a sv_op =
  OpClear | OpAdd 'a | OpMerge "'a list" | OpMergeSorted "'a list" | OpErase nat | OpPopBack
  | OpAssignUnique "'a list" | OpAssignDuplicate "'a list"

fun sv_apply :: "bool \<Rightarrow> 'a::linorder sv_op \<Rightarrow> 'a list \<Rightarrow> 'a list option" where
  "sv_apply d OpClear v = Some (SV_Clear v)"
| "sv_apply d (OpAdd x) v = Some (snd (Add d v x))"
| "sv_apply d (OpMerge xs) v = Some (snd (Merge d v xs))"
| "sv_apply d (OpMergeSorted w) v = Some (snd (Merge_sorted d v w))"
| "sv_apply d (OpErase i) v = Some (snd (SV_Erase v i))"
| "sv_apply d OpPopBack v = PopBack v"
| "sv_apply d (OpAssignUnique w) v = Some (assign_unique False w v)"
| "sv_apply d (OpAssignDuplicate w) v = Some (assign_duplicate d False w v)"

text \<open>The vectors a call takes as arguments satisfy the invariants of their own types.\<close>

fun sv_args :: "bool \<Rightarrow> 'a::linorder sv_op \<Rightarrow> bool" where
  "sv_args d (OpMergeSorted w) = sv_inv d w"
| "sv_args d (OpAssignUnique w) = sv_inv False w"
| "sv_args d (OpAssignDuplicate w) = sv_inv True w"
| "sv_args d _ = True"

inductive sv_reach :: "bool \<Rightarrow> 'a::linorder list \<Rightarrow> bool" for d where
  created: "sv_reach d SortedVector_empty"
| converted: "sv_reach d (SortedVector_from d xs)"
| stepped: "sv_reach d v \<Longrightarrow> sv_args d f \<Longrightarrow> sv_apply d f v = Some w \<Longrightarrow> sv_reach d w"

lemma sorted_butlast: "sorted v \<Longrightarrow> sorted (butlast v)"
  by (simp add: butlast_conv_take sorted_wrt_take)

lemma SV_Erase_inv:
  assumes "sv_inv d v"
  shows "sv_inv d (snd (SV_Erase v i))"
proof -
  have v: "v = take (i + 1) v @ drop (i + 1) v" by simp
  have "set (take i v) \<subseteq> set (take (i + 1) v)" by (rule set_take_subset_set_take) simp
  moreover have "sorted (take (i + 1) v @ drop (i + 1) v)" "d \<or> distinct (take (i + 1) v @ drop (i + 1) v)"
    using assms by (simp_all add: sv_inv_def)
  ultimately show ?thesis
    using assms by (auto simp: SV_Erase_def sv_inv_def sorted_append simp del: append_take_drop_id
      intro: sorted_wrt_take sorted_wrt_drop distinct_take distinct_drop)
qed

lemma sv_apply_inv:
  assumes "sv_inv d v" "sv_args d f" "sv_apply d f v = Some w"
  shows "sv_inv d w"
proof (cases f)
  case (OpMerge xs)
  have "Merge d v xs = Merge_sorted d v (SortedVector_from d xs)"
    by (simp add: Merge_def Merge_sorted_def Let_def)
  with OpMerge assms show ?thesis
    by (auto simp: Merge_sorted_inv SortedVector_from_inv)
next
  case OpPopBack
  with assms show ?thesis
    by (auto simp: PopBack_def sv_inv_def sorted_butlast distinct_butlast split: if_splits)
next
  case (OpAssignUnique u)
  with assms show ?thesis
    by (auto simp: assign_unique_def sv_inv_def)
next
  case (OpAssignDuplicate u)
  with assms unique_copy_inv [of u d] show ?thesis
    by (cases d) (auto simp: assign_duplicate_def sv_inv_def)
qed (use assms in \<open>auto simp: SV_Clear_def Add_inv Merge_sorted_inv SV_Erase_inv sv_inv_def [of _ "[]"]\<close>)

lemma sv_reach_inv: "sv_reach d v \<Longrightarrow> sv_inv d v"
  by (induction rule: sv_reach.induct) (auto simp: sv_inv_empty SortedVector_from_inv dest: sv_apply_inv)

text \<open>
  Whatever operations a client calls, in any order, a \<^verbatim>\<open>SortedVector\<close> stays sorted, and free of duplicates
  when the template forbids them: construction, insertion, both merges, erasure, \<^verbatim>\<open>PopBack\<close> and both assignments
  keep the invariant, and the binary search of \<^verbatim>\<open>IndexOf\<close> therefore finds the first occurrence of every element
  and of no other value.
\<close>

theorem sorted_vector_reachable:
  assumes "sv_reach d v"
  shows "(sorted v \<and> (d \<or> distinct v))
    \<and> IndexOf v x = (if x \<in> set v then int (length (takeWhile (\<lambda>y. y \<noteq> x) v)) else -1)"
proof (rule conjI)
  from assms have "sv_inv d v" by (rule sv_reach_inv)
  then show "sorted v \<and> (d \<or> distinct v)" by (simp add: sv_inv_def)
  from assms have i: "sv_inv d v" by (rule sv_reach_inv)
  have "takeWhile (\<lambda>y. y < x) v = takeWhile (\<lambda>y. y \<noteq> x) v" if "sorted v" "x \<in> set v"
    using that by (induction v) (auto simp: less_le)
  with i show "IndexOf v x = (if x \<in> set v then int (length (takeWhile (\<lambda>y. y \<noteq> x) v)) else -1)"
    by (auto simp: IndexOf_eq sv_inv_def)
qed

lemma sorted_vector_reachable_witness:
  "(sorted (SortedVector_from False [3, 1, 3 :: int]) \<and> (False \<or> distinct (SortedVector_from False [3, 1, 3 :: int])))
   \<and> IndexOf (SortedVector_from False [3, 1, 3 :: int]) 3 =
      (if 3 \<in> set (SortedVector_from False [3, 1, 3 :: int])
       then int (length (takeWhile (\<lambda>y. y \<noteq> 3) (SortedVector_from False [3, 1, 3 :: int]))) else -1)"
  using sorted_vector_reachable [OF sv_reach.converted [of False "[3, 1, 3 :: int]"]] by blast

text \<open>
  C17. \<^verbatim>\<open>Add\<close> on a vector that satisfies the invariant puts the item where \<^verbatim>\<open>OrderOf\<close> says, behind its equals, and
  returns that index; nothing else moves out of order. It fails, with -1 and the vector unchanged, exactly when
  the item is present and the template forbids duplicates; erasing at the returned index takes the item out again.
\<close>

theorem Add_correct:
  assumes "sv_inv d v"
  shows "Add d v x =
      (if x \<in> set v \<and> \<not> d then (-1, v)
       else (int (OrderOf v x), take (OrderOf v x) v @ x # drop (OrderOf v x) v))
    \<and> sv_inv d (snd (Add d v x))
    \<and> mset (snd (Add d v x)) = (if x \<in> set v \<and> \<not> d then mset v else add_mset x (mset v))
    \<and> (if x \<in> set v \<and> \<not> d then v else snd (SV_Erase (snd (Add d v x)) (OrderOf v x))) = v"
proof (intro conjI)
  have s: "sorted v" using assms by (simp add: sv_inv_def)
  have o: "OrderOf v x \<le> length v"
    using upper_bound_eq [OF s] length_takeWhile_le by (metis OrderOf_def)
  show e: "Add d v x =
      (if x \<in> set v \<and> \<not> d then (-1, v)
       else (int (OrderOf v x), take (OrderOf v x) v @ x # drop (OrderOf v x) v))"
    by (simp add: Add_def IndexOf_eq [OF s] NOT_FOUND_def OrderOf_def Let_def)
  show "sv_inv d (snd (Add d v x))" by (rule Add_inv [OF assms])
  show "mset (snd (Add d v x)) = (if x \<in> set v \<and> \<not> d then mset v else add_mset x (mset v))"
    by (rule Add_mset [OF assms])
  show "(if x \<in> set v \<and> \<not> d then v else snd (SV_Erase (snd (Add d v x)) (OrderOf v x))) = v"
    using o by (simp add: e SV_Erase_def)
qed

lemma Add_correct_witness:
  "Add True [1, 2, 2, 3 :: int] 2 =
      (if 2 \<in> set [1, 2, 2, 3 :: int] \<and> \<not> True then (-1, [1, 2, 2, 3])
       else (int (OrderOf [1, 2, 2, 3 :: int] 2),
             take (OrderOf [1, 2, 2, 3 :: int] 2) [1, 2, 2, 3] @ 2 # drop (OrderOf [1, 2, 2, 3 :: int] 2) [1, 2, 2, 3]))
   \<and> sv_inv True (snd (Add True [1, 2, 2, 3 :: int] 2))"
proof -
  have i: "sv_inv True [1, 2, 2, 3 :: int]" by (simp add: sv_inv_def)
  show ?thesis using Add_correct [OF i, of 2] by blast
qed

text \<open>
  Bulk construction and merging are repeated insertion: building a vector from a range gives exactly the vector
  that adding its elements one by one to an empty one gives, and \<^verbatim>\<open>Merge\<close> of a range gives exactly what adding its
  elements one by one gives and returns the new size, with and without duplicates.
\<close>

theorem bulk_is_repeated_add:
  assumes "sv_inv d v"
  shows "SortedVector_from d xs = fold (\<lambda>x v. snd (Add d v x)) xs SortedVector_empty
    \<and> Merge d v xs = (length (fold (\<lambda>x v. snd (Add d v x)) xs v), fold (\<lambda>x v. snd (Add d v x)) xs v)"
proof (rule conjI)
  show "SortedVector_from d xs = fold (\<lambda>x v. snd (Add d v x)) xs SortedVector_empty"
    using duplicates.build_is_repeated_add [of xs] uniques.build_is_repeated_add [of xs] by (cases d) simp_all
  have "snd (Merge_sorted d v (SortedVector_from d xs)) = fold (\<lambda>x v. snd (Add d v x)) xs v"
    using assms duplicates.merge_is_repeated_add [of v xs] uniques.merge_is_repeated_add [of v xs] by (cases d) simp_all
  then show "Merge d v xs = (length (fold (\<lambda>x v. snd (Add d v x)) xs v), fold (\<lambda>x v. snd (Add d v x)) xs v)"
    by (simp add: Merge_def split_beta)
qed

lemma bulk_is_repeated_add_witness:
  "SortedVector_from False [2, 1, 2 :: int] = fold (\<lambda>x v. snd (Add False v x)) [2, 1, 2] SortedVector_empty
   \<and> Merge False [0, 5 :: int] [2, 1, 2] =
      (length (fold (\<lambda>x v. snd (Add False v x)) [2, 1, 2] [0, 5 :: int]), fold (\<lambda>x v. snd (Add False v x)) [2, 1, 2] [0, 5])"
proof -
  have i: "sv_inv False [0, 5 :: int]" by (simp add: sv_inv_def)
  show ?thesis using bulk_is_repeated_add [OF i, of "[2, 1, 2]"] by blast
qed

end
