(* ===== verification/RW_Lock.thy ===== *)
theory RW_Lock
  imports CUtils_Prelude
begin

text \<open>
  The reader-writer spin lock (\<^verbatim>\<open>base/src/rwlock.cpp\<close>) under interleaving. Every read and write of a shared field is
  one atomic step of one of \<open>n\<close> threads; a compare-exchange may fail spuriously. Each thread has the guards
  (\<^verbatim>\<open>UniqueReadGuard\<close>, \<^verbatim>\<open>UniqueWriteGuard\<close>) it holds as a stack, innermost first, and its position inside a lock
  operation. The counters are unbounded integers: a wrap-around needs $2^{31}$ nested readers.
\<close>

section \<open>State and atomic steps\<close>

datatype guard = Read | Write

text \<open>The positions in \<^verbatim>\<open>LockRead\<close>, \<^verbatim>\<open>UnLockRead\<close>, \<^verbatim>\<open>LockWrite\<close> and \<^verbatim>\<open>UnLockWrite\<close>; \<open>Idle\<close> is the client's own code.\<close>

datatype rw_pc =
  Idle
| LR_check | LR_load | LR_wait int | LR_cas int
| UR_check | UR_dec
| LW_check | LW_inc | LW_cas | LW_dec | LW_set
| UW_check | UW_count | UW_clear | UW_store

record rw_thread =
  pc :: rw_pc
  guards :: "guard list"

record rw_lock =
  writeFirst :: bool
  writeThreadID :: "nat option"
  lockCount :: int
  writeWaitCount :: int
  loc :: "nat \<Rightarrow> rw_thread"

abbreviation LOCK_STATUS_WRITE :: int where
  "LOCK_STATUS_WRITE \<equiv> -1"

abbreviation LOCK_STATUS_FREE :: int where
  "LOCK_STATUS_FREE \<equiv> 0"

definition RWLock_new :: "bool \<Rightarrow> rw_lock" where
  "RWLock_new first = \<lparr>writeFirst = first, writeThreadID = None, lockCount = 0, writeWaitCount = 0,
     loc = (\<lambda>_. \<lparr>pc = Idle, guards = []\<rparr>)\<rparr>"

definition goto :: "nat \<Rightarrow> rw_pc \<Rightarrow> rw_lock \<Rightarrow> rw_lock" where
  "goto t p s = s\<lparr>loc := (loc s)(t := (loc s t)\<lparr>pc := p\<rparr>)\<rparr>"

text \<open>A lock operation returns to the constructor of the guard, which then protects the scope.\<close>

definition acquired :: "nat \<Rightarrow> guard \<Rightarrow> rw_lock \<Rightarrow> rw_lock" where
  "acquired t g s = s\<lparr>loc := (loc s)(t := \<lparr>pc = Idle, guards = g # guards (loc s t)\<rparr>)\<rparr>"

definition LockRead :: "nat \<Rightarrow> bool \<Rightarrow> rw_lock \<Rightarrow> rw_lock" where
  "LockRead t spurious s =
     (case pc (loc s t) of
        LR_check \<Rightarrow> if writeThreadID s = Some t then acquired t Read s else goto t LR_load s
      | LR_load \<Rightarrow>
          let count = lockCount s
          in if count = LOCK_STATUS_WRITE then s
             else if writeFirst s then goto t (LR_wait count) s else goto t (LR_cas count) s
      | LR_wait count \<Rightarrow> if writeWaitCount s > 0 then goto t LR_load s else goto t (LR_cas count) s
      | LR_cas count \<Rightarrow>
          if lockCount s = count \<and> \<not> spurious then acquired t Read (s\<lparr>lockCount := count + 1\<rparr>)
          else goto t LR_load s
      | _ \<Rightarrow> s)"

definition UnLockRead :: "nat \<Rightarrow> rw_lock \<Rightarrow> rw_lock" where
  "UnLockRead t s =
     (case pc (loc s t) of
        UR_check \<Rightarrow> if writeThreadID s \<noteq> Some t then goto t UR_dec s else goto t Idle s
      | UR_dec \<Rightarrow> goto t Idle (s\<lparr>lockCount := lockCount s - 1\<rparr>)
      | _ \<Rightarrow> s)"

definition LockWrite :: "nat \<Rightarrow> bool \<Rightarrow> rw_lock \<Rightarrow> rw_lock" where
  "LockWrite t spurious s =
     (case pc (loc s t) of
        LW_check \<Rightarrow> if writeThreadID s \<noteq> Some t then goto t LW_inc s else acquired t Write s
      | LW_inc \<Rightarrow> goto t LW_cas (s\<lparr>writeWaitCount := writeWaitCount s + 1\<rparr>)
      | LW_cas \<Rightarrow>
          if lockCount s = LOCK_STATUS_FREE \<and> \<not> spurious
          then goto t LW_dec (s\<lparr>lockCount := LOCK_STATUS_WRITE\<rparr>) else s
      | LW_dec \<Rightarrow> goto t LW_set (s\<lparr>writeWaitCount := writeWaitCount s - 1\<rparr>)
      | LW_set \<Rightarrow> acquired t Write (s\<lparr>writeThreadID := Some t\<rparr>)
      | _ \<Rightarrow> s)"

definition UnLockWrite :: "nat \<Rightarrow> rw_lock \<Rightarrow> rw_lock" where
  "UnLockWrite t s =
     (case pc (loc s t) of
        UW_check \<Rightarrow> if writeThreadID s \<noteq> Some t then goto t Idle s else goto t UW_count s
      | UW_count \<Rightarrow> if lockCount s \<noteq> LOCK_STATUS_WRITE then goto t Idle s else goto t UW_clear s
      | UW_clear \<Rightarrow> goto t UW_store (s\<lparr>writeThreadID := None\<rparr>)
      | UW_store \<Rightarrow> goto t Idle (s\<lparr>lockCount := LOCK_STATUS_FREE\<rparr>)
      | _ \<Rightarrow> s)"

text \<open>
  A client in its own code opens a scope with a guard or leaves the innermost scope, whose guard stops protecting
  when its destructor starts.
\<close>

datatype rw_call = Open guard | Close

fun rw_call_step :: "nat \<Rightarrow> rw_call \<Rightarrow> rw_lock \<Rightarrow> rw_lock option" where
  "rw_call_step t (Open g) s =
     (if pc (loc s t) \<noteq> Idle then None
      else Some (goto t (case g of Read \<Rightarrow> LR_check | Write \<Rightarrow> LW_check) s))"
| "rw_call_step t Close s =
     (if pc (loc s t) \<noteq> Idle then None
      else case guards (loc s t) of
          [] \<Rightarrow> None
        | g # gs \<Rightarrow>
            Some (s\<lparr>loc := (loc s)(t := \<lparr>pc = (case g of Read \<Rightarrow> UR_check | Write \<Rightarrow> UW_check), guards = gs\<rparr>)\<rparr>))"

definition rw_tick :: "nat \<Rightarrow> bool \<Rightarrow> rw_lock \<Rightarrow> rw_lock" where
  "rw_tick t spurious s =
     (case pc (loc s t) of
        Idle \<Rightarrow> s
      | LR_check \<Rightarrow> LockRead t spurious s | LR_load \<Rightarrow> LockRead t spurious s
      | LR_wait _ \<Rightarrow> LockRead t spurious s | LR_cas _ \<Rightarrow> LockRead t spurious s
      | UR_check \<Rightarrow> UnLockRead t s | UR_dec \<Rightarrow> UnLockRead t s
      | LW_check \<Rightarrow> LockWrite t spurious s | LW_inc \<Rightarrow> LockWrite t spurious s | LW_cas \<Rightarrow> LockWrite t spurious s
      | LW_dec \<Rightarrow> LockWrite t spurious s | LW_set \<Rightarrow> LockWrite t spurious s
      | UW_check \<Rightarrow> UnLockWrite t s | UW_count \<Rightarrow> UnLockWrite t s
      | UW_clear \<Rightarrow> UnLockWrite t s | UW_store \<Rightarrow> UnLockWrite t s)"

text \<open>Any thread moves: inside an operation, or by a call. \<open>free\<close> lets clients nest write guards, too.\<close>

inductive rw_step :: "bool \<Rightarrow> nat \<Rightarrow> rw_lock \<Rightarrow> rw_lock \<Rightarrow> bool" for free n where
  tick: "t < n \<Longrightarrow> rw_step free n s (rw_tick t spurious s)"
| call: "t < n \<Longrightarrow> rw_call_step t c s = Some s' \<Longrightarrow> (c = Open Write \<longrightarrow> free \<or> Write \<notin> set (guards (loc s t))) \<Longrightarrow>
    rw_step free n s s'"

definition rw_init :: "rw_lock \<Rightarrow> bool" where
  "rw_init s \<longleftrightarrow> s = RWLock_new (writeFirst s)"

section \<open>The invariant\<close>

text \<open>
  What a thread contributes, read off its own state: \<open>writer\<close> from the successful exchange to the store that frees
  the lock, \<open>readers\<close> the number of its reads the counter has, \<open>owner\<close> while its identifier is in the lock.
\<close>

definition writer :: "rw_thread \<Rightarrow> int" where
  "writer l = (if Write \<in> set (guards l) \<or> pc l \<in> {LW_dec, LW_set, UW_check, UW_count, UW_clear, UW_store} then 1 else 0)"

definition readers :: "rw_thread \<Rightarrow> int" where
  "readers l = (if writer l = 1 then 0 else int (length (guards l)) + (if pc l \<in> {UR_check, UR_dec} then 1 else 0))"

definition owner :: "rw_thread \<Rightarrow> bool" where
  "owner l \<longleftrightarrow> Write \<in> set (guards l) \<or> pc l \<in> {UW_check, UW_count, UW_clear}"

fun lock_free_pc :: "rw_pc \<Rightarrow> bool" where
  "lock_free_pc (LR_wait c) \<longleftrightarrow> c \<noteq> -1"
| "lock_free_pc (LR_cas c) \<longleftrightarrow> c \<noteq> -1"
| "lock_free_pc p \<longleftrightarrow> True"

definition thread_ok :: "rw_thread \<Rightarrow> bool" where
  "thread_ok l \<longleftrightarrow>
     lock_free_pc (pc l) \<and>
     (Write \<in> set (guards l) \<longrightarrow> (\<exists>k. guards l = replicate k Read @ [Write]) \<and> pc l \<in> {Idle, LR_check, UR_check}) \<and>
     (pc l \<in> {LW_dec, LW_set, UW_check, UW_count, UW_clear, UW_store} \<longrightarrow> guards l = [])"

definition rw_inv :: "nat \<Rightarrow> rw_lock \<Rightarrow> bool" where
  "rw_inv n s \<longleftrightarrow>
     (\<forall>t. thread_ok (loc s t)) \<and> (\<forall>t. n \<le> t \<longrightarrow> \<not> owner (loc s t)) \<and>
     (\<forall>t. writeThreadID s = Some t \<longleftrightarrow> owner (loc s t)) \<and>
     lockCount s = (\<Sum>t<n. readers (loc s t)) - (\<Sum>t<n. writer (loc s t)) \<and>
     (\<Sum>t<n. writer (loc s t)) \<le> 1 \<and>
     ((\<Sum>t<n. writer (loc s t)) = 1 \<longrightarrow> (\<Sum>t<n. readers (loc s t)) = 0)"

lemma contributions_nonneg: "0 \<le> writer l" "0 \<le> readers l"
  by (simp_all add: writer_def readers_def)

text \<open>
  One thread moves from \<open>l\<close> to \<open>l'\<close> and the shared fields change with it: the invariant survives when the sums
  still agree, which is arithmetic on the contributions of \<open>l\<close> and \<open>l'\<close>.
\<close>

lemma rw_inv_move:
  assumes inv: "rw_inv n s" and t: "t < n" and loc': "loc s' = (loc s)(t := l')" and ok: "thread_ok l'"
    and id: "\<And>u. writeThreadID s' = Some u \<longleftrightarrow> (if u = t then owner l' else owner (loc s u))"
    and count: "\<And>R W. readers (loc s t) \<le> R \<Longrightarrow> writer (loc s t) \<le> W \<Longrightarrow> lockCount s = R - W \<Longrightarrow> W \<le> 1 \<Longrightarrow>
      (W = 1 \<longrightarrow> R = 0) \<Longrightarrow>
      lockCount s' = (R - readers (loc s t) + readers l') - (W - writer (loc s t) + writer l') \<and>
      W - writer (loc s t) + writer l' \<le> 1 \<and>
      (W - writer (loc s t) + writer l' = 1 \<longrightarrow> R - readers (loc s t) + readers l' = 0)"
  shows "rw_inv n s'"
proof -
  let ?R = "\<Sum>i<n. readers (loc s i)" and ?W = "\<Sum>i<n. writer (loc s i)"
  have "readers (loc s t) \<le> ?R" "writer (loc s t) \<le> ?W"
    using thread_le_sum [OF t, of readers "loc s"] thread_le_sum [OF t, of writer "loc s"] contributions_nonneg by blast+
  note c = count [OF this]
  have sums: "(\<Sum>i<n. readers (loc s' i)) = ?R - readers (loc s t) + readers l'"
    "(\<Sum>i<n. writer (loc s' i)) = ?W - writer (loc s t) + writer l'"
    unfolding loc' by (rule sum_one_thread [OF t])+
  show ?thesis
    unfolding rw_inv_def sums using inv c ok id t by (auto simp: rw_inv_def loc')
qed

lemma rw_inv_init: "rw_init s \<Longrightarrow> rw_inv n s"
proof -
  assume "rw_init s"
  then have s: "s = RWLock_new (writeFirst s)" by (simp add: rw_init_def)
  show "rw_inv n s"
    by (subst s, unfold RWLock_new_def rw_inv_def) (simp add: thread_ok_def owner_def writer_def readers_def)
qed

lemmas contribution_defs = thread_ok_def writer_def readers_def owner_def

lemmas code_defs = rw_tick_def LockRead_def UnLockRead_def LockWrite_def UnLockWrite_def

lemma writer_01: "writer l = 0 \<or> writer l = 1"
  by (simp add: writer_def)

lemma writer_locked:
  assumes "rw_inv n s" "t < n" "writer (loc s t) = 1"
  shows "lockCount s = -1" "(\<Sum>i<n. readers (loc s i)) = 0" "(\<Sum>i<n. writer (loc s i)) = 1"
proof -
  have "writer (loc s t) \<le> (\<Sum>i<n. writer (loc s i))"
    by (rule thread_le_sum [OF assms(2)]) (rule contributions_nonneg)
  then show "lockCount s = -1" "(\<Sum>i<n. readers (loc s i)) = 0" "(\<Sum>i<n. writer (loc s i)) = 1"
    using assms by (auto simp: rw_inv_def)
qed

lemma single_writer:
  assumes "rw_inv n s" "t < n" "u \<noteq> t" "writer (loc s t) = 1"
  shows "\<not> owner (loc s u)"
proof
  assume o: "owner (loc s u)"
  then have "u < n" using assms(1) by (auto simp: rw_inv_def not_le [symmetric])
  moreover have "writer (loc s u) = 1" using o by (auto simp: owner_def writer_def)
  ultimately show False
    using two_threads_le_sum [OF assms(2) \<open>u < n\<close> assms(3) [symmetric], of writer "loc s"]
      writer_locked(3) [OF assms(1,2,4)] assms(4) contributions_nonneg by simp
qed

lemma rw_inv_facts:
  assumes "rw_inv n s"
  shows "thread_ok (loc s t)" "writeThreadID s = Some t \<longleftrightarrow> owner (loc s t)"
  using assms by (auto simp: rw_inv_def)

text \<open>Nothing shared changes, or only the number of waiting writers.\<close>

lemma rw_inv_same:
  assumes inv: "rw_inv n s" and t: "t < n" and loc': "loc s' = (loc s)(t := l')" and ok: "thread_ok l'"
    and same: "lockCount s' = lockCount s" "writeThreadID s' = writeThreadID s"
      "readers l' = readers (loc s t)" "writer l' = writer (loc s t)" "owner l' = owner (loc s t)"
  shows "rw_inv n s'"
  by (rule rw_inv_move [OF inv t loc' ok]) (use same rw_inv_facts(2) [OF inv] in auto)

lemma rw_inv_goto:
  assumes "rw_inv n s" "t < n" "loc s t = \<lparr>pc = q, guards = gs\<rparr>" "thread_ok \<lparr>pc = p, guards = gs\<rparr>"
    "readers \<lparr>pc = p, guards = gs\<rparr> = readers \<lparr>pc = q, guards = gs\<rparr>"
    "writer \<lparr>pc = p, guards = gs\<rparr> = writer \<lparr>pc = q, guards = gs\<rparr>"
    "owner \<lparr>pc = p, guards = gs\<rparr> = owner \<lparr>pc = q, guards = gs\<rparr>"
  shows "rw_inv n (goto t p s)" "rw_inv n (goto t p (s\<lparr>writeWaitCount := k\<rparr>))"
  by (rule rw_inv_same [OF assms(1,2), of _ "\<lparr>pc = p, guards = gs\<rparr>"]; simp add: goto_def assms)+

lemma LockRead_inv:
  assumes inv: "rw_inv n s" and t: "t < n" and l: "loc s t = \<lparr>pc = p, guards = gs\<rparr>"
  shows "rw_inv n (LockRead t spurious s)"
proof -
  note f = rw_inv_facts [OF inv, of t, unfolded l]
  note g = rw_inv_goto(1) [OF inv t l]
  show ?thesis
  proof (cases p)
    case LR_check
    show ?thesis
    proof (cases "writeThreadID s = Some t")
      case True
      then have w: "Write \<in> set gs" using f(2) LR_check by (simp add: owner_def)
      then obtain k where "gs = replicate k Read @ [Write]" using f(1) by (auto simp: thread_ok_def)
      then have k: "Read # gs = replicate (Suc k) Read @ [Write]" by simp
      have "rw_inv n (acquired t Read s)"
        by (rule rw_inv_same [OF inv t, of _ "\<lparr>pc = Idle, guards = Read # gs\<rparr>"])
           (use w k l LR_check in \<open>auto simp: acquired_def contribution_defs intro: exI [of _ "Suc k"]\<close>)
      with True l LR_check show ?thesis by (simp add: LockRead_def)
    next
      case False
      then have "Write \<notin> set gs" using f(2) LR_check by (simp add: owner_def)
      then have "rw_inv n (goto t LR_load s)"
        using LR_check by (intro g) (simp_all add: contribution_defs)
      with False l LR_check show ?thesis by (simp add: LockRead_def)
    qed
  next
    case LR_load
    have "rw_inv n (goto t (LR_wait c) s)" "rw_inv n (goto t (LR_cas c) s)" if "c \<noteq> -1" for c
      using LR_load f(1) that by (intro g; simp add: contribution_defs)+
    with inv l LR_load show ?thesis by (simp add: LockRead_def Let_def)
  next
    case (LR_wait c)
    have "rw_inv n (goto t LR_load s)" "rw_inv n (goto t (LR_cas c) s)"
      using LR_wait f(1) by (intro g; simp add: contribution_defs)+
    with l LR_wait show ?thesis by (simp add: LockRead_def)
  next
    case (LR_cas c)
    then have w: "Write \<notin> set gs" "c \<noteq> -1" using f(1) by (auto simp: thread_ok_def)
    have "rw_inv n (acquired t Read (s\<lparr>lockCount := c + 1\<rparr>))" if "lockCount s = c"
      by (rule rw_inv_move [OF inv t, of _ "\<lparr>pc = Idle, guards = Read # gs\<rparr>"])
         (use that w l LR_cas rw_inv_facts(2) [OF inv] in \<open>auto simp: acquired_def contribution_defs\<close>)
    moreover have "rw_inv n (goto t LR_load s)"
      using LR_cas w by (intro g) (simp_all add: contribution_defs)
    ultimately show ?thesis using l LR_cas by (simp add: LockRead_def)
  qed (use inv l in \<open>auto simp: LockRead_def\<close>)
qed

lemma UnLockRead_inv:
  assumes inv: "rw_inv n s" and t: "t < n" and l: "loc s t = \<lparr>pc = p, guards = gs\<rparr>"
  shows "rw_inv n (UnLockRead t s)"
proof -
  note f = rw_inv_facts [OF inv, of t, unfolded l]
  note g = rw_inv_goto(1) [OF inv t l]
  show ?thesis
  proof (cases p)
    case UR_check
    then have o: "writeThreadID s = Some t \<longleftrightarrow> Write \<in> set gs" using f(2) by (simp add: owner_def)
    have "rw_inv n (goto t UR_dec s)" if "Write \<notin> set gs"
      using UR_check that by (intro g) (simp_all add: contribution_defs)
    moreover have "rw_inv n (goto t Idle s)" if "Write \<in> set gs"
      using UR_check that f(1) by (intro g) (simp_all add: contribution_defs)
    ultimately show ?thesis using l UR_check o by (simp add: UnLockRead_def)
  next
    case UR_dec
    then have w: "Write \<notin> set gs" using f(1) by (auto simp: thread_ok_def)
    have "rw_inv n (goto t Idle (s\<lparr>lockCount := lockCount s - 1\<rparr>))"
      by (rule rw_inv_move [OF inv t, of _ "\<lparr>pc = Idle, guards = gs\<rparr>"])
         (use w l UR_dec rw_inv_facts(2) [OF inv] in \<open>auto simp: goto_def contribution_defs\<close>)
    then show ?thesis using l UR_dec by (simp add: UnLockRead_def)
  qed (use inv l in \<open>auto simp: UnLockRead_def\<close>)
qed

lemma LockWrite_inv:
  assumes inv: "rw_inv n s" and t: "t < n" and l: "loc s t = \<lparr>pc = p, guards = gs\<rparr>"
  shows "rw_inv n (LockWrite t spurious s)"
proof -
  note f = rw_inv_facts [OF inv, of t, unfolded l]
  note g = rw_inv_goto [OF inv t l]
  show ?thesis
  proof (cases p)
    case LW_check
    then have w: "Write \<notin> set gs" using f(1) by (auto simp: thread_ok_def)
    then have "writeThreadID s \<noteq> Some t" using f(2) LW_check by (simp add: owner_def)
    moreover have "rw_inv n (goto t LW_inc s)"
      using LW_check w by (intro g(1)) (simp_all add: contribution_defs)
    ultimately show ?thesis using l LW_check by (simp add: LockWrite_def)
  next
    case LW_inc
    then have w: "Write \<notin> set gs" using f(1) by (auto simp: thread_ok_def)
    then have "rw_inv n (goto t LW_cas (s\<lparr>writeWaitCount := writeWaitCount s + 1\<rparr>))"
      using LW_inc by (intro g(2)) (simp_all add: contribution_defs)
    then show ?thesis using l LW_inc by (simp add: LockWrite_def)
  next
    case LW_cas
    then have w: "Write \<notin> set gs" using f(1) by (auto simp: thread_ok_def)
    have "rw_inv n (goto t LW_dec (s\<lparr>lockCount := -1\<rparr>))" if z: "lockCount s = 0"
    proof (cases "gs = []")
      case True
      show ?thesis
        by (rule rw_inv_move [OF inv t, of _ "\<lparr>pc = LW_dec, guards = gs\<rparr>"])
           (use z True l LW_cas rw_inv_facts(2) [OF inv] in \<open>auto simp: goto_def contribution_defs\<close>)
    next
      case False
      have "0 < readers (loc s t)"
        using False w l LW_cas by (simp add: readers_def writer_def)
      moreover have "readers (loc s t) \<le> (\<Sum>i<n. readers (loc s i))"
        by (rule thread_le_sum [OF t]) (rule contributions_nonneg)
      ultimately show ?thesis using inv z by (simp add: rw_inv_def)
    qed
    then show ?thesis using l LW_cas inv by (simp add: LockWrite_def)
  next
    case LW_dec
    then have "gs = []" using f(1) by (simp add: thread_ok_def)
    then have "rw_inv n (goto t LW_set (s\<lparr>writeWaitCount := writeWaitCount s - 1\<rparr>))"
      using LW_dec by (intro g(2)) (simp_all add: contribution_defs)
    then show ?thesis using l LW_dec by (simp add: LockWrite_def)
  next
    case LW_set
    then have gs: "gs = []" using f(1) by (simp add: thread_ok_def)
    have others: "\<not> owner (loc s u)" if "u \<noteq> t" for u
      using single_writer [OF inv t that] l LW_set by (simp add: writer_def)
    have "rw_inv n (acquired t Write (s\<lparr>writeThreadID := Some t\<rparr>))"
      by (rule rw_inv_move [OF inv t, of _ "\<lparr>pc = Idle, guards = [Write]\<rparr>"])
         (use gs l LW_set others in \<open>auto simp: acquired_def contribution_defs\<close>)
    then show ?thesis using l LW_set by (simp add: LockWrite_def)
  qed (use inv l in \<open>auto simp: LockWrite_def\<close>)
qed

lemma UnLockWrite_inv:
  assumes inv: "rw_inv n s" and t: "t < n" and l: "loc s t = \<lparr>pc = p, guards = gs\<rparr>"
  shows "rw_inv n (UnLockWrite t s)"
proof -
  note f = rw_inv_facts [OF inv, of t, unfolded l]
  note g = rw_inv_goto(1) [OF inv t l]
  have gs: "gs = []" if "p \<in> {UW_check, UW_count, UW_clear, UW_store}"
    using f(1) that by (auto simp: thread_ok_def)
  show ?thesis
  proof (cases p)
    case UW_check
    then have "rw_inv n (goto t UW_count s)"
      using gs by (intro g) (simp_all add: contribution_defs)
    then show ?thesis using f(2) l UW_check by (simp add: UnLockWrite_def owner_def)
  next
    case UW_count
    then have "rw_inv n (goto t UW_clear s)"
      using gs by (intro g) (simp_all add: contribution_defs)
    moreover have "lockCount s = -1"
      using writer_locked [OF inv t] l UW_count by (simp add: writer_def)
    ultimately show ?thesis using l UW_count by (simp add: UnLockWrite_def)
  next
    case UW_clear
    have others: "\<not> owner (loc s u)" if "u \<noteq> t" for u
      using single_writer [OF inv t that] l UW_clear by (simp add: writer_def)
    have "rw_inv n (goto t UW_store (s\<lparr>writeThreadID := None\<rparr>))"
      by (rule rw_inv_move [OF inv t, of _ "\<lparr>pc = UW_store, guards = []\<rparr>"])
         (use gs l UW_clear others in \<open>auto simp: goto_def contribution_defs\<close>)
    then show ?thesis using l UW_clear by (simp add: UnLockWrite_def)
  next
    case UW_store
    have "rw_inv n (goto t Idle (s\<lparr>lockCount := 0\<rparr>))"
      by (rule rw_inv_move [OF inv t, of _ "\<lparr>pc = Idle, guards = []\<rparr>"])
         (use gs l UW_store rw_inv_facts(2) [OF inv] in \<open>auto simp: goto_def contribution_defs\<close>)
    then show ?thesis using l UW_store by (simp add: UnLockWrite_def)
  qed (use inv l in \<open>auto simp: UnLockWrite_def\<close>)
qed

lemma rw_tick_inv:
  assumes "rw_inv n s" "t < n"
  shows "rw_inv n (rw_tick t spurious s)"
proof -
  obtain p gs where l: "loc s t = \<lparr>pc = p, guards = gs\<rparr>" by (cases "loc s t") auto
  note steps = LockRead_inv [OF assms l] UnLockRead_inv [OF assms l] LockWrite_inv [OF assms l] UnLockWrite_inv [OF assms l]
  show ?thesis
    unfolding rw_tick_def l rw_thread.simps using steps assms(1) by (cases p) (simp_all only: rw_pc.simps)
qed

lemma rw_call_inv:
  assumes inv: "rw_inv n s" and t: "t < n" and c: "rw_call_step t c s = Some s'"
    and disc: "c = Open Write \<Longrightarrow> Write \<notin> set (guards (loc s t))"
  shows "rw_inv n s'"
proof -
  obtain p gs where l: "loc s t = \<lparr>pc = p, guards = gs\<rparr>" by (cases "loc s t") auto
  have p: "p = Idle" using c l by (cases "(t, c, s)" rule: rw_call_step.cases) (auto split: if_splits)
  note f = rw_inv_facts [OF inv, of t, unfolded l]
  show ?thesis
  proof (cases c)
    case (Open g)
    have "rw_inv n (goto t LR_check s)"
      using p f(1) by (intro rw_inv_goto(1) [OF inv t l]) (simp_all add: contribution_defs)
    moreover have "rw_inv n (goto t LW_check s)" if "g = Write"
      using p disc Open that l by (intro rw_inv_goto(1) [OF inv t l]) (simp_all add: contribution_defs)
    ultimately show ?thesis using c Open l p by (cases g) auto
  next
    case Close
    then obtain g gs' where gs: "gs = g # gs'" and
      s': "s' = s\<lparr>loc := (loc s)(t := \<lparr>pc = (case g of Read \<Rightarrow> UR_check | Write \<Rightarrow> UW_check), guards = gs'\<rparr>)\<rparr>"
      using c l by (auto split: if_splits list.splits)
    show ?thesis
    proof (cases "Write \<in> set gs")
      case True
      then obtain k where k: "gs = replicate k Read @ [Write]" using f(1) by (auto simp: thread_ok_def)
      show ?thesis
        by (rule rw_inv_same [OF inv t, of s' "\<lparr>pc = (case g of Read \<Rightarrow> UR_check | Write \<Rightarrow> UW_check), guards = gs'\<rparr>"])
           (use k gs l p s' in \<open>cases k; auto simp: contribution_defs\<close>)+
    next
      case False
      then have "g = Read" using gs by (cases g) auto
      then show ?thesis
        by (intro rw_inv_same [OF inv t, of s' "\<lparr>pc = UR_check, guards = gs'\<rparr>"])
           (use False gs l p s' in \<open>auto simp: contribution_defs\<close>)
    qed
  qed
qed

interpretation rw: inductive_invariant rw_init "rw_step False n" "rw_inv n" for n
proof
  show "rw_inv n s" if "rw_init s" for s
    using that by (rule rw_inv_init)
  show "rw_inv n s'" if "rw_inv n s" "rw_step False n s s'" for s s'
    using that(2,1) by cases (auto intro: rw_tick_inv rw_call_inv)
qed

section \<open>Properties\<close>

lemma write_guard_alone:
  assumes "reach rw_init (rw_step False n) s" "t < n" "u < n" "t \<noteq> u" "Write \<in> set (guards (loc s t))"
  shows "guards (loc s u) = [] \<and> lockCount s = LOCK_STATUS_WRITE"
proof -
  have inv: "rw_inv n s" by (rule rw.always [OF assms(1)])
  have t: "writer (loc s t) = 1" using assms(5) by (simp add: writer_def)
  have "readers (loc s u) \<le> (\<Sum>i<n. readers (loc s i))"
    by (rule thread_le_sum [OF assms(3)]) (rule contributions_nonneg)
  then have r: "readers (loc s u) = 0"
    using writer_locked(2) [OF inv assms(2) t] contributions_nonneg(2) [of "loc s u"] by simp
  have "writer (loc s t) + writer (loc s u) \<le> 1"
    using two_threads_le_sum [OF assms(2-4), of writer "loc s"] writer_locked(3) [OF inv assms(2) t]
      contributions_nonneg by simp
  then have "writer (loc s u) = 0" using t writer_01 [of "loc s u"] by simp
  with r have "guards (loc s u) = []" by (auto simp: readers_def split: if_splits)
  with writer_locked(1) [OF inv assms(2) t] show ?thesis by simp
qed

text \<open>Runs by a schedule of ticks and calls.\<close>

datatype rw_event = Tick nat | Call nat rw_call

fun rw_event_step :: "rw_event \<Rightarrow> rw_lock \<Rightarrow> rw_lock option" where
  "rw_event_step (Tick t) s = Some (rw_tick t False s)"
| "rw_event_step (Call t c) s = rw_call_step t c s"

fun rw_event_ok :: "bool \<Rightarrow> nat \<Rightarrow> rw_event \<Rightarrow> rw_lock \<Rightarrow> bool" where
  "rw_event_ok free n (Tick t) s \<longleftrightarrow> t < n"
| "rw_event_ok free n (Call t c) s \<longleftrightarrow> t < n \<and> (c = Open Write \<longrightarrow> free \<or> Write \<notin> set (guards (loc s t)))"

fun rw_run :: "bool \<Rightarrow> nat \<Rightarrow> rw_event list \<Rightarrow> rw_lock \<Rightarrow> rw_lock option" where
  "rw_run free n [] s = Some s"
| "rw_run free n (e # es) s =
     (if rw_event_ok free n e s then do { s' \<leftarrow> rw_event_step e s; rw_run free n es s' } else None)"

lemma rw_run_reach:
  "reach rw_init (rw_step free n) s \<Longrightarrow> rw_run free n es s = Some s' \<Longrightarrow> reach rw_init (rw_step free n) s'"
proof (induction es arbitrary: s)
  case (Cons e es)
  from Cons.prems(2) obtain s1 where ok: "rw_event_ok free n e s" and e: "rw_event_step e s = Some s1"
    and es: "rw_run free n es s1 = Some s'" by (auto split: if_splits bind_splits)
  have "rw_step free n s s1"
    using ok e by (cases e) (auto intro: rw_step.intros)
  then show ?case by (rule Cons.IH [OF reach.more [OF Cons.prems(1)] es])
qed simp

lemma RWLock_new_reach: "reach rw_init (rw_step free n) (RWLock_new first)"
  by (rule reach.start) (simp add: rw_init_def RWLock_new_def)

lemma rw_run_append:
  "rw_run free n (es @ fs) s = Option.bind (rw_run free n es s) (rw_run free n fs)"
  by (induction es arbitrary: s) (auto split: bind_split)

text \<open>A lock between operations, with the guards of the first two threads.\<close>

definition quiet :: "nat option \<Rightarrow> int \<Rightarrow> guard list \<Rightarrow> guard list \<Rightarrow> rw_lock" where
  "quiet i k gs hs = \<lparr>writeFirst = True, writeThreadID = i, lockCount = k, writeWaitCount = 0,
     loc = (\<lambda>_. \<lparr>pc = Idle, guards = []\<rparr>)(0 := \<lparr>pc = Idle, guards = gs\<rparr>, 1 := \<lparr>pc = Idle, guards = hs\<rparr>)\<rparr>"

definition open_write :: "nat \<Rightarrow> rw_event list" where
  "open_write t = Call t (Open Write) # replicate 5 (Tick t)"

lemma write_runs:
  "rw_run free 2 (open_write 0) (RWLock_new True) = Some (quiet (Some 0) (-1) [Write] [])"
  "rw_run True 2 [Call 0 (Open Write), Tick 0] (quiet (Some 0) (-1) [Write] []) = Some (quiet (Some 0) (-1) [Write, Write] [])"
  "rw_run True 2 [Call 0 Close, Tick 0, Tick 0, Tick 0, Tick 0] (quiet (Some 0) (-1) [Write, Write] [])
     = Some (quiet None 0 [Write] [])"
  "rw_run True 2 (open_write 1) (quiet None 0 [Write] []) = Some (quiet (Some 1) (-1) [Write] [Write])"
  by (simp add: open_write_def quiet_def RWLock_new_def code_defs goto_def acquired_def numeral_eq_Suc fun_eq_iff)+

lemma nested_write_guard_breaks_exclusion:
  "\<exists>s. reach rw_init (rw_step True 2) s \<and> guards (loc s 0) = [Write] \<and> guards (loc s 1) = [Write]"
proof -
  have "rw_run True 2 (open_write 0 @ [Call 0 (Open Write), Tick 0] @ [Call 0 Close, Tick 0, Tick 0, Tick 0, Tick 0]
      @ open_write 1) (RWLock_new True) = Some (quiet (Some 1) (-1) [Write] [Write])"
    by (simp only: rw_run_append write_runs bind.bind_lunit)
  from rw_run_reach [OF RWLock_new_reach this] show ?thesis
    by (intro exI [of _ "quiet (Some 1) (-1) [Write] [Write]"]) (simp add: quiet_def)
qed

text \<open>
  C18. Mutual exclusion. Whatever the interleaving of any number of threads, with either priority and with spurious
  failures of the exchange, as long as no thread opens a write guard inside a write guard of its own: while a thread
  holds a write guard no other thread holds any guard, and the counter is then \<^verbatim>\<open>LOCK_STATUS_WRITE\<close>. Without that
  discipline the exclusion fails: \<^verbatim>\<open>LockWrite\<close> lets the owner enter again without counting, so the first
  \<^verbatim>\<open>UnLockWrite\<close> frees the lock although the outer guard is still open, and two threads hold write guards at once.
\<close>

theorem rwlock_mutual_exclusion:
  assumes "reach rw_init (rw_step False n) s" "t < n" "u < n" "t \<noteq> u" "Write \<in> set (guards (loc s t))"
  shows "guards (loc s u) = [] \<and> lockCount s = LOCK_STATUS_WRITE
    \<and> (\<exists>s'. reach rw_init (rw_step True 2) s' \<and> guards (loc s' 0) = [Write] \<and> guards (loc s' 1) = [Write])"
  using write_guard_alone [OF assms] nested_write_guard_breaks_exclusion by blast

lemma rwlock_mutual_exclusion_witness:
  "guards (loc (quiet (Some 0) (-1) [Write] []) 1) = [] \<and> lockCount (quiet (Some 0) (-1) [Write] []) = LOCK_STATUS_WRITE"
  using rwlock_mutual_exclusion [OF rw_run_reach [OF RWLock_new_reach write_runs(1)], of 0 1]
  by (simp add: quiet_def)

end
