(* ===== verification/Semaphore_Ex.thy ===== *)
theory Semaphore_Ex
  imports CUtils_Prelude
begin

text \<open>
  The counting semaphore (\<^verbatim>\<open>base/src/semaphore_ex.cpp\<close>). Under its mutex, \<^verbatim>\<open>Wait\<close> and \<^verbatim>\<open>Post\<close> are atomic up to
  the wait on the condition variable. Threads are counted by where they are: blocked in \<^verbatim>\<open>cv_.wait\<close>, notified but
  not yet returned, or returned from \<^verbatim>\<open>Wait\<close>; the number of posts is kept too. The standard allows a blocked
  thread to return from \<^verbatim>\<open>cv_.wait\<close> without a notification; \<open>spurious\<close> tells whether that happens.
\<close>

record sem =
  count :: int
  blocked :: nat
  notified :: nat
  entered :: nat
  posts :: nat

definition Semaphore_new :: "int \<Rightarrow> sem" where
  "Semaphore_new val = \<lparr>count = val, blocked = 0, notified = 0, entered = 0, posts = 0\<rparr>"

definition sem_Wait :: "sem \<Rightarrow> sem" where
  "sem_Wait s =
     (let s1 = s\<lparr>count := count s - 1\<rparr>
      in if count s1 < 0 then s1\<lparr>blocked := blocked s1 + 1\<rparr> else s1\<lparr>entered := entered s1 + 1\<rparr>)"

definition notify_one :: "sem \<Rightarrow> sem" where
  "notify_one s = (if blocked s > 0 then s\<lparr>blocked := blocked s - 1, notified := notified s + 1\<rparr> else s)"

definition sem_Post :: "sem \<Rightarrow> sem" where
  "sem_Post s =
     (let s1 = s\<lparr>count := count s + 1, posts := posts s + 1\<rparr>
      in if count s1 \<le> 0 then notify_one s1 else s1)"

inductive sem_step :: "bool \<Rightarrow> sem \<Rightarrow> sem \<Rightarrow> bool" for spurious where
  wait: "sem_step spurious s (sem_Wait s)"
| post: "sem_step spurious s (sem_Post s)"
| resume: "0 < notified s \<Longrightarrow> sem_step spurious s (s\<lparr>notified := notified s - 1, entered := entered s + 1\<rparr>)"
| wake: "spurious \<Longrightarrow> 0 < blocked s \<Longrightarrow> sem_step spurious s (s\<lparr>blocked := blocked s - 1, entered := entered s + 1\<rparr>)"

definition sem_inv :: "int \<Rightarrow> sem \<Rightarrow> bool" where
  "sem_inv v s \<longleftrightarrow>
     int (entered s) + int (notified s) = v + int (posts s) - max 0 (count s) \<and> int (blocked s) = max 0 (- count s)"

lemma sem_Wait_inv: "sem_inv v s \<Longrightarrow> sem_inv v (sem_Wait s)"
  by (auto simp: sem_inv_def sem_Wait_def Let_def max_def split: if_splits)

lemma sem_Post_inv: "sem_inv v s \<Longrightarrow> sem_inv v (sem_Post s)"
  by (auto simp: sem_inv_def sem_Post_def notify_one_def Let_def max_def split: if_splits)

interpretation semaphore: inductive_invariant "\<lambda>s. s = Semaphore_new v \<and> 0 \<le> v" "sem_step False" "sem_inv v" for v
proof
  show "sem_inv v s" if "s = Semaphore_new v \<and> 0 \<le> v" for s
    using that by (auto simp: sem_inv_def Semaphore_new_def)
  show "sem_inv v s'" if "sem_inv v s" "sem_step False s s'" for s s'
    using that(2,1) by cases (auto simp: sem_Wait_inv sem_Post_inv, auto simp: sem_inv_def)
qed

text \<open>
  A semaphore created with a non-negative value lets threads pass exactly as permits allow. In every
  interleaving without spurious wake-ups the threads that have passed or been notified number the initial value
  plus the posts less the permits left, and a thread blocks only while no permit is left, so no wake-up is lost. A
  spurious wake-up breaks this, since \<^verbatim>\<open>Wait\<close> does not check again: a thread passes a semaphore that has no permit.
\<close>

theorem semaphore_permits:
  assumes "reach (\<lambda>s. s = Semaphore_new v \<and> 0 \<le> v) (sem_step False) s"
  shows "(int (entered s) + int (notified s) = v + int (posts s) - max 0 (count s) \<and> int (blocked s) = max 0 (- count s))
    \<and> (\<exists>s'. reach (\<lambda>s. s = Semaphore_new 0) (sem_step True) s' \<and> entered s' = 1 \<and> posts s' = 0)"
proof
  show "int (entered s) + int (notified s) = v + int (posts s) - max 0 (count s) \<and> int (blocked s) = max 0 (- count s)"
    using semaphore.always [OF assms] by (simp add: sem_inv_def)
  let ?s = "sem_Wait (Semaphore_new 0)"
  let ?w = "?s\<lparr>blocked := blocked ?s - 1, entered := entered ?s + 1\<rparr>"
  have "reach (\<lambda>s. s = Semaphore_new 0) (sem_step True) ?s"
    by (rule reach.more, rule reach.start, simp, rule sem_step.wait)
  moreover have "sem_step True ?s ?w"
    by (rule sem_step.wake) (simp_all add: sem_Wait_def Semaphore_new_def)
  ultimately show "\<exists>s'. reach (\<lambda>s. s = Semaphore_new 0) (sem_step True) s' \<and> entered s' = 1 \<and> posts s' = 0"
    by (intro exI [of _ ?w] conjI) (rule reach.more, assumption, assumption, simp_all add: sem_Wait_def Semaphore_new_def)
qed

lemma semaphore_permits_witness:
  "(int (entered (sem_Wait (Semaphore_new 1))) + int (notified (sem_Wait (Semaphore_new 1)))
      = 1 + int (posts (sem_Wait (Semaphore_new 1))) - max 0 (count (sem_Wait (Semaphore_new 1)))
    \<and> int (blocked (sem_Wait (Semaphore_new 1))) = max 0 (- count (sem_Wait (Semaphore_new 1))))
   \<and> (\<exists>s'. reach (\<lambda>s. s = Semaphore_new 0) (sem_step True) s' \<and> entered s' = 1 \<and> posts s' = 0)"
proof (rule semaphore_permits)
  show "reach (\<lambda>s. s = Semaphore_new 1 \<and> 0 \<le> (1 :: int)) (sem_step False) (sem_Wait (Semaphore_new 1))"
    by (rule reach.more, rule reach.start, simp, rule sem_step.wait)
qed

end
