(* ===== verification/Safe_Containers.thy ===== *)
theory Safe_Containers
  imports CUtils_Prelude "HOL-Library.Multiset"
begin

text \<open>
  The lock-protected containers \<^verbatim>\<open>SafeMap\<close> (\<^verbatim>\<open>base/include/safe_map.h\<close>), \<^verbatim>\<open>SafeQueue\<close> and \<^verbatim>\<open>SafeStack\<close>
  (\<^verbatim>\<open>base/include/safe_queue.h\<close>). Every operation holds the mutex from its first to its last access, so an
  interleaving of threads is a sequence of whole operations. A \<^verbatim>\<open>std::map\<close> is its list of entries in key order, a
  \<^verbatim>\<open>std::deque\<close> its list of elements.
\<close>

section \<open>The map\<close>

type_synonym ('k, 'v) std_map = "('k \<times> 'v) list"

fun map_find :: "'k \<Rightarrow> ('k, 'v) std_map \<Rightarrow> 'v option" where
  "map_find k [] = None"
| "map_find k ((k', v) # m) = (if k' = k then Some v else map_find k m)"

text \<open>\<^verbatim>\<open>std::map::insert\<close> keeps an entry that is there; the result tells whether it inserted.\<close>

fun map_insert :: "'k::linorder \<Rightarrow> 'v \<Rightarrow> ('k, 'v) std_map \<Rightarrow> bool \<times> ('k, 'v) std_map" where
  "map_insert k v [] = (True, [(k, v)])"
| "map_insert k v ((k', v') # m) =
     (if k < k' then (True, (k, v) # (k', v') # m)
      else if k = k' then (False, (k', v') # m)
      else let (r, m') = map_insert k v m in (r, (k', v') # m'))"

definition map_erase :: "'k \<Rightarrow> ('k, 'v) std_map \<Rightarrow> ('k, 'v) std_map" where
  "map_erase k m = filter (\<lambda>(k', _). k' \<noteq> k) m"

text \<open>\<^verbatim>\<open>map_[key]\<close> inserts a default value where the key is absent, then the reference is used.\<close>

definition map_subscript :: "'v \<Rightarrow> 'k::linorder \<Rightarrow> ('k, 'v) std_map \<Rightarrow> 'v \<times> ('k, 'v) std_map" where
  "map_subscript dflt k m =
     (case map_find k m of Some v \<Rightarrow> (v, m) | None \<Rightarrow> (dflt, snd (map_insert k dflt m)))"

definition SafeMap_assign :: "bool \<Rightarrow> ('k, 'v) std_map \<Rightarrow> ('k, 'v) std_map \<Rightarrow> ('k, 'v) std_map" where
  "SafeMap_assign same rhs m = (if same then m else rhs)"

definition ReadVal :: "'v \<Rightarrow> 'k::linorder \<Rightarrow> ('k, 'v) std_map \<Rightarrow> 'v \<times> ('k, 'v) std_map" where
  "ReadVal dflt key m = map_subscript dflt key m"

definition ChangeValueByLambda :: "'v \<Rightarrow> 'k::linorder \<Rightarrow> ('v \<Rightarrow> 'v) \<Rightarrow> ('k, 'v) std_map \<Rightarrow> ('k, 'v) std_map" where
  "ChangeValueByLambda dflt key callback m =
     (let (v, m1) = map_subscript dflt key m
      in map (\<lambda>(k, w). (k, if k = key then callback v else w)) m1)"

definition SafeMap_Size :: "('k, 'v) std_map \<Rightarrow> nat" where
  "SafeMap_Size m = length m"

definition SafeMap_IsEmpty :: "('k, 'v) std_map \<Rightarrow> bool" where
  "SafeMap_IsEmpty m \<longleftrightarrow> m = []"

definition SafeMap_Insert :: "'k::linorder \<Rightarrow> 'v \<Rightarrow> ('k, 'v) std_map \<Rightarrow> bool \<times> ('k, 'v) std_map" where
  "SafeMap_Insert key val m = map_insert key val m"

definition EnsureInsert :: "'k::linorder \<Rightarrow> 'v \<Rightarrow> ('k, 'v) std_map \<Rightarrow> ('k, 'v) std_map" where
  "EnsureInsert key val m =
     (let (ret, m1) = map_insert key val m
      in if \<not> ret then snd (map_insert key val (map_erase key m1)) else m1)"

text \<open>The result, and the output argument afterwards.\<close>

definition SafeMap_Find :: "'k \<Rightarrow> 'v \<Rightarrow> ('k, 'v) std_map \<Rightarrow> bool \<times> 'v" where
  "SafeMap_Find key val m = (case map_find key m of Some v \<Rightarrow> (True, v) | None \<Rightarrow> (False, val))"

definition FindOldAndSetNew ::
    "'k::linorder \<Rightarrow> 'v \<Rightarrow> 'v \<Rightarrow> ('k, 'v) std_map \<Rightarrow> (bool \<times> 'v) \<times> ('k, 'v) std_map" where
  "FindOldAndSetNew key oldValue newValue m =
     (if length m > 0 then
        (case map_find key m of
           Some v \<Rightarrow> ((True, v), snd (map_insert key newValue (map_erase key m)))
         | None \<Rightarrow> ((False, oldValue), m))
      else ((False, oldValue), m))"

definition SafeMap_Erase :: "'k \<Rightarrow> ('k, 'v) std_map \<Rightarrow> ('k, 'v) std_map" where
  "SafeMap_Erase key m = map_erase key m"

definition SafeMap_Clear :: "('k, 'v) std_map \<Rightarrow> ('k, 'v) std_map" where
  "SafeMap_Clear m = []"

definition SafeMap_Iterate :: "('k \<Rightarrow> 'v \<Rightarrow> 'v) \<Rightarrow> ('k, 'v) std_map \<Rightarrow> ('k, 'v) std_map" where
  "SafeMap_Iterate callback m = (if m \<noteq> [] then map (\<lambda>(k, v). (k, callback k v)) m else m)"

subsection \<open>Refinement of a partial function\<close>

definition map_inv :: "('k::linorder, 'v) std_map \<Rightarrow> bool" where
  "map_inv m \<longleftrightarrow> sorted_wrt (<) (map fst m)"

lemma map_find_map_of: "map_find k m = map_of m k"
  by (induction m) auto

lemma map_inv_distinct: "map_inv m \<Longrightarrow> distinct (map fst m)"
  by (auto simp: map_inv_def strict_sorted_iff)

lemma map_insert_keys: "set (map fst (snd (map_insert k v m))) = insert k (set (map fst m))"
  by (induction k v m rule: map_insert.induct) (auto simp: split_beta)

lemma map_insert_inv: "map_inv m \<Longrightarrow> map_inv (snd (map_insert k v m))"
proof (induction k v m rule: map_insert.induct)
  case (2 k v k' v' m)
  have "\<forall>x \<in> set (map fst (snd (map_insert k v m))). k' < x" if "k' < k"
    using 2(2) that unfolding map_insert_keys by (auto simp: map_inv_def)
  with 2 show ?case
    by (auto simp: map_inv_def split_beta not_less_iff_gr_or_eq)
qed (simp add: map_inv_def)

lemma map_insert_of:
  assumes "map_inv m"
  shows "fst (map_insert k v m) \<longleftrightarrow> map_of m k = None"
    "map_of (snd (map_insert k v m)) = (if map_of m k = None then (map_of m)(k \<mapsto> v) else map_of m)"
proof -
  have "(fst (map_insert k v m) \<longleftrightarrow> map_of m k = None) \<and>
    map_of (snd (map_insert k v m)) = (if map_of m k = None then (map_of m)(k \<mapsto> v) else map_of m)"
    using assms
  proof (induction k v m rule: map_insert.induct)
    case (2 k v k' v' m)
    have "map_of m k = None" if "k < k'"
      using 2(2) that by (force simp: map_inv_def map_of_eq_None_iff)
    with 2 show ?case
      by (auto simp: split_beta map_inv_def fun_upd_twist)
  qed auto
  then show "fst (map_insert k v m) \<longleftrightarrow> map_of m k = None"
    "map_of (snd (map_insert k v m)) = (if map_of m k = None then (map_of m)(k \<mapsto> v) else map_of m)"
    by blast+
qed

lemma map_erase_inv: "map_inv m \<Longrightarrow> map_inv (map_erase k m)"
  by (induction m) (auto simp: map_inv_def map_erase_def)

lemma map_erase_of: "map_of (map_erase k m) = (map_of m)(k := None)"
  by (induction m) (auto simp: map_erase_def)

lemma map_values_of: "map_of (map (\<lambda>(k, v). (k, f k v)) m) = (\<lambda>k. map_option (f k) (map_of m k))"
  by (induction m) auto

lemma map_values_inv: "map_inv m \<Longrightarrow> map_inv (map (\<lambda>(k, v). (k, f k v)) m)"
  by (simp add: map_inv_def comp_def split_beta)

lemma map_size: "map_inv m \<Longrightarrow> length m = card (dom (map_of m))"
  by (metis map_inv_distinct distinct_card dom_map_of_conv_image_fst length_map list.set_map)

text \<open>The calls of a client, and what they mean on a partial function.\<close>

datatype ('k, 'v) map_op =
  MRead 'k | MChange 'k "'v \<Rightarrow> 'v" | MSize | MIsEmpty | MInsert 'k 'v | MEnsure 'k 'v | MFind 'k 'v
  | MReplace 'k 'v 'v | MErase 'k | MClear | MIterate "'k \<Rightarrow> 'v \<Rightarrow> 'v"

datatype 'v map_result = RNone | RBool bool | RNat nat | RVal 'v | RFound bool 'v

fun map_impl :: "'v \<Rightarrow> ('k::linorder, 'v) map_op \<Rightarrow> ('k, 'v) std_map \<Rightarrow> ('v map_result \<times> ('k, 'v) std_map) option" where
  "map_impl d (MRead k) m = Some (let (v, m') = ReadVal d k m in (RVal v, m'))"
| "map_impl d (MChange k f) m = Some (RNone, ChangeValueByLambda d k f m)"
| "map_impl d MSize m = Some (RNat (SafeMap_Size m), m)"
| "map_impl d MIsEmpty m = Some (RBool (SafeMap_IsEmpty m), m)"
| "map_impl d (MInsert k v) m = Some (let (r, m') = SafeMap_Insert k v m in (RBool r, m'))"
| "map_impl d (MEnsure k v) m = Some (RNone, EnsureInsert k v m)"
| "map_impl d (MFind k v) m = Some (let (r, w) = SafeMap_Find k v m in (RFound r w, m))"
| "map_impl d (MReplace k old new) m = Some (let ((r, w), m') = FindOldAndSetNew k old new m in (RFound r w, m'))"
| "map_impl d (MErase k) m = Some (RNone, SafeMap_Erase k m)"
| "map_impl d MClear m = Some (RNone, SafeMap_Clear m)"
| "map_impl d (MIterate f) m = Some (RNone, SafeMap_Iterate f m)"

fun map_spec :: "'v \<Rightarrow> ('k, 'v) map_op \<Rightarrow> ('k \<rightharpoonup> 'v) \<Rightarrow> 'v map_result \<times> ('k \<rightharpoonup> 'v)" where
  "map_spec d (MRead k) f = (case f k of Some v \<Rightarrow> (RVal v, f) | None \<Rightarrow> (RVal d, f(k \<mapsto> d)))"
| "map_spec d (MChange k g) f = (RNone, f(k \<mapsto> g (case f k of Some v \<Rightarrow> v | None \<Rightarrow> d)))"
| "map_spec d MSize f = (RNat (card (dom f)), f)"
| "map_spec d MIsEmpty f = (RBool (f = Map.empty), f)"
| "map_spec d (MInsert k v) f = (if f k = None then (RBool True, f(k \<mapsto> v)) else (RBool False, f))"
| "map_spec d (MEnsure k v) f = (RNone, f(k \<mapsto> v))"
| "map_spec d (MFind k v) f = (case f k of Some w \<Rightarrow> (RFound True w, f) | None \<Rightarrow> (RFound False v, f))"
| "map_spec d (MReplace k old new) f =
     (case f k of Some w \<Rightarrow> (RFound True w, f(k \<mapsto> new)) | None \<Rightarrow> (RFound False old, f))"
| "map_spec d (MErase k) f = (RNone, f(k := None))"
| "map_spec d MClear f = (RNone, Map.empty)"
| "map_spec d (MIterate g) f = (RNone, \<lambda>k. map_option (g k) (f k))"

definition map_rel :: "('k::linorder \<rightharpoonup> 'v) \<Rightarrow> ('k, 'v) std_map \<Rightarrow> bool" where
  "map_rel f m \<longleftrightarrow> map_inv m \<and> map_of m = f"

lemma map_change_of:
  "map_of (map (\<lambda>(k, w). (k, if k = x then y else w)) m) = (if map_of m x = None then map_of m else (map_of m)(x \<mapsto> y))"
  by (induction m) (auto simp: fun_eq_iff)

lemma map_subscript_of:
  assumes "map_inv m" "map_subscript d k m = (v, m')"
  shows "map_inv m'" "map_of m' = (map_of m)(k \<mapsto> v)" "v = (case map_of m k of Some v \<Rightarrow> v | None \<Rightarrow> d)"
  using assms by (auto simp: map_subscript_def map_find_map_of map_insert_inv map_insert_of split: option.splits)

lemma map_impl_step:
  assumes "map_rel f m"
  shows "\<exists>m'. map_impl d op m = Some (fst (map_spec d op f), m') \<and> map_rel (snd (map_spec d op f)) m'"
proof (cases op)
  case (MRead k)
  obtain v m' where s: "map_subscript d k m = (v, m')" by fastforce
  show ?thesis
    using map_subscript_of [OF _ s] assms MRead s
    by (auto simp: map_rel_def ReadVal_def split: option.splits)
next
  case (MChange k g)
  obtain v m' where s: "map_subscript d k m = (v, m')" by fastforce
  have "map_inv (map (\<lambda>(k', w). (k', if k' = k then g v else w)) m')"
    using map_subscript_of(1) [OF _ s] assms map_values_inv [of m' "\<lambda>k' w. if k' = k then g v else w"]
    by (simp add: map_rel_def)
  then show ?thesis
    using map_subscript_of [OF _ s] assms MChange s
    by (auto simp: map_rel_def ChangeValueByLambda_def map_change_of split: option.splits)
next
  case MSize
  then show ?thesis using assms by (auto simp: map_rel_def SafeMap_Size_def map_size)
next
  case MIsEmpty
  then show ?thesis using assms by (auto simp: map_rel_def SafeMap_IsEmpty_def)
next
  case (MInsert k v)
  then show ?thesis
    using assms by (auto simp: map_rel_def SafeMap_Insert_def split_beta map_insert_inv map_insert_of)
next
  case (MEnsure k v)
  then show ?thesis
    using assms by (auto simp: map_rel_def EnsureInsert_def split_beta Let_def map_insert_inv map_insert_of
        map_erase_inv map_erase_of)
next
  case (MFind k v)
  then show ?thesis
    using assms by (auto simp: map_rel_def SafeMap_Find_def map_find_map_of split: option.splits)
next
  case (MReplace k old new)
  then show ?thesis
    using assms by (auto simp: map_rel_def FindOldAndSetNew_def map_find_map_of map_insert_inv map_insert_of
        map_erase_inv map_erase_of split: option.splits)
next
  case (MErase k)
  then show ?thesis using assms by (auto simp: map_rel_def SafeMap_Erase_def map_erase_inv map_erase_of)
next
  case MClear
  then show ?thesis by (auto simp: map_rel_def SafeMap_Clear_def map_inv_def)
next
  case (MIterate g)
  then show ?thesis
    using assms by (auto simp: map_rel_def SafeMap_Iterate_def map_values_inv map_values_of)
qed

interpretation safe_map: simulation map_rel "\<lambda>_ _. True" "map_spec d" "map_impl d" for d
  by unfold_locales (rule map_impl_step)

lemma legal_run_trivial [simp]: "legal_run (\<lambda>_ _. True) spec ops s"
  by (induction ops arbitrary: s) auto



section \<open>The queue and the stack\<close>

definition Queue_DoPush :: "'a \<Rightarrow> 'a list \<Rightarrow> 'a list" where
  "Queue_DoPush pt q = q @ [pt]"

definition Queue_DoPop :: "'a list \<Rightarrow> ('a \<times> 'a list) option" where
  "Queue_DoPop q = (if length q > 0 then Some (hd q, tl q) else None)"

definition Stack_DoPush :: "'a \<Rightarrow> 'a list \<Rightarrow> 'a list" where
  "Stack_DoPush pt q = q @ [pt]"

definition Stack_DoPop :: "'a list \<Rightarrow> ('a \<times> 'a list) option" where
  "Stack_DoPop q = (if length q > 0 then Some (last q, butlast q) else None)"

text \<open>\<^verbatim>\<open>Erase\<close> of the base class removes the first element equal to the object.\<close>

fun Inner_Erase :: "'a \<Rightarrow> 'a list \<Rightarrow> 'a list" where
  "Inner_Erase object [] = []"
| "Inner_Erase object (x # q) = (if x = object then q else x # Inner_Erase object q)"

definition Inner_Clear :: "'a list \<Rightarrow> 'a list" where
  "Inner_Clear q = (if q \<noteq> [] then [] else q)"

definition Inner_Empty :: "'a list \<Rightarrow> bool" where
  "Inner_Empty q \<longleftrightarrow> q = []"

definition Inner_Size :: "'a list \<Rightarrow> nat" where
  "Inner_Size q = length q"

datatype 'a queue_op = QPush 'a | QPop | QErase 'a | QClear

text \<open>
  One call on a container whose class overrides \<^verbatim>\<open>DoPush\<close> and \<^verbatim>\<open>DoPop\<close>: the elements it hands out or discards, and
  the deque afterwards.
\<close>

fun Inner_step :: "('a \<Rightarrow> 'a list \<Rightarrow> 'a list) \<Rightarrow> ('a list \<Rightarrow> ('a \<times> 'a list) option) \<Rightarrow> 'a queue_op \<Rightarrow> 'a list
    \<Rightarrow> 'a list \<times> 'a list" where
  "Inner_step push pop (QPush x) q = ([], push x q)"
| "Inner_step push pop QPop q = (case pop q of None \<Rightarrow> ([], q) | Some (x, q') \<Rightarrow> ([x], q'))"
| "Inner_step push pop (QErase x) q = (if x \<in> set q then [x] else [], Inner_Erase x q)"
| "Inner_step push pop QClear q = (q, Inner_Clear q)"

fun Inner_run :: "('a \<Rightarrow> 'a list \<Rightarrow> 'a list) \<Rightarrow> ('a list \<Rightarrow> ('a \<times> 'a list) option) \<Rightarrow> 'a queue_op list \<Rightarrow> 'a list
    \<Rightarrow> 'a list \<times> 'a list" where
  "Inner_run push pop [] q = ([], q)"
| "Inner_run push pop (op # ops) q =
     (let (out, q1) = Inner_step push pop op q; (outs, q2) = Inner_run push pop ops q1 in (out @ outs, q2))"

fun pushed :: "'a queue_op list \<Rightarrow> 'a list" where
  "pushed [] = []"
| "pushed (QPush x # ops) = x # pushed ops"
| "pushed (_ # ops) = pushed ops"

text \<open>The contract of the abstract class \<^verbatim>\<open>SafeQueueInner\<close>: pushing adds one element, popping removes one.\<close>

locale safe_queue_inner =
  fixes DoPush :: "'a \<Rightarrow> 'a list \<Rightarrow> 'a list" and DoPop :: "'a list \<Rightarrow> ('a \<times> 'a list) option"
  assumes push_mset: "mset (DoPush x q) = add_mset x (mset q)"
    and pop_empty: "DoPop q = None \<longleftrightarrow> q = []"
    and pop_mset: "DoPop q = Some (x, q') \<Longrightarrow> mset q = add_mset x (mset q')"
begin

lemma erase_mset: "mset (if x \<in> set q then [x] else []) + mset (Inner_Erase x q) = mset q"
  by (induction q) auto

lemma step_conserves:
  "mset (fst (Inner_step DoPush DoPop op q)) + mset (snd (Inner_step DoPush DoPop op q)) = mset (pushed [op]) + mset q"
proof (cases op)
  case QPop
  then show ?thesis using pop_mset by (auto split: option.splits)
next
  case (QErase x)
  then show ?thesis using erase_mset [of x q] by simp
qed (simp_all add: push_mset Inner_Clear_def)

lemma run_conserves:
  "mset (fst (Inner_run DoPush DoPop ops q)) + mset (snd (Inner_run DoPush DoPop ops q)) = mset (pushed ops) + mset q"
proof (induction ops arbitrary: q)
  case (Cons op ops)
  have "mset (pushed (op # ops)) = mset (pushed [op]) + mset (pushed ops)"
    by (cases op) auto
  with Cons [of "snd (Inner_step DoPush DoPop op q)"] step_conserves [of op q] show ?case
    by (simp add: split_beta ac_simps)
qed simp

end

interpretation queue: safe_queue_inner Queue_DoPush Queue_DoPop
proof
  show "mset q = add_mset x (mset q')" if "Queue_DoPop q = Some (x, q')" for q q' and x :: 'a
    using that by (cases q) (auto simp: Queue_DoPop_def)
qed (auto simp: Queue_DoPush_def Queue_DoPop_def)

interpretation stack: safe_queue_inner Stack_DoPush Stack_DoPop
proof
  show "mset q = add_mset x (mset q')" if "Stack_DoPop q = Some (x, q')" for q q' and x :: 'a
    using that by (cases q rule: rev_cases) (auto simp: Stack_DoPop_def)
qed (auto simp: Stack_DoPush_def Stack_DoPop_def)

lemma queue_run_order:
  "\<forall>op \<in> set ops. \<exists>x. op = QPush x \<or> op = QPop \<Longrightarrow>
   fst (Inner_run Queue_DoPush Queue_DoPop ops q) @ snd (Inner_run Queue_DoPush Queue_DoPop ops q) = q @ pushed ops"
proof (induction ops arbitrary: q)
  case (Cons op ops)
  show ?case
  proof (cases op)
    case (QPush x)
    then show ?thesis using Cons by (simp add: split_beta Queue_DoPush_def)
  next
    case QPop
    then show ?thesis using Cons by (cases q) (simp_all add: split_beta Queue_DoPop_def)
  qed (use Cons.prems in auto)
qed simp

lemma stack_push_pop_run:
  "Inner_run Stack_DoPush Stack_DoPop (map QPush xs @ replicate (length xs) QPop @ ops) q
     = (let (outs, q') = Inner_run Stack_DoPush Stack_DoPop ops q in (rev xs @ outs, q'))"
proof (induction xs arbitrary: q ops)
  case (Cons x xs)
  have "replicate (length (x # xs)) QPop @ ops = replicate (length xs) QPop @ (QPop # ops)"
    by (simp add: replicate_append_same)
  then have "Inner_run Stack_DoPush Stack_DoPop (map QPush (x # xs) @ replicate (length (x # xs)) QPop @ ops) q
    = Inner_run Stack_DoPush Stack_DoPop (map QPush xs @ replicate (length xs) QPop @ (QPop # ops)) (q @ [x])"
    by (simp add: Stack_DoPush_def split_beta)
  then show ?case
    by (simp only: Cons) (simp add: Stack_DoPop_def split_beta Let_def)
qed (simp add: split_beta)

text \<open>
  \<^verbatim>\<open>SafeQueue\<close> and \<^verbatim>\<open>SafeStack\<close> lose and invent nothing, whatever calls threads make in whatever order: the
  elements handed out or discarded and those left are the pushed ones and those there before, with multiplicity. A
  queue hands out in the order of pushing; a stack hands out nested pushes in reverse.
\<close>

theorem safe_queue_and_stack:
  assumes "\<forall>op \<in> set qops. \<exists>x. op = QPush x \<or> op = QPop"
  shows "mset (fst (Inner_run Queue_DoPush Queue_DoPop ops q)) + mset (snd (Inner_run Queue_DoPush Queue_DoPop ops q))
      = mset (pushed ops) + mset q
    \<and> mset (fst (Inner_run Stack_DoPush Stack_DoPop ops q)) + mset (snd (Inner_run Stack_DoPush Stack_DoPop ops q))
      = mset (pushed ops) + mset q
    \<and> fst (Inner_run Queue_DoPush Queue_DoPop qops q) @ snd (Inner_run Queue_DoPush Queue_DoPop qops q) = q @ pushed qops
    \<and> Inner_run Stack_DoPush Stack_DoPop (map QPush xs @ replicate (length xs) QPop) q = (rev xs, q)"
  using queue.run_conserves [of ops q] stack.run_conserves [of ops q] queue_run_order [OF assms, of q]
    stack_push_pop_run [of xs "[]" q] by simp

lemma safe_queue_and_stack_witness:
  "fst (Inner_run Queue_DoPush Queue_DoPop [QPush 1, QPush 2, QPop] []) @ snd (Inner_run Queue_DoPush Queue_DoPop [QPush 1, QPush 2, QPop] [])
     = [] @ pushed [QPush 1, QPush 2, QPop :: nat queue_op]
   \<and> Inner_run Stack_DoPush Stack_DoPop (map QPush [1, 2 :: nat] @ replicate (length [1, 2 :: nat]) QPop) [] = (rev [1, 2], [])"
  using safe_queue_and_stack [of "[QPush 1, QPush 2, QPop :: nat queue_op]" "[]" "[]" "[1, 2]"] by auto

end
