(* ===== verification/Block_Queue.thy ===== *)
theory Block_Queue
  imports CUtils_Prelude
begin

text \<open>
  The blocking queues \<^verbatim>\<open>SafeBlockQueue\<close> and \<^verbatim>\<open>SafeBlockQueueTracking\<close> (\<^verbatim>\<open>base/include/safe_block_queue.h\<close>)
  under interleaving. Threads in \<^verbatim>\<open>cvNotFull_.wait\<close> are the elements they want to push, threads in
  \<^verbatim>\<open>cvNotEmpty_.wait\<close> are counted; a notified thread is awake until it gets the mutex and checks its condition
  again. Which blocked pusher a notification wakes is left open (an index), and spurious wake-ups happen. The
  elements pushed and popped are logged in order.
\<close>

section \<open>State and operations\<close>

record 'a bq =
  maxSize :: nat
  queueT :: "'a list"
  pushWait :: "'a list"
  pushAwake :: "'a list"
  popWait :: nat
  popAwake :: nat
  pushedLog :: "'a list"
  poppedLog :: "'a list"

text \<open>The capacity is an \<^verbatim>\<open>int\<close> kept as \<^verbatim>\<open>unsigned long\<close>.\<close>

definition SafeBlockQueue_new :: "int \<Rightarrow> 'a bq" where
  "SafeBlockQueue_new capacity =
     \<lparr>maxSize = nat (capacity mod 2 ^ 64), queueT = [], pushWait = [], pushAwake = [], popWait = 0, popAwake = 0,
      pushedLog = [], poppedLog = []\<rparr>"

definition take_nth :: "nat \<Rightarrow> 'a list \<Rightarrow> 'a list" where
  "take_nth i xs = take i xs @ drop (Suc i) xs"

definition notify_not_empty :: "('a, 'b) bq_scheme \<Rightarrow> ('a, 'b) bq_scheme" where
  "notify_not_empty s = (if popWait s > 0 then s\<lparr>popWait := popWait s - 1, popAwake := popAwake s + 1\<rparr> else s)"

definition notify_not_full :: "nat \<Rightarrow> ('a, 'b) bq_scheme \<Rightarrow> ('a, 'b) bq_scheme" where
  "notify_not_full w s =
     (if pushWait s = [] then s
      else let i = w mod length (pushWait s)
           in s\<lparr>pushWait := take_nth i (pushWait s), pushAwake := pushAwake s @ [pushWait s ! i]\<rparr>)"

definition enqueue :: "'a \<Rightarrow> ('a, 'b) bq_scheme \<Rightarrow> ('a, 'b) bq_scheme" where
  "enqueue elem s = notify_not_empty (s\<lparr>queueT := queueT s @ [elem], pushedLog := pushedLog s @ [elem]\<rparr>)"

definition dequeue :: "nat \<Rightarrow> ('a, 'b) bq_scheme \<Rightarrow> ('a, 'b) bq_scheme" where
  "dequeue w s = notify_not_full w (s\<lparr>queueT := tl (queueT s), poppedLog := poppedLog s @ [hd (queueT s)]\<rparr>)"

text \<open>\<^verbatim>\<open>Push\<close> and \<^verbatim>\<open>Pop\<close> from the lock to the push or the wait; a thread that wakes up runs them from the check again.\<close>

definition BQ_Push :: "'a \<Rightarrow> ('a, 'b) bq_scheme \<Rightarrow> ('a, 'b) bq_scheme" where
  "BQ_Push elem s = (if length (queueT s) \<ge> maxSize s then s\<lparr>pushWait := pushWait s @ [elem]\<rparr> else enqueue elem s)"

definition BQ_Pop :: "nat \<Rightarrow> ('a, 'b) bq_scheme \<Rightarrow> ('a, 'b) bq_scheme" where
  "BQ_Pop w s = (if queueT s = [] then s\<lparr>popWait := popWait s + 1\<rparr> else dequeue w s)"

definition PushNoWait :: "'a \<Rightarrow> ('a, 'b) bq_scheme \<Rightarrow> bool \<times> ('a, 'b) bq_scheme" where
  "PushNoWait elem s = (if length (queueT s) \<ge> maxSize s then (False, s) else (True, enqueue elem s))"

definition PopNotWait :: "nat \<Rightarrow> 'a \<Rightarrow> ('a, 'b) bq_scheme \<Rightarrow> (bool \<times> 'a) \<times> ('a, 'b) bq_scheme" where
  "PopNotWait w outtask s = (if queueT s = [] then ((False, outtask), s) else ((True, hd (queueT s)), dequeue w s))"

definition BQ_Size :: "('a, 'b) bq_scheme \<Rightarrow> nat" where
  "BQ_Size s = length (queueT s)"

definition BQ_IsEmpty :: "('a, 'b) bq_scheme \<Rightarrow> bool" where
  "BQ_IsEmpty s \<longleftrightarrow> queueT s = []"

definition BQ_IsFull :: "('a, 'b) bq_scheme \<Rightarrow> bool" where
  "BQ_IsFull s \<longleftrightarrow> length (queueT s) = maxSize s"

inductive bq_step :: "('a, 'b) bq_scheme \<Rightarrow> ('a, 'b) bq_scheme \<Rightarrow> bool" where
  push: "bq_step s (BQ_Push e s)"
| pop: "bq_step s (BQ_Pop w s)"
| push_no_wait: "bq_step s (snd (PushNoWait e s))"
| pop_not_wait: "bq_step s (snd (PopNotWait w x s))"
| resume_push: "i < length (pushAwake s) \<Longrightarrow>
    bq_step s (BQ_Push (pushAwake s ! i) (s\<lparr>pushAwake := take_nth i (pushAwake s)\<rparr>))"
| resume_pop: "0 < popAwake s \<Longrightarrow> bq_step s (BQ_Pop w (s\<lparr>popAwake := popAwake s - 1\<rparr>))"
| spurious_push: "bq_step s (notify_not_full w s)"
| spurious_pop: "bq_step s (notify_not_empty s)"

section \<open>The invariant\<close>

definition bq_inv :: "('a, 'b) bq_scheme \<Rightarrow> bool" where
  "bq_inv s \<longleftrightarrow>
     poppedLog s @ queueT s = pushedLog s \<and> length (queueT s) \<le> maxSize s \<and>
     (popWait s = 0 \<or> length (queueT s) \<le> popAwake s) \<and>
     (pushWait s = [] \<or> maxSize s \<le> length (queueT s) + length (pushAwake s))"

lemma take_nth_length: "i < length xs \<Longrightarrow> Suc (length (take_nth i xs)) = length xs"
  by (simp add: take_nth_def)

lemma enqueue_inv:
  assumes "bq_inv s" "length (queueT s) < maxSize s"
  shows "bq_inv (enqueue e s)"
  using assms by (auto simp: bq_inv_def enqueue_def notify_not_empty_def)

lemma dequeue_inv:
  assumes "bq_inv s" "queueT s \<noteq> []"
  shows "bq_inv (dequeue w s)"
proof -
  obtain x q where q: "queueT s = x # q" using assms(2) by (cases "queueT s") auto
  then show ?thesis
    using assms(1) by (auto simp: bq_inv_def dequeue_def notify_not_full_def Let_def)
qed

lemma BQ_Push_inv: "bq_inv s \<Longrightarrow> bq_inv (BQ_Push e s)"
  using enqueue_inv [of s e] by (auto simp: BQ_Push_def not_le) (auto simp: bq_inv_def)

lemma BQ_Pop_inv: "bq_inv s \<Longrightarrow> bq_inv (BQ_Pop w s)"
  using dequeue_inv [of s w] by (auto simp: BQ_Pop_def) (auto simp: bq_inv_def)

lemma resume_push_inv:
  assumes "bq_inv s" "i < length (pushAwake s)"
  shows "bq_inv (BQ_Push (pushAwake s ! i) (s\<lparr>pushAwake := take_nth i (pushAwake s)\<rparr>))"
  using assms take_nth_length [OF assms(2)]
  by (auto simp: BQ_Push_def enqueue_def notify_not_empty_def bq_inv_def)

lemma resume_pop_inv:
  assumes "bq_inv s" "0 < popAwake s"
  shows "bq_inv (BQ_Pop w (s\<lparr>popAwake := popAwake s - 1\<rparr>))"
proof (cases "queueT s")
  case Nil
  with assms show ?thesis by (auto simp: BQ_Pop_def bq_inv_def)
next
  case (Cons x q)
  with assms show ?thesis
    by (auto simp: BQ_Pop_def dequeue_def notify_not_full_def Let_def bq_inv_def)
qed

lemma bq_step_inv:
  assumes "bq_inv s" "bq_step s s'"
  shows "bq_inv s'"
  using assms(2)
proof cases
  case (push_no_wait e)
  with assms(1) show ?thesis by (auto simp: PushNoWait_def enqueue_inv)
next
  case (pop_not_wait w x)
  with assms(1) show ?thesis by (auto simp: PopNotWait_def dequeue_inv)
next
  case (spurious_push w)
  with assms(1) show ?thesis by (auto simp: notify_not_full_def Let_def bq_inv_def)
next
  case spurious_pop
  with assms(1) show ?thesis by (auto simp: notify_not_empty_def bq_inv_def)
qed (use assms(1) in \<open>auto simp: BQ_Push_inv BQ_Pop_inv resume_push_inv resume_pop_inv [unfolded One_nat_def]\<close>)

interpretation block_queue: inductive_invariant "\<lambda>s. s = SafeBlockQueue_new c" bq_step bq_inv for c
proof
  show "bq_inv s" if "s = SafeBlockQueue_new c" for s :: "'a bq"
    using that by (simp add: bq_inv_def SafeBlockQueue_new_def)
  show "bq_inv s'" if "bq_inv s" "bq_step s s'" for s s' :: "'a bq"
    using that by (rule bq_step_inv)
qed

text \<open>
  C20. \<^verbatim>\<open>SafeBlockQueue\<close> is a bounded first-in first-out queue that loses no wake-up. In every interleaving of blocking
  and non-blocking pushes and pops, with spurious wake-ups: the elements popped so far followed by those in the queue
  are the elements pushed, in order; the queue never exceeds its capacity; when a thread is blocked in \<^verbatim>\<open>Pop\<close>, every
  element in the queue has an awake popper on its way to it, and when a thread is blocked in \<^verbatim>\<open>Push\<close>, every free slot
  has an awake pusher.
\<close>

theorem block_queue_fifo:
  assumes "reach (\<lambda>s. s = SafeBlockQueue_new c) bq_step s"
  shows "poppedLog s @ queueT s = pushedLog s
    \<and> length (queueT s) \<le> maxSize s
    \<and> (popWait s = 0 \<or> length (queueT s) \<le> popAwake s)
    \<and> (pushWait s = [] \<or> maxSize s \<le> length (queueT s) + length (pushAwake s))"
  using block_queue.always [OF assms] by (simp add: bq_inv_def)

lemma block_queue_fifo_witness:
  defines "s \<equiv> BQ_Push (1 :: nat) (SafeBlockQueue_new 1)"
  shows "poppedLog s @ queueT s = pushedLog s
    \<and> length (queueT s) \<le> maxSize s
    \<and> (popWait s = 0 \<or> length (queueT s) \<le> popAwake s)
    \<and> (pushWait s = [] \<or> maxSize s \<le> length (queueT s) + length (pushAwake s))"
proof (rule block_queue_fifo)
  show "reach (\<lambda>s. s = SafeBlockQueue_new 1) bq_step s"
    unfolding s_def by (rule reach.more, rule reach.start, simp, rule bq_step.push)
qed

section \<open>Tracking of unfinished tasks\<close>

text \<open>
  \<^verbatim>\<open>SafeBlockQueueTracking\<close> counts tasks in \<^verbatim>\<open>unfinishedTaskCount_\<close>. Its \<^verbatim>\<open>Push\<close> increments the atomic before it
  takes the mutex, so the increment is a step of its own; \<^verbatim>\<open>OneTaskDone\<close> reads the count into a local and stores it
  back later, all under the mutex. \<open>doneLocal\<close> is that local while a thread is between the two.
\<close>

record 'a tq = "'a bq" +
  unfinished :: int
  starting :: "'a list"
  doneLocal :: "int option"
  startedTasks :: int
  finishedTasks :: int

definition SafeBlockQueueTracking_new :: "int \<Rightarrow> 'a tq" where
  "SafeBlockQueueTracking_new capacity =
     bq.extend (SafeBlockQueue_new capacity)
       \<lparr>unfinished = 0, starting = [], doneLocal = None, startedTasks = 0, finishedTasks = 0\<rparr>"

definition TQ_Push_count :: "'a \<Rightarrow> 'a tq \<Rightarrow> 'a tq" where
  "TQ_Push_count elem s =
     s\<lparr>unfinished := unfinished s + 1, starting := starting s @ [elem], startedTasks := startedTasks s + 1\<rparr>"

definition TQ_Push_lock :: "nat \<Rightarrow> 'a tq \<Rightarrow> 'a tq" where
  "TQ_Push_lock i s = BQ_Push (starting s ! i) (s\<lparr>starting := take_nth i (starting s)\<rparr>)"

definition TQ_PushNoWait :: "'a \<Rightarrow> 'a tq \<Rightarrow> bool \<times> 'a tq" where
  "TQ_PushNoWait elem s =
     (if length (queueT s) \<ge> maxSize s then (False, s)
      else (True, enqueue elem (s\<lparr>unfinished := unfinished s + 1, startedTasks := startedTasks s + 1\<rparr>)))"

definition OneTaskDone_load :: "'a tq \<Rightarrow> 'a tq" where
  "OneTaskDone_load s = s\<lparr>doneLocal := Some (unfinished s - 1)\<rparr>"

definition OneTaskDone_store :: "'a tq \<Rightarrow> bool \<times> 'a tq" where
  "OneTaskDone_store s =
     (case doneLocal s of
        None \<Rightarrow> (False, s)
      | Some u \<Rightarrow>
          if u < 0 then (False, s\<lparr>doneLocal := None\<rparr>)
          else (True, s\<lparr>unfinished := u, doneLocal := None, finishedTasks := finishedTasks s + 1\<rparr>))"

text \<open>\<^verbatim>\<open>Join\<close> returns when it sees a count of zero under the mutex.\<close>

definition Join_returns :: "'a tq \<Rightarrow> bool" where
  "Join_returns s \<longleftrightarrow> doneLocal s = None \<and> unfinished s = 0"

definition GetUnfinishTaskNum :: "'a tq \<Rightarrow> int" where
  "GetUnfinishTaskNum s = unfinished s"

text \<open>
  The mutex is free exactly when no thread is inside \<^verbatim>\<open>OneTaskDone\<close>; only the increment of \<^verbatim>\<open>Push\<close> needs no mutex.
  With \<open>atomic\<close> no increment falls between the two accesses of \<^verbatim>\<open>OneTaskDone\<close>.
\<close>

inductive tq_step :: "bool \<Rightarrow> 'a tq \<Rightarrow> 'a tq \<Rightarrow> bool" for atomic where
  count: "(doneLocal s = None \<or> \<not> atomic) \<Longrightarrow> tq_step atomic s (TQ_Push_count e s)"
| lock: "doneLocal s = None \<Longrightarrow> i < length (starting s) \<Longrightarrow> tq_step atomic s (TQ_Push_lock i s)"
| no_wait: "doneLocal s = None \<Longrightarrow> tq_step atomic s (snd (TQ_PushNoWait e s))"
| pop: "doneLocal s = None \<Longrightarrow> tq_step atomic s (BQ_Pop w s)"
| pop_not_wait: "doneLocal s = None \<Longrightarrow> tq_step atomic s (snd (PopNotWait w x s))"
| resume_push: "doneLocal s = None \<Longrightarrow> i < length (pushAwake s) \<Longrightarrow>
    tq_step atomic s (BQ_Push (pushAwake s ! i) (s\<lparr>pushAwake := take_nth i (pushAwake s)\<rparr>))"
| resume_pop: "doneLocal s = None \<Longrightarrow> 0 < popAwake s \<Longrightarrow>
    tq_step atomic s (BQ_Pop w (s\<lparr>popAwake := popAwake s - 1\<rparr>))"
| load: "doneLocal s = None \<Longrightarrow> tq_step atomic s (OneTaskDone_load s)"
| store: "doneLocal s \<noteq> None \<Longrightarrow> tq_step atomic s (snd (OneTaskDone_store s))"

definition tq_inv :: "'a tq \<Rightarrow> bool" where
  "tq_inv s \<longleftrightarrow> unfinished s = startedTasks s - finishedTasks s \<and>
     (doneLocal s = None \<or> doneLocal s = Some (unfinished s - 1))"

lemma bq_ops_keep_tracking:
  "unfinished (BQ_Push e s) = unfinished s" "startedTasks (BQ_Push e s) = startedTasks s"
  "finishedTasks (BQ_Push e s) = finishedTasks s" "doneLocal (BQ_Push e s) = doneLocal s"
  "unfinished (BQ_Pop w s) = unfinished s" "startedTasks (BQ_Pop w s) = startedTasks s"
  "finishedTasks (BQ_Pop w s) = finishedTasks s" "doneLocal (BQ_Pop w s) = doneLocal s"
  "unfinished (dequeue w s) = unfinished s" "startedTasks (dequeue w s) = startedTasks s"
  "finishedTasks (dequeue w s) = finishedTasks s" "doneLocal (dequeue w s) = doneLocal s"
  "unfinished (enqueue e s) = unfinished s" "startedTasks (enqueue e s) = startedTasks s"
  "finishedTasks (enqueue e s) = finishedTasks s" "doneLocal (enqueue e s) = doneLocal s"
  by (simp_all add: BQ_Push_def BQ_Pop_def enqueue_def dequeue_def notify_not_empty_def notify_not_full_def Let_def)

interpretation tracking: inductive_invariant "\<lambda>s. s = SafeBlockQueueTracking_new c" "tq_step True" tq_inv for c
proof
  show "tq_inv s" if "s = SafeBlockQueueTracking_new c" for s :: "'a tq"
    using that by (simp add: tq_inv_def SafeBlockQueueTracking_new_def bq.defs)
  show "tq_inv s'" if "tq_inv s" "tq_step True s s'" for s s' :: "'a tq"
    using that(2,1)
    by cases (auto simp: tq_inv_def bq_ops_keep_tracking TQ_Push_count_def TQ_Push_lock_def TQ_PushNoWait_def
        PopNotWait_def OneTaskDone_load_def OneTaskDone_store_def)
qed

text \<open>Two tasks, the second of which starts while the first is being reported done.\<close>

definition lost_task :: "nat tq" where
  "lost_task =
     TQ_Push_lock 0 (snd (OneTaskDone_store (TQ_Push_count 2 (OneTaskDone_load
       (BQ_Pop 0 (TQ_Push_lock 0 (TQ_Push_count 1 (SafeBlockQueueTracking_new 4))))))))"

lemmas tq_ops = TQ_Push_count_def TQ_Push_lock_def BQ_Push_def BQ_Pop_def enqueue_def dequeue_def notify_not_empty_def
  notify_not_full_def OneTaskDone_load_def OneTaskDone_store_def take_nth_def SafeBlockQueueTracking_new_def
  SafeBlockQueue_new_def bq.defs

lemma lost_task_reachable: "reach (\<lambda>s. s = SafeBlockQueueTracking_new 4) (tq_step False) lost_task"
  unfolding lost_task_def
  by (rule reach.more, rule reach.more, rule reach.more, rule reach.more, rule reach.more, rule reach.more,
      rule reach.more, rule reach.start, rule refl, rule tq_step.count, simp, rule tq_step.lock, simp add: tq_ops,
      simp add: tq_ops, rule tq_step.pop, simp add: tq_ops, rule tq_step.load, simp add: tq_ops,
      rule tq_step.count, simp, rule tq_step.store, simp add: tq_ops, rule tq_step.lock)
     (simp_all add: tq_ops)

text \<open>
  The count of unfinished tasks of \<^verbatim>\<open>SafeBlockQueueTracking\<close>. As long as no \<^verbatim>\<open>Push\<close> increments it while another
  thread is inside \<^verbatim>\<open>OneTaskDone\<close>, the count is the number of tasks started less those reported done. \<^verbatim>\<open>Push\<close>
  increments it before it takes the mutex, though, and the store of \<^verbatim>\<open>OneTaskDone\<close> then overwrites the increment:
  a state is reachable in which a task is in the queue and the count is zero, so \<^verbatim>\<open>Join\<close> returns too early.
\<close>

theorem tracking_count:
  assumes "reach (\<lambda>s. s = SafeBlockQueueTracking_new c) (tq_step True) s"
  shows "GetUnfinishTaskNum s = startedTasks s - finishedTasks s
    \<and> (\<exists>s' :: nat tq. reach (\<lambda>s. s = SafeBlockQueueTracking_new 4) (tq_step False) s' \<and> queueT s' = [2] \<and> Join_returns s')"
proof
  show "GetUnfinishTaskNum s = startedTasks s - finishedTasks s"
    using tracking.always [OF assms] by (simp add: tq_inv_def GetUnfinishTaskNum_def)
  show "\<exists>s' :: nat tq. reach (\<lambda>s. s = SafeBlockQueueTracking_new 4) (tq_step False) s' \<and> queueT s' = [2] \<and> Join_returns s'"
    by (rule exI [of _ lost_task]) (simp add: lost_task_reachable, simp add: lost_task_def tq_ops Join_returns_def)
qed

lemma tracking_count_witness:
  "GetUnfinishTaskNum (TQ_Push_count (1 :: nat) (SafeBlockQueueTracking_new 4)) =
     startedTasks (TQ_Push_count (1 :: nat) (SafeBlockQueueTracking_new 4))
       - finishedTasks (TQ_Push_count (1 :: nat) (SafeBlockQueueTracking_new 4))
    \<and> (\<exists>s' :: nat tq. reach (\<lambda>s. s = SafeBlockQueueTracking_new 4) (tq_step False) s' \<and> queueT s' = [2] \<and> Join_returns s')"
proof (rule tracking_count)
  show "reach (\<lambda>s. s = SafeBlockQueueTracking_new 4) (tq_step True) (TQ_Push_count (1 :: nat) (SafeBlockQueueTracking_new 4))"
    by (rule reach.more, rule reach.start, rule refl, rule tq_step.count)
       (simp add: SafeBlockQueueTracking_new_def bq.defs)
qed

end
