(* ===== verification/Thread_Pool.thy ===== *)
theory Thread_Pool
  imports CUtils_Prelude
begin

text \<open>
  The thread pool (\<^verbatim>\<open>base/src/thread_pool.cpp\<close>) under interleaving. A worker is at the test of its loop, about to
  take the mutex in \<^verbatim>\<open>ScheduleTask\<close>, asleep on \<^verbatim>\<open>hasTaskToDo_\<close>, back from \<^verbatim>\<open>ScheduleTask\<close> with or without a task,
  or finished. Clients blocked in \<^verbatim>\<open>AddTask\<close> are the tasks they bring. Which sleeper a notification wakes is left
  open, and spurious wake-ups happen. Tasks are logged when they enter the queue, when a worker takes them and when
  they have run.
\<close>

section \<open>State and operations\<close>

datatype 'a worker = Loop | Scheduling | Asleep | Returned "'a option" | Exited

record 'a pool =
  nthreads :: nat
  worker :: "nat \<Rightarrow> 'a worker"
  tasks :: "'a list"
  maxTaskNum :: nat
  running :: bool
  addWait :: "'a list"
  addAwake :: "'a list"
  added :: "'a list"
  taken :: "'a list"
  executed :: "'a list"

definition ThreadPool_new :: "'a pool" where
  "ThreadPool_new = \<lparr>nthreads = 0, worker = (\<lambda>_. Exited), tasks = [], maxTaskNum = 0, running = False,
     addWait = [], addAwake = [], added = [], taken = [], executed = []\<rparr>"

datatype start_result = ERR_OK | ERR_INVALID_OPERATION | ERR_INVALID_VALUE

definition Pool_Start :: "int \<Rightarrow> 'a pool \<Rightarrow> start_result \<times> 'a pool" where
  "Pool_Start numThreads s =
     (if nthreads s \<noteq> 0 then (ERR_INVALID_OPERATION, s)
      else if numThreads \<le> 0 then (ERR_INVALID_VALUE, s)
      else (ERR_OK, s\<lparr>running := True, nthreads := nat numThreads,
                      worker := (\<lambda>t. if t < nat numThreads then Loop else Exited)\<rparr>))"

text \<open>The locked part of \<^verbatim>\<open>Stop\<close>; the joins that follow return when every worker has finished.\<close>

definition Stop_signal :: "'a pool \<Rightarrow> 'a pool" where
  "Stop_signal s = s\<lparr>running := False, worker := (\<lambda>t. if worker s t = Asleep then Scheduling else worker s t)\<rparr>"

definition Stop_joined :: "'a pool \<Rightarrow> bool" where
  "Stop_joined s \<longleftrightarrow> \<not> running s \<and> list_all (\<lambda>t. worker s t = Exited) [0..<nthreads s]"

definition Overloaded :: "'a pool \<Rightarrow> bool" where
  "Overloaded s \<longleftrightarrow> maxTaskNum s > 0 \<and> length (tasks s) \<ge> maxTaskNum s"

text \<open>\<^verbatim>\<open>hasTaskToDo_.notify_one\<close> wakes a sleeping worker, the one \<open>w\<close> if it sleeps, otherwise the first one.\<close>

definition wake_worker :: "nat \<Rightarrow> 'a pool \<Rightarrow> 'a pool" where
  "wake_worker w s =
     (case List.find (\<lambda>t. worker s t = Asleep) (w mod max 1 (nthreads s) # [0..<nthreads s]) of
        None \<Rightarrow> s
      | Some t \<Rightarrow> s\<lparr>worker := (worker s)(t := Scheduling)\<rparr>)"

definition push_task :: "nat \<Rightarrow> 'a \<Rightarrow> 'a pool \<Rightarrow> 'a pool" where
  "push_task w f s = wake_worker w (s\<lparr>tasks := tasks s @ [f], added := added s @ [f]\<rparr>)"

text \<open>Without threads \<^verbatim>\<open>AddTask\<close> runs the task itself; otherwise it takes the mutex and waits while overloaded.\<close>

definition AddTask :: "nat \<Rightarrow> 'a \<Rightarrow> 'a pool \<Rightarrow> 'a pool" where
  "AddTask w f s =
     (if nthreads s = 0 then s\<lparr>added := added s @ [f], taken := taken s @ [f], executed := executed s @ [f]\<rparr>
      else if Overloaded s then s\<lparr>addWait := addWait s @ [f]\<rparr>
      else push_task w f s)"

definition SetMaxTaskNum :: "nat \<Rightarrow> 'a pool \<Rightarrow> 'a pool" where
  "SetMaxTaskNum maxSize s = s\<lparr>maxTaskNum := maxSize\<rparr>"

definition GetCurTaskNum :: "'a pool \<Rightarrow> nat" where
  "GetCurTaskNum s = length (tasks s)"

definition wake_adder :: "nat \<Rightarrow> 'a pool \<Rightarrow> 'a pool" where
  "wake_adder w s =
     (if addWait s = [] then s
      else let i = w mod length (addWait s)
           in s\<lparr>addWait := take i (addWait s) @ drop (Suc i) (addWait s), addAwake := addAwake s @ [addWait s ! i]\<rparr>)"

text \<open>One pass of worker \<open>t\<close> through the locked part of \<^verbatim>\<open>ScheduleTask\<close>, up to the wait or the return.\<close>

definition ScheduleTask :: "nat \<Rightarrow> nat \<Rightarrow> 'a pool \<Rightarrow> 'a pool" where
  "ScheduleTask w t s =
     (case tasks s of
        [] \<Rightarrow> if running s then s\<lparr>worker := (worker s)(t := Asleep)\<rparr>
             else s\<lparr>worker := (worker s)(t := Returned None)\<rparr>
      | f # fs \<Rightarrow>
          let s1 = s\<lparr>tasks := fs, taken := taken s @ [f], worker := (worker s)(t := Returned (Some f))\<rparr>
          in if maxTaskNum s > 0 then wake_adder w s1 else s1)"

definition WorkInThread :: "nat \<Rightarrow> nat \<Rightarrow> 'a pool \<Rightarrow> 'a pool" where
  "WorkInThread w t s =
     (case worker s t of
        Loop \<Rightarrow> s\<lparr>worker := (worker s)(t := if running s then Scheduling else Exited)\<rparr>
      | Scheduling \<Rightarrow> ScheduleTask w t s
      | Returned None \<Rightarrow> s\<lparr>worker := (worker s)(t := Loop)\<rparr>
      | Returned (Some f) \<Rightarrow> s\<lparr>worker := (worker s)(t := Loop), executed := executed s @ [f]\<rparr>
      | _ \<Rightarrow> s)"

inductive pool_step :: "'a pool \<Rightarrow> 'a pool \<Rightarrow> bool" where
  start: "pool_step s (snd (Pool_Start k s))"
| stop: "pool_step s (Stop_signal s)"
| add: "pool_step s (AddTask w f s)"
| add_again: "i < length (addAwake s) \<Longrightarrow>
    pool_step s (AddTask w (addAwake s ! i) (s\<lparr>addAwake := take i (addAwake s) @ drop (Suc i) (addAwake s)\<rparr>))"
| set_max: "pool_step s (SetMaxTaskNum k s)"
| work: "t < nthreads s \<Longrightarrow> pool_step s (WorkInThread w t s)"
| spurious: "pool_step s (wake_worker w s)"

section \<open>The invariant\<close>

definition busy :: "'a worker \<Rightarrow> int" where
  "busy l = (case l of Returned (Some _) \<Rightarrow> 1 | _ \<Rightarrow> 0)"

definition awake :: "'a worker \<Rightarrow> int" where
  "awake l = (case l of Asleep \<Rightarrow> 0 | Exited \<Rightarrow> 0 | _ \<Rightarrow> 1)"

definition pool_inv :: "'a pool \<Rightarrow> bool" where
  "pool_inv s \<longleftrightarrow>
     taken s @ tasks s = added s \<and>
     int (length (executed s)) + (\<Sum>t<nthreads s. busy (worker s t)) = int (length (taken s)) \<and>
     (running s \<longrightarrow> 0 < nthreads s \<and> (\<forall>t < nthreads s. worker s t \<noteq> Exited)) \<and>
     (running s \<and> tasks s \<noteq> [] \<longrightarrow> 0 < (\<Sum>t<nthreads s. awake (worker s t))) \<and>
     (nthreads s = 0 \<longrightarrow> tasks s = [])"

lemma awake_nonneg: "0 \<le> awake l" "0 \<le> busy l"
  by (auto simp: awake_def busy_def split: worker.splits option.splits)

lemma awake_pos: "t < nthreads s \<Longrightarrow> awake (worker s t) = 1 \<Longrightarrow> 0 < (\<Sum>t<nthreads s. awake (worker s t))"
  using thread_le_sum [of t "nthreads s" awake "worker s"] awake_nonneg by fastforce

text \<open>A worker changes its position.\<close>

lemma worker_sums:
  assumes "t < nthreads s"
  shows "(\<Sum>i<nthreads s. busy (((worker s)(t := l)) i)) = (\<Sum>i<nthreads s. busy (worker s i)) - busy (worker s t) + busy l"
    "(\<Sum>i<nthreads s. awake (((worker s)(t := l)) i)) = (\<Sum>i<nthreads s. awake (worker s i)) - awake (worker s t) + awake l"
  by (rule sum_one_thread [OF assms])+

lemma find_in_set: "List.find P xs = Some x \<Longrightarrow> x \<in> set xs \<and> P x"
  by (induction xs) (auto split: if_splits)

lemma wake_worker_cases:
  obtains (none) "wake_worker w s = s" "\<And>t. t < nthreads s \<Longrightarrow> worker s t \<noteq> Asleep"
  | (one) t where "t < nthreads s" "worker s t = Asleep" "wake_worker w s = s\<lparr>worker := (worker s)(t := Scheduling)\<rparr>"
  | (zero) "nthreads s = 0"
proof (cases "nthreads s = 0")
  case False
  let ?ts = "w mod max 1 (nthreads s) # [0..<nthreads s]"
  have ts: "t < nthreads s" if "t \<in> set ?ts" for t
    using that False by (auto simp: max_def)
  show ?thesis
  proof (cases "List.find (\<lambda>t. worker s t = Asleep) ?ts")
    case None
    then have "worker s t \<noteq> Asleep" if "t < nthreads s" for t
      using that unfolding find_None_iff by auto
    with None show ?thesis by (intro none) (simp_all add: wake_worker_def)
  next
    case (Some t)
    from find_in_set [OF this] have t: "t \<in> set ?ts" "worker s t = Asleep" by blast+
    have "wake_worker w s = s\<lparr>worker := (worker s)(t := Scheduling)\<rparr>"
      unfolding wake_worker_def Some by simp
    with t(2) show ?thesis by (rule one [OF ts [OF t(1)]])
  qed
qed (rule that(3))

lemma set_worker_inv:
  assumes inv: "pool_inv s" and t: "t < nthreads s" and "busy l = busy (worker s t)"
    and "running s \<Longrightarrow> l \<noteq> Exited" "running s \<Longrightarrow> tasks s \<noteq> [] \<Longrightarrow> awake l = 1"
  shows "pool_inv (s\<lparr>worker := (worker s)(t := l)\<rparr>)"
proof -
  have "0 < (\<Sum>i<nthreads s. awake (((worker s)(t := l)) i))" if "running s" "tasks s \<noteq> []"
    using awake_pos [of t "s\<lparr>worker := (worker s)(t := l)\<rparr>"] t assms(5) that by simp
  with assms show ?thesis
    unfolding pool_inv_def using worker_sums(1) [OF t, of l] by simp
qed

lemma wake_worker_inv:
  assumes "pool_inv s"
  shows "pool_inv (wake_worker w s)"
proof (cases rule: wake_worker_cases [of w s])
  case (one t)
  then show ?thesis
    unfolding one(3) by (intro set_worker_inv [OF assms]) (simp_all add: busy_def awake_def)
next
  case zero
  then show ?thesis
    using assms by (auto simp: pool_inv_def wake_worker_def split: option.splits)
qed (use assms in simp)

text \<open>Pushing a task leaves an awake worker, woken or awake before.\<close>

lemma push_task_inv:
  assumes inv: "pool_inv s" and n: "nthreads s \<noteq> 0"
  shows "pool_inv (push_task w f s)"
proof -
  let ?s = "s\<lparr>tasks := tasks s @ [f], added := added s @ [f]\<rparr>"
  have base: "taken s @ tasks s @ [f] = added s @ [f]"
    using inv by (simp add: pool_inv_def)
  show ?thesis
  proof (cases rule: wake_worker_cases [of w ?s])
    case none
    have "0 < (\<Sum>t<nthreads s. awake (worker s t))" if "running s"
    proof -
      have "worker s 0 \<noteq> Exited" "worker s 0 \<noteq> Asleep" using inv that none(2) [of 0] n by (auto simp: pool_inv_def)
      then have "awake (worker s 0) = 1" by (cases "worker s 0") (auto simp: awake_def)
      with n show ?thesis using awake_pos [of 0 s] by simp
    qed
    with inv base n show ?thesis
      unfolding push_task_def none(1) pool_inv_def by simp
  next
    case (one t)
    have "0 < (\<Sum>i<nthreads s. awake (((worker s)(t := Scheduling)) i))"
      using awake_pos [of t "s\<lparr>worker := (worker s)(t := Scheduling)\<rparr>"] one(1) by (simp add: awake_def)
    with inv base n one(1,2) show ?thesis
      unfolding push_task_def one(3) pool_inv_def using worker_sums(1) [of t s Scheduling] by (simp add: busy_def)
  next
    case zero
    with n show ?thesis by simp
  qed
qed

lemma AddTask_inv: "pool_inv s \<Longrightarrow> pool_inv (AddTask w f s)"
  using push_task_inv [of s w f]
  by (cases "nthreads s = 0"; cases "Overloaded s") (auto simp: AddTask_def pool_inv_def)

lemma wake_adder_inv: "pool_inv (wake_adder w s) = pool_inv s"
  by (simp add: wake_adder_def pool_inv_def Let_def)

lemma ScheduleTask_inv:
  assumes inv: "pool_inv s" and t: "t < nthreads s" and l: "worker s t = Scheduling"
  shows "pool_inv (ScheduleTask w t s)"
proof (cases "tasks s")
  case Nil
  have "pool_inv (s\<lparr>worker := (worker s)(t := Asleep)\<rparr>)" "\<not> running s \<Longrightarrow> pool_inv (s\<lparr>worker := (worker s)(t := Returned None)\<rparr>)"
    by (rule set_worker_inv [OF inv t]; use Nil l in \<open>simp add: busy_def\<close>)+
  with Nil show ?thesis by (simp add: ScheduleTask_def)
next
  case (Cons f fs)
  let ?s = "s\<lparr>tasks := fs, taken := taken s @ [f], worker := (worker s)(t := Returned (Some f))\<rparr>"
  have "busy (worker s t) = 0" "busy (Returned (Some f)) = 1"
    using l by (simp_all add: busy_def)
  moreover have "0 < (\<Sum>i<nthreads s. awake (((worker s)(t := Returned (Some f))) i))"
    using awake_pos [of t "s\<lparr>worker := (worker s)(t := Returned (Some f))\<rparr>"] t by (simp add: awake_def)
  ultimately have "pool_inv ?s"
    using inv Cons t worker_sums(1) [OF t, of "Returned (Some f)"] unfolding pool_inv_def by simp
  with Cons show ?thesis by (simp add: ScheduleTask_def Let_def wake_adder_inv)
qed

lemma WorkInThread_inv:
  assumes inv: "pool_inv s" and t: "t < nthreads s"
  shows "pool_inv (WorkInThread w t s)"
proof (cases "worker s t")
  case Loop
  have "pool_inv (s\<lparr>worker := (worker s)(t := if running s then Scheduling else Exited)\<rparr>)"
    by (rule set_worker_inv [OF inv t]) (use Loop in \<open>auto simp: busy_def awake_def\<close>)
  with Loop show ?thesis by (simp add: WorkInThread_def)
next
  case Scheduling
  then show ?thesis using ScheduleTask_inv [OF inv t] by (simp add: WorkInThread_def)
next
  case (Returned r)
  show ?thesis
  proof (cases r)
    case None
    have "pool_inv (s\<lparr>worker := (worker s)(t := Loop)\<rparr>)"
      by (rule set_worker_inv [OF inv t]) (use Returned None in \<open>auto simp: busy_def awake_def\<close>)
    with Returned None show ?thesis by (simp add: WorkInThread_def)
  next
    case (Some f)
    have "busy (worker s t) = 1" "busy (Loop :: 'a worker) = 0"
      using Returned Some by (simp_all add: busy_def)
    moreover have "0 < (\<Sum>i<nthreads s. awake (((worker s)(t := Loop)) i))"
      using awake_pos [of t "s\<lparr>worker := (worker s)(t := Loop)\<rparr>"] t by (simp add: awake_def)
    ultimately show ?thesis
      using inv Returned Some t worker_sums(1) [OF t, of Loop] unfolding pool_inv_def by (simp add: WorkInThread_def)
  qed
qed (use inv in \<open>simp_all add: WorkInThread_def\<close>)

lemma Pool_Start_inv: "pool_inv s \<Longrightarrow> pool_inv (snd (Pool_Start k s))"
  by (auto simp: Pool_Start_def pool_inv_def busy_def)

lemma Stop_signal_inv:
  assumes "pool_inv s"
  shows "pool_inv (Stop_signal s)"
proof -
  have "busy (if worker s t = Asleep then Scheduling else worker s t) = busy (worker s t)" for t
    by (simp add: busy_def)
  with assms show ?thesis by (simp add: Stop_signal_def pool_inv_def)
qed

interpretation pool: inductive_invariant "\<lambda>s. s = ThreadPool_new" pool_step pool_inv
proof
  show "pool_inv s" if "s = ThreadPool_new" for s :: "'a pool"
    using that by (simp add: pool_inv_def ThreadPool_new_def)
  show "pool_inv s'" if inv: "pool_inv s" and step: "pool_step s s'" for s s' :: "'a pool"
    using step
  proof cases
    case (add_again i w)
    have "pool_inv (s\<lparr>addAwake := take i (addAwake s) @ drop (Suc i) (addAwake s)\<rparr>)"
      using inv by (simp add: pool_inv_def)
    with add_again show ?thesis by (simp add: AddTask_inv)
  next
    case (set_max k)
    with inv show ?thesis by (simp add: SetMaxTaskNum_def pool_inv_def)
  qed (use inv in \<open>auto simp: Pool_Start_inv Stop_signal_inv AddTask_inv WorkInThread_inv wake_worker_inv\<close>)
qed

section \<open>Properties\<close>

text \<open>A pool of one worker that is stopped before it takes the task it was given.\<close>

definition dropped_task :: "nat pool" where
  "dropped_task = WorkInThread 0 0 (Stop_signal (AddTask 0 7 (snd (Pool_Start 1 ThreadPool_new))))"

lemma dropped_task_reachable: "reach (\<lambda>s. s = ThreadPool_new) pool_step dropped_task"
  unfolding dropped_task_def
  by (rule reach.more, rule reach.more, rule reach.more, rule reach.more, rule reach.start, rule refl,
      rule pool_step.start, rule pool_step.add, rule pool_step.stop, rule pool_step.work)
     (simp add: Pool_Start_def ThreadPool_new_def AddTask_def Overloaded_def push_task_def wake_worker_def Stop_signal_def)



end
