(* ===== verification/Mapped_File.thy ===== *)
theory Mapped_File
  imports CUtils_Prelude
begin

text \<open>
  The memory-mapped file (\<^verbatim>\<open>base/src/mapped_file.cpp\<close>, \<^verbatim>\<open>base/include/mapped_file.h\<close>). The operating system is a
  parameter: a record of what its calls answer, one such record per call of an operation, so that answers may change
  from call to call. Addresses and sizes are integers, a null pointer is \<^const>\<open>None\<close>. The rounding divisions are
  only applied to sizes that are not negative.
\<close>

section \<open>State and environment\<close>

record mf_os =
  pageSize :: int
  os_realpath :: "string \<Rightarrow> string option"
  os_enoent :: "string \<Rightarrow> bool"
  os_access :: "string \<Rightarrow> bool"
  os_stat :: "string \<Rightarrow> int option"
  os_open :: "string \<Rightarrow> 32 word \<Rightarrow> int option"
  os_close :: "int \<Rightarrow> bool"
  os_unlink :: "string \<Rightarrow> bool"
  os_ftruncate :: "int \<Rightarrow> int \<Rightarrow> bool"
  os_mmap :: "int option \<Rightarrow> int \<Rightarrow> 32 word \<Rightarrow> 32 word \<Rightarrow> int \<Rightarrow> int \<Rightarrow> int option"
  os_munmap :: "int \<Rightarrow> int \<Rightarrow> bool"
  os_mremap :: "int \<Rightarrow> int \<Rightarrow> int \<Rightarrow> int option"

record mapped_file =
  mf_data :: "int option"
  rStart :: "int option"
  rEnd :: "int option"
  isMapped :: bool
  isNormed :: bool
  isNewFile :: bool
  path :: string
  mf_size :: int
  offset :: int
  mode :: "8 word"
  fd :: int
  mapProt :: "32 word"
  mapFlag :: "32 word"
  openFlag :: "32 word"
  hint :: "int option"

datatype mf_err = MAPPED_FILE_ERR_OK | MAPPED_FILE_ERR_FAILED | MF_ERR_INVALID_OPERATION | MF_ERR_INVALID_VALUE

abbreviation DEFAULT_LENGTH :: int where "DEFAULT_LENGTH \<equiv> -1"

abbreviation MODE_DEFAULT :: "8 word" where "MODE_DEFAULT \<equiv> 0"
abbreviation MODE_PRIVATE :: "8 word" where "MODE_PRIVATE \<equiv> 2"
abbreviation MODE_READ_ONLY :: "8 word" where "MODE_READ_ONLY \<equiv> 4"
abbreviation MODE_CREATE_IF_ABSENT :: "8 word" where "MODE_CREATE_IF_ABSENT \<equiv> 8"

abbreviation PROT_READ :: "32 word" where "PROT_READ \<equiv> 1"
abbreviation PROT_WRITE :: "32 word" where "PROT_WRITE \<equiv> 2"
abbreviation MAP_SHARED :: "32 word" where "MAP_SHARED \<equiv> 1"
abbreviation MAP_PRIVATE :: "32 word" where "MAP_PRIVATE \<equiv> 2"
abbreviation O_RDONLY :: "32 word" where "O_RDONLY \<equiv> 0"
abbreviation O_RDWR :: "32 word" where "O_RDWR \<equiv> 2"
abbreviation O_CREAT :: "32 word" where "O_CREAT \<equiv> 0x40"
abbreviation O_CLOEXEC :: "32 word" where "O_CLOEXEC \<equiv> 0x80000"

definition MappedFile_new :: "string \<Rightarrow> 8 word \<Rightarrow> int \<Rightarrow> int \<Rightarrow> int option \<Rightarrow> mapped_file" where
  "MappedFile_new p md off sz h =
     \<lparr>mf_data = None, rStart = None, rEnd = None, isMapped = False, isNormed = False, isNewFile = False,
      path = p, mf_size = sz, offset = off, mode = md, fd = -1, mapProt = 0, mapFlag = 0, openFlag = 0, hint = h\<rparr>"

definition EndOffset :: "mapped_file \<Rightarrow> int" where
  "EndOffset f = (if mf_size f = DEFAULT_LENGTH then -1 else offset f + mf_size f - 1)"

definition mf_End :: "mapped_file \<Rightarrow> int option" where
  "mf_End f = (case mf_data f of None \<Rightarrow> None | Some d \<Rightarrow> Some (d + mf_size f - 1))"

definition RoundSize :: "int \<Rightarrow> int \<Rightarrow> int" where
  "RoundSize page input = (if input mod page = 0 then input else (input div page + 1) * page)"

section \<open>Normalization\<close>

text \<open>The result and the adjusted target size.\<close>

definition ValidMappedSize :: "mf_os \<Rightarrow> int \<Rightarrow> int \<Rightarrow> mapped_file \<Rightarrow> bool \<times> int" where
  "ValidMappedSize os targetSize st_size f =
     (let m = RoundSize (pageSize os) st_size - offset f
      in if m > 0 then (True, if targetSize > m then m else targetSize) else (False, targetSize))"

definition NormalizePath :: "mf_os \<Rightarrow> mapped_file \<Rightarrow> bool \<times> mapped_file" where
  "NormalizePath os f =
     (case os_realpath os (path f) of
        None \<Rightarrow> if \<not> os_enoent os (path f) then (False, f) else (True, f)
      | Some canonicalPath \<Rightarrow> (True, f\<lparr>path := canonicalPath\<rparr>))"

definition NormalizeSize :: "mf_os \<Rightarrow> mapped_file \<Rightarrow> bool \<times> mapped_file" where
  "NormalizeSize os f =
     (if mf_size f = 0 \<or> mf_size f < DEFAULT_LENGTH then (False, f)
      else let (ok, f1) = NormalizePath os f
           in if \<not> ok then (False, f1)
              else if \<not> os_access os (path f1) then
                (if mode f1 AND MODE_CREATE_IF_ABSENT = MODE_DEFAULT then (False, f1)
                 else let f2 = (if mf_size f1 = DEFAULT_LENGTH then f1\<lparr>mf_size := pageSize os\<rparr> else f1)
                      in (True, f2\<lparr>isNewFile := True\<rparr>))
              else let st_size = (case os_stat os (path f1) of None \<Rightarrow> 0 | Some n \<Rightarrow> n);
                       f2 = (if os_stat os (path f1) = None then f1\<lparr>mf_size := pageSize os\<rparr> else f1);
                       f3 = (if mf_size f2 = DEFAULT_LENGTH then f2\<lparr>mf_size := st_size\<rparr> else f2);
                       (valid, sz) = ValidMappedSize os (mf_size f3) st_size f3
                   in (valid, f3\<lparr>mf_size := sz\<rparr>))"

definition NormalizeMode :: "mapped_file \<Rightarrow> mapped_file" where
  "NormalizeMode f =
     (let m = mode f AND (MODE_PRIVATE OR MODE_READ_ONLY OR MODE_CREATE_IF_ABSENT);
          f1 = f\<lparr>mode := m, openFlag := O_CLOEXEC\<rparr>
      in if m = MODE_DEFAULT
         then f1\<lparr>mapFlag := MAP_SHARED, mapProt := PROT_READ OR PROT_WRITE, openFlag := openFlag f1 OR O_RDWR\<rparr>
         else let f2 = f1\<lparr>mapFlag := (if m AND MODE_PRIVATE \<noteq> MODE_DEFAULT then MAP_PRIVATE else MAP_SHARED)\<rparr>;
                  f3 = (if m AND MODE_READ_ONLY \<noteq> MODE_DEFAULT
                        then f2\<lparr>mapProt := PROT_READ, openFlag := openFlag f2 OR O_RDONLY\<rparr>
                        else f2\<lparr>mapProt := PROT_READ OR PROT_WRITE, openFlag := openFlag f2 OR O_RDWR\<rparr>)
              in if m AND MODE_CREATE_IF_ABSENT \<noteq> MODE_DEFAULT then f3\<lparr>openFlag := openFlag f3 OR O_CREAT\<rparr> else f3)"

definition Normalize :: "mf_os \<Rightarrow> mapped_file \<Rightarrow> mf_err \<times> mapped_file" where
  "Normalize os f =
     (if isNormed f then (MF_ERR_INVALID_OPERATION, f)
      else if offset f < 0 \<or> offset f mod pageSize os \<noteq> 0 then (MF_ERR_INVALID_VALUE, f)
      else let (ok, f1) = NormalizeSize os f
           in if \<not> ok then (MF_ERR_INVALID_VALUE, f1)
              else (MAPPED_FILE_ERR_OK, (NormalizeMode f1)\<lparr>isNormed := True\<rparr>))"

section \<open>Mapping\<close>

definition OpenFile :: "mf_os \<Rightarrow> mapped_file \<Rightarrow> bool \<times> mapped_file" where
  "OpenFile os f =
     (case os_open os (path f) (openFlag f) of
        None \<Rightarrow> (False, f)
      | Some d \<Rightarrow>
          if isNewFile f then
            let (ok, f1) = NormalizePath os f
            in if \<not> ok then (False, f1)
               else if \<not> os_ftruncate os d (EndOffset f1 + 1) then (False, f1)
               else (True, f1\<lparr>isNewFile := False, fd := d\<rparr>)
          else (True, f\<lparr>fd := d\<rparr>))"

text \<open>The loop around \<^verbatim>\<open>mmap\<close> tries again once, with a null hint.\<close>

definition try_mmap :: "mf_os \<Rightarrow> mapped_file \<Rightarrow> int option \<times> mapped_file" where
  "try_mmap os f =
     (let call = (\<lambda>h. os_mmap os h (mf_size f) (mapProt f) (mapFlag f) (fd f) (offset f))
      in case call (hint f) of
           Some a \<Rightarrow> (Some a, f)
         | None \<Rightarrow> if hint f \<noteq> None then (call None, f\<lparr>hint := None\<rparr>) else (None, f))"

definition mf_Map :: "mf_os \<Rightarrow> mapped_file \<Rightarrow> mf_err \<times> mapped_file" where
  "mf_Map os f =
     (if isMapped f then (MF_ERR_INVALID_OPERATION, f)
      else let (res, f1) = Normalize os f
           in if res \<noteq> MAPPED_FILE_ERR_OK \<and> res \<noteq> MF_ERR_INVALID_OPERATION then (res, f1)
              else let (opened, f2) = (if fd f1 = -1 then OpenFile os f1 else (True, f1))
                   in if \<not> opened then (MAPPED_FILE_ERR_FAILED, f2)
                      else let (r, f3) = try_mmap os f2
                           in case r of
                                None \<Rightarrow> (MAPPED_FILE_ERR_FAILED, f3)
                              | Some a \<Rightarrow>
                                  (MAPPED_FILE_ERR_OK,
                                   f3\<lparr>rStart := Some a, rEnd := Some (a + (RoundSize (pageSize os) (mf_size f3) - 1)),
                                      mf_data := Some a, isMapped := True\<rparr>))"

definition Unmap :: "mf_os \<Rightarrow> mapped_file \<Rightarrow> mf_err \<times> mapped_file" where
  "Unmap os f =
     (if \<not> isMapped f then (MF_ERR_INVALID_OPERATION, f)
      else if \<not> os_munmap os (the (rStart f)) (mf_size f) then (MAPPED_FILE_ERR_FAILED, f)
      else (MAPPED_FILE_ERR_OK, f\<lparr>rStart := None, rEnd := None, mf_data := None, isMapped := False\<rparr>))"

definition SyncFileSize :: "mf_os \<Rightarrow> int \<Rightarrow> mapped_file \<Rightarrow> bool" where
  "SyncFileSize os newSize f =
     (if newSize > mf_size f then
        (case os_stat os (path f) of
           None \<Rightarrow> False
         | Some n \<Rightarrow> if offset f + newSize \<le> n then True else os_ftruncate os (fd f) (offset f + newSize))
      else True)"

definition Resize_to :: "mf_os \<Rightarrow> int \<Rightarrow> bool \<Rightarrow> mapped_file \<Rightarrow> mf_err \<times> mapped_file" where
  "Resize_to os newSize sync f =
     (let newSize1 = (if newSize = DEFAULT_LENGTH then
                        (case os_stat os (path f) of None \<Rightarrow> pageSize os | Some n \<Rightarrow> n) else newSize)
      in if newSize1 = 0 \<or> newSize1 < DEFAULT_LENGTH \<or> newSize1 = mf_size f then (MF_ERR_INVALID_OPERATION, f)
         else if \<not> isMapped f then (MF_ERR_INVALID_OPERATION, f)
         else let checked = (if sync then (if SyncFileSize os newSize1 f then Inr newSize1 else Inl MAPPED_FILE_ERR_FAILED)
                             else case os_stat os (path f) of
                                 None \<Rightarrow> Inl MF_ERR_INVALID_OPERATION
                               | Some n \<Rightarrow> (let (ok, sz) = ValidMappedSize os newSize1 n f
                                            in if ok then Inr sz else Inl MF_ERR_INVALID_VALUE))
              in case checked of
                   Inl e \<Rightarrow> (e, f)
                 | Inr sz \<Rightarrow>
                     (case os_mremap os (the (rStart f)) (mf_size f) sz of
                        None \<Rightarrow> (MAPPED_FILE_ERR_FAILED, f)
                      | Some a \<Rightarrow>
                          (MAPPED_FILE_ERR_OK,
                           f\<lparr>rStart := Some a, mf_size := sz, rEnd := Some (a + RoundSize (pageSize os) sz - 1),
                             mf_data := Some a\<rparr>)))"

definition mf_Resize :: "mf_os \<Rightarrow> mapped_file \<Rightarrow> mf_err \<times> mapped_file" where
  "mf_Resize os f =
     (if isMapped f then (MF_ERR_INVALID_OPERATION, f)
      else let (res, f1) = mf_Map os f in (if res \<noteq> MAPPED_FILE_ERR_OK then (res, f1) else (MAPPED_FILE_ERR_OK, f1)))"

text \<open>Case 1 of \<^verbatim>\<open>TurnNext\<close>: the window ends where the region ends, so the next window needs a new mapping.\<close>

definition turn_remap :: "mf_os \<Rightarrow> int \<Rightarrow> mapped_file \<Rightarrow> mf_err \<times> mapped_file" where
  "turn_remap os st_size f =
     (let f1 = (if EndOffset f + 1 + mf_size f > st_size then f\<lparr>mf_size := st_size - EndOffset f - 1\<rparr> else f);
          f2 = f1\<lparr>isNormed := False, hint := rStart f, offset := offset f + mf_size f\<rparr>;
          (res, f3) = Unmap os f2;
          (res', f4) = (if res = MAPPED_FILE_ERR_OK then mf_Resize os f3 else (res, f3))
      in if res' \<noteq> MAPPED_FILE_ERR_OK
         then (res', f4\<lparr>offset := offset f, mf_size := mf_size f, hint := hint f, isNormed := True\<rparr>)
         else (res', f4))"

text \<open>Case 2: the rest of the region becomes the window.\<close>

definition turn_adjust :: "mapped_file \<Rightarrow> mf_err \<times> mapped_file" where
  "turn_adjust f =
     (let curEnd = the (mf_End f);
          f1 = (if curEnd + mf_size f > the (rEnd f) then f\<lparr>mf_size := the (rEnd f) - curEnd\<rparr> else f)
      in (MAPPED_FILE_ERR_OK, f1\<lparr>mf_data := Some (the (mf_data f) + mf_size f), offset := offset f + mf_size f\<rparr>))"

definition TurnNext :: "mf_os \<Rightarrow> mapped_file \<Rightarrow> mf_err \<times> mapped_file" where
  "TurnNext os f =
     (if \<not> isNormed f then (MF_ERR_INVALID_OPERATION, f)
      else case os_stat os (path f) of
          None \<Rightarrow> (MAPPED_FILE_ERR_FAILED, f)
        | Some st_size \<Rightarrow>
            if EndOffset f + 1 \<ge> st_size then (MF_ERR_INVALID_OPERATION, f)
            else if isMapped f then (if mf_End f = rEnd f then turn_remap os st_size f else turn_adjust f)
            else (MAPPED_FILE_ERR_OK, f\<lparr>offset := offset f + pageSize os, isNormed := False\<rparr>))"

definition mf_Reset :: "mapped_file \<Rightarrow> mapped_file" where
  "mf_Reset f = MappedFile_new '''' MODE_DEFAULT 0 DEFAULT_LENGTH None"

definition mf_Clear :: "mf_os \<Rightarrow> bool \<Rightarrow> mapped_file \<Rightarrow> mf_err \<times> mapped_file" where
  "mf_Clear os force f =
     (let (res, f1) = (if isMapped f then Unmap os f else (MAPPED_FILE_ERR_OK, f))
      in if isMapped f \<and> \<not> force \<and> res \<noteq> MAPPED_FILE_ERR_OK then (res, f1)
         else if fd f1 \<noteq> -1 \<and> \<not> os_close os (fd f1) then (MAPPED_FILE_ERR_FAILED, f1)
         else (MAPPED_FILE_ERR_OK, mf_Reset f1))"

text \<open>The moves: the new object takes the fields of the other, which is reset.\<close>

definition mf_move :: "mapped_file \<Rightarrow> mapped_file \<times> mapped_file" where
  "mf_move other = (other, mf_Reset other)"

definition mf_move_assign :: "mf_os \<Rightarrow> mapped_file \<Rightarrow> mapped_file \<Rightarrow> mapped_file \<times> mapped_file" where
  "mf_move_assign os f other = (let (_, f1) = mf_Clear os True f in (other, mf_Reset other))"

text \<open>The destructor only logs failures: the result of unmapping, and of closing the file if one is open.\<close>

definition MappedFile_delete :: "mf_os \<Rightarrow> mapped_file \<Rightarrow> mf_err \<times> bool option" where
  "MappedFile_delete os f =
     (let (res, f1) = (if isMapped f then Unmap os f else (MAPPED_FILE_ERR_OK, f))
      in (res, if fd f1 \<noteq> -1 then Some (os_close os (fd f1)) else None))"

text \<open>The setters unmap first; a failing \<^verbatim>\<open>Unmap\<close> leaves the parameter alone.\<close>

definition changed_by :: "mf_os \<Rightarrow> bool \<Rightarrow> (mapped_file \<Rightarrow> mapped_file) \<Rightarrow> mapped_file \<Rightarrow> bool \<times> mapped_file" where
  "changed_by os wanted upd f =
     (if wanted then
        let (res, f1) = (if isMapped f then Unmap os f else (MAPPED_FILE_ERR_OK, f))
        in if res = MAPPED_FILE_ERR_OK then (True, (upd f1)\<lparr>isNormed := False\<rparr>) else (False, f1)
      else (False, f))"

definition ChangeOffset :: "mf_os \<Rightarrow> int \<Rightarrow> mapped_file \<Rightarrow> bool \<times> mapped_file" where
  "ChangeOffset os val f = changed_by os (offset f \<noteq> val) (\<lambda>f. f\<lparr>offset := val\<rparr>) f"

definition ChangeSize :: "mf_os \<Rightarrow> int \<Rightarrow> mapped_file \<Rightarrow> bool \<times> mapped_file" where
  "ChangeSize os val f =
     changed_by os ((val > 0 \<or> val = DEFAULT_LENGTH) \<and> mf_size f \<noteq> val) (\<lambda>f. f\<lparr>mf_size := val\<rparr>) f"

definition ChangeHint :: "mf_os \<Rightarrow> int option \<Rightarrow> mapped_file \<Rightarrow> bool \<times> mapped_file" where
  "ChangeHint os val f = changed_by os (hint f \<noteq> val) (\<lambda>f. f\<lparr>hint := val\<rparr>) f"

definition ChangeMode_mf :: "mf_os \<Rightarrow> 8 word \<Rightarrow> mapped_file \<Rightarrow> bool \<times> mapped_file" where
  "ChangeMode_mf os val f = changed_by os (mode f \<noteq> val) (\<lambda>f. f\<lparr>mode := val\<rparr>) f"

definition ChangePath :: "mf_os \<Rightarrow> string \<Rightarrow> mapped_file \<Rightarrow> bool \<times> mapped_file" where
  "ChangePath os val f =
     (if path f \<noteq> val then
        let (res, f1) = (if isMapped f then Unmap os f else (MAPPED_FILE_ERR_OK, f))
        in if res = MAPPED_FILE_ERR_OK then
             (if fd f1 \<noteq> -1 \<and> \<not> os_close os (fd f1) then (False, f1)
              else (True, f1\<lparr>path := val, isNormed := False, fd := -1\<rparr>))
           else (False, f1)
      else (False, f))"

section \<open>The window and the region\<close>

text \<open>
  What the code relies on of the system calls: the page size is positive and does not change, a file's size is not
  negative, and \<^verbatim>\<open>mmap\<close> and \<^verbatim>\<open>mremap\<close> refuse a length that is not positive.
\<close>

definition os_ok :: "int \<Rightarrow> mf_os \<Rightarrow> bool" where
  "os_ok P os \<longleftrightarrow> pageSize os = P \<and> 0 < P \<and>
     (\<forall>h sz pr fl d off a. os_mmap os h sz pr fl d off = Some a \<longrightarrow> 0 < sz) \<and>
     (\<forall>a old sz b. os_mremap os a old sz = Some b \<longrightarrow> 0 < sz)"

lemma os_okD:
  assumes "os_ok P os"
  shows "pageSize os = P" "0 < P" "os_mmap os h sz pr fl d off = Some a \<Longrightarrow> 0 < sz"
    "os_mremap os b k sz = Some a \<Longrightarrow> 0 < sz"
  using assms unfolding os_ok_def by blast+

definition region :: "int \<Rightarrow> mapped_file \<Rightarrow> bool" where
  "region P f \<longleftrightarrow> (\<exists>a d e. rStart f = Some a \<and> mf_data f = Some d \<and> rEnd f = Some e \<and>
     a \<le> d \<and> 0 < mf_size f \<and> d + mf_size f - 1 \<le> e \<and> (e - a + 1) mod P = 0)"

definition mf_inv :: "int \<Rightarrow> mapped_file \<Rightarrow> bool" where
  "mf_inv P f \<longleftrightarrow>
     (if isMapped f then region P f else rStart f = None \<and> mf_data f = None \<and> rEnd f = None)"

lemma RoundSize_bounds:
  assumes "0 < P"
  shows "n \<le> RoundSize P n" "RoundSize P n mod P = 0"
proof -
  have "n < (n div P + 1) * P"
    using assms by (metis add.commute distrib_right mult.commute mult_1 mod_pos_pos_trivial
      minus_mod_eq_mult_div add_strict_left_mono pos_mod_bound mult_div_mod_eq)
  then show "n \<le> RoundSize P n" "RoundSize P n mod P = 0"
    by (simp_all add: RoundSize_def)
qed

text \<open>Normalization and opening leave the mapping alone.\<close>

definition same_mapping :: "mapped_file \<Rightarrow> mapped_file \<Rightarrow> bool" where
  "same_mapping f g \<longleftrightarrow> isMapped g = isMapped f \<and> rStart g = rStart f \<and> rEnd g = rEnd f \<and> mf_data g = mf_data f"

lemma same_mapping_refl [simp]: "same_mapping f f"
  by (simp add: same_mapping_def)

lemma same_mapping_trans: "same_mapping f g \<Longrightarrow> same_mapping g h \<Longrightarrow> same_mapping f h"
  by (simp add: same_mapping_def)

lemma same_mapping_unmapped: "mf_inv P f \<Longrightarrow> \<not> isMapped f \<Longrightarrow> same_mapping f g \<Longrightarrow> mf_inv P g"
  by (simp add: same_mapping_def mf_inv_def)

lemma NormalizePath_same: "same_mapping f (snd (NormalizePath os f))"
  by (auto simp: NormalizePath_def same_mapping_def split: option.splits)

lemma NormalizeSize_same: "same_mapping f (snd (NormalizeSize os f))"
  using NormalizePath_same [of f os]
  by (auto simp: NormalizeSize_def same_mapping_def Let_def split: prod.splits option.splits)

lemma Normalize_same: "same_mapping f (snd (Normalize os f))"
  using NormalizeSize_same [of f os]
  by (auto simp: Normalize_def NormalizeMode_def same_mapping_def Let_def split: prod.splits)

lemma OpenFile_same: "same_mapping f (snd (OpenFile os f))"
  using NormalizePath_same [of f os]
  by (auto simp: OpenFile_def same_mapping_def Let_def split: prod.splits option.splits)

lemma try_mmap_spec:
  assumes "try_mmap os f = (r, g)"
  shows "same_mapping f g" "mf_size g = mf_size f" "os_ok P os \<Longrightarrow> r = Some a \<Longrightarrow> 0 < mf_size g"
  using assms os_okD(3) [of P os]
  by (auto simp: try_mmap_def same_mapping_def Let_def split: option.splits if_splits)

lemma mf_Map_inv:
  assumes inv: "mf_inv P f" and os: "os_ok P os"
  shows "mf_inv P (snd (mf_Map os f))" "fst (mf_Map os f) = MAPPED_FILE_ERR_OK \<longleftrightarrow> \<not> isMapped f \<and> isMapped (snd (mf_Map os f))"
proof -
  obtain res f1 where n: "Normalize os f = (res, f1)" by fastforce
  obtain opened f2 where o: "(if fd f1 = -1 then OpenFile os f1 else (True, f1)) = (opened, f2)" by fastforce
  obtain r f3 where t: "try_mmap os f2 = (r, f3)" by fastforce
  have s: "same_mapping f f1" "same_mapping f f2" "same_mapping f f3"
    using Normalize_same [of f os] OpenFile_same [of f1 os] try_mmap_spec(1) [OF t] n o
    by (auto intro: same_mapping_trans split: if_splits)
  have ok: "mf_inv P g" if "\<not> isMapped f" "same_mapping f g" for g
    using same_mapping_unmapped [OF inv] that by blast
  have mapped: "mf_inv P (f3\<lparr>rStart := Some a, rEnd := Some (a + (RoundSize (pageSize os) (mf_size f3) - 1)),
      mf_data := Some a, isMapped := True\<rparr>)" if "r = Some a" for a
  proof -
    have "0 < mf_size f3" "pageSize os = P" "0 < P"
      using try_mmap_spec(3) [OF t os that] os by (simp_all add: os_ok_def)
    then show ?thesis
      using RoundSize_bounds [of P "mf_size f3"] by (simp add: mf_inv_def region_def)
  qed
  have e: "mf_Map os f = (if isMapped f then (MF_ERR_INVALID_OPERATION, f)
    else if res \<noteq> MAPPED_FILE_ERR_OK \<and> res \<noteq> MF_ERR_INVALID_OPERATION then (res, f1)
    else if \<not> opened then (MAPPED_FILE_ERR_FAILED, f2)
    else case r of None \<Rightarrow> (MAPPED_FILE_ERR_FAILED, f3)
      | Some a \<Rightarrow> (MAPPED_FILE_ERR_OK, f3\<lparr>rStart := Some a, rEnd := Some (a + (RoundSize (pageSize os) (mf_size f3) - 1)),
                                      mf_data := Some a, isMapped := True\<rparr>))"
    using o t by (simp add: mf_Map_def n Let_def)
  show "mf_inv P (snd (mf_Map os f))"
    unfolding e using inv ok s mapped by (auto split: option.splits)
  show "fst (mf_Map os f) = MAPPED_FILE_ERR_OK \<longleftrightarrow> \<not> isMapped f \<and> isMapped (snd (mf_Map os f))"
    unfolding e using s by (auto simp: same_mapping_def split: option.splits)
qed

lemma mf_Resize_inv: "mf_inv P f \<Longrightarrow> os_ok P os \<Longrightarrow> mf_inv P (snd (mf_Resize os f))"
  using mf_Map_inv(1) [of P f os] by (auto simp: mf_Resize_def Let_def split: prod.splits)

lemma Unmap_inv: "mf_inv P f \<Longrightarrow> mf_inv P (snd (Unmap os f))"
  by (auto simp: Unmap_def mf_inv_def)

lemma Unmap_unmaps: "Unmap os f = (MAPPED_FILE_ERR_OK, g) \<Longrightarrow> \<not> isMapped g"
  by (auto simp: Unmap_def split: if_splits)

text \<open>The parameters do not matter to an object without a mapping.\<close>

lemma mf_inv_params:
  assumes "mf_inv P f" "\<not> isMapped f" "same_mapping f g"
  shows "mf_inv P g"
  using assms by (rule same_mapping_unmapped)

lemma Resize_to_inv:
  assumes inv: "mf_inv P f" and os: "os_ok P os"
  shows "mf_inv P (snd (Resize_to os n sync f))"
proof -
  have m: "mf_inv P (f\<lparr>rStart := Some a, mf_size := sz, rEnd := Some (a + RoundSize (pageSize os) sz - 1), mf_data := Some a\<rparr>)"
    if "os_mremap os b k sz = Some a" "isMapped f" for a b k sz
  proof -
    have "0 < sz" "pageSize os = P" "0 < P" using os_okD [OF os] that by blast+
    then show ?thesis
      using that(2) RoundSize_bounds [of P sz] by (simp add: mf_inv_def region_def)
  qed
  show ?thesis
    unfolding Resize_to_def Let_def using inv m by (auto split: option.splits sum.splits prod.splits)
qed

lemma turn_adjust_inv:
  assumes "mf_inv P f" "isMapped f" "mf_End f \<noteq> rEnd f"
  shows "mf_inv P (snd (turn_adjust f))"
proof -
  obtain a d e where r: "rStart f = Some a" "mf_data f = Some d" "rEnd f = Some e"
    "a \<le> d" "0 < mf_size f" "d + mf_size f - 1 \<le> e" "(e - a + 1) mod P = 0"
    using assms(1,2) by (auto simp: mf_inv_def region_def)
  have "d + mf_size f - 1 < e" using assms(3) r by (simp add: mf_End_def)
  with r assms(2) show ?thesis
    by (auto simp: turn_adjust_def mf_End_def mf_inv_def region_def Let_def)
qed

lemma turn_remap_inv:
  assumes inv: "mf_inv P f" and os: "os_ok P os" and m: "isMapped f" and st: "EndOffset f + 1 < st"
  shows "mf_inv P (snd (turn_remap os st f))"
proof -
  define f1 where "f1 = (if EndOffset f + 1 + mf_size f > st then f\<lparr>mf_size := st - EndOffset f - 1\<rparr> else f)"
  define f2 where "f2 = f1\<lparr>isNormed := False, hint := rStart f, offset := offset f + mf_size f\<rparr>"
  obtain res f3 where u: "Unmap os f2 = (res, f3)" by fastforce
  obtain res' f4 where z: "(if res = MAPPED_FILE_ERR_OK then mf_Resize os f3 else (res, f3)) = (res', f4)" by fastforce
  have e: "turn_remap os st f = (if res' \<noteq> MAPPED_FILE_ERR_OK
         then (res', f4\<lparr>offset := offset f, mf_size := mf_size f, hint := hint f, isNormed := True\<rparr>)
         else (res', f4))"
    using u z by (simp add: turn_remap_def f1_def [symmetric] f2_def [symmetric] Let_def)
  show ?thesis
  proof (cases "res = MAPPED_FILE_ERR_OK")
    case True
    then have f3: "\<not> isMapped f3" "rStart f3 = None" "mf_data f3 = None" "rEnd f3 = None"
      using u by (auto simp: Unmap_def split: if_splits)
    then have i3: "mf_inv P f3" by (simp add: mf_inv_def)
    from z True have r: "mf_Resize os f3 = (res', f4)" by simp
    have i4: "mf_inv P f4" using mf_Resize_inv [OF i3 os] r by simp
    have "\<not> isMapped f4" if "res' \<noteq> MAPPED_FILE_ERR_OK"
      using that r mf_Map_inv(2) [OF i3 os] f3(1) by (auto simp: mf_Resize_def Let_def split: if_splits prod.splits)
    with i4 show ?thesis unfolding e by (auto simp: mf_inv_def)
  next
    case False
    then have "f3 = f2" using u m by (auto simp: Unmap_def f2_def f1_def split: if_splits)
    with False z have "res' \<noteq> MAPPED_FILE_ERR_OK" "f4 = f2" by auto
    then have "same_mapping f (snd (turn_remap os st f))" "mf_size (snd (turn_remap os st f)) = mf_size f"
      unfolding e by (auto simp: same_mapping_def f2_def f1_def)
    with inv m show ?thesis by (simp add: mf_inv_def region_def same_mapping_def)
  qed
qed

lemma TurnNext_inv:
  assumes "mf_inv P f" "os_ok P os"
  shows "mf_inv P (snd (TurnNext os f))"
  using assms turn_remap_inv [OF assms] turn_adjust_inv [OF assms(1)]
  by (auto simp: TurnNext_def not_le split: option.splits) (auto simp: mf_inv_def)

lemma mf_Reset_inv: "mf_inv P (mf_Reset f)"
  by (simp add: mf_Reset_def MappedFile_new_def mf_inv_def)

lemma mf_Clear_inv: "mf_inv P f \<Longrightarrow> mf_inv P (snd (mf_Clear os force f))"
  using Unmap_inv [of P f os] mf_Reset_inv
  by (auto simp: mf_Clear_def Let_def split: prod.splits if_splits)

lemma changed_by_inv:
  assumes "mf_inv P f" "\<And>g. same_mapping g (upd g)"
  shows "mf_inv P (snd (changed_by os wanted upd f))"
proof -
  obtain res f1 where u: "(if isMapped f then Unmap os f else (MAPPED_FILE_ERR_OK, f)) = (res, f1)" by fastforce
  have i: "mf_inv P f1" using Unmap_inv [OF assms(1), of os] assms(1) u by (auto split: if_splits)
  have "mf_inv P ((upd f1)\<lparr>isNormed := False\<rparr>)" if "res = MAPPED_FILE_ERR_OK"
  proof (rule same_mapping_unmapped [OF i])
    show "\<not> isMapped f1" using u that Unmap_unmaps [of os f] by (auto split: if_splits)
    show "same_mapping f1 ((upd f1)\<lparr>isNormed := False\<rparr>)" using assms(2) [of f1] by (simp add: same_mapping_def)
  qed
  then show ?thesis
    using i assms(1) u by (simp add: changed_by_def Let_def)
qed

lemma ChangePath_inv:
  assumes "mf_inv P f"
  shows "mf_inv P (snd (ChangePath os val f))"
proof -
  obtain res f1 where u: "(if isMapped f then Unmap os f else (MAPPED_FILE_ERR_OK, f)) = (res, f1)" by fastforce
  have i: "mf_inv P f1" using Unmap_inv [OF assms, of os] assms u by (auto split: if_splits)
  have "mf_inv P (f1\<lparr>path := val, isNormed := False, fd := -1\<rparr>)" if "res = MAPPED_FILE_ERR_OK"
  proof (rule same_mapping_unmapped [OF i])
    show "\<not> isMapped f1" using u that Unmap_unmaps [of os f] by (auto split: if_splits)
  qed (simp add: same_mapping_def)
  then show ?thesis
    using i assms u by (simp add: ChangePath_def Let_def)
qed

section \<open>Properties\<close>

datatype mf_op =
  OpNormalize | OpMap | OpUnmap | OpTurnNext | OpResize | OpResizeTo int bool | OpClearFile bool
  | OpOffset int | OpSize int | OpPath string | OpHint "int option" | OpMode "8 word"

fun mf_apply :: "mf_os \<Rightarrow> mf_op \<Rightarrow> mapped_file \<Rightarrow> mapped_file" where
  "mf_apply os OpNormalize f = snd (Normalize os f)"
| "mf_apply os OpMap f = snd (mf_Map os f)"
| "mf_apply os OpUnmap f = snd (Unmap os f)"
| "mf_apply os OpTurnNext f = snd (TurnNext os f)"
| "mf_apply os OpResize f = snd (mf_Resize os f)"
| "mf_apply os (OpResizeTo n sync) f = snd (Resize_to os n sync f)"
| "mf_apply os (OpClearFile force) f = snd (mf_Clear os force f)"
| "mf_apply os (OpOffset val) f = snd (ChangeOffset os val f)"
| "mf_apply os (OpSize val) f = snd (ChangeSize os val f)"
| "mf_apply os (OpPath val) f = snd (ChangePath os val f)"
| "mf_apply os (OpHint val) f = snd (ChangeHint os val f)"
| "mf_apply os (OpMode val) f = snd (ChangeMode_mf os val f)"

inductive mf_step :: "int \<Rightarrow> mapped_file \<Rightarrow> mapped_file \<Rightarrow> bool" for P where
  "os_ok P os \<Longrightarrow> mf_step P f (mf_apply os op f)"

definition mf_created :: "mapped_file \<Rightarrow> bool" where
  "mf_created f \<longleftrightarrow> f = MappedFile_new (path f) (mode f) (offset f) (mf_size f) (hint f)"

lemma Normalize_inv:
  assumes "mf_inv P f"
  shows "isMapped f \<longrightarrow> isNormed f \<Longrightarrow> mf_inv P (snd (Normalize os f))"
  using assms Normalize_same [of f os] same_mapping_unmapped [OF assms]
  by (cases "isMapped f") (auto simp: Normalize_def)

text \<open>Every mapped object is normalized: parameters only change without a mapping.\<close>

definition mf_inv_normed :: "int \<Rightarrow> mapped_file \<Rightarrow> bool" where
  "mf_inv_normed P f \<longleftrightarrow> mf_inv P f \<and> (isMapped f \<longrightarrow> isNormed f)"

lemma Normalize_normed: "fst (Normalize os f) \<in> {MAPPED_FILE_ERR_OK, MF_ERR_INVALID_OPERATION} \<Longrightarrow> isNormed (snd (Normalize os f))"
  by (auto simp: Normalize_def Let_def split: if_splits prod.splits)

lemma OpenFile_normed: "isNormed (snd (OpenFile os f)) = isNormed f"
  by (auto simp: OpenFile_def NormalizePath_def Let_def split: option.splits prod.splits if_splits)

lemma mf_Map_normed: "isMapped (snd (mf_Map os f)) \<Longrightarrow> \<not> isMapped f \<Longrightarrow> isNormed (snd (mf_Map os f))"
proof -
  assume m: "isMapped (snd (mf_Map os f))" and n: "\<not> isMapped f"
  obtain res f1 where r: "Normalize os f = (res, f1)" by fastforce
  obtain opened f2 where o: "(if fd f1 = -1 then OpenFile os f1 else (True, f1)) = (opened, f2)" by fastforce
  obtain q f3 where t: "try_mmap os f2 = (q, f3)" by fastforce
  have "\<not> isMapped f1" "\<not> isMapped f2" "\<not> isMapped f3"
    using n Normalize_same [of f os] OpenFile_same [of f1 os] try_mmap_spec(1) [OF t] r o
    by (auto simp: same_mapping_def split: if_splits)
  with m n r o t have "res = MAPPED_FILE_ERR_OK \<or> res = MF_ERR_INVALID_OPERATION" and e: "isNormed (snd (mf_Map os f)) = isNormed f3"
    by (auto simp: mf_Map_def Let_def split: if_splits option.splits)
  then have "isNormed f1" using Normalize_normed [of os f] r by auto
  then have "isNormed f2" using OpenFile_normed [of os f1] o by (auto split: if_splits)
  then have "isNormed f3" using t by (auto simp: try_mmap_def Let_def split: option.splits if_splits)
  with e show ?thesis by simp
qed

lemma mf_Resize_normed: "isMapped (snd (mf_Resize os f)) \<Longrightarrow> \<not> isMapped f \<Longrightarrow> isNormed (snd (mf_Resize os f))"
  using mf_Map_normed [of os f] by (auto simp: mf_Resize_def Let_def split: prod.splits if_splits)

lemma turn_remap_normed: "isMapped f \<Longrightarrow> isMapped (snd (turn_remap os st f)) \<Longrightarrow> isNormed (snd (turn_remap os st f))"
  using mf_Resize_normed [of os] Unmap_unmaps [of os]
  by (auto simp: turn_remap_def Let_def split: prod.splits if_splits) (metis prod.sel(2))+

lemma changed_by_normed:
  assumes "\<And>g. same_mapping g (upd g)" "isMapped f \<longrightarrow> isNormed f"
  shows "isMapped (snd (changed_by os wanted upd f)) \<longrightarrow> isNormed (snd (changed_by os wanted upd f))"
  using assms(2) assms(1) [of f] assms(1) [of "f\<lparr>rStart := None, rEnd := None, mf_data := None, isMapped := False\<rparr>"]
  by (auto simp: changed_by_def Unmap_def same_mapping_def)

lemma mf_apply_normed:
  assumes n: "isMapped f \<longrightarrow> isNormed f"
  shows "isMapped (mf_apply os op f) \<longrightarrow> isNormed (mf_apply os op f)"
proof (cases op)
  case OpNormalize
  then show ?thesis
    using n Normalize_same [of f os] by (auto simp: same_mapping_def) (auto simp: Normalize_def)
next
  case OpMap
  then show ?thesis using n mf_Map_normed [of os f] by (cases "isMapped f") (auto simp: mf_Map_def)
next
  case OpTurnNext
  then show ?thesis
    using n turn_remap_normed [of f os]
    by (auto simp: TurnNext_def turn_adjust_def Let_def split: option.splits if_splits)
next
  case OpResize
  then show ?thesis using n mf_Resize_normed [of os f] by (cases "isMapped f") (auto simp: mf_Resize_def)
next
  case (OpResizeTo k sync)
  then show ?thesis
    using n by (auto simp: Resize_to_def Let_def split: option.splits sum.splits prod.splits if_splits)
next
  case (OpClearFile force)
  then show ?thesis
    using n by (auto simp: mf_Clear_def Unmap_def mf_Reset_def MappedFile_new_def Let_def)
next
  case (OpPath val)
  then show ?thesis using n by (auto simp: ChangePath_def Unmap_def Let_def)
qed (use n in \<open>auto simp: Unmap_def ChangeOffset_def ChangeSize_def ChangeHint_def ChangeMode_mf_def same_mapping_def
  dest: changed_by_normed [THEN mp, rotated 2]\<close>)

lemma mf_apply_inv:
  assumes "mf_inv_normed P f" "os_ok P os"
  shows "mf_inv_normed P (mf_apply os op f)"
proof -
  have inv: "mf_inv P f" and n: "isMapped f \<longrightarrow> isNormed f"
    using assms(1) by (simp_all add: mf_inv_normed_def)
  have "mf_inv P (mf_apply os op f)"
    using inv n assms(2)
    by (cases op)
       (simp_all add: Normalize_inv mf_Map_inv(1) Unmap_inv TurnNext_inv mf_Resize_inv Resize_to_inv mf_Clear_inv ChangePath_inv
         ChangeOffset_def ChangeSize_def ChangeHint_def ChangeMode_mf_def changed_by_inv same_mapping_def)
  with mf_apply_normed [OF n] show ?thesis by (simp add: mf_inv_normed_def)
qed

interpretation mapped: inductive_invariant mf_created "mf_step P" "mf_inv_normed P" for P
proof
  show "mf_inv_normed P f" if "mf_created f" for f
  proof -
    have "\<not> isMapped f" "rStart f = None" "mf_data f = None" "rEnd f = None"
      using that by (simp_all add: mf_created_def MappedFile_new_def) (metis mapped_file.select_convs)+
    then show ?thesis by (simp add: mf_inv_normed_def mf_inv_def)
  qed
  show "mf_inv_normed P f'" if "mf_inv_normed P f" "mf_step P f f'" for f f'
    using that(2,1) by cases (simp add: mf_apply_inv)
qed

text \<open>A file of 20000 bytes on a system with pages of 4096 bytes that maps at a fixed address.\<close>

definition sample_os :: mf_os where
  "sample_os = \<lparr>pageSize = 4096, os_realpath = (\<lambda>p. Some p), os_enoent = (\<lambda>_. False), os_access = (\<lambda>_. True),
     os_stat = (\<lambda>_. Some 20000), os_open = (\<lambda>_ _. Some 3), os_close = (\<lambda>_. True), os_unlink = (\<lambda>_. True),
     os_ftruncate = (\<lambda>_ _. True),
     os_mmap = (\<lambda>_ sz _ _ _ off. if 0 < sz \<and> off mod 4096 = 0 then Some 0x10000 else None),
     os_munmap = (\<lambda>_ _. True), os_mremap = (\<lambda>_ _ sz. if 0 < sz then Some 0x20000 else None)\<rparr>"

lemma sample_os_ok: "os_ok 4096 sample_os"
  by (auto simp: os_ok_def sample_os_def split: if_splits)

definition sample_file :: mapped_file where
  "sample_file = MappedFile_new ''data'' MODE_DEFAULT 0 5000 None"

definition mapped_sample :: mapped_file where
  "mapped_sample = mf_apply sample_os OpMap sample_file"

definition turned_sample :: mapped_file where
  "turned_sample = mf_apply sample_os OpTurnNext mapped_sample"

lemma samples_reachable:
  "reach mf_created (mf_step 4096) sample_file"
  "reach mf_created (mf_step 4096) mapped_sample" "reach mf_created (mf_step 4096) turned_sample"
proof -
  show a: "reach mf_created (mf_step 4096) sample_file"
    by (rule reach.start) (simp add: mf_created_def sample_file_def MappedFile_new_def)
  show b: "reach mf_created (mf_step 4096) mapped_sample"
    unfolding mapped_sample_def by (rule reach.more [OF a]) (rule mf_step.intros [OF sample_os_ok])
  show "reach mf_created (mf_step 4096) turned_sample"
    unfolding turned_sample_def by (rule reach.more [OF b]) (rule mf_step.intros [OF sample_os_ok])
qed

lemma mapped_sample_eq:
  "isMapped mapped_sample" "isNormed mapped_sample" "rStart mapped_sample = Some 65536" "mf_data mapped_sample = Some 65536"
  "rEnd mapped_sample = Some 73727" "mf_size mapped_sample = 5000" "offset mapped_sample = 0" "path mapped_sample = ''data''"
  by (simp_all add: mapped_sample_def sample_file_def MappedFile_new_def mf_Map_def Normalize_def NormalizeSize_def
      NormalizePath_def NormalizeMode_def ValidMappedSize_def RoundSize_def OpenFile_def try_mmap_def sample_os_def)

lemma turned_sample_eq:
  "isMapped turned_sample" "rStart turned_sample = Some 65536" "mf_data turned_sample = Some 70536"
  "rEnd turned_sample = Some 73727" "mf_size turned_sample = 3192" "offset turned_sample = 5000"
  by (simp_all add: turned_sample_def TurnNext_def turn_adjust_def mf_End_def EndOffset_def mapped_sample_eq sample_os_def)



end
