(* ===== verification/Directory_Ex.thy ===== *)
theory Directory_Ex
  imports CUtils_Prelude
begin

text \<open>
  Paths and directory traversal (\<^verbatim>\<open>base/src/directory_ex.cpp\<close>). A directory on disk is a tree whose inner nodes
  carry whether they can be opened; an open \<^verbatim>\<open>DIR\<close> is the list of entries \<^verbatim>\<open>readdir\<close> has still to return, so the
  order of entries is the file system's. \<^verbatim>\<open>string::npos\<close> is \<^const>\<open>None\<close>, and where the code adds one to it the
  sum wraps to zero.
\<close>

section \<open>Paths\<close>

fun rfind :: "char \<Rightarrow> string \<Rightarrow> nat option" where
  "rfind c [] = None"
| "rfind c (x # s) = (case rfind c s of Some i \<Rightarrow> Some (Suc i) | None \<Rightarrow> if x = c then Some 0 else None)"

definition after :: "nat option \<Rightarrow> nat" where
  "after pos = (case pos of None \<Rightarrow> 0 | Some i \<Rightarrow> Suc i)"

abbreviation SLASH :: char where "SLASH \<equiv> CHR ''/''"

definition ExtractFilePath :: "string \<Rightarrow> string" where
  "ExtractFilePath fileFullName = take (after (rfind SLASH fileFullName)) fileFullName"

definition ExtractFileName :: "string \<Rightarrow> string" where
  "ExtractFileName fileFullName = drop (after (rfind SLASH fileFullName)) fileFullName"

definition ExtractFileExt :: "string \<Rightarrow> string" where
  "ExtractFileExt fileName =
     (case rfind (CHR ''.'') fileName of None \<Rightarrow> [] | Some pos \<Rightarrow> drop (pos + 1) fileName)"

text \<open>\<^verbatim>\<open>rfind("/") != size() - 1\<close>: for an empty path both sides are \<^verbatim>\<open>npos\<close>.\<close>

definition no_trailing_slash :: "string \<Rightarrow> bool" where
  "no_trailing_slash p = (case rfind SLASH p of None \<Rightarrow> p \<noteq> [] | Some i \<Rightarrow> i \<noteq> length p - 1)"

definition ExcludeTrailingPathDelimiter :: "string \<Rightarrow> string" where
  "ExcludeTrailingPathDelimiter p =
     (if no_trailing_slash p then p else if p \<noteq> [] then take (length p - 1) p else p)"

definition IncludeTrailingPathDelimiter :: "string \<Rightarrow> string" where
  "IncludeTrailingPathDelimiter p =
     (if p = [] then [SLASH] else if no_trailing_slash p then p @ [SLASH] else p)"

section \<open>Traversal\<close>

datatype fnode = File nat | Dir bool "(string \<times> fnode) list"

text \<open>\<^verbatim>\<open>currentPath.find_last_of("/")\<close> and the erasure from there.\<close>

definition leave_dir :: "string \<Rightarrow> string" where
  "leave_dir currentPath = (case rfind SLASH currentPath of None \<Rightarrow> currentPath | Some pos \<Rightarrow> take pos currentPath)"

fun node_size :: "fnode \<Rightarrow> nat" and entries_size :: "(string \<times> fnode) list \<Rightarrow> nat" where
  "node_size (File n) = 1"
| "node_size (Dir ok es) = 2 + entries_size es"
| "entries_size [] = 0"
| "entries_size (e # es) = 1 + node_size (snd e) + entries_size es"

text \<open>The loop of \<^verbatim>\<open>GetDirFiles\<close> on the stack of open directories.\<close>

function traverse :: "(string \<times> fnode) list list \<Rightarrow> string \<Rightarrow> string list \<Rightarrow> string list" where
  "traverse [] currentPath files = files"
| "traverse ([] # stack) currentPath files = traverse stack (leave_dir currentPath) files"
| "traverse (((name, node) # es) # stack) currentPath files =
     (if name = ''.'' \<or> name = ''..'' then traverse (es # stack) currentPath files
      else case node of
          Dir ok sub \<Rightarrow>
            if \<not> ok then traverse (es # stack) currentPath files
            else traverse (sub # es # stack) (IncludeTrailingPathDelimiter currentPath @ name) files
        | File _ \<Rightarrow> traverse (es # stack) currentPath (files @ [IncludeTrailingPathDelimiter currentPath @ name]))"
  by pat_completeness auto
termination
  by (relation "measure (\<lambda>(stack, _, _). sum_list (map (\<lambda>es. 1 + entries_size es) stack))") auto

declare traverse.simps [simp del]

definition GetDirFiles :: "string \<Rightarrow> fnode option \<Rightarrow> string list \<Rightarrow> string list" where
  "GetDirFiles p root files =
     (case root of
        Some (Dir True es) \<Rightarrow> traverse [es] (ExcludeTrailingPathDelimiter p) files
      | _ \<Rightarrow> files)"

text \<open>\<^verbatim>\<open>realpath\<close> and \<^verbatim>\<open>access\<close> are arguments; the result is what \<^verbatim>\<open>realPath\<close> is set to.\<close>

definition PATH_MAX :: nat where "PATH_MAX = 4096"

definition PathToRealPath :: "(string \<Rightarrow> string option) \<Rightarrow> (string \<Rightarrow> bool) \<Rightarrow> string \<Rightarrow> string \<Rightarrow> bool \<times> string" where
  "PathToRealPath realpath access path realPath =
     (if path = [] \<or> length path \<ge> PATH_MAX then (False, realPath)
      else case realpath path of None \<Rightarrow> (False, realPath) | Some tmpPath \<Rightarrow> (access tmpPath, tmpPath))"

definition IsEmptyFolder :: "string \<Rightarrow> fnode option \<Rightarrow> bool" where
  "IsEmptyFolder p root = (GetDirFiles p root [] = [])"

text \<open>\<open>stat_size\<close> is what \<^verbatim>\<open>stat\<close> answers for a path; the sum is a \<^verbatim>\<open>uint64_t\<close>.\<close>

definition GetFolderSize :: "(string \<Rightarrow> nat option) \<Rightarrow> string \<Rightarrow> fnode option \<Rightarrow> nat" where
  "GetFolderSize stat_size p root =
     foldl (\<lambda>total f. case stat_size f of Some n \<Rightarrow> size_add total (n mod SIZE_MOD) | None \<Rightarrow> total) 0 (GetDirFiles p root [])"

section \<open>What the path functions compute\<close>

lemma rfind_None: "rfind c s = None \<longleftrightarrow> c \<notin> set s"
  by (induction s) (auto split: option.splits)

lemma rfind_Some:
  "rfind c s = Some i \<Longrightarrow> i < length s \<and> s ! i = c \<and> c \<notin> set (drop (Suc i) s)"
  by (induction s arbitrary: i) (auto simp: rfind_None split: option.splits if_splits)

lemma rfind_append:
  "rfind c (s @ t) = (case rfind c t of Some i \<Rightarrow> Some (length s + i) | None \<Rightarrow> rfind c s)"
  by (induction s) (auto split: option.splits)

lemma no_trailing_slash_iff: "no_trailing_slash p \<longleftrightarrow> p \<noteq> [] \<and> last p \<noteq> SLASH"
proof (cases p rule: rev_cases)
  case (snoc q x)
  then show ?thesis
    using rfind_Some [of SLASH q] by (auto simp: no_trailing_slash_def rfind_append split: option.splits)
qed (simp add: no_trailing_slash_def)

lemma Include_eq: "IncludeTrailingPathDelimiter p = (if p \<noteq> [] \<and> last p = SLASH then p else p @ [SLASH])"
  by (auto simp: IncludeTrailingPathDelimiter_def no_trailing_slash_iff)

lemma Exclude_eq: "ExcludeTrailingPathDelimiter p = (if p \<noteq> [] \<and> last p = SLASH then butlast p else p)"
  by (auto simp: ExcludeTrailingPathDelimiter_def no_trailing_slash_iff butlast_conv_take)

text \<open>
  A file name splits into directory and name without loss: \<^verbatim>\<open>ExtractFilePath\<close> and \<^verbatim>\<open>ExtractFileName\<close> cut it
  behind its last slash, the name part has no slash, and the directory part is empty or ends in one. Adding and
  removing a trailing slash undo each other on a path without one.
\<close>

theorem path_parts:
  "ExtractFilePath p @ ExtractFileName p = p
   \<and> SLASH \<notin> set (ExtractFileName p)
   \<and> (ExtractFilePath p = [] \<or> last (ExtractFilePath p) = SLASH)
   \<and> ExcludeTrailingPathDelimiter (IncludeTrailingPathDelimiter p) = (if p \<noteq> [] \<and> last p = SLASH then butlast p else p)
   \<and> last (IncludeTrailingPathDelimiter p) = SLASH"
proof (intro conjI)
  show "SLASH \<notin> set (ExtractFileName p)"
    using rfind_Some [of SLASH p] rfind_None [of SLASH p]
    by (auto simp: ExtractFileName_def after_def split: option.splits)
  show "ExtractFilePath p = [] \<or> last (ExtractFilePath p) = SLASH"
  proof (cases "rfind SLASH p")
    case (Some i)
    with rfind_Some [OF Some] show ?thesis
      by (simp add: ExtractFilePath_def after_def take_Suc_conv_app_nth)
  qed (simp add: ExtractFilePath_def after_def)
qed (simp_all add: ExtractFilePath_def ExtractFileName_def Include_eq Exclude_eq)

section \<open>What the traversal lists\<close>

text \<open>The files below a directory, in the order of its entries, each directory in place.\<close>

fun node_files :: "string \<Rightarrow> string \<times> fnode \<Rightarrow> string list" where
  "node_files dir (name, File n) = (if name = ''.'' \<or> name = ''..'' then [] else [dir @ name])"
| "node_files dir (name, Dir ok es) =
     (if name = ''.'' \<or> name = ''..'' \<or> \<not> ok then [] else concat (map (node_files (dir @ name @ ''/'')) es))"

definition dir_files :: "string \<Rightarrow> (string \<times> fnode) list \<Rightarrow> string list" where
  "dir_files dir es = concat (map (node_files dir) es)"

text \<open>Names in a directory are not empty and have no slash.\<close>

fun names_ok :: "string \<times> fnode \<Rightarrow> bool" where
  "names_ok (name, File n) \<longleftrightarrow> name \<noteq> [] \<and> SLASH \<notin> set name"
| "names_ok (name, Dir ok es) \<longleftrightarrow> name \<noteq> [] \<and> SLASH \<notin> set name \<and> list_all names_ok es"

text \<open>A path whose form with one trailing slash does not end in two.\<close>

definition single_slash :: "string \<Rightarrow> bool" where
  "single_slash p \<longleftrightarrow> (let q = butlast (IncludeTrailingPathDelimiter p) in q = [] \<or> last q \<noteq> SLASH)"

lemma enter_leave:
  fixes p :: string
  assumes "name \<noteq> []" "SLASH \<notin> set name"
  defines "sub \<equiv> IncludeTrailingPathDelimiter p @ name" and "q \<equiv> butlast (IncludeTrailingPathDelimiter p)"
  shows "IncludeTrailingPathDelimiter sub = IncludeTrailingPathDelimiter p @ name @ ''/''"
    "butlast (IncludeTrailingPathDelimiter sub) = sub" "single_slash sub" "leave_dir sub = q"
    "single_slash p \<Longrightarrow> IncludeTrailingPathDelimiter q = IncludeTrailingPathDelimiter p"
    "single_slash p \<Longrightarrow> single_slash q"
proof -
  have "last name \<noteq> SLASH" using assms(2) last_in_set [OF assms(1)] by metis
  then have l: "last sub \<noteq> SLASH" "sub \<noteq> []"
    using assms(1) by (simp_all add: sub_def)
  then have i: "IncludeTrailingPathDelimiter sub = sub @ [SLASH]" by (simp add: Include_eq)
  then show "IncludeTrailingPathDelimiter sub = IncludeTrailingPathDelimiter p @ name @ ''/''" by (simp add: sub_def)
  show "butlast (IncludeTrailingPathDelimiter sub) = sub" "single_slash sub" using i l by (simp_all add: single_slash_def)
  have "IncludeTrailingPathDelimiter p \<noteq> []" "last (IncludeTrailingPathDelimiter p) = SLASH"
    by (auto simp: Include_eq)
  then have q: "IncludeTrailingPathDelimiter p = q @ [SLASH]"
    unfolding q_def by (metis append_butlast_last_id)
  have "rfind SLASH name = None" using assms(2) by (simp add: rfind_None)
  then show "leave_dir sub = q"
    unfolding sub_def q by (simp add: leave_dir_def rfind_append)
  assume "single_slash p"
  then have "q = [] \<or> last q \<noteq> SLASH" by (simp add: single_slash_def q)
  then show j: "IncludeTrailingPathDelimiter q = IncludeTrailingPathDelimiter p"
    unfolding q by (simp add: Include_eq)
  show "single_slash q"
    using \<open>single_slash p\<close> by (simp add: single_slash_def j)
qed

text \<open>
  The stack holds the rests of the directories on the current path: the traversal lists the rest of the innermost one
  and comes to its end with the same path, but perhaps for a trailing slash.
\<close>

lemma traverse_top:
  assumes "single_slash p" "list_all names_ok es"
  shows "\<exists>p'. (p' = p \<or> p' = butlast (IncludeTrailingPathDelimiter p)) \<and>
     traverse (es # stack) p files = traverse ([] # stack) p' (files @ dir_files (IncludeTrailingPathDelimiter p) es)"
  using assms
proof (induction "entries_size es" arbitrary: es p stack files rule: less_induct)
  case less
  show ?case
  proof (cases es)
    case Nil
    then show ?thesis using less.prems by (auto simp: dir_files_def)
  next
    case (Cons e es')
    obtain name node where e: "e = (name, node)" by (cases e)
    have es': "list_all names_ok es'" "entries_size es' < entries_size es"
      using less.prems Cons by auto
    have name: "name \<noteq> []" "SLASH \<notin> set name"
      using less.prems(2) Cons e by (cases node; simp)+
    note IH = less.hyps [OF es'(2) _ es'(1)]
    let ?P = "IncludeTrailingPathDelimiter p"
    show ?thesis
    proof (cases "\<exists>ok sub. node = Dir ok sub \<and> ok \<and> name \<noteq> ''.'' \<and> name \<noteq> ''..''")
      case False
      define new where "new = node_files ?P (name, node)"
      have "traverse (es # stack) p files = traverse (es' # stack) p (files @ new)"
        using Cons e False by (cases node) (auto simp: traverse.simps new_def)
      moreover have "dir_files ?P es = new @ dir_files ?P es'"
        using Cons e by (simp add: dir_files_def new_def)
      ultimately show ?thesis using IH [OF less.prems(1), of stack "files @ new"] by simp
    next
      case True
      then obtain sub where d: "node = Dir True sub" "name \<noteq> ''.''" "name \<noteq> ''..''" by auto
      note el = enter_leave [OF name, of p]
      let ?q = "butlast ?P"
      have sub: "list_all names_ok sub" "entries_size sub < entries_size es"
        using less.prems(2) Cons e d by simp_all
      have new: "dir_files ?P es = dir_files (?P @ name @ ''/'') sub @ dir_files ?P es'"
        using Cons e d by (simp add: dir_files_def)
      have "traverse (es # stack) p files = traverse (sub # es' # stack) (?P @ name) files"
        using Cons e d by (simp add: traverse.simps)
      also have "\<dots> = traverse ([] # es' # stack) (?P @ name) (files @ dir_files (?P @ name @ ''/'') sub)"
        using less.hyps [OF sub(2) el(3) sub(1), of "es' # stack" files] unfolding el(2) unfolding el(1) by auto
      also have "\<dots> = traverse (es' # stack) ?q (files @ dir_files (?P @ name @ ''/'') sub)"
        by (simp add: traverse.simps el(4))
      finally show ?thesis
        using IH [OF el(6) [OF less.prems(1)], of stack "files @ dir_files (?P @ name @ ''/'') sub"]
        unfolding el(5) [OF less.prems(1)] new by auto
    qed
  qed
qed

text \<open>
  \<^verbatim>\<open>GetDirFiles\<close>, which keeps a stack of open directories and edits the current path in place, lists exactly the
  files below the given directory, in the order in which the file system returns the entries, each directory's files
  in its place and each with its full path; directories that cannot be opened are left out, and so are the entries
  for the directory itself and its parent. It terminates on every tree.
\<close>

theorem GetDirFiles_lists_tree:
  assumes "list_all names_ok es" "single_slash (ExcludeTrailingPathDelimiter p)"
  shows "GetDirFiles p (Some (Dir True es)) files =
    files @ dir_files (IncludeTrailingPathDelimiter (ExcludeTrailingPathDelimiter p)) es"
  using traverse_top [OF assms(2,1), of "[]" files] by (auto simp: GetDirFiles_def traverse.simps)

lemma GetDirFiles_lists_tree_witness:
  "GetDirFiles ''a/'' (Some (Dir True [(''.'', Dir True []), (''d'', Dir True [(''x'', File 1)]), (''y'', File 2)])) [] =
    [] @ dir_files (IncludeTrailingPathDelimiter (ExcludeTrailingPathDelimiter ''a/''))
           [(''.'', Dir True []), (''d'', Dir True [(''x'', File 1)]), (''y'', File 2)]"
  by (rule GetDirFiles_lists_tree) (simp_all add: single_slash_def Include_eq Exclude_eq)

end
