(* ===== verification/Directory_Remove.thy ===== *)
theory Directory_Remove
  imports Directory_Ex "HOL-Library.Multiset"
begin

text \<open>
  Removing directory trees (\<^verbatim>\<open>base/src/directory_ex.cpp\<close>): \<^verbatim>\<open>ForceRemoveDirectory\<close> with its two stacks and the recursive
  \<^verbatim>\<open>ForceRemoveDirectoryBMS\<close>. The disk is the list of existing paths with their kinds, a path is the list of its
  components, and a descriptor of a directory is its path. A directory that has been opened is what \<^verbatim>\<open>readdir\<close> still
  returns of it, the tree as it was when it was opened; symbolic links are not followed and count as files. Which
  system calls fail is an argument; \<^verbatim>\<open>dirfd\<close> and \<^verbatim>\<open>fdopendir\<close> of an open directory do not fail by themselves.
\<close>

section \<open>The disk\<close>

datatype kind = KFile | KDir

type_synonym path = "string list"
type_synonym disk = "(path \<times> kind) list"

record rm_os =
  openable :: "path \<Rightarrow> bool"
  accessible :: "path \<Rightarrow> bool"
  removable :: "path \<Rightarrow> bool"

definition dot :: "string \<Rightarrow> bool" where
  "dot name \<longleftrightarrow> name = ''.'' \<or> name = ''..''"

fun node_kind :: "fnode \<Rightarrow> kind" where
  "node_kind (File _) = KFile"
| "node_kind (Dir _ _) = KDir"

definition faccess :: "rm_os \<Rightarrow> path \<Rightarrow> disk \<Rightarrow> bool" where
  "faccess os p d \<longleftrightarrow> accessible os p \<and> p \<in> fst ` set d"

definition erase :: "path \<Rightarrow> disk \<Rightarrow> disk" where
  "erase p d = filter (\<lambda>e. fst e \<noteq> p) d"

definition unlink_file :: "rm_os \<Rightarrow> path \<Rightarrow> disk \<Rightarrow> bool \<times> disk" where
  "unlink_file os p d = (if removable os p \<and> (p, KFile) \<in> set d then (True, erase p d) else (False, d))"

text \<open>A directory is removed only when it is empty.\<close>

definition unlink_dir :: "rm_os \<Rightarrow> path \<Rightarrow> disk \<Rightarrow> bool \<times> disk" where
  "unlink_dir os p d =
     (if removable os p \<and> (p, KDir) \<in> set d \<and> \<not> list_ex (\<lambda>e. fst e \<noteq> [] \<and> butlast (fst e) = p) d then (True, erase p d) else (False, d))"

section \<open>\<^verbatim>\<open>ForceRemoveDirectory\<close>\<close>

type_synonym opened = "path \<times> (string \<times> fnode) list"

record remover =
  rm_ret :: bool
  rm_disk :: disk
  traversStack :: "opened list"
  removeStack :: "(path \<times> string) list"

text \<open>The loop over the entries of one directory; an entry that cannot be unlinked ends it.\<close>

fun scan_entries :: "rm_os \<Rightarrow> path \<Rightarrow> (string \<times> fnode) list \<Rightarrow> remover \<Rightarrow> remover" where
  "scan_entries os p [] st = st"
| "scan_entries os p ((name, node) # es) st =
     (if dot name then scan_entries os p es st
      else case node of
          Dir ok sub \<Rightarrow>
            if ok \<and> openable os (p @ [name])
            then scan_entries os p es (st\<lparr>removeStack := (p, name) # removeStack st, traversStack := (p @ [name], sub) # traversStack st\<rparr>)
            else scan_entries os p es (st\<lparr>rm_ret := False\<rparr>)
        | File _ \<Rightarrow>
            if faccess os (p @ [name]) (rm_disk st)
            then case unlink_file os (p @ [name]) (rm_disk st) of
                (True, d) \<Rightarrow> scan_entries os p es (st\<lparr>rm_disk := d\<rparr>)
              | (False, d) \<Rightarrow> st\<lparr>rm_ret := False, rm_disk := d\<rparr>
            else st\<lparr>rm_ret := False\<rparr>)"

definition pending_size :: "opened list \<Rightarrow> nat" where
  "pending_size stack = sum_list (map (\<lambda>x. 1 + entries_size (snd x)) stack)"

lemma scan_entries_size:
  "pending_size (traversStack (scan_entries os p es st)) \<le> pending_size (traversStack st) + entries_size es"
proof (induction os p es st rule: scan_entries.induct)
  case (2 os p name node es st)
  then show ?case by (fastforce simp: pending_size_def split: fnode.splits prod.splits bool.splits)
qed simp

function remove_traverse :: "rm_os \<Rightarrow> remover \<Rightarrow> remover" where
  "remove_traverse os st =
     (case traversStack st of
        [] \<Rightarrow> st
      | (p, es) # rest \<Rightarrow> remove_traverse os (scan_entries os p es (st\<lparr>traversStack := rest\<rparr>)))"
  by pat_completeness auto
termination
proof (relation "measure (\<lambda>(os, st). pending_size (traversStack st))", goal_cases)
  case (2 os st x rest p es)
  then show ?case using scan_entries_size [of os p es "st\<lparr>traversStack := rest\<rparr>"] by (auto simp: pending_size_def)
qed simp

declare remove_traverse.simps [simp del]

fun remove_dirs :: "rm_os \<Rightarrow> (path \<times> string) list \<Rightarrow> disk \<Rightarrow> disk" where
  "remove_dirs os [] d = d"
| "remove_dirs os ((p, name) # stack) d = remove_dirs os stack (snd (unlink_dir os (p @ [name]) d))"

definition remove_root :: "rm_os \<Rightarrow> path \<Rightarrow> disk \<Rightarrow> bool \<times> disk" where
  "remove_root os p d =
     (if faccess os p d
      then case unlink_dir os p d of
          (False, d1) \<Rightarrow> (False, d1)
        | (True, d1) \<Rightarrow> (\<not> faccess os p d1, d1)
      else (\<not> faccess os p d, d))"

text \<open>The root is \<^verbatim>\<open>Some\<close> of its entries when \<^verbatim>\<open>opendir\<close> succeeds.\<close>

definition ForceRemoveDirectory :: "rm_os \<Rightarrow> path \<Rightarrow> (string \<times> fnode) list option \<Rightarrow> disk \<Rightarrow> bool \<times> disk" where
  "ForceRemoveDirectory os p root d =
     (case root of
        None \<Rightarrow> (False, d)
      | Some es \<Rightarrow>
          let st = remove_traverse os \<lparr>rm_ret = True, rm_disk = d, traversStack = [(p, es)], removeStack = []\<rparr>
          in remove_root os p (remove_dirs os (removeStack st) (rm_disk st)))"

section \<open>\<^verbatim>\<open>ForceRemoveDirectoryBMS\<close>\<close>

text \<open>A file that cannot be unlinked ends the function; the result for a subdirectory replaces \<^verbatim>\<open>ret\<close>.\<close>

fun remove_internal :: "rm_os \<Rightarrow> path \<Rightarrow> (string \<times> fnode) list \<Rightarrow> bool \<Rightarrow> disk \<Rightarrow> bool \<times> disk" where
  "remove_internal os p [] ret d = (ret, d)"
| "remove_internal os p ((name, File n) # es) ret d =
     (if dot name then remove_internal os p es ret d
      else if faccess os (p @ [name]) d
      then case unlink_file os (p @ [name]) d of
          (True, d1) \<Rightarrow> remove_internal os p es ret d1
        | (False, d1) \<Rightarrow> (False, d1)
      else (False, d))"
| "remove_internal os p ((name, Dir ok sub) # es) ret d =
     (if dot name then remove_internal os p es ret d
      else if ok \<and> openable os (p @ [name])
      then case remove_internal os (p @ [name]) sub True d of
          (ret1, d1) \<Rightarrow>
            (case unlink_dir os (p @ [name]) d1 of
               (True, d2) \<Rightarrow> remove_internal os p es ret1 d2
             | (False, d2) \<Rightarrow> remove_internal os p es False d2)
      else remove_internal os p es False d)"

definition ForceRemoveDirectoryInternal :: "rm_os \<Rightarrow> path \<Rightarrow> (string \<times> fnode) list \<Rightarrow> disk \<Rightarrow> bool \<times> disk" where
  "ForceRemoveDirectoryInternal os p es d = remove_internal os p es True d"

definition ForceRemoveDirectoryBMS :: "rm_os \<Rightarrow> path \<Rightarrow> (string \<times> fnode) list option \<Rightarrow> disk \<Rightarrow> bool \<times> disk" where
  "ForceRemoveDirectoryBMS os p root d =
     (case root of
        None \<Rightarrow> (False, d)
      | Some es \<Rightarrow> remove_root os p (snd (ForceRemoveDirectoryInternal os p es d)))"

definition RemoveFile :: "rm_os \<Rightarrow> path \<Rightarrow> disk \<Rightarrow> bool \<times> disk" where
  "RemoveFile os p d =
     (if faccess os p d then (if (p, KDir) \<in> set d then unlink_dir os p d else unlink_file os p d) else (True, d))"

section \<open>Nothing outside the tree is touched\<close>

definition only_below :: "path \<Rightarrow> disk \<Rightarrow> disk \<Rightarrow> bool" where
  "only_below r d d' \<longleftrightarrow> set d' \<subseteq> set d \<and> (\<forall>e\<in>set d. \<not> prefix r (fst e) \<longrightarrow> e \<in> set d')"

lemma only_below_refl [simp]: "only_below r d d"
  by (simp add: only_below_def)

lemma only_below_trans: "only_below r d d1 \<Longrightarrow> only_below r d1 d2 \<Longrightarrow> only_below r d d2"
  by (auto simp: only_below_def)

lemma only_below_unlink:
  assumes "prefix r p"
  shows "only_below r d (snd (unlink_file os p d))" "only_below r d (snd (unlink_dir os p d))"
  using assms by (auto simp: only_below_def unlink_file_def unlink_dir_def erase_def)

lemma scan_entries_below:
  assumes "prefix r p" "\<forall>x\<in>set (traversStack st). prefix r (fst x)" "\<forall>x\<in>set (removeStack st). prefix r (fst x)"
  shows "only_below r (rm_disk st) (rm_disk (scan_entries os p es st)) \<and>
    (\<forall>x\<in>set (traversStack (scan_entries os p es st)). prefix r (fst x)) \<and>
    (\<forall>x\<in>set (removeStack (scan_entries os p es st)). prefix r (fst x))"
  using assms
proof (induction es arbitrary: st)
  case (Cons e es)
  obtain name node where e: "e = (name, node)" by (cases e)
  have pre: "prefix r (p @ [name])" using Cons.prems(1) by (simp add: prefix_prefix)
  show ?case
  proof (cases "dot name")
    case True
    then show ?thesis using Cons.IH [OF Cons.prems] e by simp
  next
    case name: False
    show ?thesis
    proof (cases node)
      case (Dir ok sub)
      show ?thesis
      proof (cases "ok \<and> openable os (p @ [name])")
        case True
        let ?st = "st\<lparr>removeStack := (p, name) # removeStack st, traversStack := (p @ [name], sub) # traversStack st\<rparr>"
        have "scan_entries os p (e # es) st = scan_entries os p es ?st" using True name Dir e by simp
        then show ?thesis using Cons.IH [of ?st] Cons.prems pre by auto
      next
        case False
        have "scan_entries os p (e # es) st = scan_entries os p es (st\<lparr>rm_ret := False\<rparr>)" using False name Dir e by auto
        then show ?thesis using Cons.IH [of "st\<lparr>rm_ret := False\<rparr>"] Cons.prems by auto
      qed
    next
      case (File n)
      obtain b d where u: "unlink_file os (p @ [name]) (rm_disk st) = (b, d)" by fastforce
      have below: "only_below r (rm_disk st) d" using only_below_unlink(1) [OF pre, of "rm_disk st" os] u by simp
      show ?thesis
      proof (cases "faccess os (p @ [name]) (rm_disk st) \<and> b")
        case True
        then have "scan_entries os p (e # es) st = scan_entries os p es (st\<lparr>rm_disk := d\<rparr>)" using name File e u by simp
        then show ?thesis using Cons.IH [of "st\<lparr>rm_disk := d\<rparr>"] Cons.prems only_below_trans [OF below] by auto
      next
        case False
        then have "scan_entries os p (e # es) st = st\<lparr>rm_ret := False, rm_disk := (if faccess os (p @ [name]) (rm_disk st) then d else rm_disk st)\<rparr>"
          using name File e u by auto
        then show ?thesis using Cons.prems below by auto
      qed
    qed
  qed
qed simp

lemma remove_traverse_below:
  assumes "\<forall>x\<in>set (traversStack st). prefix r (fst x)" "\<forall>x\<in>set (removeStack st). prefix r (fst x)"
  shows "only_below r (rm_disk st) (rm_disk (remove_traverse os st)) \<and> (\<forall>x\<in>set (removeStack (remove_traverse os st)). prefix r (fst x))"
  using assms
proof (induction os st rule: remove_traverse.induct)
  case (1 os st)
  show ?case
  proof (cases "traversStack st")
    case (Cons x rest)
    obtain p es where x: "x = (p, es)" by (cases x)
    let ?st = "st\<lparr>traversStack := rest\<rparr>"
    have "prefix r p" using 1(2) Cons x by simp
    from scan_entries_below [OF this, of ?st os es] 1(2,3) Cons
    have s: "only_below r (rm_disk st) (rm_disk (scan_entries os p es ?st))"
      "\<forall>x\<in>set (traversStack (scan_entries os p es ?st)). prefix r (fst x)"
      "\<forall>x\<in>set (removeStack (scan_entries os p es ?st)). prefix r (fst x)" by auto
    have step: "remove_traverse os st = remove_traverse os (scan_entries os p es ?st)" using Cons x by (simp add: remove_traverse.simps [of os st])
    show ?thesis unfolding step using 1(1) [OF Cons x [symmetric] s(2,3)] only_below_trans [OF s(1)] by blast
  qed (use 1(3) in \<open>simp add: remove_traverse.simps\<close>)
qed

lemma remove_dirs_below: "\<forall>x\<in>set ds. prefix r (fst x) \<Longrightarrow> only_below r d (remove_dirs os ds d)"
proof (induction ds arbitrary: d)
  case (Cons x ds)
  obtain p name where x: "x = (p, name)" by (cases x)
  have "only_below r d (snd (unlink_dir os (p @ [name]) d))" using Cons.prems x by (intro only_below_unlink(2)) (simp add: prefix_prefix)
  then show ?case using Cons x only_below_trans by auto
qed simp

lemma remove_root_below: "only_below p d (snd (remove_root os p d))"
proof -
  have "only_below p d (snd (unlink_dir os p d))" by (rule only_below_unlink(2)) simp
  then show ?thesis by (auto simp: remove_root_def split: prod.splits bool.splits)
qed

lemma remove_internal_below: "prefix r p \<Longrightarrow> only_below r d (snd (remove_internal os p es ret d))"
proof (induction os p es ret d rule: remove_internal.induct)
  case (2 os p name n es ret d)
  have pre: "prefix r (p @ [name])" using 2(3) by (simp add: prefix_prefix)
  obtain b d1 where u: "unlink_file os (p @ [name]) d = (b, d1)" by fastforce
  have below: "only_below r d d1" using only_below_unlink(1) [OF pre, of d os] u by simp
  show ?case
  proof (cases "\<not> dot name \<and> faccess os (p @ [name]) d \<and> b")
    case True
    then have "only_below r d1 (snd (remove_internal os p es ret d1))" using 2(2) [of b d1] u 2(3) by auto
    then show ?thesis using True u only_below_trans [OF below] by simp
  next
    case False
    show ?thesis
    proof (cases "dot name")
      case True
      then show ?thesis using 2(1) [OF True 2(3)] by simp
    qed (use False u below in auto)
  qed
next
  case (3 os p name ok sub es ret d)
  have pre: "prefix r (p @ [name])" using 3(6) by (simp add: prefix_prefix)
  obtain ret1 d1 where r1: "remove_internal os (p @ [name]) sub True d = (ret1, d1)" by fastforce
  obtain b d2 where r2: "unlink_dir os (p @ [name]) d1 = (b, d2)" by fastforce
  show ?case
  proof (cases "\<not> dot name \<and> ok \<and> openable os (p @ [name])")
    case True
    then have "only_below r d (snd (remove_internal os (p @ [name]) sub True d))" using 3(2) pre by blast
    then have "only_below r d d1" using r1 by simp
    moreover have "only_below r d1 d2" using only_below_unlink(2) [OF pre, of d1 os] r2 by simp
    ultimately have d2: "only_below r d d2" by (rule only_below_trans)
    show ?thesis
    proof (cases b)
      case b: True
      have "only_below r d2 (snd (remove_internal os p es ret1 d2))" using 3(3) [of ret1 d1 b d2] True r1 r2 b 3(6) by auto
      then show ?thesis using True r1 r2 b only_below_trans [OF d2] by simp
    next
      case b: False
      have "only_below r d2 (snd (remove_internal os p es False d2))" using 3(4) [of ret1 d1 b d2] True r1 r2 b 3(6) by auto
      then show ?thesis using True r1 r2 b only_below_trans [OF d2] by simp
    qed
  next
    case False
    show ?thesis
    proof (cases "dot name")
      case True
      then show ?thesis using 3(1) [OF True 3(6)] by simp
    next
      case name: False
      then have "only_below r d (snd (remove_internal os p es False d))" using 3(5) False 3(6) by blast
      then show ?thesis using False name by auto
    qed
  qed
qed simp

section \<open>Everything in the tree is removed\<close>

fun node_list :: "path \<Rightarrow> fnode \<Rightarrow> disk" where
  "node_list x (File _) = [(x, KFile)]"
| "node_list x (Dir ok es) = (x, KDir) # concat (map (\<lambda>e. if dot (fst e) then [] else node_list (x @ [fst e]) (snd e)) es)"

text \<open>Names are unique in a directory and directories can be opened; no system call fails.\<close>

fun tree_ok :: "fnode \<Rightarrow> bool" where
  "tree_ok (File _) = True"
| "tree_ok (Dir ok es) \<longleftrightarrow> ok \<and> distinct (map fst es) \<and> list_all (\<lambda>e. dot (fst e) \<or> tree_ok (snd e)) es"

definition calm :: "rm_os \<Rightarrow> bool" where
  "calm os \<longleftrightarrow> (\<forall>p. openable os p \<and> accessible os p \<and> removable os p)"

definition children :: "path \<Rightarrow> (string \<times> fnode) list \<Rightarrow> (path \<times> fnode) list" where
  "children p es = map (\<lambda>e. (p @ [fst e], snd e)) (filter (\<lambda>e. \<not> dot (fst e)) es)"

lemma children_simps [simp]:
  "children p [] = []" "children p ((n, c) # es) = (if dot n then children p es else (p @ [n], c) # children p es)"
  by (simp_all add: children_def)

lemma node_list_children: "set (node_list x (Dir ok es)) = insert (x, KDir) (\<Union>a\<in>set (children x es). set (node_list (fst a) (snd a)))"
  by (auto simp: children_def)

lemma node_list_prefix: "e \<in> set (node_list x c) \<Longrightarrow> prefix x (fst e)"
proof (induction x c rule: node_list.induct)
  case (2 x ok es)
  show ?case
  proof (cases "e = (x, KDir)")
    case False
    then obtain c where c: "c \<in> set es" "\<not> dot (fst c)" "e \<in> set (node_list (x @ [fst c]) (snd c))"
      using 2(2) by (auto split: if_splits)
    from 2(1) [OF c] show ?thesis by (rule append_prefixD)
  qed simp
qed simp

lemma children_ok:
  assumes "tree_ok (Dir ok es)"
  shows "distinct (map fst (children p es))" "a \<in> set (children p es) \<Longrightarrow> tree_ok (snd a)"
proof -
  have "distinct (map fst (filter (\<lambda>e. \<not> dot (fst e)) es))" using assms by (simp add: distinct_map_filter)
  then show "distinct (map fst (children p es))" by (simp add: children_def comp_def distinct_map inj_on_def)
  show "a \<in> set (children p es) \<Longrightarrow> tree_ok (snd a)" using assms by (auto simp: children_def list_all_iff)
qed

lemma children_parent: "a \<in> set (children p es) \<Longrightarrow> \<exists>n. fst a = p @ [n]"
  by (auto simp: children_def)

text \<open>The directories to remove: none is followed by one below it.\<close>

fun topo :: "path list \<Rightarrow> bool" where
  "topo [] = True"
| "topo (x # S) \<longleftrightarrow> (\<forall>y\<in>set S. \<not> prefix x y) \<and> topo S"

text \<open>
  What is left of the tree below \<open>r\<close>: the trees of the entries still to visit, none inside another, and the directories on
  the stack, none inside an entry still to visit.
\<close>

definition rm_inv :: "path \<Rightarrow> (path \<times> fnode) list \<Rightarrow> path list \<Rightarrow> disk \<Rightarrow> bool" where
  "rm_inv r items S d \<longleftrightarrow> distinct (map fst items) \<and>
     (\<forall>a\<in>set items. \<forall>b\<in>set items. prefix (fst a) (fst b) \<longrightarrow> fst a = fst b) \<and>
     (\<forall>a\<in>set items. tree_ok (snd a) \<and> strict_prefix r (fst a)) \<and>
     (\<forall>y\<in>set S. strict_prefix r y \<and> (\<forall>a\<in>set items. \<not> prefix (fst a) y)) \<and> topo S \<and> (r, KDir) \<in> set d \<and>
     {e \<in> set d. strict_prefix r (fst e)} = (\<Union>a\<in>set items. set (node_list (fst a) (snd a))) \<union> (\<lambda>y. (y, KDir)) ` set S"

lemma rm_invD:
  assumes "rm_inv r items S d"
  shows "distinct (map fst items)" "a \<in> set items \<Longrightarrow> b \<in> set items \<Longrightarrow> prefix (fst a) (fst b) \<Longrightarrow> fst a = fst b"
    "a \<in> set items \<Longrightarrow> tree_ok (snd a)" "a \<in> set items \<Longrightarrow> strict_prefix r (fst a)" "y \<in> set S \<Longrightarrow> strict_prefix r y"
    "y \<in> set S \<Longrightarrow> a \<in> set items \<Longrightarrow> \<not> prefix (fst a) y" "topo S" "(r, KDir) \<in> set d"
    "{e \<in> set d. strict_prefix r (fst e)} = (\<Union>a\<in>set items. set (node_list (fst a) (snd a))) \<union> (\<lambda>y. (y, KDir)) ` set S"
proof -
  note I = assms [unfolded rm_inv_def]
  from I show "distinct (map fst items)" by (elim conjE)
  from I have "\<forall>a\<in>set items. \<forall>b\<in>set items. prefix (fst a) (fst b) \<longrightarrow> fst a = fst b" by (elim conjE)
  then show "a \<in> set items \<Longrightarrow> b \<in> set items \<Longrightarrow> prefix (fst a) (fst b) \<Longrightarrow> fst a = fst b" by blast
  from I have "\<forall>a\<in>set items. tree_ok (snd a) \<and> strict_prefix r (fst a)" by (elim conjE)
  then show "a \<in> set items \<Longrightarrow> tree_ok (snd a)" "a \<in> set items \<Longrightarrow> strict_prefix r (fst a)" by blast+
  from I have "\<forall>y\<in>set S. strict_prefix r y \<and> (\<forall>a\<in>set items. \<not> prefix (fst a) y)" by (elim conjE)
  then show "y \<in> set S \<Longrightarrow> strict_prefix r y" "y \<in> set S \<Longrightarrow> a \<in> set items \<Longrightarrow> \<not> prefix (fst a) y" by blast+
  from I show "topo S" "(r, KDir) \<in> set d" by simp_all
  from I show "{e \<in> set d. strict_prefix r (fst e)} = (\<Union>a\<in>set items. set (node_list (fst a) (snd a))) \<union> (\<lambda>y. (y, KDir)) ` set S" by (elim conjE)
qed

lemma rm_inv_perm:
  assumes "rm_inv r items S d" "mset items' = mset items"
  shows "rm_inv r items' S d"
proof -
  have "distinct (map fst items') = distinct (map fst items)" using assms(2) by (metis mset_map mset_eq_imp_distinct_iff)
  moreover have "set items' = set items" using assms(2) by (rule mset_eq_setD)
  ultimately show ?thesis using assms(1) by (simp add: rm_inv_def)
qed

lemma rm_inv_file:
  assumes inv: "rm_inv r ((x, File n) # items) S d"
  shows "(x, KFile) \<in> set d" "rm_inv r items S (erase x d)"
proof -
  note D = rm_invD [OF inv]
  show "(x, KFile) \<in> set d" using D(9) by auto
  have x: "strict_prefix r x" using D(4) [of "(x, File n)"] by simp
  have other: "fst e \<noteq> x" if "a \<in> set items" "e \<in> set (node_list (fst a) (snd a))" for a e
  proof
    assume "fst e = x"
    then have "prefix (fst a) x" using node_list_prefix [OF that(2)] by simp
    then have "fst a = x" using D(2) [of a "(x, File n)"] that(1) by simp
    then show False using D(1) that(1) by force
  qed
  have stack: "y \<noteq> x" if "y \<in> set S" for y using D(6) [OF that, of "(x, File n)"] by auto
  have "{e \<in> set (erase x d). strict_prefix r (fst e)} = {e \<in> set d. strict_prefix r (fst e)} - {e. fst e = x}" by (auto simp: erase_def)
  also have "\<dots> = (\<Union>a\<in>set items. set (node_list (fst a) (snd a))) \<union> (\<lambda>y. (y, KDir)) ` set S"
    unfolding D(9) by (auto dest: other stack) 
  finally show "rm_inv r items S (erase x d)"
    unfolding rm_inv_def using D(1-8) x by (auto simp: erase_def)
qed

lemma rm_inv_dir:
  assumes inv: "rm_inv r ((x, Dir ok sub) # items) S d"
  shows "ok" "rm_inv r (children x sub @ items) (x # S) d"
proof -
  note D = rm_invD [OF inv]
  have ok: "tree_ok (Dir ok sub)" using D(3) [of "(x, Dir ok sub)"] by simp
  then show "ok" by simp
  have x: "strict_prefix r x" using D(4) [of "(x, Dir ok sub)"] by simp
  have rest: "\<not> prefix x (fst a)" "\<not> prefix (fst a) x" if "a \<in> set items" for a
    using D(1) D(2) [of "(x, Dir ok sub)" a] D(2) [of a "(x, Dir ok sub)"] that by force+
  have up: "prefix x (fst c) \<and> fst c \<noteq> x \<and> (prefix (fst a) (fst c) \<longrightarrow> fst a = fst c \<or> prefix (fst a) x)" if "c \<in> set (children x sub)" for c a
    using children_parent [OF that] by auto
  have child: "\<not> prefix (fst c) y" if "c \<in> set (children x sub)" "\<not> prefix x y" for c y using up [OF that(1)] that(2) prefix_order.trans by blast
  show "rm_inv r (children x sub @ items) (x # S) d"
    unfolding rm_inv_def
  proof (intro conjI ballI impI)
    have "fst c \<noteq> fst a" if "c \<in> set (children x sub)" "a \<in> set items" for a c using rest(1) [OF that(2)] up [OF that(1)] by auto
    then have "fst ` set (children x sub) \<inter> fst ` set items = {}" by blast
    then show "distinct (map fst (children x sub @ items))" using D(1) children_ok(1) [OF ok, of x] by simp
    fix a assume a: "a \<in> set (children x sub @ items)"
    show "tree_ok (snd a)" using a children_ok(2) [OF ok, of a x] D(3) [of a] by auto
    show "strict_prefix r (fst a)"
    proof (cases "a \<in> set (children x sub)")
      case True
      then show ?thesis using up [OF True] x prefix_order.less_le_trans by blast
    qed (use a D(4) [of a] in auto)
    fix b assume b: "b \<in> set (children x sub @ items)" "prefix (fst a) (fst b)"
    show "fst a = fst b"
    proof (cases "b \<in> set (children x sub)")
      case True
      then show ?thesis using up [OF True, of a] b(2) a rest(2) [of a] up [of a a] prefix_order.antisym [of "fst a" x] by auto
    next
      case False
      then show ?thesis using a b D(2) [of a b] child [of a "fst b"] rest(1) [of b] by auto
    qed
  next
    fix y assume y: "y \<in> set (x # S)"
    show "strict_prefix r y" using y x D(5) by auto
    fix a assume a: "a \<in> set (children x sub @ items)"
    have "\<not> prefix x z" if "z \<in> set S" for z using D(6) [OF that, of "(x, Dir ok sub)"] by simp
    then show "\<not> prefix (fst a) y"
      using y a rest(2) [of a] D(6) [of y a] child [of a y] up [of a a] prefix_order.antisym [of "fst a" x] by auto
  next
    have "\<not> prefix x z" if "z \<in> set S" for z using D(6) [OF that, of "(x, Dir ok sub)"] by simp
    then show "topo (x # S)" using D(7) by simp
    show "(r, KDir) \<in> set d" by (rule D(8))
    show "{e \<in> set d. strict_prefix r (fst e)} =
      (\<Union>a\<in>set (children x sub @ items). set (node_list (fst a) (snd a))) \<union> (\<lambda>y. (y, KDir)) ` set (x # S)"
      unfolding D(9) using node_list_children [of x ok sub] by auto
  qed
qed

text \<open>The two loops establish and use the invariant.\<close>

definition flat :: "opened list \<Rightarrow> (path \<times> fnode) list" where
  "flat stack = concat (map (\<lambda>x. children (fst x) (snd x)) stack)"

definition full_paths :: "(path \<times> string) list \<Rightarrow> path list" where
  "full_paths ds = map (\<lambda>x. fst x @ [snd x]) ds"

lemma scan_entries_inv:
  assumes "calm os" "rm_inv r (children p es @ flat (traversStack st)) (full_paths (removeStack st)) (rm_disk st)"
  defines "st' \<equiv> scan_entries os p es st"
  shows "rm_inv r (flat (traversStack st')) (full_paths (removeStack st')) (rm_disk st')"
  using assms(2) unfolding st'_def
proof (induction es arbitrary: st)
  case (Cons e es)
  obtain name node where e: "e = (name, node)" by (cases e)
  show ?case
  proof (cases "dot name")
    case True
    then show ?thesis using Cons e by simp
  next
    case name: False
    let ?x = "p @ [name]" and ?rest = "children p es @ flat (traversStack st)"
    have inv: "rm_inv r ((?x, node) # ?rest) (full_paths (removeStack st)) (rm_disk st)" using Cons.prems e name by simp
    show ?thesis
    proof (cases node)
      case (Dir ok sub)
      let ?st = "st\<lparr>removeStack := (p, name) # removeStack st, traversStack := (?x, sub) # traversStack st\<rparr>"
      note D = rm_inv_dir [OF inv [unfolded Dir]]
      have "rm_inv r (children p es @ flat (traversStack ?st)) (full_paths (removeStack ?st)) (rm_disk ?st)"
        using rm_inv_perm [OF D(2), of "children p es @ flat (traversStack ?st)"] by (simp add: flat_def full_paths_def)
      from Cons.IH [OF this] show ?thesis using name e Dir D(1) assms(1) by (simp add: calm_def)
    next
      case (File n)
      note F = rm_inv_file [OF inv [unfolded File]]
      have "?x \<in> fst ` set (rm_disk st)" using F(1) by force
      then have "scan_entries os p (e # es) st = scan_entries os p es (st\<lparr>rm_disk := erase ?x (rm_disk st)\<rparr>)"
        using name e File F(1) assms(1) by (simp add: calm_def faccess_def unlink_file_def)
      then show ?thesis using Cons.IH [of "st\<lparr>rm_disk := erase ?x (rm_disk st)\<rparr>"] F(2) by simp
    qed
  qed
qed simp

lemma remove_traverse_inv:
  assumes "calm os" "rm_inv r (flat (traversStack st)) (full_paths (removeStack st)) (rm_disk st)"
  shows "rm_inv r [] (full_paths (removeStack (remove_traverse os st))) (rm_disk (remove_traverse os st))"
  using assms
proof (induction os st rule: remove_traverse.induct)
  case (1 os st)
  show ?case
  proof (cases "traversStack st")
    case Nil
    then show ?thesis using 1(3) by (simp add: remove_traverse.simps [of os st] flat_def)
  next
    case (Cons x rest)
    obtain p es where x: "x = (p, es)" by (cases x)
    let ?st = "st\<lparr>traversStack := rest\<rparr>"
    have "rm_inv r (children p es @ flat (traversStack ?st)) (full_paths (removeStack ?st)) (rm_disk ?st)"
      using 1(3) Cons x by (simp add: flat_def)
    from 1(1) [OF Cons x [symmetric] 1(2) scan_entries_inv [OF 1(2) this]]
    show ?thesis using Cons x by (simp add: remove_traverse.simps [of os st])
  qed
qed

lemma no_children:
  assumes "\<And>e. e \<in> set d \<Longrightarrow> \<not> strict_prefix p (fst e)"
  shows "\<not> list_ex (\<lambda>e. fst e \<noteq> [] \<and> butlast (fst e) = p) d"
proof
  assume "list_ex (\<lambda>e. fst e \<noteq> [] \<and> butlast (fst e) = p) d"
  then obtain e where e: "e \<in> set d" "fst e \<noteq> []" "butlast (fst e) = p" by (auto simp: list_ex_iff)
  then have "fst e = p @ [last (fst e)]" by (metis append_butlast_last_id)
  then have "strict_prefix p (fst e)" by (metis strict_prefix_simps(3) prefix_snocD strict_prefixI' )
  then show False using assms e(1) by blast
qed

lemma remove_dirs_inv:
  assumes "calm os" "rm_inv r [] (full_paths ds) d"
  shows "(r, KDir) \<in> set (remove_dirs os ds d) \<and> (\<forall>e\<in>set (remove_dirs os ds d). \<not> strict_prefix r (fst e))"
  using assms(2)
proof (induction ds arbitrary: d)
  case Nil
  then show ?case by (auto simp: rm_inv_def full_paths_def)
next
  case (Cons x ds)
  obtain p name where x: "x = (p, name)" by (cases x)
  let ?x = "p @ [name]"
  note D = rm_invD [OF Cons.prems, unfolded full_paths_def x list.map fst_conv snd_conv]
  have rx: "strict_prefix r ?x" using D(5) by simp
  have left: "\<not> strict_prefix ?x (fst e)" if "e \<in> set d" for e
  proof
    assume below: "strict_prefix ?x (fst e)"
    then have "strict_prefix r (fst e)" using rx by simp
    then have "e \<in> (\<lambda>y. (y, KDir)) ` set (?x # full_paths ds)" using D(9) that by (auto simp: full_paths_def)
    then have y: "fst e \<in> set (?x # full_paths ds)" by auto
    have "\<not> prefix ?x z" if "z \<in> set (full_paths ds)" for z using D(7) that unfolding topo.simps full_paths_def by blast
    from this [of "fst e"] show False using y below by auto
  qed
  have mem: "(?x, KDir) \<in> set d" using D(9) by auto
  have u: "unlink_dir os ?x d = (True, erase ?x d)"
    using no_children [OF left] mem assms(1) by (simp add: unlink_dir_def calm_def)
  have "{e \<in> set (erase ?x d). strict_prefix r (fst e)} = {e \<in> set d. strict_prefix r (fst e)} - {e. fst e = ?x}" by (auto simp: erase_def)
  also have "\<dots> = (\<lambda>y. (y, KDir)) ` set (full_paths ds)" unfolding D(9) using D(7) by (auto simp: full_paths_def)
  finally have "rm_inv r [] (full_paths ds) (erase ?x d)"
    using D(5,7,8) rx by (auto simp: rm_inv_def full_paths_def erase_def)
  from Cons.IH [OF this] show ?case using x u by simp
qed

text \<open>The root is then empty and goes last.\<close>

lemma remove_root_empty:
  assumes "calm os" "(p, KDir) \<in> set d" "\<forall>e\<in>set d. \<not> strict_prefix p (fst e)"
  shows "remove_root os p d = (True, erase p d)"
proof -
  have "p \<in> fst ` set d" using assms(2) by force
  moreover have "\<not> list_ex (\<lambda>e. fst e \<noteq> [] \<and> butlast (fst e) = p) d" by (rule no_children) (use assms(3) in blast)
  ultimately show ?thesis using assms by (auto simp: remove_root_def faccess_def unlink_dir_def calm_def erase_def)
qed

lemma rm_inv_start:
  assumes ok: "tree_ok (Dir True es)" and disk: "{e \<in> set d. prefix p (fst e)} = set (node_list p (Dir True es))"
  shows "rm_inv p (children p es) [] d"
proof -
  have up: "\<exists>n. fst a = p @ [n]" if "a \<in> set (children p es)" for a by (rule children_parent [OF that])
  have below: "strict_prefix p (fst a)" if "a \<in> set (children p es)" for a using up [OF that] by (auto simp: strict_prefix_def)
  have "(p, KDir) \<in> {e \<in> set d. prefix p (fst e)}" unfolding disk by simp
  moreover have "{e \<in> set d. strict_prefix p (fst e)} = (\<Union>a\<in>set (children p es). set (node_list (fst a) (snd a)))"
  proof -
    have "{e \<in> set d. strict_prefix p (fst e)} = {e \<in> set d. prefix p (fst e)} \<inter> {e. strict_prefix p (fst e)}"
      by (auto simp: prefix_order.less_imp_le)
    also have "\<dots> = (\<Union>a\<in>set (children p es). set (node_list (fst a) (snd a)))"
    proof -
      have "strict_prefix p (fst e)" if "a \<in> set (children p es)" "e \<in> set (node_list (fst a) (snd a))" for a e
        using below [OF that(1)] node_list_prefix [OF that(2)] by (rule prefix_order.less_le_trans)
      then show ?thesis unfolding disk node_list_children by auto
    qed
    finally show ?thesis .
  qed
  moreover have "fst a = fst b" if "a \<in> set (children p es)" "b \<in> set (children p es)" "prefix (fst a) (fst b)" for a b
    using up [OF that(1)] up [OF that(2)] that(3) by auto
  ultimately show ?thesis unfolding rm_inv_def
    using children_ok(1) [OF ok, of p] children_ok(2) [OF ok, of _ p] below by simp
qed

lemma erase_all:
  assumes "only_below p d d'" "\<forall>e\<in>set d'. \<not> strict_prefix p (fst e)"
  shows "set (erase p d') = {e \<in> set d. \<not> prefix p (fst e)}"
  using assms by (auto simp: only_below_def erase_def strict_prefix_def)

lemma stack_removal:
  assumes "calm os" "tree_ok (Dir True es)" "{e \<in> set d. prefix p (fst e)} = set (node_list p (Dir True es))"
  shows "\<exists>d'. ForceRemoveDirectory os p (Some es) d = (True, d') \<and> set d' = {e \<in> set d. \<not> prefix p (fst e)}"
proof -
  let ?init = "\<lparr>rm_ret = True, rm_disk = d, traversStack = [(p, es)], removeStack = []\<rparr>"
  let ?st = "remove_traverse os ?init"
  let ?d = "remove_dirs os (removeStack ?st) (rm_disk ?st)"
  have "rm_inv p (flat (traversStack ?init)) (full_paths (removeStack ?init)) (rm_disk ?init)"
    using rm_inv_start [OF assms(2,3)] by (simp add: flat_def full_paths_def)
  note D = remove_dirs_inv [OF assms(1) remove_traverse_inv [OF assms(1) this]]
  have t: "only_below p d (rm_disk ?st)" "\<forall>x\<in>set (removeStack ?st). prefix p (fst x)"
    using remove_traverse_below [of ?init p os] by auto
  have "only_below p d ?d" using only_below_trans [OF t(1) remove_dirs_below [OF t(2)]] .
  then show ?thesis
    using remove_root_empty [OF assms(1), of p ?d] D erase_all [of p d ?d] by (simp add: ForceRemoveDirectory_def Let_def)
qed

text \<open>The recursive version.\<close>

definition gone :: "path \<Rightarrow> (string \<times> fnode) list \<Rightarrow> disk \<Rightarrow> disk" where
  "gone p es d = filter (\<lambda>e. \<not> (\<exists>a\<in>set (children p es). prefix (fst a) (fst e))) d"

definition on_disk :: "path \<Rightarrow> (string \<times> fnode) list \<Rightarrow> disk \<Rightarrow> bool" where
  "on_disk p es d \<longleftrightarrow> (\<forall>a\<in>set (children p es). {e \<in> set d. prefix (fst a) (fst e)} = set (node_list (fst a) (snd a)))"

lemma on_disk_filter:
  assumes "on_disk p es d" "\<And>a. a \<in> set (children p es) \<Longrightarrow> \<not> prefix (fst a) x \<and> \<not> prefix x (fst a)"
  shows "on_disk p es (filter (\<lambda>e. \<not> prefix x (fst e)) d)"
  unfolding on_disk_def
proof
  fix a assume a: "a \<in> set (children p es)"
  have "\<not> prefix x (fst e)" if "prefix (fst a) (fst e)" for e :: "path \<times> kind"
    using assms(2) [OF a] that prefix_same_cases by blast
  then have "{e \<in> set (filter (\<lambda>e. \<not> prefix x (fst e)) d). prefix (fst a) (fst e)} = {e \<in> set d. prefix (fst a) (fst e)}" by auto
  then show "{e \<in> set (filter (\<lambda>e. \<not> prefix x (fst e)) d). prefix (fst a) (fst e)} = set (node_list (fst a) (snd a))"
    using assms(1) a by (simp add: on_disk_def)
qed

lemma children_apart:
  assumes "tree_ok (Dir ok ((name, c) # es))" "a \<in> set (children p es)"
  shows "\<not> prefix (fst a) (p @ [name])" "\<not> prefix (p @ [name]) (fst a)"
proof -
  obtain n where n: "fst a = p @ [n]" "n \<in> fst ` set es" using assms(2) by (force simp: children_def)
  then have "n \<noteq> name" using assms(1) by auto
  then show "\<not> prefix (fst a) (p @ [name])" "\<not> prefix (p @ [name]) (fst a)" using n by auto
qed

lemma gone_Cons: "\<not> dot n \<Longrightarrow> gone p ((n, c) # es) d = gone p es (filter (\<lambda>e. \<not> prefix (p @ [n]) (fst e)) d)"
  by (auto simp: gone_def intro!: filter_cong)

lemma node_list_child:
  assumes ok: "tree_ok (Dir ok es)" and a: "a \<in> set (children x es)"
  shows "{e \<in> set (node_list x (Dir ok es)). prefix (fst a) (fst e)} = set (node_list (fst a) (snd a))"
proof -
  obtain n where n: "fst a = x @ [n]" using children_parent [OF a] by blast
  have same: "b = a" if b: "b \<in> set (children x es)" "e \<in> set (node_list (fst b) (snd b))" "prefix (fst a) (fst e)" for b e
  proof -
    obtain m where m: "fst b = x @ [m]" using children_parent [OF b(1)] by blast
    have "prefix (fst a) (fst b) \<or> prefix (fst b) (fst a)" using node_list_prefix [OF b(2)] b(3) prefix_same_cases by blast
    then have "fst a = fst b" using n m by auto
    then show ?thesis using children_ok(1) [OF ok, of x] a b(1) by (metis eq_key_imp_eq_value prod.collapse prod.expand)
  qed
  have "\<not> prefix (fst a) x" using n by auto
  then show ?thesis unfolding node_list_children using same a node_list_prefix by fastforce
qed

lemma on_disk_sub:
  assumes "tree_ok (Dir True es)" "{e \<in> set d. prefix x (fst e)} = set (node_list x (Dir True es))"
  shows "on_disk x es d"
  unfolding on_disk_def
proof
  fix a assume a: "a \<in> set (children x es)"
  obtain n where n: "fst a = x @ [n]" using children_parent [OF a] by blast
  then have "prefix x (fst e)" if "prefix (fst a) (fst e)" for e :: "path \<times> kind" using that append_prefixD by metis
  then have "{e \<in> set d. prefix (fst a) (fst e)} = {e \<in> {e \<in> set d. prefix x (fst e)}. prefix (fst a) (fst e)}" by blast
  also have "\<dots> = set (node_list (fst a) (snd a))" unfolding assms(2) by (rule node_list_child [OF assms(1) a])
  finally show "{e \<in> set d. prefix (fst a) (fst e)} = set (node_list (fst a) (snd a))" .
qed

lemma unlink_emptied:
  assumes "calm os" "{e \<in> set d. prefix x (fst e)} = set (node_list x (Dir True es))"
  shows "unlink_dir os x (gone x es d) = (True, filter (\<lambda>e. \<not> prefix x (fst e)) d)"
proof -
  have down: "\<not> prefix (fst a) x" "prefix x (fst a)" if "a \<in> set (children x es)" for a using children_parent [OF that] by auto
  have tree: "e = (x, KDir) \<or> (\<exists>a\<in>set (children x es). prefix (fst a) (fst e))" if "e \<in> set d" "prefix x (fst e)" for e
  proof -
    have "e \<in> set (node_list x (Dir True es))" using assms(2) that by blast
    then show ?thesis unfolding node_list_children using node_list_prefix by fastforce
  qed
  have "(x, KDir) \<in> {e \<in> set d. prefix x (fst e)}" unfolding assms(2) by simp
  then have "(x, KDir) \<in> set (gone x es d)" using down(1) by (auto simp: gone_def)
  moreover have "\<not> strict_prefix x (fst e)" if "e \<in> set (gone x es d)" for e
    using tree [of e] that by (auto simp: gone_def strict_prefix_def)
  then have "\<not> list_ex (\<lambda>e. fst e \<noteq> [] \<and> butlast (fst e) = x) (gone x es d)" by (rule no_children)
  moreover have "erase x (gone x es d) = filter (\<lambda>e. \<not> prefix x (fst e)) d"
    unfolding erase_def gone_def filter_filter
  proof (rule filter_cong [OF refl])
    fix e assume "e \<in> set d"
    then show "(\<not> (\<exists>a\<in>set (children x es). prefix (fst a) (fst e)) \<and> fst e \<noteq> x) = (\<not> prefix x (fst e))"
      using tree [of e] down(2) prefix_order.trans by fastforce
  qed
  ultimately show ?thesis using assms(1) by (simp add: unlink_dir_def calm_def)
qed

lemma remove_internal_calm:
  assumes "calm os" "tree_ok (Dir True es)" "on_disk p es d"
  shows "remove_internal os p es True d = (True, gone p es d)"
  using assms
proof (induction "entries_size es" arbitrary: p es d rule: less_induct)
  case less
  show ?case
  proof (cases es)
    case (Cons e es')
    obtain n c where e: "e = (n, c)" by (cases e)
    have ok': "tree_ok (Dir True es')" using less.prems(2) Cons by simp
    have small: "entries_size es' < entries_size es" using Cons by simp
    show ?thesis
    proof (cases "dot n")
      case True
      have "on_disk p es' d" "gone p es d = gone p es' d" using less.prems(3) True Cons e by (simp_all add: on_disk_def gone_def)
      then show ?thesis using less.hyps [OF small less.prems(1) ok'] True Cons e by (cases c) simp_all
    next
      case name: False
      let ?x = "p @ [n]" and ?d = "filter (\<lambda>e. \<not> prefix (p @ [n]) (fst e)) d"
      have apart: "\<not> prefix (fst a) ?x \<and> \<not> prefix ?x (fst a)" if "a \<in> set (children p es')" for a
        using children_apart [OF less.prems(2) [unfolded Cons e] that] by blast
      have "on_disk p es' d" using less.prems(3) name Cons e by (simp add: on_disk_def)
      note rest = less.hyps [OF small less.prems(1) ok' on_disk_filter [OF this apart]]
      have sub: "{e \<in> set d. prefix ?x (fst e)} = set (node_list ?x c)" using less.prems(3) name Cons e by (simp add: on_disk_def)
      show ?thesis
      proof (cases c)
        case (File k)
        have x: "{e \<in> set d. prefix ?x (fst e)} = {(?x, KFile)}" using sub File by simp
        then have "(?x, KFile) \<in> set d" by auto
        moreover have "erase ?x d = ?d"
          unfolding erase_def
        proof (rule filter_cong [OF refl])
          fix e assume "e \<in> set d"
          then have "prefix ?x (fst e) \<longrightarrow> e \<in> {(?x, KFile)}" using x by blast
          then show "(fst e \<noteq> ?x) = (\<not> prefix ?x (fst e))" by auto
        qed
        moreover have "?x \<in> fst ` set d" using calculation(1) by force
        ultimately have "remove_internal os p es True d = remove_internal os p es' True ?d"
          using name less.prems(1) by (simp add: Cons e File calm_def faccess_def unlink_file_def)
        then show ?thesis using rest gone_Cons [OF name, of p c es' d] Cons e by simp
      next
        case (Dir ok sub')
        have okc: "tree_ok (Dir True sub')" "ok" using less.prems(2) name Cons e Dir by auto
        have size: "entries_size sub' < entries_size es" using Cons e Dir by simp
        have sub: "{e \<in> set d. prefix ?x (fst e)} = set (node_list ?x (Dir True sub'))" using sub Dir okc(2) by simp
        note inner = less.hyps [OF size less.prems(1) okc(1) on_disk_sub [OF okc(1) sub]]
        have "remove_internal os p es True d = remove_internal os p es' True ?d"
          using name less.prems(1) okc(2) inner unlink_emptied [OF less.prems(1) sub] by (simp add: Cons e Dir calm_def)
        then show ?thesis using rest gone_Cons [OF name, of p c es' d] Cons e by simp
      qed
    qed
  qed (simp add: gone_def)
qed

lemma recursive_removal:
  assumes "calm os" "tree_ok (Dir True es)" "{e \<in> set d. prefix p (fst e)} = set (node_list p (Dir True es))"
  shows "ForceRemoveDirectoryInternal os p es d = (True, gone p es d)"
    "\<exists>d'. ForceRemoveDirectoryBMS os p (Some es) d = (True, d') \<and> set d' = {e \<in> set d. \<not> prefix p (fst e)}"
proof -
  show int: "ForceRemoveDirectoryInternal os p es d = (True, gone p es d)"
    unfolding ForceRemoveDirectoryInternal_def by (rule remove_internal_calm [OF assms(1,2) on_disk_sub [OF assms(2,3)]])
  note u = unlink_emptied [OF assms(1,3)]
  have "(p, KDir) \<in> set (gone p es d)" using u by (auto simp: unlink_dir_def split: if_splits)
  then have acc: "faccess os p (gone p es d)" using assms(1) by (force simp: faccess_def calm_def)
  have "remove_root os p (gone p es d) = (True, filter (\<lambda>e. \<not> prefix p (fst e)) d)"
    using u acc by (auto simp: remove_root_def faccess_def)
  then show "\<exists>d'. ForceRemoveDirectoryBMS os p (Some es) d = (True, d') \<and> set d' = {e \<in> set d. \<not> prefix p (fst e)}"
    using int by (auto simp: ForceRemoveDirectoryBMS_def)
qed

section \<open>Properties\<close>


text \<open>
  C32. When no system call fails and the disk below the root is the tree that is read, the traversal with two stacks and
  the recursion do the same: both report success, and what is left on the disk is exactly what was not in the tree.
\<close>

theorem removal_complete:
  assumes "calm os" "tree_ok (Dir True es)" "{e \<in> set d. prefix p (fst e)} = set (node_list p (Dir True es))"
  shows "\<exists>d1 d2. ForceRemoveDirectory os p (Some es) d = (True, d1) \<and> ForceRemoveDirectoryBMS os p (Some es) d = (True, d2) \<and>
    set d1 = {e \<in> set d. \<not> prefix p (fst e)} \<and> set d2 = {e \<in> set d. \<not> prefix p (fst e)}"
  using stack_removal [OF assms] recursive_removal(2) [OF assms] by blast

definition sample_tree :: "(string \<times> fnode) list" where
  "sample_tree = [(''.'', Dir True []), (''a'', File 1), (''s'', Dir True [(''b'', File 2), (''t'', Dir True [(''c'', File 3)])]), (''u'', Dir True [])]"

definition sample_disk :: disk where
  "sample_disk = ([], KDir) # ([''x''], KFile) # node_list [''d''] (Dir True sample_tree)"

definition calm_os :: rm_os where
  "calm_os = \<lparr>openable = (\<lambda>_. True), accessible = (\<lambda>_. True), removable = (\<lambda>_. True)\<rparr>"


theorem removal_complete_witness:
  "\<exists>d1. ForceRemoveDirectory calm_os [''d''] (Some sample_tree) sample_disk = (True, d1) \<and> set d1 = {([], KDir), ([''x''], KFile)}"
proof -
  have "calm calm_os" by (simp add: calm_def calm_os_def)
  moreover have "tree_ok (Dir True sample_tree)" by code_simp
  moreover have "{e \<in> set sample_disk. prefix [''d''] (fst e)} = set (node_list [''d''] (Dir True sample_tree))"
    using node_list_prefix [of _ "[''d'']" "Dir True sample_tree"] by (auto simp: sample_disk_def)
  ultimately have "\<exists>d1 d2. ForceRemoveDirectory calm_os [''d''] (Some sample_tree) sample_disk = (True, d1) \<and>
      ForceRemoveDirectoryBMS calm_os [''d''] (Some sample_tree) sample_disk = (True, d2) \<and>
      set d1 = {e \<in> set sample_disk. \<not> prefix [''d''] (fst e)} \<and> set d2 = {e \<in> set sample_disk. \<not> prefix [''d''] (fst e)}"
    by (rule removal_complete)
  moreover have "{e \<in> set sample_disk. \<not> prefix [''d''] (fst e)} = {([], KDir), ([''x''], KFile)}"
    using node_list_prefix [of _ "[''d'']" "Dir True sample_tree"] by (auto simp: sample_disk_def)
  ultimately show ?thesis by auto
qed

end
