(* ===== verification/Directory_Ops.thy ===== *)
theory Directory_Ops
  imports Directory_Remove "HOL-Library.Word"
begin

text \<open>
  The other functions of \<^verbatim>\<open>base/src/directory_ex.cpp\<close> on directories: \<^verbatim>\<open>ForceCreateDirectory\<close>, \<^verbatim>\<open>ChangeModeDirectory\<close> and
  \<^verbatim>\<open>GetFolderDiskUsage\<close>. The disk is that of \<open>Directory_Remove\<close>; a path as the code has it, a string, names the list of its
  components (the components \<^verbatim>\<open>.\<close> and \<^verbatim>\<open>..\<close> are names like others). Which system calls fail is an argument.
\<close>

section \<open>\<^verbatim>\<open>ForceCreateDirectory\<close>\<close>

fun split_slash :: "string \<Rightarrow> string list" where
  "split_slash [] = [[]]"
| "split_slash (c # s) =
     (if c = SLASH then [] # split_slash s
      else case split_slash s of [] \<Rightarrow> [[c]] | x # xs \<Rightarrow> (c # x) # xs)"

definition comps :: "string \<Rightarrow> path" where
  "comps s = filter (\<lambda>x. x \<noteq> []) (split_slash s)"

text \<open>\<^verbatim>\<open>path.find('/', from)\<close>\<close>

fun find_char :: "char \<Rightarrow> string \<Rightarrow> nat option" where
  "find_char c [] = None"
| "find_char c (x # s) = (if x = c then Some 0 else map_option Suc (find_char c s))"

definition find_slash :: "string \<Rightarrow> nat \<Rightarrow> nat option" where
  "find_slash s start = (if start \<le> length s then map_option ((+) start) (find_char SLASH (drop start s)) else None)"

datatype mk_result = MkOk | MkExists | MkFailed

text \<open>\<^verbatim>\<open>mkdir\<close> needs the parent directory; \<open>may_create\<close> is whether the system allows it otherwise.\<close>

definition mkdir :: "(path \<Rightarrow> bool) \<Rightarrow> path \<Rightarrow> disk \<Rightarrow> mk_result \<times> disk" where
  "mkdir may_create p d =
     (if p \<in> fst ` set d then (MkExists, d)
      else if p \<noteq> [] \<and> (butlast p, KDir) \<in> set d \<and> may_create p then (MkOk, (p, KDir) # d)
      else (MkFailed, d))"

definition path_access :: "string \<Rightarrow> disk \<Rightarrow> bool" where
  "path_access p d \<longleftrightarrow> comps p \<in> fst ` set d"

function create_loop :: "(path \<Rightarrow> bool) \<Rightarrow> string \<Rightarrow> nat \<Rightarrow> disk \<Rightarrow> bool \<times> disk" where
  "create_loop may_create path index d =
     (let nxt = find_slash path (index + 1);
          subPath = (case nxt of None \<Rightarrow> path | Some i \<Rightarrow> take i path);
          (res, d1) = (if path_access subPath d then (MkOk, d) else mkdir may_create (comps subPath) d)
      in if res = MkFailed then (False, d1)
         else case nxt of
             None \<Rightarrow> (path_access path d1, d1)
           | Some i \<Rightarrow> create_loop may_create path i d1)"
  by pat_completeness auto

lemma find_char_bound: "find_char c s = Some i \<Longrightarrow> i < length s \<and> s ! i = c \<and> c \<notin> set (take i s)"
  by (induction s arbitrary: i) (auto split: if_splits)

lemma find_slash_bound:
  assumes "find_slash s start = Some i"
  shows "start \<le> i" "i < length s" "s ! i = SLASH" "SLASH \<notin> set (drop start (take i s))"
proof -
  obtain j where j: "find_char SLASH (drop start s) = Some j" "i = start + j" "start \<le> length s"
    using assms by (auto simp: find_slash_def split: if_splits)
  from find_char_bound [OF j(1)] j(2,3) show "start \<le> i" "i < length s" "s ! i = SLASH" "SLASH \<notin> set (drop start (take i s))"
    by (auto simp: drop_take)
qed

termination create_loop
  by (relation "measure (\<lambda>(mc, path, index, d). length path - index)")
    (use find_slash_bound(1,2) in \<open>fastforce dest!: sym [of "Some _"]\<close>)+

declare create_loop.simps [simp del]

definition ForceCreateDirectory :: "(path \<Rightarrow> bool) \<Rightarrow> string \<Rightarrow> disk \<Rightarrow> bool \<times> disk" where
  "ForceCreateDirectory may_create path d = create_loop may_create path 0 d"

section \<open>\<^verbatim>\<open>ChangeModeDirectory\<close>\<close>

type_synonym modes = "string \<Rightarrow> 32 word"

record mode_os =
  can_see :: "string \<Rightarrow> bool"
  can_chmod :: "string \<Rightarrow> bool"

definition ChangeMode :: "mode_os \<Rightarrow> string \<Rightarrow> 32 word \<Rightarrow> modes \<Rightarrow> bool \<times> modes" where
  "ChangeMode os fileName mode md = (if can_chmod os fileName then (True, md(fileName := mode)) else (False, md))"

definition ChangeModeFile :: "mode_os \<Rightarrow> string \<Rightarrow> 32 word \<Rightarrow> modes \<Rightarrow> bool \<times> modes" where
  "ChangeModeFile os fileName mode md = (if \<not> can_see os fileName then (False, md) else ChangeMode os fileName mode md)"

text \<open>The entries give \<^const>\<open>None\<close> when the function returns \<^verbatim>\<open>false\<close> at once.\<close>

fun change_dir :: "mode_os \<Rightarrow> 32 word \<Rightarrow> string \<Rightarrow> fnode \<Rightarrow> modes \<Rightarrow> bool \<times> modes"
  and change_entries :: "mode_os \<Rightarrow> 32 word \<Rightarrow> string \<Rightarrow> (string \<times> fnode) list \<Rightarrow> bool \<Rightarrow> modes \<Rightarrow> bool option \<times> modes" where
  "change_dir os mode path (File _) md = (False, md)"
| "change_dir os mode path (Dir ok es) md =
     (if \<not> ok then (False, md)
      else case change_entries os mode path es True md of
          (None, md1) \<Rightarrow> (False, md1)
        | (Some ret, md1) \<Rightarrow>
            let currentPath = ExcludeTrailingPathDelimiter path
            in if can_see os currentPath
               then case ChangeMode os currentPath mode md1 of (b, md2) \<Rightarrow> (if b then ret else False, md2)
               else (ret, md1))"
| "change_entries os mode path [] ret md = (Some ret, md)"
| "change_entries os mode path (e # es) ret md =
     (if dot (fst e) then change_entries os mode path es ret md
      else
        let subPath = IncludeTrailingPathDelimiter path @ fst e
        in case snd e of
             Dir ok sub \<Rightarrow>
               (case change_dir os mode subPath (snd e) md of (ret1, md1) \<Rightarrow> change_entries os mode path es ret1 md1)
           | File _ \<Rightarrow>
               if can_see os subPath
               then case ChangeMode os subPath mode md of
                   (True, md1) \<Rightarrow> change_entries os mode path es ret md1
                 | (False, md1) \<Rightarrow> (None, md1)
               else change_entries os mode path es ret md)"

definition ChangeModeDirectory :: "mode_os \<Rightarrow> string \<Rightarrow> fnode option \<Rightarrow> 32 word \<Rightarrow> modes \<Rightarrow> bool \<times> modes" where
  "ChangeModeDirectory os path root mode md = (case root of None \<Rightarrow> (False, md) | Some node \<Rightarrow> change_dir os mode path node md)"

section \<open>\<^verbatim>\<open>GetFolderDiskUsage\<close>\<close>

definition STAT_BLOCK_SIZE :: nat where "STAT_BLOCK_SIZE = 512"

record fstat =
  st_blocks :: int
  st_nlink :: nat
  st_id :: "nat \<times> nat"
  st_isdir :: bool

text \<open>An entry with what \<^verbatim>\<open>fstatat\<close> says of it, if it succeeds, and, if it can be opened as a directory, its entries.\<close>

datatype snode = SNode "fstat option" "(string \<times> snode) list option"

definition GetDiskUsageSize :: "fstat \<Rightarrow> nat" where
  "GetDiskUsageSize st = (if st_blocks st \<le> 0 then 0 else size_mul (nat (st_blocks st)) STAT_BLOCK_SIZE)"

type_synonym usage = "(nat \<times> nat) set \<times> nat"

definition addDiskUsage :: "fstat \<Rightarrow> usage \<Rightarrow> bool \<times> usage" where
  "addDiskUsage st u =
     (case u of (visited, totalSize) \<Rightarrow>
        if \<not> st_isdir st \<and> st_nlink st > 1
        then (if st_id st \<in> visited then (False, u)
              else (True, (insert (st_id st) visited, size_add totalSize (GetDiskUsageSize st))))
        else (True, (visited, size_add totalSize (GetDiskUsageSize st))))"

fun snode_size :: "snode \<Rightarrow> nat" where
  "snode_size (SNode st None) = 1"
| "snode_size (SNode st (Some es)) = 2 + sum_list (map (\<lambda>e. 1 + snode_size (snd e)) es)"

definition snodes_size :: "(string \<times> snode) list \<Rightarrow> nat" where
  "snodes_size es = sum_list (map (\<lambda>e. 1 + snode_size (snd e)) es)"

function usage_loop :: "(string \<times> snode) list list \<Rightarrow> usage \<Rightarrow> nat" where
  "usage_loop [] u = snd u"
| "usage_loop ([] # stack) u = usage_loop stack u"
| "usage_loop (((name, SNode st sub) # es) # stack) u =
     (if dot name then usage_loop (es # stack) u
      else case st of
          None \<Rightarrow> usage_loop (es # stack) u
        | Some entryStat \<Rightarrow>
            (case addDiskUsage entryStat u of (added, u1) \<Rightarrow>
               if \<not> added \<or> \<not> st_isdir entryStat then usage_loop (es # stack) u1
               else case sub of
                   None \<Rightarrow> usage_loop (es # stack) u1
                 | Some ses \<Rightarrow> usage_loop (ses # es # stack) u1))"
  by pat_completeness auto
termination
  by (relation "measure (\<lambda>(stack, u). sum_list (map (\<lambda>es. 1 + snodes_size es) stack))") (auto simp: snodes_size_def)

declare usage_loop.simps [simp del]

definition TraverseDirectoryDiskUsage :: "(string \<times> snode) list \<Rightarrow> fstat \<Rightarrow> nat" where
  "TraverseDirectoryDiskUsage rootDir rootStat = usage_loop [rootDir] (snd (addDiskUsage rootStat ({}, 0)))"

definition GetFolderDiskUsage :: "snode \<Rightarrow> nat" where
  "GetFolderDiskUsage root =
     (case root of
        SNode None _ \<Rightarrow> 0
      | SNode (Some statbuf) sub \<Rightarrow>
          if \<not> st_isdir statbuf then GetDiskUsageSize statbuf
          else case sub of None \<Rightarrow> 0 | Some es \<Rightarrow> TraverseDirectoryDiskUsage es statbuf)"

text \<open>The name of the running program from the link in \<^verbatim>\<open>/proc\<close>.\<close>

definition GetCurrentProcFullFileName :: "string option \<Rightarrow> string" where
  "GetCurrentProcFullFileName link = (case link of None \<Rightarrow> [] | Some name \<Rightarrow> takeWhile (\<lambda>c. c \<noteq> CHR 0x00) (take PATH_MAX name))"

definition GetCurrentProcPath :: "string option \<Rightarrow> string" where
  "GetCurrentProcPath link = ExtractFilePath (GetCurrentProcFullFileName link)"

section \<open>Creating directories\<close>

lemma split_slash_append: "split_slash (xs @ SLASH # ys) = split_slash xs @ split_slash ys"
proof (induction xs)
  case (Cons c xs)
  have "split_slash xs \<noteq> []" by (cases xs) (auto split: list.splits)
  then show ?case using Cons by (auto split: list.splits)
qed simp

lemma split_slash_free: "SLASH \<notin> set xs \<Longrightarrow> split_slash xs = [xs]"
  by (induction xs) auto

lemma comps_append: "comps (xs @ SLASH # ys) = comps xs @ comps ys"
  by (simp add: comps_def split_slash_append)

lemma comps_free: "SLASH \<notin> set xs \<Longrightarrow> comps xs = (if xs = [] then [] else [xs])"
  by (simp add: comps_def split_slash_free)

text \<open>From one slash to the next the path gets at most one more component.\<close>

lemma comps_next:
  assumes "index \<le> length path" "index = 0 \<or> path ! index = SLASH" "index < j \<or> j = length path" "j \<le> length path"
    "SLASH \<notin> set (drop (index + 1) (take j path))" "index < length path"
  shows "\<exists>seg. comps (take j path) = comps (take index path) @ seg \<and> length seg \<le> 1"
proof -
  let ?seg = "drop (index + 1) (take j path)"
  have "index < j" using assms(3,6) by auto
  then have sp: "take j path = take index path @ path ! index # ?seg"
    using assms(4) id_take_nth_drop [of index "take j path"] by (simp add: min.absorb1)
  have comps: "comps (take j path) = comps (take index path @ path ! index # ?seg)" using sp by (rule arg_cong)
  show ?thesis
  proof (cases "path ! index = SLASH")
    case True
    then show ?thesis unfolding comps using comps_append [of "take index path" ?seg] comps_free [OF assms(5)] by auto
  next
    case False
    then have "index = 0" using assms(2) by simp
    then show ?thesis unfolding comps using comps_free [of "path ! index # ?seg"] False assms(5) by (simp add: comps_def)
  qed
qed

lemma find_slash_None: "find_slash s start = None \<Longrightarrow> SLASH \<notin> set (drop start s)"
proof -
  have "find_char c xs = None \<Longrightarrow> c \<notin> set xs" for c xs by (induction xs) (auto split: if_splits)
  then show "find_slash s start = None \<Longrightarrow> SLASH \<notin> set (drop start s)" by (auto simp: find_slash_def split: if_splits)
qed

text \<open>The next path the loop looks at, and where it goes on.\<close>

definition sub_path :: "string \<Rightarrow> nat \<Rightarrow> string" where
  "sub_path path index = (case find_slash path (index + 1) of None \<Rightarrow> path | Some i \<Rightarrow> take i path)"

definition at_slash :: "string \<Rightarrow> nat \<Rightarrow> bool" where
  "at_slash path index \<longleftrightarrow> index = 0 \<or> index < length path \<and> path ! index = SLASH"

lemma at_slash_prefix: "at_slash path index \<Longrightarrow> prefix (comps (take index path)) (comps path)"
proof (cases "index = 0")
  case False
  assume "at_slash path index"
  then have "path = take index path @ SLASH # drop (Suc index) path" using False id_take_nth_drop [of index path] by (auto simp: at_slash_def)
  then have "comps path = comps (take index path) @ comps (drop (Suc index) path)" using comps_append by metis
  then show ?thesis by (metis prefixI)
qed (simp add: comps_def)

lemma sub_path_steps:
  assumes "at_slash path index"
  shows "\<exists>seg. comps (sub_path path index) = comps (take index path) @ seg \<and> length seg \<le> 1"
    "prefix (comps (sub_path path index)) (comps path)"
    "find_slash path (index + 1) = Some i \<Longrightarrow> at_slash path i \<and> comps (take i path) = comps (sub_path path index)"
proof -
  show following: "find_slash path (index + 1) = Some i \<Longrightarrow> at_slash path i \<and> comps (take i path) = comps (sub_path path index)" for i
    using find_slash_bound [of path "index + 1" i] by (simp add: sub_path_def at_slash_def)
  show "prefix (comps (sub_path path index)) (comps path)"
    by (cases "find_slash path (index + 1)") (use following at_slash_prefix in \<open>auto simp: sub_path_def\<close>)
  show "\<exists>seg. comps (sub_path path index) = comps (take index path) @ seg \<and> length seg \<le> 1"
  proof (cases "path = []")
    case False
    then have idx: "index < length path" "index = 0 \<or> path ! index = SLASH" using assms by (auto simp: at_slash_def)
    show ?thesis
    proof (cases "find_slash path (index + 1)")
      case None
      then show ?thesis using comps_next [of index path "length path"] find_slash_None [OF None] idx by (simp add: sub_path_def)
    next
      case (Some i)
      then show ?thesis using comps_next [of index path i] find_slash_bound [OF Some] idx by (simp add: sub_path_def)
    qed
  qed (simp add: sub_path_def find_slash_def)
qed

lemma create_loop_step:
  "create_loop mc path index d =
     (case (if path_access (sub_path path index) d then (MkOk, d) else mkdir mc (comps (sub_path path index)) d) of (res, d1) \<Rightarrow>
        if res = MkFailed then (False, d1)
        else case find_slash path (index + 1) of None \<Rightarrow> (path_access path d1, d1) | Some i \<Rightarrow> create_loop mc path i d1)"
  unfolding create_loop.simps [of mc path index d] sub_path_def Let_def by (rule refl)

lemma create_loop_adds:
  assumes "at_slash path index" "create_loop mc path index d = (ok, d')"
  shows "set d \<subseteq> set d' \<and> set d' \<subseteq> set d \<union> {(q, KDir) |q. prefix q (comps path)} \<and> (ok \<longrightarrow> path_access path d')"
  using assms
proof (induction "length path - index" arbitrary: index d rule: less_induct)
  case less
  let ?x = "comps (sub_path path index)"
  obtain res d1 where r: "(if path_access (sub_path path index) d then (MkOk, d) else mkdir mc ?x d) = (res, d1)" by fastforce
  then have d1: "set d \<subseteq> set d1 \<and> set d1 \<subseteq> set d \<union> {(q, KDir) |q. prefix q (comps path)}"
    using sub_path_steps(2) [OF less.prems(1)] by (auto simp: mkdir_def split: if_splits)
  show ?case
  proof (cases "res = MkFailed \<or> find_slash path (index + 1) = None")
    case True
    then show ?thesis using less.prems(2) r d1 unfolding create_loop_step [of mc path index d] by (auto split: if_splits option.splits)
  next
    case False
    then obtain i where i: "find_slash path (index + 1) = Some i" by auto
    have "create_loop mc path i d1 = (ok, d')" using less.prems(2) r i False unfolding create_loop_step [of mc path index d] by simp
    moreover have "length path - i < length path - index" using find_slash_bound(1,2) [OF i] by simp
    ultimately show ?thesis using less.hyps [of i d1] sub_path_steps(3) [OF less.prems(1) i] d1 by blast
  qed
qed

lemma create_loop_creates:
  assumes "\<And>p. mc p" "at_slash path index" "\<And>q. prefix q (comps (take index path)) \<Longrightarrow> (q, KDir) \<in> set d"
    and "\<And>q k. prefix q (comps path) \<Longrightarrow> (q, k) \<in> set d \<Longrightarrow> k = KDir"
  shows "\<exists>d'. create_loop mc path index d = (True, d') \<and> (\<forall>q. prefix q (comps path) \<longrightarrow> (q, KDir) \<in> set d')"
  using assms(2-4)
proof (induction "length path - index" arbitrary: index d rule: less_induct)
  case less
  let ?x = "comps (sub_path path index)"
  obtain seg where seg: "?x = comps (take index path) @ seg" "length seg \<le> 1" using sub_path_steps(1) [OF less.prems(1)] by blast
  obtain res d1 where r: "(if path_access (sub_path path index) d then (MkOk, d) else mkdir mc ?x d) = (res, d1)" by fastforce
  have pre: "prefix ?x (comps path)" by (rule sub_path_steps(2) [OF less.prems(1)])
  have root: "([], KDir) \<in> set d" by (rule less.prems(2)) simp
  have "res = MkOk \<and> set d1 = insert (?x, KDir) (set d)"
  proof (cases "path_access (sub_path path index) d")
    case True
    then obtain k where k: "(?x, k) \<in> set d" by (auto simp: path_access_def)
    then have "(?x, KDir) \<in> set d" using less.prems(3) [OF pre k] by simp
    then show ?thesis using True r by auto
  next
    case False
    then have new: "?x \<notin> fst ` set d" by (simp add: path_access_def)
    then have "?x \<noteq> []" using root by force
    moreover have "seg \<noteq> []" using new less.prems(2) [of "comps (take index path)"] seg(1) by force
    then have "butlast ?x = comps (take index path)" using seg by (cases seg) auto
    ultimately show ?thesis using False r new assms(1) less.prems(2) [of "comps (take index path)"] by (simp add: mkdir_def split: if_splits) auto
  qed
  then have res: "res = MkOk" and d1: "set d1 = insert (?x, KDir) (set d)" by simp_all
  have have_x: "(q, KDir) \<in> set d1" if "prefix q ?x" for q
  proof (cases "q = ?x")
    case False
    then have "prefix q (comps (take index path))" using that seg by (cases seg) (auto simp: prefix_append prefix_Cons)
    then show ?thesis using less.prems(2) d1 by simp
  qed (simp add: d1)
  show ?case
  proof (cases "find_slash path (index + 1)")
    case None
    then have "sub_path path index = path" by (simp add: sub_path_def)
    then show ?thesis using have_x res r None unfolding create_loop_step [of mc path index d]
      by (force simp: path_access_def)
  next
    case (Some i)
    note n = sub_path_steps(3) [OF less.prems(1) Some]
    have "length path - i < length path - index" using find_slash_bound(1,2) [OF Some] by simp
    moreover have "k = KDir" if "prefix q (comps path)" "(q, k) \<in> set d1" for q k using that d1 less.prems(3) by auto
    ultimately have "\<exists>d'. create_loop mc path i d1 = (True, d') \<and> (\<forall>q. prefix q (comps path) \<longrightarrow> (q, KDir) \<in> set d')"
      using less.hyps [of i d1] n have_x by auto
    then show ?thesis using res r Some unfolding create_loop_step [of mc path index d] by simp
  qed
qed

section \<open>Changing modes\<close>

fun tree_names :: "string \<Rightarrow> string \<times> fnode \<Rightarrow> string list" where
  "tree_names dir (name, File n) = (if dot name then [] else [dir @ name])"
| "tree_names dir (name, Dir ok es) = (if dot name then [] else (dir @ name) # concat (map (tree_names (dir @ name @ ''/'')) es))"

definition names_below :: "string \<Rightarrow> (string \<times> fnode) list \<Rightarrow> string list" where
  "names_below path es = concat (map (tree_names (IncludeTrailingPathDelimiter path)) es)"

definition set_modes :: "string set \<Rightarrow> 32 word \<Rightarrow> modes \<Rightarrow> modes" where
  "set_modes X mode md = (\<lambda>q. if q \<in> X then mode else md q)"

lemma set_modes_simps: "set_modes {} mode md = md" "set_modes X mode (set_modes Y mode md) = set_modes (X \<union> Y) mode md"
  "(set_modes X mode md)(q := mode) = set_modes (insert q X) mode md" "md(q := mode) = set_modes {q} mode md"
  by (auto simp: set_modes_def)

definition mode_os_ok :: "mode_os \<Rightarrow> bool" where
  "mode_os_ok os \<longleftrightarrow> (\<forall>p. can_see os p \<and> can_chmod os p)"

lemma change_entries_ok:
  assumes "mode_os_ok os" "tree_ok (Dir True es)" "list_all names_ok es"
  shows "change_entries os mode path es True md = (Some True, set_modes (set (names_below path es)) mode md)"
  using assms(2,3)
proof (induction "entries_size es" arbitrary: es path md rule: less_induct)
  case less
  show ?case
  proof (cases es)
    case Nil
    then show ?thesis by (simp add: names_below_def set_modes_simps)
  next
    case (Cons e es')
    obtain name node where e: "e = (name, node)" by (cases e)
    have rest: "change_entries os mode path es' True md' = (Some True, set_modes (set (names_below path es')) mode md')" for md'
      using less.hyps [of es'] less.prems Cons by simp
    show ?thesis
    proof (cases "dot name")
      case True
      then show ?thesis using rest [of md] Cons e by (cases node) (simp_all add: names_below_def)
    next
      case name: False
      let ?sub = "IncludeTrailingPathDelimiter path @ name"
      show ?thesis
      proof (cases node)
        case (File n)
        then show ?thesis using rest name assms(1) Cons e
          by (simp add: names_below_def ChangeMode_def mode_os_ok_def set_modes_simps Un_commute)
      next
        case (Dir ok sub)
        have nm: "name \<noteq> []" "SLASH \<notin> set name" "list_all names_ok sub" using less.prems(2) Cons e Dir by simp_all
        have ok: "ok" "tree_ok (Dir True sub)" using less.prems(1) Cons e Dir name by auto
        have "change_entries os mode ?sub sub True md = (Some True, set_modes (set (names_below ?sub sub)) mode md)"
          using less.hyps [of sub ?sub md] ok(2) nm(3) Cons e Dir by simp
        moreover have "last name \<noteq> SLASH" using last_in_set [OF nm(1)] nm(2) by auto
        then have "ExcludeTrailingPathDelimiter ?sub = ?sub" using nm(1) by (simp add: Exclude_eq)
        ultimately have "change_dir os mode ?sub (Dir ok sub) md = (True, set_modes (insert ?sub (set (names_below ?sub sub))) mode md)"
          using assms(1) ok(1) by (simp add: ChangeMode_def mode_os_ok_def set_modes_simps)
        moreover have "set (names_below path es) = insert ?sub (set (names_below ?sub sub)) \<union> set (names_below path es')"
          using enter_leave(1) [OF nm(1,2), of path] name Cons e Dir by (simp add: names_below_def)
        moreover have "change_entries os mode path es True md =
            change_entries os mode path es' (fst (change_dir os mode ?sub (Dir ok sub) md)) (snd (change_dir os mode ?sub (Dir ok sub) md))"
          using name by (simp add: Cons e Dir Let_def del: change_dir.simps split: prod.split)
        ultimately show ?thesis
          using rest [of "set_modes (insert ?sub (set (names_below ?sub sub))) mode md"] set_modes_simps(2) by (simp add: Un_commute)
      qed
    qed
  qed
qed

section \<open>Disk usage\<close>

fun stats_of :: "snode \<Rightarrow> fstat list" where
  "stats_of (SNode None sub) = []"
| "stats_of (SNode (Some st) None) = [st]"
| "stats_of (SNode (Some st) (Some es)) =
     st # (if st_isdir st then concat (map (\<lambda>e. if dot (fst e) then [] else stats_of (snd e)) es) else [])"

definition dir_stats :: "(string \<times> snode) list \<Rightarrow> fstat list" where
  "dir_stats es = concat (map (\<lambda>e. if dot (fst e) then [] else stats_of (snd e)) es)"

definition add_all :: "fstat list \<Rightarrow> usage \<Rightarrow> usage" where
  "add_all sts u = fold (\<lambda>st v. snd (addDiskUsage st v)) sts u"

lemma add_all_simps: "add_all [] u = u" "add_all (st # sts) u = add_all sts (snd (addDiskUsage st u))" "add_all (xs @ ys) u = add_all ys (add_all xs u)"
  by (simp_all add: add_all_def)

text \<open>The stack of open directories visits the entries in the order of the tree.\<close>

lemma usage_loop_top: "usage_loop (es # stack) u = usage_loop stack (add_all (dir_stats es) u)"
proof (induction "snodes_size es" arbitrary: es stack u rule: less_induct)
  case less
  show ?case
  proof (cases es)
    case Nil
    then show ?thesis by (simp add: usage_loop.simps dir_stats_def add_all_simps)
  next
    case (Cons e es')
    obtain name st sub where e: "e = (name, SNode st sub)" by (metis prod.collapse snode.exhaust)
    have rest: "usage_loop (es' # stack) u' = usage_loop stack (add_all (dir_stats es') u')" for u' stack
      using less.hyps [of es'] Cons by (simp add: snodes_size_def)
    have split: "dir_stats es = (if dot name then [] else stats_of (SNode st sub)) @ dir_stats es'" using Cons e by (simp add: dir_stats_def)
    show ?thesis
    proof (cases "dot name \<or> st = None")
      case True
      then show ?thesis using rest [where u' = u and stack = stack] Cons e split by (cases sub) (auto simp: usage_loop.simps)
    next
      case False
      then obtain s where s: "st = Some s" "\<not> dot name" by auto
      obtain added u1 where a: "addDiskUsage s u = (added, u1)" by (cases "addDiskUsage s u")
      have dir: "st_isdir s \<Longrightarrow> added" using a by (auto simp: addDiskUsage_def split: prod.splits)
      show ?thesis
      proof (cases "st_isdir s \<and> sub \<noteq> None")
        case True
        then obtain ses where ses: "sub = Some ses" by auto
        have "snodes_size ses < snodes_size es" using Cons e ses by (simp add: snodes_size_def)
        then have "usage_loop (ses # es' # stack) u1 = usage_loop (es' # stack) (add_all (dir_stats ses) u1)" by (rule less.hyps)
        then have "usage_loop (es # stack) u = usage_loop stack (add_all (dir_stats es') (add_all (dir_stats ses) u1))"
          using Cons e s a dir True ses rest by (simp add: usage_loop.simps)
        moreover have "dir_stats es = s # dir_stats ses @ dir_stats es'" using split s ses True by (simp add: dir_stats_def)
        ultimately show ?thesis using a by (simp add: add_all_simps)
      next
        case False
        then have "dir_stats es = s # dir_stats es'" using split s by (cases sub) auto
        moreover have "usage_loop (es # stack) u = usage_loop (es' # stack) u1"
          using Cons e s a False by (auto simp: usage_loop.simps split: option.splits)
        ultimately show ?thesis using rest a by (simp add: add_all_simps)
      qed
    qed
  qed
qed

definition hard_linked :: "fstat \<Rightarrow> bool" where
  "hard_linked st \<longleftrightarrow> \<not> st_isdir st \<and> st_nlink st > 1"

definition linked_ids :: "fstat list \<Rightarrow> (nat \<times> nat) set" where
  "linked_ids sts = st_id ` {st \<in> set sts. hard_linked st}"

lemma size_add_mod: "(size_add t n + x + y) mod SIZE_MOD = (t + n + x + y) mod SIZE_MOD"
  using mod_add_left_eq [of "t + n" SIZE_MOD "x + y"] by (simp add: size_add_def add.assoc)

lemma add_all_total:
  assumes "\<forall>st\<in>set sts. hard_linked st \<longrightarrow> GetDiskUsageSize st = size_of (st_id st)" "t < SIZE_MOD" "finite V"
  shows "snd (add_all sts (V, t)) =
    (t + sum_list (map GetDiskUsageSize (filter (\<lambda>st. \<not> hard_linked st) sts)) + sum size_of (linked_ids sts - V)) mod SIZE_MOD"
  using assms
proof (induction sts arbitrary: V t)
  case (Cons st sts)
  have lt: "size_add t n < SIZE_MOD" for n by (simp add: size_add_def)
  have fin: "finite (linked_ids sts)" by (simp add: linked_ids_def)
  consider "\<not> hard_linked st" | "hard_linked st" "st_id st \<in> V" | "hard_linked st" "st_id st \<notin> V" by blast
  then show ?case
  proof cases
    case 1
    then have "addDiskUsage st (V, t) = (True, (V, size_add t (GetDiskUsageSize st)))" "linked_ids (st # sts) = linked_ids sts"
      by (auto simp: addDiskUsage_def hard_linked_def linked_ids_def)
    then show ?thesis using Cons.IH [OF _ lt Cons.prems(3), of "GetDiskUsageSize st"] Cons.prems(1) 1
      unfolding size_add_mod by (simp add: add_all_simps ac_simps)
  next
    case 2
    then have "addDiskUsage st (V, t) = (False, (V, t))" "linked_ids (st # sts) - V = linked_ids sts - V"
      by (auto simp: addDiskUsage_def hard_linked_def linked_ids_def)
    then show ?thesis using Cons.IH [OF _ Cons.prems(2,3)] Cons.prems(1) 2 by (simp add: add_all_simps)
  next
    case 3
    let ?i = "st_id st"
    have a: "addDiskUsage st (V, t) = (True, (insert ?i V, size_add t (size_of ?i)))" "linked_ids (st # sts) - V = insert ?i (linked_ids sts - insert ?i V)"
      using 3 Cons.prems(1) by (auto simp: addDiskUsage_def hard_linked_def linked_ids_def)
    have "sum size_of (linked_ids (st # sts) - V) = size_of ?i + sum size_of (linked_ids sts - insert ?i V)"
      unfolding a(2) using fin by (intro sum.insert) auto
    moreover have "finite (insert ?i V)" using Cons.prems(3) by simp
    ultimately show ?thesis using Cons.IH [OF _ lt, of "insert ?i V" "size_of ?i"] Cons.prems(1) 3 a(1)
      unfolding size_add_mod by (simp add: add_all_simps ac_simps)
  qed
qed (simp add: add_all_simps linked_ids_def)

section \<open>Properties\<close>

text \<open>
  \<^verbatim>\<open>ForceCreateDirectory\<close> only adds directories on the way to the path, keeps everything else, and reports success only
  if the path exists then, whatever system calls fail. When no call fails, the root exists and nothing but directories
  is on the way, it succeeds and every directory on the way exists.
\<close>

theorem ForceCreateDirectory_correct:
  assumes "ForceCreateDirectory may_create path d = (ok, d')"
  shows "set d \<subseteq> set d' \<and> set d' \<subseteq> set d \<union> {(q, KDir) |q. prefix q (comps path)} \<and> (ok \<longrightarrow> path_access path d') \<and>
    ((\<forall>p. may_create p) \<and> ([], KDir) \<in> set d \<and> (\<forall>q k. prefix q (comps path) \<and> (q, k) \<in> set d \<longrightarrow> k = KDir) \<longrightarrow>
       ok \<and> (\<forall>q. prefix q (comps path) \<longrightarrow> (q, KDir) \<in> set d'))"
proof -
  have start: "at_slash path 0" "comps (take 0 path) = []" by (simp_all add: at_slash_def comps_def)
  have run: "create_loop may_create path 0 d = (ok, d')" using assms by (simp add: ForceCreateDirectory_def)
  have "ok \<and> (\<forall>q. prefix q (comps path) \<longrightarrow> (q, KDir) \<in> set d')"
    if "\<forall>p. may_create p" "([], KDir) \<in> set d" "\<forall>q k. prefix q (comps path) \<and> (q, k) \<in> set d \<longrightarrow> k = KDir"
    using create_loop_creates [of may_create path 0 d] that start run by auto
  then show ?thesis using create_loop_adds [OF start(1) run] by blast
qed

theorem ForceCreateDirectory_correct_witness:
  "ForceCreateDirectory (\<lambda>_. True) ''/a//b/c/'' [([], KDir), ([''a''], KDir)] =
     (True, [([''a'', ''b'', ''c''], KDir), ([''a'', ''b''], KDir), ([], KDir), ([''a''], KDir)]) \<and>
   path_access ''/a//b/c/'' [([''a'', ''b'', ''c''], KDir), ([''a'', ''b''], KDir), ([], KDir), ([''a''], KDir)]"
proof -
  have run: "ForceCreateDirectory (\<lambda>_. True) ''/a//b/c/'' [([], KDir), ([''a''], KDir)] =
     (True, [([''a'', ''b'', ''c''], KDir), ([''a'', ''b''], KDir), ([], KDir), ([''a''], KDir)])" by code_simp
  from ForceCreateDirectory_correct [OF run] run show ?thesis by blast
qed



text \<open>
  \<^verbatim>\<open>GetFolderDiskUsage\<close> of a directory is the space of the directory and of everything that can be reached in it
  without following links, in 64 bits, where a file with several hard links counts once, however often and in however
  many directories it is met.
\<close>

theorem GetFolderDiskUsage_once:
  assumes "st_isdir st" "\<forall>s\<in>set (dir_stats es). hard_linked s \<longrightarrow> GetDiskUsageSize s = size_of (st_id s)"
  shows "GetFolderDiskUsage (SNode (Some st) (Some es)) =
    (GetDiskUsageSize st + sum_list (map GetDiskUsageSize (filter (\<lambda>s. \<not> hard_linked s) (dir_stats es))) + sum size_of (linked_ids (dir_stats es))) mod SIZE_MOD"
proof -
  have st: "addDiskUsage st ({}, 0) = (True, ({}, size_add 0 (GetDiskUsageSize st)))" using assms(1) by (simp add: addDiskUsage_def)
  have "GetFolderDiskUsage (SNode (Some st) (Some es)) = snd (add_all (dir_stats es) ({}, size_add 0 (GetDiskUsageSize st)))"
    using assms(1) st usage_loop_top [of es "[]"] by (simp add: GetFolderDiskUsage_def TraverseDirectoryDiskUsage_def usage_loop.simps)
  also have "\<dots> = (size_add 0 (GetDiskUsageSize st) + sum_list (map GetDiskUsageSize (filter (\<lambda>s. \<not> hard_linked s) (dir_stats es))) +
      sum size_of (linked_ids (dir_stats es))) mod SIZE_MOD"
    using add_all_total [OF assms(2), of "size_add 0 (GetDiskUsageSize st)" "{}"] by (simp add: size_add_def)
  finally show ?thesis unfolding size_add_mod by simp
qed

definition sample_stat :: "bool \<Rightarrow> nat \<Rightarrow> nat \<Rightarrow> int \<Rightarrow> fstat" where
  "sample_stat isdir links inode blocks = \<lparr>st_blocks = blocks, st_nlink = links, st_id = (1, inode), st_isdir = isdir\<rparr>"

theorem GetFolderDiskUsage_once_witness:
  "GetFolderDiskUsage (SNode (Some (sample_stat True 2 1 8)) (Some [(''f'', SNode (Some (sample_stat False 2 7 3)) None),
      (''s'', SNode (Some (sample_stat True 2 2 8)) (Some [(''g'', SNode (Some (sample_stat False 2 7 3)) None)]))])) = 19 * 512"
proof -
  let ?es = "[(''f'', SNode (Some (sample_stat False 2 7 3)) None),
      (''s'', SNode (Some (sample_stat True 2 2 8)) (Some [(''g'', SNode (Some (sample_stat False 2 7 3)) None)]))]"
  have ds: "dir_stats ?es = [sample_stat False 2 7 3, sample_stat True 2 2 8, sample_stat False 2 7 3]"
    by (simp add: dir_stats_def sample_stat_def dot_def)
  have sz: "GetDiskUsageSize (sample_stat b l i 3) = 1536" "GetDiskUsageSize (sample_stat b l i 8) = 4096" for b l i
    by (simp_all add: GetDiskUsageSize_def sample_stat_def STAT_BLOCK_SIZE_def size_mul_def)
  have hl: "hard_linked (sample_stat b 2 i k) = (\<not> b)" "st_id (sample_stat b l i k) = (1, i)" "st_isdir (sample_stat b l i k) = b" for b l i k
    by (simp_all add: hard_linked_def sample_stat_def)
  have "{s \<in> set (dir_stats ?es). hard_linked s} = {sample_stat False 2 7 3}" unfolding ds by (auto simp: hl)
  then have ids: "linked_ids (dir_stats ?es) = {(1, 7)}" by (simp add: linked_ids_def hl)
  have "\<forall>s\<in>set (dir_stats ?es). hard_linked s \<longrightarrow> GetDiskUsageSize s = (\<lambda>_. 1536) (st_id s)" unfolding ds by (simp add: hl sz)
  from GetFolderDiskUsage_once [OF _ this, of "sample_stat True 2 1 8"] show ?thesis unfolding ids unfolding ds by (simp add: hl sz)
qed

end
