(* ===== verification/File_Ex.thy ===== *)
theory File_Ex
  imports String_Spec Directory_Ex
begin

text \<open>
  Loading, saving and searching files (\<^verbatim>\<open>base/src/file_ex.cpp\<close>). The state is the contents of the files and the table
  of open descriptors with their offsets; what the operating system allows, which files can be sought, how many bytes
  a write takes and the links of \<^verbatim>\<open>/proc\<close> are a record of parameters. A file does not change while it is read, and
  reading a stream does not fail. Descriptors refer to files by their path.
\<close>

definition MAX_FILE_LENGTH :: int where "MAX_FILE_LENGTH = 32 * 1024 * 1024"

record file_os =
  may_read :: "string \<Rightarrow> bool"
  may_write :: "string \<Rightarrow> bool"
  visible :: "string \<Rightarrow> bool"
  seekable :: "string \<Rightarrow> bool"
  rewinds :: "string \<Rightarrow> bool"
  stream_put :: "string \<Rightarrow> nat \<Rightarrow> nat \<times> bool"
  fd_write :: "int \<Rightarrow> nat \<Rightarrow> nat option"
  fd_read :: "int \<Rightarrow> nat \<Rightarrow> nat option"
  os_readlink :: "string \<Rightarrow> string option"
  os_realpath :: "string \<Rightarrow> string option"

text \<open>
  \<open>stream_put\<close> gives how many of the bytes put into an output stream reach the file and whether the stream reports a
  failure after \<^verbatim>\<open>write\<close>; \<open>fd_write\<close> and \<open>fd_read\<close> give the result of the system calls, \<^const>\<open>None\<close> for an error.
\<close>

record file_sys =
  files :: "string \<Rightarrow> byte list option"
  fds :: "int \<Rightarrow> (string \<times> nat) option"

section \<open>Files by name\<close>

definition open_in :: "file_os \<Rightarrow> string \<Rightarrow> file_sys \<Rightarrow> byte list option" where
  "open_in os path s = (if may_read os path then files s path else None)"

definition tell_end :: "file_os \<Rightarrow> string \<Rightarrow> byte list \<Rightarrow> int" where
  "tell_end os path d = (if seekable os path then int (length d) else -1)"

text \<open>When the end cannot be sought the stream stays where it is, at the beginning.\<close>

definition LoadStringFromFile :: "file_os \<Rightarrow> string \<Rightarrow> byte list \<Rightarrow> file_sys \<Rightarrow> bool \<times> byte list" where
  "LoadStringFromFile os filePath content s =
     (case open_in os filePath s of
        None \<Rightarrow> (False, content)
      | Some d \<Rightarrow>
          if tell_end os filePath d > MAX_FILE_LENGTH then (False, content)
          else (True, if seekable os filePath \<and> \<not> rewinds os filePath then [] else d))"

definition open_out :: "file_os \<Rightarrow> string \<Rightarrow> bool \<Rightarrow> file_sys \<Rightarrow> byte list option" where
  "open_out os path truncated s =
     (if may_write os path then Some (if truncated then [] else case files s path of None \<Rightarrow> [] | Some d \<Rightarrow> d) else None)"

definition SaveStringToFile :: "file_os \<Rightarrow> string \<Rightarrow> byte list \<Rightarrow> bool \<Rightarrow> file_sys \<Rightarrow> bool \<times> file_sys" where
  "SaveStringToFile os filePath content truncated s =
     (if content = [] then (True, s)
      else case open_out os filePath truncated s of
          None \<Rightarrow> (False, s)
        | Some d \<Rightarrow>
            (case stream_put os filePath (length content) of
               (k, fail) \<Rightarrow> (\<not> fail, s\<lparr>files := (files s)(filePath \<mapsto> d @ take k content)\<rparr>)))"

definition SaveBufferToFile :: "file_os \<Rightarrow> string \<Rightarrow> byte list \<Rightarrow> bool \<Rightarrow> file_sys \<Rightarrow> bool \<times> file_sys" where
  "SaveBufferToFile os filePath content truncated s =
     (if content = [] then (True, s)
      else case open_out os filePath truncated s of
          None \<Rightarrow> (False, s)
        | Some d \<Rightarrow>
            (case stream_put os filePath (length content) of
               (k, _) \<Rightarrow> (True, s\<lparr>files := (files s)(filePath \<mapsto> d @ take k content)\<rparr>)))"

text \<open>The loop of \<^verbatim>\<open>fgetc\<close> over what is left of the file.\<close>

fun node_loop :: "byte list \<Rightarrow> int \<Rightarrow> byte list \<Rightarrow> bool \<times> byte list" where
  "node_loop [] byteCount content = (True, content)"
| "node_loop (ch # rest) byteCount content =
     (if byteCount > MAX_FILE_LENGTH then (False, []) else node_loop rest (byteCount + 1) (content @ [ch]))"

definition FileExists :: "file_os \<Rightarrow> string \<Rightarrow> file_sys \<Rightarrow> bool" where
  "FileExists os fileName s \<longleftrightarrow> visible os fileName \<and> \<not> Option.is_none (files s fileName)"

definition LoadBufferFromNodeFile :: "file_os \<Rightarrow> string \<Rightarrow> byte list \<Rightarrow> file_sys \<Rightarrow> bool \<times> byte list" where
  "LoadBufferFromNodeFile os filePath content s =
     (case PathToRealPath (os_realpath os) (\<lambda>p. FileExists os p s) filePath [] of
        (ok, realPath) \<Rightarrow>
          if \<not> ok then (False, content)
          else case open_in os realPath s of
              None \<Rightarrow> (False, content)
            | Some d \<Rightarrow> node_loop d 1 content)"

definition LoadBufferFromFile :: "file_os \<Rightarrow> string \<Rightarrow> byte list \<Rightarrow> file_sys \<Rightarrow> bool \<times> byte list" where
  "LoadBufferFromFile os filePath content s =
     (case open_in os filePath s of
        None \<Rightarrow> (False, content)
      | Some d \<Rightarrow>
          let fileLength = tell_end os filePath d
          in if fileLength > MAX_FILE_LENGTH then (False, content)
             else if fileLength < 0 then LoadBufferFromNodeFile os filePath content s
             else if fileLength = 0 then (True, [])
             else if \<not> rewinds os filePath then (False, content)
             else (True, d))"

section \<open>Files by descriptor\<close>

definition GetFileNameByFd :: "file_os \<Rightarrow> int \<Rightarrow> string" where
  "GetFileNameByFd os fd =
     (if fd \<le> 0 then []
      else case os_readlink os (''/proc/self/fd/'' @ map (\<lambda>b. char_of (unat b)) (ToString fd)) of
          None \<Rightarrow> []
        | Some name \<Rightarrow> takeWhile (\<lambda>c. c \<noteq> CHR 0x00) (take PATH_MAX name))"

definition LoadStringFromFdToFile :: "file_os \<Rightarrow> int \<Rightarrow> byte list \<Rightarrow> file_sys \<Rightarrow> bool \<times> byte list" where
  "LoadStringFromFdToFile os fd content s =
     (let fileName = GetFileNameByFd os fd
      in if fileName = [] then (False, content) else LoadStringFromFile os fileName content s)"

text \<open>\<^verbatim>\<open>lseek\<close> to the end, and the content of the file behind a descriptor.\<close>

definition fd_file :: "int \<Rightarrow> file_sys \<Rightarrow> (string \<times> nat \<times> byte list) option" where
  "fd_file fd s = do { (path, off) \<leftarrow> fds s fd; d \<leftarrow> files s path; Some (path, off, d) }"

definition seek :: "int \<Rightarrow> string \<Rightarrow> nat \<Rightarrow> file_sys \<Rightarrow> file_sys" where
  "seek fd path off s = s\<lparr>fds := (fds s)(fd \<mapsto> (path, off))\<rparr>"

definition resize_str :: "nat \<Rightarrow> byte list \<Rightarrow> byte list" where
  "resize_str n content = take n content @ replicate (n - length content) 0"

definition LoadStringFromFd :: "file_os \<Rightarrow> int \<Rightarrow> byte list \<Rightarrow> file_sys \<Rightarrow> bool \<times> byte list \<times> file_sys" where
  "LoadStringFromFd os fd content s =
     (if fd \<le> 0 then (False, content, s)
      else case fd_file fd s of
          None \<Rightarrow> (case LoadStringFromFdToFile os fd content s of (ok, c) \<Rightarrow> (ok, c, s))
        | Some (path, off, d) \<Rightarrow>
            if \<not> seekable os path then (case LoadStringFromFdToFile os fd content s of (ok, c) \<Rightarrow> (ok, c, s))
            else
              let s1 = seek fd path (length d) s;
                  c1 = resize_str (length d) content
              in if int (length d) > MAX_FILE_LENGTH then (False, content, s1)
                 else if d = [] then (True, content, s1)
                 else if \<not> rewinds os path then (False, c1, s1)
                 else case fd_read os fd (length d) of
                     None \<Rightarrow> (False, c1, seek fd path 0 s1)
                   | Some k \<Rightarrow> (k = length d, take k d @ drop k c1, seek fd path k s1))"

text \<open>\<^verbatim>\<open>write\<close> at an offset: a gap behind the end is filled with zeros, what is behind the written bytes stays.\<close>

definition overlay :: "nat \<Rightarrow> byte list \<Rightarrow> byte list \<Rightarrow> byte list" where
  "overlay off bs d = (if bs = [] then d else take off d @ replicate (off - length d) 0 @ bs @ drop (off + length bs) d)"

definition SaveStringToFd :: "file_os \<Rightarrow> int \<Rightarrow> byte list \<Rightarrow> file_sys \<Rightarrow> bool \<times> file_sys" where
  "SaveStringToFd os fd content s =
     (if fd \<le> 0 then (False, s)
      else if content = [] then (True, s)
      else case fd_file fd s of
          None \<Rightarrow> (False, s)
        | Some (path, off, d) \<Rightarrow>
            (case fd_write os fd (length content) of
               None \<Rightarrow> (False, s)
             | Some k \<Rightarrow>
                 (k = length content,
                  seek fd path (off + k) (s\<lparr>files := (files s)(path \<mapsto> overlay off (take k content) d)\<rparr>))))"

section \<open>Searching\<close>

definition StringExistsInFile :: "file_os \<Rightarrow> string \<Rightarrow> byte list \<Rightarrow> bool \<Rightarrow> file_sys \<Rightarrow> bool" where
  "StringExistsInFile os fileName subStr caseSensitive s =
     (if subStr = [] then False
      else case LoadStringFromFile os fileName [] s of
          (ok, str) \<Rightarrow>
            if \<not> ok then False
            else if caseSensitive then str_find str subStr 0 \<noteq> None
            else str_find (map tolower str) (map tolower subStr) 0 \<noteq> None)"

function count_loop :: "byte list \<Rightarrow> byte list \<Rightarrow> nat \<Rightarrow> int \<Rightarrow> int" where
  "count_loop str subStr position count =
     (if subStr = [] then count
      else case str_find str subStr position of
          None \<Rightarrow> count
        | Some p \<Rightarrow> count_loop str subStr (p + length subStr) (count + 1))"
  by pat_completeness auto
termination
proof (relation "measure (\<lambda>(str, subStr, position, count). length str - position)", goal_cases)
  case (2 str subStr position count p)
  then show ?case using str_find_bounds [of str subStr position p] by (cases subStr) auto
qed simp

declare count_loop.simps [simp del]

definition CountStrInStr :: "byte list \<Rightarrow> byte list \<Rightarrow> int" where
  "CountStrInStr str subStr = (if subStr = [] then 0 else count_loop str subStr 0 0)"

definition CountStrInFile :: "file_os \<Rightarrow> string \<Rightarrow> byte list \<Rightarrow> bool \<Rightarrow> file_sys \<Rightarrow> int" where
  "CountStrInFile os fileName subStr caseSensitive s =
     (if subStr = [] then -1
      else case LoadStringFromFile os fileName [] s of
          (ok, str) \<Rightarrow>
            if \<not> ok then -1
            else if caseSensitive then CountStrInStr str subStr
            else CountStrInStr (map tolower str) (map tolower subStr))"

section \<open>Counting occurrences\<close>

text \<open>The number of occurrences found from the left, on the rest of the string.\<close>

lemma str_find_drop: "pos \<le> length s \<Longrightarrow> str_find s sub pos = map_option ((+) pos) (find_sub sub (drop pos s))"
  by (simp add: str_find_def)

lemma count_loop_drop:
  assumes "subStr \<noteq> []" "position \<le> length str"
  shows "count_loop str subStr position c = c + count_loop (drop position str) subStr 0 0"
  using assms
proof (induction "length str - position" arbitrary: str position c rule: less_induct)
  case less
  have pos: "0 < length subStr" using less.prems(1) by simp
  show ?case
  proof (cases "find_sub subStr (drop position str)")
    case None
    then show ?thesis using less.prems
      by (simp add: count_loop.simps [of str subStr position] count_loop.simps [of "drop position str"] str_find_drop)
  next
    case (Some p)
    note b = find_sub_Some [OF Some]
    have le: "position + p + length subStr \<le> length str" using b less.prems(2) by auto
    have lt: "length str - (position + p + length subStr) < length str - position"
      "length (drop position str) - (p + length subStr) < length str - position" using le pos by (simp_all del: length_greater_0_conv)
    have "count_loop str subStr position c = count_loop str subStr (position + p + length subStr) (c + 1)"
      using Some less.prems by (simp add: count_loop.simps [of str subStr position] str_find_drop)
    also have "\<dots> = c + 1 + count_loop (drop (position + p + length subStr) str) subStr 0 0"
      by (rule less.hyps) (use lt le less.prems in auto)
    finally have 1: "count_loop str subStr position c = c + 1 + count_loop (drop (position + p + length subStr) str) subStr 0 0" .
    have "count_loop (drop position str) subStr 0 0 = count_loop (drop position str) subStr (p + length subStr) 1"
      using Some less.prems by (simp add: count_loop.simps [of "drop position str"])
    also have "\<dots> = 1 + count_loop (drop (p + length subStr) (drop position str)) subStr 0 0"
      by (rule less.hyps) (use lt b less.prems in auto)
    finally show ?thesis using 1 by (simp add: add.commute add.left_commute)
  qed
qed

lemma count_step:
  assumes "subStr \<noteq> []"
  shows "count_loop s subStr 0 0 = (case find_sub subStr s of None \<Rightarrow> 0 | Some p \<Rightarrow> 1 + count_loop (drop (p + length subStr) s) subStr 0 0)"
proof (cases "find_sub subStr s")
  case (Some p)
  then have "count_loop s subStr 0 0 = count_loop s subStr (p + length subStr) 1" using assms by (simp add: count_loop.simps [of s])
  also have "\<dots> = 1 + count_loop (drop (p + length subStr) s) subStr 0 0"
    using find_sub_Some [OF Some] assms by (intro count_loop_drop) auto
  finally show ?thesis using Some by simp
qed (use assms in \<open>simp add: count_loop.simps [of s]\<close>)

lemma count_nonneg:
  assumes "subStr \<noteq> []"
  shows "0 \<le> count_loop s subStr 0 0"
proof (induction "length s" arbitrary: s rule: less_induct)
  case less
  show ?case
  proof (cases "find_sub subStr s")
    case (Some p)
    have "length (drop (p + length subStr) s) < length s" using find_sub_Some [OF Some] assms by (cases subStr) auto
    from less [OF this] show ?thesis using Some by (subst count_step [OF assms]) simp
  qed (subst count_step [OF assms], simp)
qed

lemma join_append_first: "x @ join sep (q # qs) = join sep ((x @ q) # qs)"
  by (cases qs) simp_all

lemma count_reached:
  assumes "subStr \<noteq> []"
  shows "\<exists>ps. s = join subStr ps \<and> int (length ps) = count_loop s subStr 0 0 + 1"
proof (induction "length s" arbitrary: s rule: less_induct)
  case less
  show ?case
  proof (cases "find_sub subStr s")
    case None
    then show ?thesis by (intro exI [of _ "[s]"]) (simp add: count_step [OF assms, of s])
  next
    case (Some p)
    note b = find_sub_Some [OF Some]
    have "length (drop (p + length subStr) s) < length s" using b assms by (cases subStr) auto
    from less [OF this] obtain ps where ps: "drop (p + length subStr) s = join subStr ps"
      "int (length ps) = count_loop (drop (p + length subStr) s) subStr 0 0 + 1" by blast
    have "ps \<noteq> []" using ps(2) count_nonneg [OF assms, of "drop (p + length subStr) s"] by auto
    then have "join subStr (take p s # ps) = take p s @ subStr @ drop (p + length subStr) s" using ps(1) by (simp add: join_Cons)
    also have "\<dots> = s" using b by simp
    finally show ?thesis using ps(2) Some by (intro exI [of _ "take p s # ps"]) (simp add: count_step [OF assms, of s])
  qed
qed

lemma count_maximal:
  assumes "subStr \<noteq> []" "s = join subStr ps"
  shows "int (length ps) \<le> count_loop s subStr 0 0 + 1"
  using assms(2)
proof (induction "length s" arbitrary: s ps rule: less_induct)
  case less
  show ?case
  proof (cases "\<exists>q q' qs. ps = q # q' # qs")
    case False
    then have "length ps \<le> 1" by (cases ps rule: remdups_adj.cases) auto
    moreover have "0 \<le> count_loop s subStr 0 0" by (rule count_nonneg [OF assms(1)])
    ultimately show ?thesis by linarith
  next
    case True
    then obtain q q' qs where ps: "ps = q # q' # qs" by blast
    have s: "s = q @ subStr @ join subStr (q' # qs)" using less.prems ps by simp
    then obtain p where p: "find_sub subStr s = Some p" using find_sub_complete by blast
    note b = find_sub_Some [OF p]
    have le: "p \<le> length q" by (rule find_sub_least [OF p s])
    let ?x = "drop (p + length subStr) (q @ subStr)"
    have "drop (p + length subStr) s = ?x @ join subStr (q' # qs)" using s le by simp
    then have d: "drop (p + length subStr) s = join subStr ((?x @ q') # qs)" by (simp only: join_append_first)
    have "length (drop (p + length subStr) s) < length s" using b assms(1) by (cases subStr) auto
    from less.hyps [OF this d] show ?thesis using p ps by (simp add: count_step [OF assms(1), of s])
  qed
qed

section \<open>Properties\<close>

text \<open>
  C34. What was saved is what is loaded. On a disk that takes the bytes, saving a string that is not empty succeeds and
  makes the file the string, or the old content followed by it when the file is not truncated; saving it as a
  buffer has the same effect. Loading the file, as a string or as a buffer, gives exactly that content whatever the
  target held, as long as the file has at most 32 MB. No other file changes.
\<close>

theorem save_then_load:
  assumes "content \<noteq> []" "may_write os path" "stream_put os path (length content) = (length content, False)"
    and "may_read os path" "seekable os path" "rewinds os path"
    and saved_def: "saved = (if truncated then [] else case files s path of None \<Rightarrow> [] | Some d \<Rightarrow> d) @ content"
    and "int (length saved) \<le> MAX_FILE_LENGTH"
  shows "\<exists>s'. SaveStringToFile os path content truncated s = (True, s') \<and> SaveBufferToFile os path content truncated s = (True, s') \<and>
    LoadStringFromFile os path c s' = (True, saved) \<and> LoadBufferFromFile os path c s' = (True, saved) \<and>
    (\<forall>q. q \<noteq> path \<longrightarrow> files s' q = files s q)"
proof -
  let ?s = "s\<lparr>files := (files s)(path \<mapsto> saved)\<rparr>"
  have "SaveStringToFile os path content truncated s = (True, ?s)" "SaveBufferToFile os path content truncated s = (True, ?s)"
    using assms(1-3) by (simp_all add: SaveStringToFile_def SaveBufferToFile_def open_out_def saved_def)
  moreover have "saved \<noteq> []" using assms(1) by (simp add: saved_def)
  then have "LoadStringFromFile os path c ?s = (True, saved)" "LoadBufferFromFile os path c ?s = (True, saved)"
    using assms(4-6,8) by (simp_all add: LoadStringFromFile_def LoadBufferFromFile_def open_in_def tell_end_def Let_def)
  ultimately show ?thesis by auto
qed

definition sample_file_os :: file_os where
  "sample_file_os = \<lparr>may_read = (\<lambda>_. True), may_write = (\<lambda>_. True), visible = (\<lambda>_. True), seekable = (\<lambda>_. True),
     rewinds = (\<lambda>_. True), stream_put = (\<lambda>_ n. (n, False)), fd_write = (\<lambda>_ n. Some n), fd_read = (\<lambda>_ n. Some n),
     os_readlink = (\<lambda>_. None), os_realpath = Some\<rparr>"

definition sample_file_sys :: file_sys where
  "sample_file_sys = \<lparr>files = [''/a'' \<mapsto> [1, 2, 3], ''/e'' \<mapsto> []], fds = [3 \<mapsto> (''/a'', 2), 4 \<mapsto> (''/e'', 0)]\<rparr>"

theorem save_then_load_witness:
  "\<exists>s'. SaveStringToFile sample_file_os ''/a'' [7, 8] False sample_file_sys = (True, s') \<and>
     LoadStringFromFile sample_file_os ''/a'' [9] s' = (True, [1, 2, 3, 7, 8])"
  using save_then_load [of "[7, 8]" sample_file_os "''/a''" "[1, 2, 3, 7, 8]" False sample_file_sys "[9]"]
  by (auto simp: sample_file_os_def sample_file_sys_def MAX_FILE_LENGTH_def)

text \<open>
  C0. Writing through a descriptor and loading through it: the written string replaces the bytes at the offset of the
  descriptor, a gap behind the end of the file reads as zeros, and loading gives the whole file from its beginning,
  whatever the offset was, and leaves the offset at the end.
\<close>

theorem fd_round_trip:
  assumes "fd > 0" "content \<noteq> []" "fd_file fd s = Some (path, off, d)"
    and "\<forall>n. fd_write os fd n = Some n \<and> fd_read os fd n = Some n" "seekable os path" "rewinds os path"
    and "int (length (overlay off content d)) \<le> MAX_FILE_LENGTH"
  shows "\<exists>s1 s2. SaveStringToFd os fd content s = (True, s1) \<and>
    LoadStringFromFd os fd c s1 = (True, overlay off content d, s2) \<and>
    take (length content) (drop off (overlay off content d)) = content \<and>
    fds s2 fd = Some (path, length (overlay off content d)) \<and> files s2 = (files s)(path \<mapsto> overlay off content d)"
proof -
  let ?d = "overlay off content d"
  let ?s1 = "seek fd path (off + length content) (s\<lparr>files := (files s)(path \<mapsto> ?d)\<rparr>)"
  have "SaveStringToFd os fd content s = (True, ?s1)" using assms(1-4) by (simp add: SaveStringToFd_def)
  moreover have "fd_file fd ?s1 = Some (path, off + length content, ?d)" by (simp add: fd_file_def seek_def)
  moreover have ne: "?d \<noteq> []" using assms(2) by (simp add: overlay_def)
  ultimately have "LoadStringFromFd os fd c ?s1 = (True, ?d, seek fd path (length ?d) (seek fd path (length ?d) ?s1))"
    using assms(1,4-7) by (simp add: LoadStringFromFd_def Let_def resize_str_def)
  moreover have "take (length content) (drop off ?d) = content" using assms(2) by (simp add: overlay_def)
  ultimately show ?thesis using \<open>SaveStringToFd os fd content s = (True, ?s1)\<close> by (simp add: seek_def)
qed

theorem fd_round_trip_witness:
  "\<exists>s1 s2. SaveStringToFd sample_file_os 3 [7, 8] sample_file_sys = (True, s1) \<and>
     LoadStringFromFd sample_file_os 3 [] s1 = (True, [1, 2, 7, 8], s2) \<and> fds s2 3 = Some (''/a'', 4)"
proof -
  have "fd_file 3 sample_file_sys = Some (''/a'', 2, [1, 2, 3])" by (simp add: fd_file_def sample_file_sys_def)
  moreover have "overlay 2 [7, 8] [1, 2, 3] = [1, 2, 7, 8]" by (simp add: overlay_def)
  ultimately show ?thesis
    using fd_round_trip [of 3 "[7, 8]" sample_file_sys "''/a''" 2 "[1, 2, 3]" sample_file_os "[]"]
    by (auto simp: sample_file_os_def MAX_FILE_LENGTH_def)
qed



text \<open>A file has the string exactly when it has at least one occurrence to count.\<close>

lemma StringExistsInFile_counts:
  assumes "subStr \<noteq> []" "fst (LoadStringFromFile os fileName [] s)"
  shows "StringExistsInFile os fileName subStr cs s \<longleftrightarrow> 0 < CountStrInFile os fileName subStr cs s"
proof -
  have "find_sub sub str \<noteq> None \<longleftrightarrow> 0 < CountStrInStr str sub" if "sub \<noteq> []" for sub str
    using count_nonneg [OF that, of "drop (the (find_sub sub str) + length sub) str"] that
    by (cases "find_sub sub str") (simp_all add: CountStrInStr_def count_step [OF that, of str])
  from this [of subStr] this [of "map tolower subStr"] show ?thesis
    using assms by (auto simp: StringExistsInFile_def CountStrInFile_def split: prod.splits)
qed

text \<open>
  C0. A load that is refused keeps the target, and a load that succeeds sets it to the whole file, of at most 32 MB, if
  the end of the file can be sought.
\<close>

theorem load_outcome:
  assumes "open_in os path s = Some d" "seekable os path" "rewinds os path"
  shows "LoadStringFromFile os path c s = (if int (length d) \<le> MAX_FILE_LENGTH then (True, d) else (False, c)) \<and>
    LoadBufferFromFile os path c s = (if int (length d) \<le> MAX_FILE_LENGTH then (True, d) else (False, c))"
  using assms by (auto simp: LoadStringFromFile_def LoadBufferFromFile_def tell_end_def Let_def)

theorem load_outcome_witness: "LoadBufferFromFile sample_file_os ''/e'' [5] sample_file_sys = (True, [])"
  using load_outcome [of sample_file_os "''/e''" sample_file_sys "[]" "[5]"]
  by (simp add: open_in_def sample_file_os_def sample_file_sys_def MAX_FILE_LENGTH_def)

lemma node_loop_result:
  "node_loop d n c = (if int (length d) + n \<le> MAX_FILE_LENGTH + 1 \<or> d = [] then (True, c @ d) else (False, []))"
  by (induction d arbitrary: n c) auto

text \<open>A file whose end cannot be sought is appended to the buffer.\<close>

lemma LoadBufferFromNodeFile_appends:
  assumes "open_in os path s = Some d" "\<not> seekable os path" "path \<noteq> []" "length path < PATH_MAX" "os_realpath os path = Some path"
    "visible os path" "int (length d) \<le> MAX_FILE_LENGTH"
  shows "LoadBufferFromFile os path c s = (True, c @ d)"
  using assms
  by (auto simp: LoadBufferFromFile_def LoadBufferFromNodeFile_def PathToRealPath_def FileExists_def tell_end_def open_in_def
      node_loop_result MAX_FILE_LENGTH_def Option.is_none_def split: if_splits)

text \<open>
  C0. Empty contents are special. Saving an empty string or buffer reports success and leaves the file as it was, also
  when it was to be truncated; loading an empty file through a descriptor reports success and leaves the old content
  of the target, while loading it by name clears the target.
\<close>

theorem empty_contents:
  assumes "fd > 0" "fd_file fd s = Some (path, off, [])" "seekable os path" "may_read os path"
  shows "SaveStringToFile os p [] truncated s = (True, s) \<and> SaveBufferToFile os p [] truncated s = (True, s) \<and>
    (\<exists>s'. LoadStringFromFd os fd c s = (True, c, s')) \<and> LoadStringFromFile os path c s = (True, [])"
proof -
  have "files s path = Some []" using assms(2) by (auto simp: fd_file_def bind_eq_Some_conv split: prod.splits)
  then show ?thesis using assms
    by (auto simp: SaveStringToFile_def SaveBufferToFile_def LoadStringFromFd_def LoadStringFromFile_def open_in_def tell_end_def
        MAX_FILE_LENGTH_def Let_def)
qed

theorem empty_contents_witness:
  "SaveStringToFile sample_file_os ''/a'' [] True sample_file_sys = (True, sample_file_sys) \<and>
   (\<exists>s'. LoadStringFromFd sample_file_os 4 [5] sample_file_sys = (True, [5], s')) \<and>
   LoadStringFromFile sample_file_os ''/e'' [5] sample_file_sys = (True, [])"
  using empty_contents [of 4 sample_file_sys "''/e''" 0 sample_file_os "''/a''" True "[5]"]
  by (simp add: fd_file_def sample_file_os_def sample_file_sys_def)

end
