(* ===== verification/Event_Reactor.thy ===== *)
theory Event_Reactor
  imports CUtils_Prelude
begin

text \<open>
  The reactor of the timers (\<^verbatim>\<open>base/src/event_reactor.cpp\<close>, \<^verbatim>\<open>event_demultiplexer.cpp\<close>, \<^verbatim>\<open>event_handler.cpp\<close>,
  \<^verbatim>\<open>timer_event_handler.cpp\<close>). Handlers are heap objects known by their address; a handler lives while a
  \<^verbatim>\<open>shared_ptr\<close> in the list of the reactor, in the map of the demultiplexer or in the task queue of a running
  \<^verbatim>\<open>Polling\<close> refers to it, and its destructor closes its descriptor. \<^const>\<open>None\<close> as the result of an operation is a
  use of a destroyed handler. The descriptors the process holds open and the interest list of the epoll instance are
  part of the state; which descriptor \<^verbatim>\<open>timerfd_create\<close> returns, the clock and the failures of the system calls are
  an argument. The reactor and the demultiplexer of a handler are never null here, as in the constructor.
\<close>

unbundle bit_operations_syntax

section \<open>State and environment\<close>

definition COMMON_TIMER_ERR_OFFSET :: "32 word" where
  "COMMON_TIMER_ERR_OFFSET = push_bit 21 0 OR push_bit 16 1"

definition TIMER_ERR_OK :: "32 word" where "TIMER_ERR_OK = 0"
definition TIMER_ERR_DEAL_FAILED :: "32 word" where "TIMER_ERR_DEAL_FAILED = COMMON_TIMER_ERR_OFFSET + 11"
definition TIMER_ERR_BADF :: "32 word" where "TIMER_ERR_BADF = COMMON_TIMER_ERR_OFFSET + 9"
definition TIMER_ERR_INVALID_VALUE :: "32 word" where "TIMER_ERR_INVALID_VALUE = COMMON_TIMER_ERR_OFFSET + 22"

definition INVALID_TIMER_FD :: int where "INVALID_TIMER_FD = -1"

definition NONE_EVENT :: "32 word" where "NONE_EVENT = 0x0000"
definition READ_EVENT :: "32 word" where "READ_EVENT = 0x0001"

definition QUEUE_MAX_SIZE :: nat where "QUEUE_MAX_SIZE = 10"
definition EPOLL_MAX_EVENS_INIT :: int where "EPOLL_MAX_EVENS_INIT = 8"

datatype epoll_op = EPOLL_CTL_ADD | EPOLL_CTL_DEL | EPOLL_CTL_MOD

record itimerspec =
  it_interval :: "int \<times> int"
  it_value :: "int \<times> int"

text \<open>A timer handler with the fields of its base class; \<open>initInfo\<close> is the setting saved by \<^verbatim>\<open>Initialize\<close>.\<close>

record 'c timer_handler =
  hFd :: int
  hEvents :: "32 word"
  hOnce :: bool
  hInterval :: "32 word"
  hCallback :: 'c
  initInfo :: "itimerspec option"

record timer_os =
  timerfd_create :: "int list \<Rightarrow> int"
  monotonic_now :: "(int \<times> int) option"
  timerfd_settime :: "int \<Rightarrow> itimerspec \<Rightarrow> bool"
  epoll_create_ok :: bool
  epoll_ctl_fault :: "epoll_op \<Rightarrow> int \<Rightarrow> nat option"

record 'c reactor =
  loopReady :: bool
  switchedOn :: bool
  timerEventHandlers :: "nat list"
  eventHandlers :: "(int \<times> nat) list"
  epollCtlErrQueue :: "(epoll_op \<times> nat \<times> int) list"
  maxEvents :: int
  epollOpen :: bool
  taskQue :: "(nat \<times> 32 word) list"
  objs :: "nat \<Rightarrow> 'c timer_handler option"
  nextObj :: nat
  openFds :: "int list"
  interest :: "int \<Rightarrow> 32 word option"

definition EventReactor_new :: "timer_os \<Rightarrow> int list \<Rightarrow> 'c reactor" where
  "EventReactor_new os fds =
     \<lparr>loopReady = False, switchedOn = False, timerEventHandlers = [], eventHandlers = [], epollCtlErrQueue = [],
      maxEvents = EPOLL_MAX_EVENS_INIT, epollOpen = epoll_create_ok os, taskQue = [], objs = (\<lambda>_. None), nextObj = 0,
      openFds = fds, interest = (\<lambda>_. None)\<rparr>"

text \<open>
  What the reactor relies on of the system calls: a new descriptor is not one that is open, the clock is
  normalized, and removing a descriptor from the interest list fails only when it is not there.
\<close>

definition timer_os_ok :: "timer_os \<Rightarrow> bool" where
  "timer_os_ok os \<longleftrightarrow>
     (\<forall>fds. timerfd_create os fds = INVALID_TIMER_FD \<or> 0 \<le> timerfd_create os fds \<and> timerfd_create os fds \<notin> set fds) \<and>
     (\<forall>now. monotonic_now os = Some now \<longrightarrow> 0 \<le> snd now \<and> snd now < 1000000000) \<and>
     (\<forall>fd. epoll_ctl_fault os EPOLL_CTL_DEL fd = None)"

text \<open>The references of the \<^verbatim>\<open>shared_ptr\<close>s, and the destructor that runs when the last one is gone.\<close>

definition referenced :: "nat \<Rightarrow> 'c reactor \<Rightarrow> bool" where
  "referenced a r \<longleftrightarrow> a \<in> set (timerEventHandlers r) \<or> a \<in> snd ` set (eventHandlers r) \<or> a \<in> fst ` set (taskQue r)"

definition TimerEventHandler_delete :: "nat \<Rightarrow> 'c reactor \<Rightarrow> 'c reactor" where
  "TimerEventHandler_delete a r =
     (case objs r a of
        None \<Rightarrow> r
      | Some h \<Rightarrow> r\<lparr>objs := (objs r)(a := None), openFds := removeAll (hFd h) (openFds r),
                    interest := (interest r)(hFd h := None)\<rparr>)"

definition drop_ref :: "nat \<Rightarrow> 'c reactor \<Rightarrow> 'c reactor" where
  "drop_ref a r = (if referenced a r then r else TimerEventHandler_delete a r)"

section \<open>The demultiplexer\<close>

definition Reactor2Epoll :: "32 word \<Rightarrow> 32 word" where
  "Reactor2Epoll ev = (if ev = NONE_EVENT then TIMER_ERR_OK else if ev = READ_EVENT then 1 OR 2 else TIMER_ERR_DEAL_FAILED)"

definition Epoll2Reactor_timer :: "32 word \<Rightarrow> 32 word" where
  "Epoll2Reactor_timer ev = (if ev AND (1 OR 2 OR 0x2000) \<noteq> 0 then READ_EVENT else NONE_EVENT)"

text \<open>\<^verbatim>\<open>epoll_ctl\<close>: the error number, or the interest list changed.\<close>

definition epoll_ctl :: "timer_os \<Rightarrow> epoll_op \<Rightarrow> int \<Rightarrow> 32 word \<Rightarrow> 'c reactor \<Rightarrow> nat + 'c reactor" where
  "epoll_ctl os opr fd ev r =
     (if \<not> epollOpen r then Inl 9
      else case epoll_ctl_fault os opr fd of
          Some e \<Rightarrow> Inl e
        | None \<Rightarrow>
            (case opr of
               EPOLL_CTL_ADD \<Rightarrow> if interest r fd \<noteq> None then Inl 17 else Inr (r\<lparr>interest := (interest r)(fd \<mapsto> ev)\<rparr>)
             | EPOLL_CTL_DEL \<Rightarrow> if interest r fd = None then Inl 2 else Inr (r\<lparr>interest := (interest r)(fd := None)\<rparr>)
             | EPOLL_CTL_MOD \<Rightarrow> if interest r fd = None then Inl 2 else Inr (r\<lparr>interest := (interest r)(fd \<mapsto> ev)\<rparr>)))"

definition demux_Update :: "timer_os \<Rightarrow> epoll_op \<Rightarrow> nat \<Rightarrow> 'c reactor \<Rightarrow> (32 word \<times> 'c reactor) option" where
  "demux_Update os opr a r = do {
     h \<leftarrow> objs r a;
     Some (case epoll_ctl os opr (hFd h) (Reactor2Epoll (hEvents h)) r of
         Inl e \<Rightarrow> (TIMER_ERR_DEAL_FAILED,
                   if length (epollCtlErrQueue r) < QUEUE_MAX_SIZE
                   then r\<lparr>epollCtlErrQueue := epollCtlErrQueue r @ [(opr, e, hFd h)]\<rparr> else r)
       | Inr r' \<Rightarrow> (TIMER_ERR_OK, r'))
   }"

definition UpdateEventHandler :: "timer_os \<Rightarrow> nat \<Rightarrow> 'c reactor \<Rightarrow> (32 word \<times> 'c reactor) option" where
  "UpdateEventHandler os a r = do {
     h \<leftarrow> objs r a;
     case map_of (eventHandlers r) (hFd h) of
       None \<Rightarrow> demux_Update os EPOLL_CTL_ADD a (r\<lparr>eventHandlers := (hFd h, a) # eventHandlers r\<rparr>)
     | Some b \<Rightarrow>
         if hEvents h = NONE_EVENT
         then demux_Update os EPOLL_CTL_DEL a (r\<lparr>eventHandlers := filter (\<lambda>p. fst p \<noteq> hFd h) (eventHandlers r)\<rparr>)
         else if a \<noteq> b then Some (TIMER_ERR_DEAL_FAILED, r)
         else demux_Update os EPOLL_CTL_MOD a r
   }"

definition StartUp :: "timer_os \<Rightarrow> 'c reactor \<Rightarrow> 32 word \<times> 'c reactor" where
  "StartUp os r =
     (if \<not> epollOpen r then
        (if epoll_create_ok os then (TIMER_ERR_OK, r\<lparr>epollOpen := True\<rparr>) else (TIMER_ERR_BADF, r))
      else (TIMER_ERR_OK, r))"

section \<open>Handlers\<close>

definition set_events :: "timer_os \<Rightarrow> (32 word \<Rightarrow> 32 word) \<Rightarrow> nat \<Rightarrow> 'c reactor \<Rightarrow> 'c reactor option" where
  "set_events os f a r = do {
     h \<leftarrow> objs r a;
     (_, r') \<leftarrow> UpdateEventHandler os a (r\<lparr>objs := (objs r)(a \<mapsto> h\<lparr>hEvents := f (hEvents h)\<rparr>)\<rparr>);
     Some r'
   }"

definition EnableRead :: "timer_os \<Rightarrow> nat \<Rightarrow> 'c reactor \<Rightarrow> 'c reactor option" where
  "EnableRead os = set_events os (\<lambda>ev. ev OR READ_EVENT)"

definition DisableAll :: "timer_os \<Rightarrow> nat \<Rightarrow> 'c reactor \<Rightarrow> 'c reactor option" where
  "DisableAll os = set_events os (\<lambda>_. NONE_EVENT)"

definition Uninitialize :: "timer_os \<Rightarrow> nat \<Rightarrow> 'c reactor \<Rightarrow> 'c reactor option" where
  "Uninitialize os = DisableAll os"

text \<open>The setting \<^verbatim>\<open>Initialize\<close> passes to \<^verbatim>\<open>timerfd_settime\<close>; the products stay below $2^{32}$.\<close>

definition timer_setting :: "int \<times> int \<Rightarrow> 32 word \<Rightarrow> bool \<Rightarrow> itimerspec" where
  "timer_setting now ival once =
     (let sec = fst now + uint (ival div 1000);
          nsec = snd now + uint (ival mod 1000 * 1000000);
          value = (if nsec \<ge> 1000000000 then (sec + 1, nsec mod 1000000000) else (sec, nsec))
      in \<lparr>it_interval = (if once then (0, 0) else (uint (ival div 1000), uint (ival mod 1000 * 1000000))),
          it_value = value\<rparr>)"

definition Initialize :: "timer_os \<Rightarrow> nat \<Rightarrow> 'c reactor \<Rightarrow> (32 word \<times> 'c reactor) option" where
  "Initialize os a r = do {
     h \<leftarrow> objs r a;
     if hFd h = INVALID_TIMER_FD then Some (TIMER_ERR_INVALID_VALUE, r)
     else case monotonic_now os of
         None \<Rightarrow> Some (TIMER_ERR_DEAL_FAILED, r)
       | Some now \<Rightarrow>
           let newValue = timer_setting now (hInterval h) (hOnce h)
           in if \<not> timerfd_settime os (hFd h) newValue then Some (TIMER_ERR_DEAL_FAILED, r)
              else do {
                r' \<leftarrow> EnableRead os a (r\<lparr>objs := (objs r)(a \<mapsto> h\<lparr>initInfo := Some newValue\<rparr>)\<rparr>);
                Some (TIMER_ERR_OK, r')
              }
   }"

text \<open>
  What \<^verbatim>\<open>TimeOut\<close> reads from the descriptor, and what it calls: nothing when the timer has not expired
  (\<^verbatim>\<open>EAGAIN\<close>), otherwise the callback with the descriptor.
\<close>

datatype timer_read = Expired | Failed nat

definition EAGAIN :: nat where "EAGAIN = 11"

definition TimeOut :: "timer_read \<Rightarrow> 'c timer_handler \<Rightarrow> ('c \<times> int) option" where
  "TimeOut rd h =
     (if hFd h = INVALID_TIMER_FD then None
      else if rd = Failed EAGAIN then None
      else Some (hCallback h, hFd h))"

definition HandleEvents_timer :: "timer_read \<Rightarrow> 32 word \<Rightarrow> 'c timer_handler \<Rightarrow> ('c \<times> int) option" where
  "HandleEvents_timer rd ev h =
     (if ev AND READ_EVENT \<noteq> 0 \<and> initInfo h \<noteq> None then TimeOut rd h else None)"

section \<open>The reactor\<close>

definition SetUp :: "timer_os \<Rightarrow> 'c reactor \<Rightarrow> 32 word \<times> 'c reactor" where
  "SetUp os r =
     (case StartUp os r of (ret, r1) \<Rightarrow> if ret \<noteq> 0 then (ret, r1) else (TIMER_ERR_OK, r1\<lparr>loopReady := True\<rparr>))"

definition SwitchOn :: "'c reactor \<Rightarrow> 'c reactor" where
  "SwitchOn r = r\<lparr>switchedOn := True\<rparr>"

definition SwitchOff :: "'c reactor \<Rightarrow> 'c reactor" where
  "SwitchOff r = r\<lparr>switchedOn := False\<rparr>"

fun uninitialize_all :: "timer_os \<Rightarrow> nat list \<Rightarrow> 'c reactor \<Rightarrow> 'c reactor option" where
  "uninitialize_all os [] r = Some r"
| "uninitialize_all os (a # as) r = do { r1 \<leftarrow> Uninitialize os a r; uninitialize_all os as r1 }"

definition CleanUp :: "timer_os \<Rightarrow> 'c reactor \<Rightarrow> 'c reactor option" where
  "CleanUp os r = uninitialize_all os (timerEventHandlers r) r"

text \<open>The handler of a failed initialization is destroyed with the local \<^verbatim>\<open>shared_ptr\<close>.\<close>

definition ScheduleTimer ::
  "timer_os \<Rightarrow> 'c \<Rightarrow> 32 word \<Rightarrow> bool \<Rightarrow> 'c reactor \<Rightarrow> ((32 word \<times> int option) \<times> 'c reactor) option" where
  "ScheduleTimer os cb ival once r = do {
     let fd = timerfd_create os (openFds r);
     let a = nextObj r;
     let h = \<lparr>hFd = fd, hEvents = NONE_EVENT, hOnce = once, hInterval = ival, hCallback = cb, initInfo = None\<rparr>;
     let r1 = r\<lparr>objs := (objs r)(a \<mapsto> h), nextObj := Suc a,
                openFds := (if fd = INVALID_TIMER_FD then openFds r else fd # openFds r)\<rparr>;
     (ret, r2) \<leftarrow> Initialize os a r1;
     if ret \<noteq> TIMER_ERR_OK then Some ((ret, None), drop_ref a r2)
     else Some ((TIMER_ERR_OK, Some fd), r2\<lparr>timerEventHandlers := timerEventHandlers r2 @ [a]\<rparr>)
   }"

fun find_handle :: "'c reactor \<Rightarrow> int \<Rightarrow> nat list \<Rightarrow> nat option option" where
  "find_handle r fd [] = Some None"
| "find_handle r fd (a # as) =
     (case objs r a of None \<Rightarrow> None | Some h \<Rightarrow> if hFd h = fd then Some (Some a) else find_handle r fd as)"

definition CancelTimer :: "timer_os \<Rightarrow> int \<Rightarrow> 'c reactor \<Rightarrow> 'c reactor option" where
  "CancelTimer os timerFd r = do {
     found \<leftarrow> find_handle r timerFd (timerEventHandlers r);
     case found of
       None \<Rightarrow> Some r
     | Some a \<Rightarrow> do {
         r1 \<leftarrow> Uninitialize os a r;
         Some (drop_ref a (r1\<lparr>timerEventHandlers := remove1 a (timerEventHandlers r1)\<rparr>))
       }
   }"

text \<open>
  \<^verbatim>\<open>Polling\<close> in its three parts: the handlers of the reported events are collected under the mutex, each is then
  called without it, and the queue of references is dropped at the end. \<^verbatim>\<open>epoll_wait\<close> reports events, a time-out or
  an error.
\<close>

datatype epoll_wait_result = Ready "(int \<times> 32 word) list" | Wait_error nat

fun collect_tasks :: "(int \<times> 32 word) list \<Rightarrow> 'c reactor \<Rightarrow> 'c reactor" where
  "collect_tasks [] r = r"
| "collect_tasks ((fd, ev) # evs) r =
     collect_tasks evs
       (case map_of (eventHandlers r) fd of
          Some a \<Rightarrow> r\<lparr>taskQue := taskQue r @ [(a, ev)]\<rparr>
        | None \<Rightarrow> r\<lparr>epollCtlErrQueue := []\<rparr>)"

definition EPOLL_CRITICAL_ERROR :: int where "EPOLL_CRITICAL_ERROR = -10"

definition Polling_collect :: "epoll_wait_result \<Rightarrow> 'c reactor \<Rightarrow> int \<times> 'c reactor" where
  "Polling_collect res r =
     (case res of
        Wait_error e \<Rightarrow> (if e = 9 \<or> e = 22 then EPOLL_CRITICAL_ERROR else -1, r)
      | Ready evs \<Rightarrow> (int (length evs), collect_tasks evs r))"

definition Polling_task :: "nat \<Rightarrow> timer_read \<Rightarrow> 'c reactor \<Rightarrow> ('c \<times> int) option option" where
  "Polling_task idx rd r =
     (if length (taskQue r) \<le> idx then None
      else do { h \<leftarrow> objs r (fst (taskQue r ! idx)); Some (HandleEvents_timer rd (snd (taskQue r ! idx)) h) })"

fun drop_refs :: "nat list \<Rightarrow> 'c reactor \<Rightarrow> 'c reactor" where
  "drop_refs [] r = r"
| "drop_refs (a # as) r = drop_refs as (drop_ref a r)"

definition Polling_done :: "int \<Rightarrow> 'c reactor \<Rightarrow> 'c reactor" where
  "Polling_done nfds r =
     drop_refs (map fst (taskQue r))
       (r\<lparr>taskQue := [], maxEvents := (if nfds = maxEvents r then 2 * maxEvents r else maxEvents r)\<rparr>)"

section \<open>The invariant\<close>

text \<open>
  No dangling reference and no unreferenced handler, apart from those in \<open>X\<close>, which local variables hold; every
  handler owns an open descriptor of its own; the map of the demultiplexer and the interest list agree with them.
\<close>

definition rinv :: "nat set \<Rightarrow> 'c reactor \<Rightarrow> bool" where
  "rinv X r \<longleftrightarrow>
     (\<forall>a h. objs r a = Some h \<longrightarrow> a < nextObj r \<and> (referenced a r \<or> a \<in> X) \<and> 0 \<le> hFd h \<and> hFd h \<in> set (openFds r)) \<and>
     (\<forall>a. referenced a r \<longrightarrow> (\<exists>h. objs r a = Some h)) \<and>
     (\<forall>a b h k. objs r a = Some h \<longrightarrow> objs r b = Some k \<longrightarrow> hFd h = hFd k \<longrightarrow> a = b) \<and>
     (\<forall>fd a. (fd, a) \<in> set (eventHandlers r) \<longrightarrow> (\<exists>h. objs r a = Some h \<and> hFd h = fd)) \<and>
     distinct (map fst (eventHandlers r)) \<and> distinct (timerEventHandlers r) \<and>
     (\<forall>fd. interest r fd \<noteq> None \<longrightarrow> epollOpen r \<and> fd \<in> fst ` set (eventHandlers r))"

definition reactor_inv :: "'c reactor \<Rightarrow> bool" where
  "reactor_inv r \<longleftrightarrow> rinv {} r"

lemma rinvD:
  assumes "rinv X r"
  shows rinv_obj: "objs r a = Some h \<Longrightarrow> a < nextObj r \<and> (referenced a r \<or> a \<in> X) \<and> 0 \<le> hFd h \<and> hFd h \<in> set (openFds r)"
    and rinv_alive: "referenced a r \<Longrightarrow> \<exists>h. objs r a = Some h"
    and rinv_unique: "objs r a = Some h \<Longrightarrow> objs r b = Some k \<Longrightarrow> hFd h = hFd k \<Longrightarrow> a = b"
    and rinv_entry: "(fd, a) \<in> set (eventHandlers r) \<Longrightarrow> \<exists>h. objs r a = Some h \<and> hFd h = fd"
    and rinv_keys: "distinct (map fst (eventHandlers r))"
    and rinv_timers: "distinct (timerEventHandlers r)"
    and rinv_interest: "interest r fd \<noteq> None \<Longrightarrow> epollOpen r \<and> fd \<in> fst ` set (eventHandlers r)"
  using assms unfolding rinv_def by blast+

lemma rinvI:
  assumes "\<And>a h. objs r a = Some h \<Longrightarrow> a < nextObj r \<and> (referenced a r \<or> a \<in> X) \<and> 0 \<le> hFd h \<and> hFd h \<in> set (openFds r)"
    and "\<And>a. referenced a r \<Longrightarrow> \<exists>h. objs r a = Some h"
    and "\<And>a b h k. objs r a = Some h \<Longrightarrow> objs r b = Some k \<Longrightarrow> hFd h = hFd k \<Longrightarrow> a = b"
    and "\<And>fd a. (fd, a) \<in> set (eventHandlers r) \<Longrightarrow> \<exists>h. objs r a = Some h \<and> hFd h = fd"
    and "distinct (map fst (eventHandlers r))" "distinct (timerEventHandlers r)"
    and "\<And>fd. interest r fd \<noteq> None \<Longrightarrow> epollOpen r \<and> fd \<in> fst ` set (eventHandlers r)"
  shows "rinv X r"
  unfolding rinv_def by (intro conjI, (use assms in blast)+)

lemma rinv_referenced: "rinv (insert a X) r \<Longrightarrow> referenced a r \<Longrightarrow> rinv X r"
  unfolding rinv_def by blast

lemma rinv_dead: "rinv (insert a X) r \<Longrightarrow> objs r a = None \<Longrightarrow> rinv X r"
  unfolding rinv_def
  apply (elim conjE, intro conjI)
        apply (metis insertE option.distinct(1))
       apply assumption+
  done

lemma rinv_mono: "rinv X r \<Longrightarrow> X \<subseteq> Y \<Longrightarrow> rinv Y r"
  unfolding rinv_def by blast

lemma drop_ref_inv:
  assumes "rinv (insert a X) r"
  shows "rinv X (drop_ref a r)"
proof (cases "referenced a r \<or> objs r a = None")
  case True
  then show ?thesis
    using rinv_referenced [OF assms] rinv_dead [OF assms] by (auto simp: drop_ref_def TimerEventHandler_delete_def)
next
  case False
  then obtain h where h: "objs r a = Some h" "\<not> referenced a r" by auto
  note inv = rinvD [OF assms]
  let ?r = "TimerEventHandler_delete a r"
  have ref: "referenced b ?r = referenced b r" for b
    using h(1) by (simp add: referenced_def TimerEventHandler_delete_def)
  have obj: "objs ?r b = Some k \<longleftrightarrow> b \<noteq> a \<and> objs r b = Some k" for b k
    using h(1) by (auto simp: TimerEventHandler_delete_def)
  have "rinv X ?r"
  proof (rule rinvI)
    fix b k assume "objs ?r b = Some k"
    then have "b \<noteq> a" "objs r b = Some k" by (auto simp: obj)
    moreover have "hFd k \<noteq> hFd h"
      using inv(3) [OF h(1) calculation(2)] \<open>b \<noteq> a\<close> by metis
    ultimately show "b < nextObj ?r \<and> (referenced b ?r \<or> b \<in> X) \<and> 0 \<le> hFd k \<and> hFd k \<in> set (openFds ?r)"
      unfolding ref using inv(1) [of b k] h(1) by (auto simp: TimerEventHandler_delete_def)
  next
    fix b assume "referenced b ?r"
    then show "\<exists>k. objs ?r b = Some k"
      using inv(2) h(2) by (metis obj ref)
  next
    fix fd b assume "(fd, b) \<in> set (eventHandlers ?r)"
    then have e: "(fd, b) \<in> set (eventHandlers r)" using h(1) by (simp add: TimerEventHandler_delete_def)
    then have "b \<noteq> a" using h(2) by (force simp: referenced_def)
    then show "\<exists>k. objs ?r b = Some k \<and> hFd k = fd"
      using inv(4) [OF e] by (simp add: obj)
  next
    fix fd assume "interest ?r fd \<noteq> None"
    then have "interest r fd \<noteq> None" using h(1) by (auto simp: TimerEventHandler_delete_def split: if_splits)
    then show "epollOpen ?r \<and> fd \<in> fst ` set (eventHandlers ?r)"
      using inv(7) h(1) by (simp add: TimerEventHandler_delete_def)
  next
    fix b c k l assume "objs ?r b = Some k" "objs ?r c = Some l" "hFd k = hFd l"
    then show "b = c" using inv(3) by (simp add: obj)
  qed (use inv(5,6) h(1) in \<open>simp_all add: TimerEventHandler_delete_def\<close>)
  with h(2) show ?thesis by (simp add: drop_ref_def)
qed

lemma drop_refs_inv: "rinv (set as) r \<Longrightarrow> rinv {} (drop_refs as r)"
proof (induction as arbitrary: r)
  case (Cons a as)
  then have "rinv (insert a (set as)) r" by simp
  from drop_ref_inv [OF this] Cons.IH show ?case by simp
qed simp

section \<open>Every operation keeps the invariant\<close>

text \<open>The fields the demultiplexer leaves alone.\<close>

definition same_handlers :: "'c reactor \<Rightarrow> 'c reactor \<Rightarrow> bool" where
  "same_handlers r r' \<longleftrightarrow> objs r' = objs r \<and> timerEventHandlers r' = timerEventHandlers r \<and> taskQue r' = taskQue r \<and>
     nextObj r' = nextObj r \<and> openFds r' = openFds r \<and> epollOpen r' = epollOpen r"

lemma timer_os_okD:
  assumes "timer_os_ok os"
  shows os_create: "timerfd_create os fds = INVALID_TIMER_FD \<or> 0 \<le> timerfd_create os fds \<and> timerfd_create os fds \<notin> set fds"
    and os_now: "monotonic_now os = Some now \<Longrightarrow> 0 \<le> snd now \<and> snd now < 1000000000"
    and os_del: "epoll_ctl_fault os EPOLL_CTL_DEL fd = None"
  using assms unfolding timer_os_ok_def by blast+

text \<open>What a call of \<^verbatim>\<open>epoll_ctl\<close> through \<^verbatim>\<open>Update\<close> may change.\<close>

lemma demux_Update_result:
  assumes "objs r a = Some h" "timer_os_ok os"
  shows "\<exists>ret r'. demux_Update os opr a r = Some (ret, r') \<and> same_handlers r r' \<and> eventHandlers r' = eventHandlers r \<and>
    (\<forall>fd. interest r' fd \<noteq> None \<longrightarrow> interest r fd \<noteq> None \<or> opr \<noteq> EPOLL_CTL_DEL \<and> fd = hFd h \<and> epollOpen r) \<and>
    (opr = EPOLL_CTL_DEL \<longrightarrow> epollOpen r \<longrightarrow> interest r' (hFd h) = None)"
  using assms(1) os_del [OF assms(2), of "hFd h"]
  by (cases opr) (auto simp: demux_Update_def epoll_ctl_def same_handlers_def split: option.splits if_splits)

lemma rinv_handlers_changed:
  assumes inv: "rinv X r" and same: "same_handlers r r'" and h: "objs r a = Some h"
    and entries: "set (eventHandlers r') \<subseteq> insert (hFd h, a) (set (eventHandlers r))"
    "set (eventHandlers r) \<subseteq> insert (hFd h, a) (set (eventHandlers r'))"
    and keys: "distinct (map fst (eventHandlers r'))"
    and int: "\<And>fd. interest r' fd \<noteq> None \<Longrightarrow> epollOpen r' \<and> fd \<in> fst ` set (eventHandlers r')"
  shows "rinv (insert a X) r'"
proof (rule rinvI)
  note eqs = same [unfolded same_handlers_def]
  fix b k assume "objs r' b = Some k"
  then have "objs r b = Some k" by (simp add: eqs)
  from rinvD(1) [OF inv this] entries(2)
  show "b < nextObj r' \<and> (referenced b r' \<or> b \<in> insert a X) \<and> 0 \<le> hFd k \<and> hFd k \<in> set (openFds r')"
    by (auto simp: eqs referenced_def image_iff)
next
  note eqs = same [unfolded same_handlers_def]
  fix b assume "referenced b r'"
  then have "referenced b r \<or> b = a" using entries(1) by (auto simp: eqs referenced_def)
  then show "\<exists>k. objs r' b = Some k" using rinvD(2) [OF inv] h by (auto simp: eqs)
next
  note eqs = same [unfolded same_handlers_def]
  fix fd b assume "(fd, b) \<in> set (eventHandlers r')"
  then show "\<exists>k. objs r' b = Some k \<and> hFd k = fd" using rinvD(4) [OF inv, of fd b] entries(1) h by (auto simp: eqs)
next
  show "distinct (timerEventHandlers r')" using rinvD(6) [OF inv] same by (simp add: same_handlers_def)
  show "\<And>b c k l. objs r' b = Some k \<Longrightarrow> objs r' c = Some l \<Longrightarrow> hFd k = hFd l \<Longrightarrow> b = c"
    using rinvD(3) [OF inv] same by (simp add: same_handlers_def)
qed (use keys int in auto)

lemma rinv_own_entry:
  assumes "rinv X r" "objs r a = Some h" "map_of (eventHandlers r) (hFd h) = Some b"
  shows "b = a"
  using rinvD(3,4) [OF assms(1)] assms(2) map_of_SomeD [OF assms(3)] by metis

lemma UpdateEventHandler_inv:
  assumes inv: "rinv X r" and h: "objs r a = Some h" and os: "timer_os_ok os"
  shows "\<exists>ret r'. UpdateEventHandler os a r = Some (ret, r') \<and> same_handlers r r' \<and> rinv (insert a X) r' \<and>
    (map_of (eventHandlers r) (hFd h) = None \<or> hEvents h \<noteq> NONE_EVENT \<longrightarrow> (hFd h, a) \<in> set (eventHandlers r')) \<and>
    (map_of (eventHandlers r) (hFd h) \<noteq> None \<and> hEvents h = NONE_EVENT \<longrightarrow> a \<notin> snd ` set (eventHandlers r'))"
proof (cases "map_of (eventHandlers r) (hFd h)")
  case None
  let ?r = "r\<lparr>eventHandlers := (hFd h, a) # eventHandlers r\<rparr>"
  have new: "hFd h \<notin> fst ` set (eventHandlers r)" using None by (simp add: map_of_eq_None_iff)
  obtain ret r' where r': "demux_Update os EPOLL_CTL_ADD a ?r = Some (ret, r')" "same_handlers ?r r'"
    "eventHandlers r' = (hFd h, a) # eventHandlers r"
    "\<And>fd. interest r' fd \<noteq> None \<Longrightarrow> interest r fd \<noteq> None \<or> fd = hFd h \<and> epollOpen r"
    using demux_Update_result [of ?r a h os EPOLL_CTL_ADD] h os by auto
  have "rinv (insert a X) r'"
  proof (rule rinv_handlers_changed [OF inv _ h])
    show "same_handlers r r'" using r'(2) by (simp add: same_handlers_def)
    show "epollOpen r' \<and> fd \<in> fst ` set (eventHandlers r')" if "interest r' fd \<noteq> None" for fd
      using r'(4) [OF that] rinvD(7) [OF inv, of fd] r'(2,3) by (auto simp: same_handlers_def)
  qed (use r'(3) new rinvD(5) [OF inv] in auto)
  then show ?thesis using None h r' by (simp add: UpdateEventHandler_def same_handlers_def)
next
  case (Some b)
  then have b: "b = a" "(hFd h, a) \<in> set (eventHandlers r)"
    using rinv_own_entry [OF inv h] map_of_SomeD by auto
  note distinct = rinvD(5) [OF inv]
  show ?thesis
  proof (cases "hEvents h = NONE_EVENT")
    case True
    let ?es = "filter (\<lambda>p. fst p \<noteq> hFd h) (eventHandlers r)"
    let ?r = "r\<lparr>eventHandlers := ?es\<rparr>"
    obtain ret r' where r': "demux_Update os EPOLL_CTL_DEL a ?r = Some (ret, r')" "same_handlers ?r r'"
      "eventHandlers r' = ?es" "\<And>fd. interest r' fd \<noteq> None \<Longrightarrow> interest r fd \<noteq> None"
      "epollOpen r \<Longrightarrow> interest r' (hFd h) = None"
      using demux_Update_result [of ?r a h os EPOLL_CTL_DEL] h os by auto
    have gone: "a \<notin> snd ` set ?es"
      using rinvD(4) [OF inv] h by fastforce
    have "rinv (insert a X) r'"
    proof (rule rinv_handlers_changed [OF inv _ h])
      show "same_handlers r r'" using r'(2) by (simp add: same_handlers_def)
      show "set (eventHandlers r) \<subseteq> insert (hFd h, a) (set (eventHandlers r'))"
        using b(2) distinct eq_key_imp_eq_value by (fastforce simp: r'(3))
      show "epollOpen r' \<and> fd \<in> fst ` set (eventHandlers r')" if "interest r' fd \<noteq> None" for fd
        using r'(4) [OF that] rinvD(7) [OF inv, of fd] r'(2,3,5) that by (cases "fd = hFd h") (auto simp: same_handlers_def)
    qed (auto simp: r'(3) intro: distinct_map_filter [OF distinct])
    then show ?thesis using Some True h r' gone by (simp add: UpdateEventHandler_def same_handlers_def)
  next
    case False
    obtain ret r' where r': "demux_Update os EPOLL_CTL_MOD a r = Some (ret, r')" "same_handlers r r'"
      "eventHandlers r' = eventHandlers r"
      "\<And>fd. interest r' fd \<noteq> None \<Longrightarrow> interest r fd \<noteq> None \<or> fd = hFd h \<and> epollOpen r"
      using demux_Update_result [of r a h os EPOLL_CTL_MOD] h os by auto
    have "rinv (insert a X) r'"
    proof (rule rinv_handlers_changed [OF inv r'(2) h])
      show "epollOpen r' \<and> fd \<in> fst ` set (eventHandlers r')" if "interest r' fd \<noteq> None" for fd
        using r'(4) [OF that] rinvD(7) [OF inv, of fd] r'(2,3) b(2) by (force simp: same_handlers_def)
    qed (use r'(3) distinct in auto)
    then show ?thesis using Some False h r' b by (simp add: UpdateEventHandler_def)
  qed
qed

lemma rinv_put:
  assumes inv: "rinv X r" and h: "objs r a = Some h" "hFd h' = hFd h"
  shows "rinv X (r\<lparr>objs := (objs r)(a \<mapsto> h')\<rparr>)" (is "rinv X ?r")
proof -
  have old: "\<exists>l. objs r b = Some l \<and> hFd l = hFd k" if "objs ?r b = Some k" for b k
    using that h by (cases "b = a") auto
  have new: "\<exists>l. objs ?r b = Some l \<and> hFd l = hFd k" if "objs r b = Some k" for b k
    using that h by (cases "b = a") auto
  have ref: "referenced b ?r = referenced b r" for b by (simp add: referenced_def)
  show ?thesis
  proof (rule rinvI)
    fix b k assume "objs ?r b = Some k"
    from old [OF this] rinvD(1) [OF inv]
    show "b < nextObj ?r \<and> (referenced b ?r \<or> b \<in> X) \<and> 0 \<le> hFd k \<and> hFd k \<in> set (openFds ?r)"
      unfolding ref by (auto, metis+)
  next
    fix b assume "referenced b ?r"
    then show "\<exists>k. objs ?r b = Some k" unfolding ref using rinvD(2) [OF inv] new by blast
  next
    fix b c k l assume "objs ?r b = Some k" "objs ?r c = Some l" "hFd k = hFd l"
    then show "b = c" using old rinvD(3) [OF inv] by metis
  next
    fix fd b assume "(fd, b) \<in> set (eventHandlers ?r)"
    then have "(fd, b) \<in> set (eventHandlers r)" by simp
    from rinvD(4) [OF inv this] new show "\<exists>k. objs ?r b = Some k \<and> hFd k = fd" by blast
  qed (use rinvD(5-7) [OF inv] in auto)
qed

lemma set_events_inv:
  assumes inv: "rinv X r" and h: "objs r a = Some h" and os: "timer_os_ok os"
  shows "\<exists>r'. set_events os f a r = Some r' \<and> rinv (insert a X) r' \<and>
    same_handlers (r\<lparr>objs := (objs r)(a \<mapsto> h\<lparr>hEvents := f (hEvents h)\<rparr>)\<rparr>) r' \<and>
    (map_of (eventHandlers r) (hFd h) = None \<or> f (hEvents h) \<noteq> NONE_EVENT \<longrightarrow> (hFd h, a) \<in> set (eventHandlers r')) \<and>
    (map_of (eventHandlers r) (hFd h) \<noteq> None \<and> f (hEvents h) = NONE_EVENT \<longrightarrow> a \<notin> snd ` set (eventHandlers r'))"
proof -
  let ?h = "h\<lparr>hEvents := f (hEvents h)\<rparr>"
  let ?r = "r\<lparr>objs := (objs r)(a \<mapsto> ?h)\<rparr>"
  have "rinv X ?r" using rinv_put [OF inv h] by simp
  from UpdateEventHandler_inv [OF this _ os, of a ?h] obtain ret r' where
    "UpdateEventHandler os a ?r = Some (ret, r')" "same_handlers ?r r'" "rinv (insert a X) r'"
    "map_of (eventHandlers r) (hFd h) = None \<or> f (hEvents h) \<noteq> NONE_EVENT \<longrightarrow> (hFd h, a) \<in> set (eventHandlers r')"
    "map_of (eventHandlers r) (hFd h) \<noteq> None \<and> f (hEvents h) = NONE_EVENT \<longrightarrow> a \<notin> snd ` set (eventHandlers r')"
    by auto
  then show ?thesis using h by (simp add: set_events_def)
qed

text \<open>The timers of the reactor by descriptor, with their interval and whether they are one-shot.\<close>

definition scheduled :: "'c reactor \<Rightarrow> int \<Rightarrow> (32 word \<times> bool) option" where
  "scheduled r = map_of (map (\<lambda>a. let h = the (objs r a) in (hFd h, (hInterval h, hOnce h))) (timerEventHandlers r))"

lemma scheduled_None_iff: "scheduled r fd = None \<longleftrightarrow> (\<forall>a\<in>set (timerEventHandlers r). hFd (the (objs r a)) \<noteq> fd)"
  by (force simp: scheduled_def map_of_eq_None_iff Let_def)

lemma scheduled_cong:
  assumes "timerEventHandlers r' = timerEventHandlers r"
    and "\<And>a. a \<in> set (timerEventHandlers r) \<Longrightarrow> hFd (the (objs r' a)) = hFd (the (objs r a)) \<and>
      hInterval (the (objs r' a)) = hInterval (the (objs r a)) \<and> hOnce (the (objs r' a)) = hOnce (the (objs r a))"
  shows "scheduled r' = scheduled r"
proof -
  have "map (\<lambda>a. let h = the (objs r' a) in (hFd h, (hInterval h, hOnce h))) (timerEventHandlers r) =
        map (\<lambda>a. let h = the (objs r a) in (hFd h, (hInterval h, hOnce h))) (timerEventHandlers r)"
    using assms(2) by (auto simp: Let_def)
  then show ?thesis unfolding scheduled_def assms(1) by (rule arg_cong)
qed

lemma scheduled_same_events:
  assumes "same_handlers (r\<lparr>objs := (objs r)(a \<mapsto> h\<lparr>hEvents := ev\<rparr>)\<rparr>) r'" "objs r a = Some h"
  shows "scheduled r' = scheduled r"
  using assms by (intro scheduled_cong) (auto simp: same_handlers_def)

lemma Uninitialize_inv:
  assumes inv: "rinv X r" and a: "a \<in> set (timerEventHandlers r)" and os: "timer_os_ok os"
  shows "\<exists>r' h. objs r a = Some h \<and> Uninitialize os a r = Some r' \<and> rinv X r' \<and> scheduled r' = scheduled r \<and>
    same_handlers (r\<lparr>objs := (objs r)(a \<mapsto> h\<lparr>hEvents := NONE_EVENT\<rparr>)\<rparr>) r' \<and>
    (map_of (eventHandlers r) (hFd h) \<noteq> None \<longrightarrow> a \<notin> snd ` set (eventHandlers r'))"
proof -
  have "referenced a r" using a by (simp add: referenced_def)
  then obtain h where h: "objs r a = Some h" using rinvD(2) [OF inv] by blast
  from set_events_inv [OF inv h os, of "\<lambda>_. NONE_EVENT"] obtain r' where r': "Uninitialize os a r = Some r'"
    "rinv (insert a X) r'" "same_handlers (r\<lparr>objs := (objs r)(a \<mapsto> h\<lparr>hEvents := NONE_EVENT\<rparr>)\<rparr>) r'"
    "map_of (eventHandlers r) (hFd h) \<noteq> None \<longrightarrow> a \<notin> snd ` set (eventHandlers r')"
    by (auto simp: Uninitialize_def DisableAll_def)
  have "referenced a r'" using a r'(3) by (simp add: referenced_def same_handlers_def)
  then show ?thesis using h r' rinv_referenced scheduled_same_events [OF r'(3) h] by blast
qed

lemma CleanUp_inv:
  assumes "rinv X r" "timer_os_ok os"
  shows "\<exists>r'. CleanUp os r = Some r' \<and> rinv X r' \<and> scheduled r' = scheduled r"
proof -
  have "\<exists>r'. uninitialize_all os as r = Some r' \<and> rinv X r' \<and> scheduled r' = scheduled r \<and>
      timerEventHandlers r' = timerEventHandlers r"
    if "set as \<subseteq> set (timerEventHandlers r)" "rinv X r" for as r
    using that
  proof (induction as arbitrary: r)
    case (Cons a as)
    from Uninitialize_inv [OF Cons.prems(2) _ assms(2), of a] Cons.prems(1) obtain r1 where
      r1: "Uninitialize os a r = Some r1" "rinv X r1" "scheduled r1 = scheduled r"
        "timerEventHandlers r1 = timerEventHandlers r"
      by (auto simp: same_handlers_def)
    then show ?case using Cons.IH [of r1] Cons.prems(1) by auto
  qed simp
  from this [of "timerEventHandlers r" r] assms(1) show ?thesis by (auto simp: CleanUp_def)
qed

lemma same_handlers_fields:
  assumes "same_handlers r r'"
  shows "objs r' = objs r" "timerEventHandlers r' = timerEventHandlers r" "taskQue r' = taskQue r" "nextObj r' = nextObj r"
    "openFds r' = openFds r" "epollOpen r' = epollOpen r"
  using assms by (simp_all add: same_handlers_def)

text \<open>A handler created for a new descriptor is held by a local \<^verbatim>\<open>shared_ptr\<close>.\<close>

lemma rinv_new:
  assumes inv: "rinv {} r" and fd: "0 \<le> hFd h" "hFd h \<notin> set (openFds r)"
  shows "rinv {nextObj r} (r\<lparr>objs := (objs r)(nextObj r \<mapsto> h), nextObj := Suc (nextObj r), openFds := hFd h # openFds r\<rparr>)"
    (is "rinv _ ?r")
proof (rule rinvI)
  have fresh: "objs r (nextObj r) = None" using rinvD(1) [OF inv, of "nextObj r"] by (cases "objs r (nextObj r)") auto
  have ref: "referenced b ?r = referenced b r" for b by (simp add: referenced_def)
  have alive: "b \<noteq> nextObj r" if "referenced b r" for b using rinvD(2) [OF inv that] fresh by auto
  fix b k assume b: "objs ?r b = Some k"
  show "b < nextObj ?r \<and> (referenced b ?r \<or> b \<in> {nextObj r}) \<and> 0 \<le> hFd k \<and> hFd k \<in> set (openFds ?r)"
    unfolding ref using b rinvD(1) [OF inv, of b k] fd by (auto split: if_splits)
next
  have ref: "referenced b ?r = referenced b r" for b by (simp add: referenced_def)
  fix b assume "referenced b ?r"
  then show "\<exists>k. objs ?r b = Some k" unfolding ref using rinvD(2) [OF inv, of b] by auto
next
  fix b c k l assume "objs ?r b = Some k" "objs ?r c = Some l" "hFd k = hFd l"
  then show "b = c" using rinvD(1,3) [OF inv] fd by (fastforce split: if_splits)
next
  have fresh: "objs r (nextObj r) = None" using rinvD(1) [OF inv, of "nextObj r"] by (cases "objs r (nextObj r)") auto
  fix f b assume "(f, b) \<in> set (eventHandlers ?r)"
  then show "\<exists>k. objs ?r b = Some k \<and> hFd k = f" using rinvD(4) [OF inv, of f b] fresh by auto
qed (use rinvD(5-7) [OF inv] in auto)

lemma scheduled_snoc:
  assumes "\<And>a h. a \<in> set as \<Longrightarrow> objs r a = Some h \<Longrightarrow> hFd h \<noteq> fd" "\<And>a. a \<in> set as \<Longrightarrow> objs r a \<noteq> None"
    and "objs r b = Some k" "hFd k = fd"
  shows "map_of (map (\<lambda>a. let h = the (objs r a) in (hFd h, (hInterval h, hOnce h))) (as @ [b])) =
    (map_of (map (\<lambda>a. let h = the (objs r a) in (hFd h, (hInterval h, hOnce h))) as))(fd \<mapsto> (hInterval k, hOnce k))"
  using assms by (induction as) (force simp: Let_def)+

lemma Initialize_inv:
  assumes inv: "rinv X r" and h: "objs r a = Some h" and os: "timer_os_ok os"
  shows "\<exists>ret r'. Initialize os a r = Some (ret, r') \<and> rinv (insert a X) r' \<and>
    (ret \<noteq> TIMER_ERR_OK \<longrightarrow> r' = r) \<and>
    (ret = TIMER_ERR_OK \<longrightarrow>
       (hFd h, a) \<in> set (eventHandlers r') \<and>
       (\<exists>now. monotonic_now os = Some now \<and> same_handlers
          (r\<lparr>objs := (objs r)(a \<mapsto> h\<lparr>initInfo := Some (timer_setting now (hInterval h) (hOnce h)),
                                   hEvents := hEvents h OR READ_EVENT\<rparr>)\<rparr>) r'))"
proof -
  have keep: "rinv (insert a X) r" using inv by (rule rinv_mono) blast
  consider "hFd h = INVALID_TIMER_FD" | "hFd h \<noteq> INVALID_TIMER_FD" "monotonic_now os = None"
    | now where "hFd h \<noteq> INVALID_TIMER_FD" "monotonic_now os = Some now"
      "\<not> timerfd_settime os (hFd h) (timer_setting now (hInterval h) (hOnce h))"
    | now where "hFd h \<noteq> INVALID_TIMER_FD" "monotonic_now os = Some now"
      "timerfd_settime os (hFd h) (timer_setting now (hInterval h) (hOnce h))"
    by (cases "monotonic_now os") auto
  then show ?thesis
  proof cases
    case (4 now)
    let ?h = "h\<lparr>initInfo := Some (timer_setting now (hInterval h) (hOnce h))\<rparr>"
    let ?r = "r\<lparr>objs := (objs r)(a \<mapsto> ?h)\<rparr>"
    have "rinv X ?r" using rinv_put [OF inv h] by simp
    moreover have "hEvents h OR READ_EVENT \<noteq> NONE_EVENT"
      by (simp add: READ_EVENT_def NONE_EVENT_def or_eq_0_iff)
    ultimately obtain r' where "EnableRead os a ?r = Some r'" "rinv (insert a X) r'"
      "same_handlers (?r\<lparr>objs := (objs ?r)(a \<mapsto> ?h\<lparr>hEvents := hEvents h OR READ_EVENT\<rparr>)\<rparr>) r'"
      "(hFd h, a) \<in> set (eventHandlers r')"
      using set_events_inv [of X ?r a ?h os "\<lambda>ev. ev OR READ_EVENT"] os by (auto simp: EnableRead_def)
    then show ?thesis using 4 h by (simp add: Initialize_def Let_def)
  qed (use h keep in \<open>simp_all add: Initialize_def Let_def TIMER_ERR_OK_def TIMER_ERR_DEAL_FAILED_def
        TIMER_ERR_INVALID_VALUE_def COMMON_TIMER_ERR_OFFSET_def\<close>)
qed

lemma rinv_more_refs:
  assumes inv: "rinv X r"
    and eqs: "objs r' = objs r" "nextObj r' = nextObj r" "openFds r' = openFds r" "eventHandlers r' = eventHandlers r"
    "epollOpen r' = epollOpen r" "interest r' = interest r" and timers: "distinct (timerEventHandlers r')"
    and refs: "\<And>b. referenced b r \<Longrightarrow> referenced b r'" "\<And>b. referenced b r' \<Longrightarrow> referenced b r \<or> objs r b \<noteq> None"
  shows "rinv X r'"
proof (rule rinvI)
  fix b k assume "objs r' b = Some k"
  then show "b < nextObj r' \<and> (referenced b r' \<or> b \<in> X) \<and> 0 \<le> hFd k \<and> hFd k \<in> set (openFds r')"
    unfolding eqs using rinvD(1) [OF inv, of b k] refs(1) by blast
next
  fix b assume "referenced b r'"
  then show "\<exists>k. objs r' b = Some k" unfolding eqs using refs(2) [of b] rinvD(2) [OF inv, of b] by auto
next
  fix b c k l assume "objs r' b = Some k" "objs r' c = Some l" "hFd k = hFd l"
  then show "b = c" unfolding eqs using rinvD(3) [OF inv] by blast
qed (use rinvD(4,5,7) [OF inv] timers in \<open>simp_all add: eqs\<close>)

text \<open>The handler of a failed initialization is destroyed and its descriptor closed.\<close>

definition without_fd :: "int \<Rightarrow> 'c reactor \<Rightarrow> 'c reactor" where
  "without_fd fd r = r\<lparr>nextObj := Suc (nextObj r), openFds := removeAll fd (openFds r), interest := (interest r)(fd := None)\<rparr>"

lemma without_fd_fields [simp]:
  "objs (without_fd fd r) = objs r" "timerEventHandlers (without_fd fd r) = timerEventHandlers r"
  "eventHandlers (without_fd fd r) = eventHandlers r" "taskQue (without_fd fd r) = taskQue r"
  "nextObj (without_fd fd r) = Suc (nextObj r)" "openFds (without_fd fd r) = removeAll fd (openFds r)"
  "epollOpen (without_fd fd r) = epollOpen r" "referenced a (without_fd fd r) = referenced a r"
  by (simp_all add: without_fd_def referenced_def)

lemma without_fd_inv:
  assumes inv: "rinv X r" and fd: "\<And>b k. objs r b = Some k \<Longrightarrow> hFd k \<noteq> fd"
  shows "rinv X (without_fd fd r)"
proof (rule rinvI)
  fix b k assume "objs (without_fd fd r) b = Some k"
  then show "b < nextObj (without_fd fd r) \<and> (referenced b (without_fd fd r) \<or> b \<in> X) \<and>
      0 \<le> hFd k \<and> hFd k \<in> set (openFds (without_fd fd r))"
    using rinvD(1) [OF inv, of b k] fd [of b k] by auto
next
  fix f assume "interest (without_fd fd r) f \<noteq> None"
  then show "epollOpen (without_fd fd r) \<and> f \<in> fst ` set (eventHandlers (without_fd fd r))"
    using rinvD(7) [OF inv, of f] by (auto simp: without_fd_def split: if_splits)
qed (use rinvD(2-6) [OF inv] in auto)

lemma next_fresh:
  assumes "rinv {} r"
  shows "objs r (nextObj r) = None" "\<not> referenced (nextObj r) r"
proof -
  show none: "objs r (nextObj r) = None"
    using rinvD(1) [OF assms, of "nextObj r"] by (cases "objs r (nextObj r)") auto
  show "\<not> referenced (nextObj r) r" using rinvD(2) [OF assms, of "nextObj r"] none by auto
qed

lemma drop_new:
  assumes inv: "rinv {} r" and "hFd h = fd" and "fds = openFds r \<or> fds = fd # openFds r"
  shows "drop_ref (nextObj r) (r\<lparr>objs := (objs r)(nextObj r \<mapsto> h), nextObj := Suc (nextObj r), openFds := fds\<rparr>) = without_fd fd r"
  using next_fresh [OF inv] assms(2,3)
  by (auto simp: drop_ref_def TimerEventHandler_delete_def referenced_def without_fd_def fun_upd_idem)

text \<open>
  \<^verbatim>\<open>ScheduleTimer\<close> adds a timer for a descriptor that was not open, enabled for reading and set to expire one
  interval from now; when it fails nothing is scheduled.
\<close>

lemma ScheduleTimer_inv:
  assumes inv: "rinv {} r" and os: "timer_os_ok os"
  shows "\<exists>ret fdo r'. ScheduleTimer os cb ival once r = Some ((ret, fdo), r') \<and> rinv {} r' \<and>
    (ret = TIMER_ERR_OK \<longrightarrow>
       (\<exists>fd now h. fdo = Some fd \<and> 0 \<le> fd \<and> fd \<notin> set (openFds r) \<and> fd \<in> set (openFds r') \<and> monotonic_now os = Some now \<and>
          scheduled r fd = None \<and> scheduled r' = (scheduled r)(fd \<mapsto> (ival, once)) \<and>
          objs r' (nextObj r) = Some h \<and> hFd h = fd \<and> initInfo h = Some (timer_setting now ival once) \<and>
          hCallback h = cb \<and> map_of (eventHandlers r') fd = Some (nextObj r) \<and>
          nextObj r \<in> set (timerEventHandlers r') \<and> taskQue r' = taskQue r)) \<and>
    (ret \<noteq> TIMER_ERR_OK \<longrightarrow> fdo = None \<and> scheduled r' = scheduled r \<and> set (openFds r') \<subseteq> set (openFds r))"
proof -
  define fd where "fd = timerfd_create os (openFds r)"
  define a where "a = nextObj r"
  define h where "h = \<lparr>hFd = fd, hEvents = NONE_EVENT, hOnce = once, hInterval = ival, hCallback = cb, initInfo = None\<rparr>"
  define r1 where "r1 = r\<lparr>objs := (objs r)(a \<mapsto> h), nextObj := Suc a,
    openFds := (if fd = INVALID_TIMER_FD then openFds r else fd # openFds r)\<rparr>"
  have unfold: "ScheduleTimer os cb ival once r =
      Option.bind (Initialize os a r1) (\<lambda>(ret, r2). if ret \<noteq> TIMER_ERR_OK then Some ((ret, None), drop_ref a r2)
        else Some ((TIMER_ERR_OK, Some fd), r2\<lparr>timerEventHandlers := timerEventHandlers r2 @ [a]\<rparr>))"
    unfolding ScheduleTimer_def Let_def r1_def h_def a_def fd_def by (rule refl)
  have fd: "fd = INVALID_TIMER_FD \<or> 0 \<le> fd \<and> fd \<notin> set (openFds r)" using os_create [OF os] by (simp add: fd_def)
  have used: "hFd k \<noteq> fd" if "objs r b = Some k" for b k
    using rinvD(1) [OF inv that] fd by (auto simp: INVALID_TIMER_FD_def)
  have gone: "drop_ref a r1 = without_fd fd r"
    unfolding r1_def a_def by (rule drop_new [OF inv]) (simp_all add: h_def)
  have failed: "rinv {} (without_fd fd r) \<and> scheduled (without_fd fd r) = scheduled r \<and>
      set (openFds (without_fd fd r)) \<subseteq> set (openFds r)"
    using without_fd_inv [OF inv used] by (auto intro!: scheduled_cong)
  have h1: "objs r1 a = Some h" by (simp add: r1_def)
  show ?thesis
  proof (cases "fd = INVALID_TIMER_FD")
    case True
    then have "Initialize os a r1 = Some (TIMER_ERR_INVALID_VALUE, r1)"
      by (simp add: Initialize_def h1) (simp add: h_def)
    then show ?thesis unfolding unfold
      using failed by (simp add: gone TIMER_ERR_OK_def TIMER_ERR_INVALID_VALUE_def COMMON_TIMER_ERR_OFFSET_def)
  next
    case False
    have "rinv {a} r1" using rinv_new [OF inv, of h] fd False by (simp add: a_def r1_def h_def)
    from Initialize_inv [OF this h1 os] obtain ret r2 where r2: "Initialize os a r1 = Some (ret, r2)" "rinv {a} r2"
      "ret \<noteq> TIMER_ERR_OK \<longrightarrow> r2 = r1"
      "ret = TIMER_ERR_OK \<longrightarrow> (fd, a) \<in> set (eventHandlers r2) \<and> (\<exists>now. monotonic_now os = Some now \<and> same_handlers
         (r1\<lparr>objs := (objs r1)(a \<mapsto> h\<lparr>initInfo := Some (timer_setting now ival once), hEvents := NONE_EVENT OR READ_EVENT\<rparr>)\<rparr>) r2)"
      by (auto simp: h_def)
    show ?thesis
    proof (cases "ret = TIMER_ERR_OK")
      case True
      with r2(4) obtain now where now: "monotonic_now os = Some now" and entry: "(fd, a) \<in> set (eventHandlers r2)"
        and same: "same_handlers (r1\<lparr>objs := (objs r1)(a \<mapsto> h\<lparr>initInfo := Some (timer_setting now ival once),
          hEvents := NONE_EVENT OR READ_EVENT\<rparr>)\<rparr>) r2" by auto
      let ?r = "r2\<lparr>timerEventHandlers := timerEventHandlers r2 @ [a]\<rparr>"
      let ?k = "h\<lparr>initInfo := Some (timer_setting now ival once), hEvents := NONE_EVENT OR READ_EVENT\<rparr>"
      have k: "objs r2 = (objs r)(a \<mapsto> ?k)" "timerEventHandlers r2 = timerEventHandlers r" "fd \<in> set (openFds r2)"
        "taskQue r2 = taskQue r"
        using same_handlers_fields [OF same] False by (simp_all add: r1_def)
      have live: "objs r2 b = objs r b \<and> objs r b \<noteq> None \<and> b \<noteq> a" if "b \<in> set (timerEventHandlers r)" for b
        using rinvD(2) [OF inv, of b] next_fresh [OF inv] that by (auto simp: k referenced_def a_def)
      have "rinv {a} ?r"
        using rinvD(6) [OF inv] live by (intro rinv_more_refs [OF r2(2)]) (auto simp: referenced_def k)
      moreover have "referenced a ?r" by (simp add: referenced_def)
      ultimately have "rinv {} ?r" using rinv_referenced by blast
      moreover have "scheduled ?r = (scheduled r)(fd \<mapsto> (ival, once))"
      proof -
        have "scheduled ?r = (map_of (map (\<lambda>a. let h = the (objs r2 a) in (hFd h, (hInterval h, hOnce h)))
            (timerEventHandlers r)))(fd \<mapsto> (hInterval ?k, hOnce ?k))"
          using live used scheduled_snoc [of "timerEventHandlers r" r2 fd a ?k] by (fastforce simp: scheduled_def k h_def)
        also have "map_of (map (\<lambda>a. let h = the (objs r2 a) in (hFd h, (hInterval h, hOnce h))) (timerEventHandlers r)) =
            scheduled r"
          using live by (auto simp: scheduled_def Let_def intro!: arg_cong [where f = map_of])
        finally show ?thesis by (simp add: h_def fun_upd_def)
      qed
      moreover have "scheduled r fd = None"
        using live used by (fastforce simp: scheduled_None_iff)
      moreover have "map_of (eventHandlers r2) fd = Some a"
        using entry rinvD(5) [OF r2(2)] by simp
      ultimately show ?thesis unfolding unfold using r2(1) True fd False now k by (simp add: a_def h_def)
    next
      case failure: False
      then show ?thesis unfolding unfold using r2 failed by (simp add: gone)
    qed
  qed
qed

lemma find_handle_result:
  assumes "\<And>a. a \<in> set as \<Longrightarrow> objs r a \<noteq> None"
  shows "find_handle r fd as = Some (List.find (\<lambda>a. hFd (the (objs r a)) = fd) as)"
  using assms by (induction as) (auto split: option.splits)

lemma find_first: "List.find P xs = Some x \<Longrightarrow> x \<in> set xs \<and> P x"
  by (induction xs) (auto split: if_splits)

lemma map_of_remove1:
  assumes "distinct as" "inj_on f (set as)" "a \<in> set as"
  shows "map_of (map (\<lambda>b. (f b, g b)) (remove1 a as)) = (map_of (map (\<lambda>b. (f b, g b)) as))(f a := None)"
  using assms
proof (induction as)
  case (Cons b as)
  show ?case
  proof (cases "b = a")
    case True
    then have "map_of (map (\<lambda>b. (f b, g b)) as) (f a) = None"
      using Cons.prems(1,2) by (auto simp: map_of_eq_None_iff image_iff)
    then show ?thesis using True by (simp add: fun_eq_iff)
  next
    case False
    then have "f b \<noteq> f a" "a \<in> set as" using Cons.prems(2,3) by auto
    then show ?thesis using Cons False by (auto simp: fun_eq_iff)
  qed
qed simp

lemma handles_inj:
  assumes "rinv X r"
  shows "inj_on (\<lambda>b. hFd (the (objs r b))) (set (timerEventHandlers r))"
proof (rule inj_onI)
  fix a b assume "a \<in> set (timerEventHandlers r)" "b \<in> set (timerEventHandlers r)" "hFd (the (objs r a)) = hFd (the (objs r b))"
  then show "a = b" using rinvD(2,3) [OF assms] by (metis option.sel referenced_def)
qed

lemma drop_ref_fields:
  "timerEventHandlers (drop_ref a r) = timerEventHandlers r" "eventHandlers (drop_ref a r) = eventHandlers r"
  "taskQue (drop_ref a r) = taskQue r" "b \<noteq> a \<or> referenced a r \<Longrightarrow> objs (drop_ref a r) b = objs r b"
  "loopReady (drop_ref a r) = loopReady r" "switchedOn (drop_ref a r) = switchedOn r"
  by (auto simp: drop_ref_def TimerEventHandler_delete_def split: option.splits)

lemma CancelTimer_inv:
  assumes inv: "rinv {} r" and os: "timer_os_ok os"
  shows "\<exists>r'. CancelTimer os fd r = Some r' \<and> rinv {} r' \<and> scheduled r' = (scheduled r)(fd := None) \<and>
    taskQue r' = taskQue r \<and>
    (\<forall>a. a \<in> set (timerEventHandlers r) \<longrightarrow> hFd (the (objs r a)) = fd \<longrightarrow> map_of (eventHandlers r) fd \<noteq> None \<longrightarrow>
       a \<notin> fst ` set (taskQue r) \<longrightarrow> objs r' a = None \<and> fd \<notin> set (openFds r') \<and> interest r' fd = None)"
proof -
  have live: "objs r a \<noteq> None" if "a \<in> set (timerEventHandlers r)" for a
    using rinvD(2) [OF inv, of a] that by (auto simp: referenced_def)
  have found: "find_handle r fd (timerEventHandlers r) = Some (List.find (\<lambda>a. hFd (the (objs r a)) = fd) (timerEventHandlers r))"
    by (rule find_handle_result) (rule live)
  show ?thesis
  proof (cases "List.find (\<lambda>a. hFd (the (objs r a)) = fd) (timerEventHandlers r)")
    case None
    then have none: "\<forall>a\<in>set (timerEventHandlers r). hFd (the (objs r a)) \<noteq> fd" by (auto simp: find_None_iff)
    then have "scheduled r fd = None" by (simp add: scheduled_None_iff)
    then have "(scheduled r)(fd := None) = scheduled r" by (simp add: fun_upd_idem)
    then show ?thesis using None found inv none by (auto simp: CancelTimer_def)
  next
    case (Some a)
    then have a: "a \<in> set (timerEventHandlers r)" "hFd (the (objs r a)) = fd" using find_first [OF Some] by auto
    from Uninitialize_inv [OF inv a(1) os] obtain r1 h where r1: "objs r a = Some h" "Uninitialize os a r = Some r1"
      "rinv {} r1" "scheduled r1 = scheduled r" "same_handlers (r\<lparr>objs := (objs r)(a \<mapsto> h\<lparr>hEvents := NONE_EVENT\<rparr>)\<rparr>) r1"
      "map_of (eventHandlers r) (hFd h) \<noteq> None \<longrightarrow> a \<notin> snd ` set (eventHandlers r1)" by blast
    note same = same_handlers_fields [OF r1(5), simplified]
    let ?r2 = "r1\<lparr>timerEventHandlers := remove1 a (timerEventHandlers r1)\<rparr>"
    have dist: "distinct (timerEventHandlers r)" using rinvD(6) [OF inv] .
    have inv2: "rinv {a} ?r2"
    proof (rule rinvI)
      fix b k assume "objs ?r2 b = Some k"
      then have b: "objs r1 b = Some k" by simp
      show "b < nextObj ?r2 \<and> (referenced b ?r2 \<or> b \<in> {a}) \<and> 0 \<le> hFd k \<and> hFd k \<in> set (openFds ?r2)"
        using rinvD(1) [OF r1(3) b] by (auto simp: referenced_def)
    next
      fix b assume "referenced b ?r2"
      then have "referenced b r1" using notin_set_remove1 [of b _ a] by (auto simp: referenced_def)
      then show "\<exists>k. objs ?r2 b = Some k" using rinvD(2) [OF r1(3)] by simp
    next
      fix b c k l assume "objs ?r2 b = Some k" "objs ?r2 c = Some l" "hFd k = hFd l"
      then show "b = c" using rinvD(3) [OF r1(3)] by simp
    qed (use rinvD(4-7) [OF r1(3)] in auto)
    have "objs r1 b \<noteq> None \<and> hFd (the (objs r1 b)) = hFd (the (objs r b))" if "b \<in> set (timerEventHandlers r)" for b
      using live [OF that] r1(1) by (auto simp: same)
    have rest: "timerEventHandlers (drop_ref a ?r2) = remove1 a (timerEventHandlers r)" by (simp add: drop_ref_fields same)
    have sched: "scheduled (drop_ref a ?r2) = (scheduled r)(fd := None)"
    proof -
      have "scheduled (drop_ref a ?r2) =
          map_of (map (\<lambda>b. (hFd (the (objs r b)), (hInterval (the (objs r b)), hOnce (the (objs r b))))) (remove1 a (timerEventHandlers r)))"
        using dist by (auto simp: scheduled_def rest Let_def drop_ref_fields same intro!: arg_cong [where f = map_of])
      also have "\<dots> = (scheduled r)(fd := None)"
        using map_of_remove1 [OF dist handles_inj [OF inv] a(1)] a(2) by (simp add: scheduled_def Let_def)
      finally show ?thesis .
    qed
    have closed: "objs (drop_ref a ?r2) a = None \<and> fd \<notin> set (openFds (drop_ref a ?r2)) \<and> interest (drop_ref a ?r2) fd = None"
      if "map_of (eventHandlers r) fd \<noteq> None" "a \<notin> fst ` set (taskQue r)"
    proof -
      have "\<not> referenced a ?r2" using that dist r1(1,6) a(2) by (auto simp: referenced_def same)
      then show ?thesis using a(2) r1(1) by (simp add: drop_ref_def TimerEventHandler_delete_def same)
    qed
    have "b = a" if "b \<in> set (timerEventHandlers r)" "hFd (the (objs r b)) = fd" for b
      using handles_inj [OF inv] that a by (auto dest: inj_onD)
    then show ?thesis
      using Some found r1(2) drop_ref_inv [OF inv2] sched closed by (auto simp: CancelTimer_def drop_ref_fields same)
  qed
qed

lemma collect_tasks_inv:
  assumes "rinv X r"
  shows "rinv X (collect_tasks evs r) \<and> timerEventHandlers (collect_tasks evs r) = timerEventHandlers r \<and>
    objs (collect_tasks evs r) = objs r"
  using assms
proof (induction evs r rule: collect_tasks.induct)
  case (2 fd ev evs r)
  show ?case
  proof (cases "map_of (eventHandlers r) fd")
    case None
    moreover have "rinv X (r\<lparr>epollCtlErrQueue := []\<rparr>)"
      using "2.prems" rinvD(6) by (intro rinv_more_refs [OF "2.prems"]) (auto simp: referenced_def)
    ultimately show ?thesis using "2.IH" by simp
  next
    case (Some a)
    have "objs r a \<noteq> None" using rinvD(4) [OF "2.prems" map_of_SomeD [OF Some]] by auto
    then have "rinv X (r\<lparr>taskQue := taskQue r @ [(a, ev)]\<rparr>)"
      using rinvD(6) [OF "2.prems"] by (intro rinv_more_refs [OF "2.prems"]) (auto simp: referenced_def)
    with Some show ?thesis using "2.IH" by simp
  qed
qed simp

lemma Polling_collect_inv: "rinv X r \<Longrightarrow> rinv X (snd (Polling_collect res r)) \<and>
    scheduled (snd (Polling_collect res r)) = scheduled r"
  using collect_tasks_inv by (auto simp: Polling_collect_def scheduled_def split: epoll_wait_result.splits)

lemma drop_refs_timers: "timerEventHandlers (drop_refs as r) = timerEventHandlers r \<and>
    (\<forall>b\<in>set (timerEventHandlers r). objs (drop_refs as r) b = objs r b)"
proof (induction as arbitrary: r)
  case (Cons a as)
  have "objs (drop_ref a r) b = objs r b" if "b \<in> set (timerEventHandlers r)" for b
    using that by (intro drop_ref_fields(4)) (auto simp: referenced_def)
  with Cons.IH [of "drop_ref a r"] show ?case by (simp add: drop_ref_fields(1))
qed simp

lemma Polling_done_inv:
  assumes inv: "rinv {} r"
  shows "rinv {} (Polling_done nfds r)" "scheduled (Polling_done nfds r) = scheduled r"
proof -
  let ?r = "r\<lparr>taskQue := [], maxEvents := (if nfds = maxEvents r then 2 * maxEvents r else maxEvents r)\<rparr>"
  have "rinv (set (map fst (taskQue r))) ?r"
  proof (rule rinvI)
    fix b k assume "objs ?r b = Some k"
    then have b: "objs r b = Some k" by simp
    then show "b < nextObj ?r \<and> (referenced b ?r \<or> b \<in> set (map fst (taskQue r))) \<and> 0 \<le> hFd k \<and> hFd k \<in> set (openFds ?r)"
      using rinvD(1) [OF inv b] by (auto simp: referenced_def)
  next
    fix b assume "referenced b ?r"
    then show "\<exists>k. objs ?r b = Some k" using rinvD(2) [OF inv, of b] by (auto simp: referenced_def)
  next
    fix b c k l assume "objs ?r b = Some k" "objs ?r c = Some l" "hFd k = hFd l"
    then show "b = c" using rinvD(3) [OF inv] by simp
  qed (use rinvD(4-7) [OF inv] in auto)
  then show "rinv {} (Polling_done nfds r)" unfolding Polling_done_def by (rule drop_refs_inv)
  show "scheduled (Polling_done nfds r) = scheduled r"
    unfolding Polling_done_def using drop_refs_timers [of "map fst (taskQue r)" ?r] by (intro scheduled_cong) auto
qed

section \<open>What the timers see of the reactor\<close>

text \<open>
  The contract between \<^verbatim>\<open>Timer\<close> and the reactor: a new timer gets a descriptor no timer has, a failure schedules
  nothing, and cancelling forgets one descriptor and no other.
\<close>

fun cancel_each :: "(int \<Rightarrow> 'r \<Rightarrow> 'r option) \<Rightarrow> int list \<Rightarrow> 'r \<Rightarrow> 'r option" where
  "cancel_each cancel [] r = Some r"
| "cancel_each cancel (fd # fds) r = do { r1 \<leftarrow> cancel fd r; cancel_each cancel fds r1 }"

locale timer_service =
  fixes sinv :: "'r \<Rightarrow> bool" and view :: "'r \<Rightarrow> int \<Rightarrow> (32 word \<times> bool) option"
    and schedule :: "32 word \<Rightarrow> bool \<Rightarrow> 'r \<Rightarrow> ((32 word \<times> int option) \<times> 'r) option" and cancel :: "int \<Rightarrow> 'r \<Rightarrow> 'r option"
  assumes schedule_law: "sinv r \<Longrightarrow> \<exists>ret fdo r'. schedule ival once r = Some ((ret, fdo), r') \<and> sinv r' \<and>
      (if ret = TIMER_ERR_OK then \<exists>fd. fdo = Some fd \<and> 0 \<le> fd \<and> view r fd = None \<and> view r' = (view r)(fd \<mapsto> (ival, once))
       else fdo = None \<and> view r' = view r)"
    and cancel_law: "sinv r \<Longrightarrow> \<exists>r'. cancel fd r = Some r' \<and> sinv r' \<and> view r' = (view r)(fd := None)"
begin

lemma cancel_all_law:
  "sinv r \<Longrightarrow> \<exists>r'. cancel_each cancel fds r = Some r' \<and> sinv r' \<and> (\<forall>fd. view r' fd = (if fd \<in> set fds then None else view r fd))"
proof (induction fds arbitrary: r)
  case (Cons fd fds)
  obtain r1 where r1: "cancel fd r = Some r1" "sinv r1" "view r1 = (view r)(fd := None)"
    using cancel_law [OF Cons.prems] by blast
  from Cons.IH [OF r1(2)] obtain r2 where "cancel_each cancel fds r1 = Some r2" "sinv r2"
    "\<forall>f. view r2 f = (if f \<in> set fds then None else view r1 f)" by blast
  then show ?case using r1 by simp
qed simp

end

interpretation timer_reactor: timer_service "\<lambda>r. timer_os_ok os \<and> reactor_inv r" scheduled "ScheduleTimer os cb" "CancelTimer os"
  for os :: timer_os and cb :: 'c
proof
  fix r :: "'c reactor" and ival once assume "timer_os_ok os \<and> reactor_inv r"
  then show "\<exists>ret fdo r'. ScheduleTimer os cb ival once r = Some ((ret, fdo), r') \<and> (timer_os_ok os \<and> reactor_inv r') \<and>
      (if ret = TIMER_ERR_OK then \<exists>fd. fdo = Some fd \<and> 0 \<le> fd \<and> scheduled r fd = None \<and> scheduled r' = (scheduled r)(fd \<mapsto> (ival, once))
       else fdo = None \<and> scheduled r' = scheduled r)"
    using ScheduleTimer_inv [of r os cb ival once] by (auto simp: reactor_inv_def)
next
  fix r :: "'c reactor" and fd assume "timer_os_ok os \<and> reactor_inv r"
  then show "\<exists>r'. CancelTimer os fd r = Some r' \<and> (timer_os_ok os \<and> reactor_inv r') \<and> scheduled r' = (scheduled r)(fd := None)"
    using CancelTimer_inv [of r os fd] by (auto simp: reactor_inv_def)
qed

section \<open>Runs\<close>

text \<open>Any order of the operations; the parts of a \<^verbatim>\<open>Polling\<close> alternate with operations of other threads and of callbacks.\<close>

inductive reactor_step :: "'c reactor \<Rightarrow> 'c reactor \<Rightarrow> bool" where
  schedule: "timer_os_ok os \<Longrightarrow> ScheduleTimer os cb ival once r = Some (res, r') \<Longrightarrow> reactor_step r r'"
| cancel: "timer_os_ok os \<Longrightarrow> CancelTimer os fd r = Some r' \<Longrightarrow> reactor_step r r'"
| clean_up: "timer_os_ok os \<Longrightarrow> CleanUp os r = Some r' \<Longrightarrow> reactor_step r r'"
| set_up: "reactor_step r (snd (SetUp os r))"
| switch_on: "reactor_step r (SwitchOn r)"
| switch_off: "reactor_step r (SwitchOff r)"
| collect: "reactor_step r (snd (Polling_collect res r))"
| poll_done: "reactor_step r (Polling_done nfds r)"

lemma rinv_flags:
  assumes inv: "rinv X r" and "epollOpen r \<longrightarrow> e"
  shows "rinv X (r\<lparr>epollOpen := e, loopReady := l, switchedOn := s\<rparr>)" (is "rinv X ?r")
proof -
  have ref: "referenced a ?r = referenced a r" for a by (simp add: referenced_def)
  show ?thesis unfolding rinv_def ref using inv assms(2) unfolding rinv_def by simp
qed

lemma SetUp_SwitchOn_Off:
  "rinv X r \<Longrightarrow> rinv X (snd (SetUp os r))" "rinv X r \<Longrightarrow> rinv X (SwitchOn r)" "rinv X r \<Longrightarrow> rinv X (SwitchOff r)"
  "scheduled (snd (SetUp os r)) = scheduled r" "scheduled (SwitchOn r) = scheduled r" "scheduled (SwitchOff r) = scheduled r"
proof -
  assume inv: "rinv X r"
  have "\<exists>e l. snd (SetUp os r) = r\<lparr>epollOpen := e, loopReady := l, switchedOn := switchedOn r\<rparr> \<and> (epollOpen r \<longrightarrow> e)"
    by (rule exI [of _ "epollOpen r \<or> epoll_create_ok os"], rule exI [of _ "epollOpen r \<or> epoll_create_ok os \<or> loopReady r"])
      (simp add: SetUp_def StartUp_def TIMER_ERR_OK_def TIMER_ERR_BADF_def COMMON_TIMER_ERR_OFFSET_def)
  then show "rinv X (snd (SetUp os r))" using rinv_flags [OF inv] by metis
  show "rinv X (SwitchOn r)" "rinv X (SwitchOff r)"
    using rinv_flags [OF inv, where e = "epollOpen r" and l = "loopReady r"] by (simp_all add: SwitchOn_def SwitchOff_def)
qed (auto simp: SetUp_def StartUp_def SwitchOn_def SwitchOff_def TIMER_ERR_OK_def scheduled_def split: if_splits)

interpretation reactor_runs: inductive_invariant "\<lambda>r. \<exists>os fds. r = EventReactor_new os fds" reactor_step reactor_inv
proof
  fix r :: "'a reactor" assume "\<exists>os fds. r = EventReactor_new os fds"
  then show "reactor_inv r" by (auto simp: reactor_inv_def rinv_def EventReactor_new_def referenced_def)
next
  fix r r' :: "'a reactor" assume inv: "reactor_inv r" and "reactor_step r r'"
  from this(2) show "reactor_inv r'"
  proof cases
    case (schedule os cb ival once res)
    then show ?thesis using ScheduleTimer_inv [of r os cb ival once] inv by (auto simp: reactor_inv_def)
  next
    case (cancel os fd)
    then show ?thesis using CancelTimer_inv [of r os fd] inv by (auto simp: reactor_inv_def)
  next
    case (clean_up os)
    then show ?thesis using CleanUp_inv [of "{}" r os] inv by (auto simp: reactor_inv_def)
  qed (use inv SetUp_SwitchOn_Off(1-3) Polling_collect_inv [THEN conjunct1] Polling_done_inv(1) in \<open>auto simp: reactor_inv_def\<close>)
qed

section \<open>Properties\<close>

text \<open>The setting of a timer is a normalized time one interval after now.\<close>

lemma timer_setting_exact:
  assumes "0 \<le> snd now" "snd now < 1000000000"
  shows "fst (it_value (timer_setting now ival once)) * 1000000000 + snd (it_value (timer_setting now ival once)) =
      fst now * 1000000000 + snd now + uint ival * 1000000"
    and "0 \<le> snd (it_value (timer_setting now ival once))" "snd (it_value (timer_setting now ival once)) < 1000000000"
    and "\<not> once \<Longrightarrow> fst (it_interval (timer_setting now ival once)) * 1000000000 +
      snd (it_interval (timer_setting now ival once)) = uint ival * 1000000"
proof -
  have small: "uint (ival mod 1000) < 1000" by (simp add: uint_mod)
  have "0 \<le> uint (ival mod 1000)" by simp
  with small have "uint (ival mod 1000) * 1000000 mod 4294967296 = uint (ival mod 1000) * 1000000"
    by (intro mod_pos_pos_trivial) auto
  then have nsec: "uint (ival mod 1000 * 1000000) = (uint ival mod 1000) * 1000000"
    by (simp add: uint_word_arith_bintrs uint_mod take_bit_eq_mod)
  have sec: "uint (ival div 1000) = uint ival div 1000" by (simp add: uint_div)
  have bounds: "0 \<le> uint ival mod 1000" "uint ival mod 1000 < 1000" by simp_all
  define q m where "q = uint ival div 1000" and "m = uint ival mod 1000"
  have split: "uint ival * 1000000 = q * 1000000000 + m * 1000000" unfolding q_def m_def by presburger
  have wrap: "x mod 1000000000 = x - 1000000000" if "1000000000 \<le> x" "x < 2000000000" for x :: int
    using mod_pos_pos_trivial [of "x - 1000000000" 1000000000] that minus_mod_self2 [of x 1000000000] by simp
  show "fst (it_value (timer_setting now ival once)) * 1000000000 + snd (it_value (timer_setting now ival once)) =
      fst now * 1000000000 + snd now + uint ival * 1000000"
    "0 \<le> snd (it_value (timer_setting now ival once))" "snd (it_value (timer_setting now ival once)) < 1000000000"
    "\<not> once \<Longrightarrow> fst (it_interval (timer_setting now ival once)) * 1000000000 +
      snd (it_interval (timer_setting now ival once)) = uint ival * 1000000"
    using assms bounds split wrap [of "snd now + m * 1000000"]
    by (auto simp: timer_setting_def Let_def sec nsec simp flip: q_def m_def)
qed

lemma reactor_inv_reach: "reach (\<lambda>r. \<exists>os fds. r = EventReactor_new os fds) reactor_step r \<Longrightarrow> rinv {} r"
  using reactor_runs.always by (simp add: reactor_inv_def)

text \<open>A system whose calls succeed and which returns the descriptor after the highest open one.\<close>

definition timer_sample :: timer_os where
  "timer_sample = \<lparr>timerfd_create = (\<lambda>fds. foldr max fds 2 + 1), monotonic_now = Some (5, 999000000),
     timerfd_settime = (\<lambda>_ _. True), epoll_create_ok = True, epoll_ctl_fault = (\<lambda>_ _. None)\<rparr>"

lemma foldr_max_bounds:
  fixes fds :: "int list"
  shows "2 \<le> foldr max fds 2" "x \<in> set fds \<Longrightarrow> x \<le> foldr max fds 2"
  by (induction fds) auto

lemma timer_sample_ok: "timer_os_ok timer_sample"
proof -
  have "0 \<le> foldr max fds 2 + (1 :: int) \<and> foldr max fds 2 + 1 \<notin> set fds" for fds :: "int list"
    using foldr_max_bounds(1) [of fds] foldr_max_bounds(2) [of "foldr max fds 2 + 1" fds] by auto
  then show ?thesis by (simp add: timer_os_ok_def timer_sample_def)
qed



text \<open>
  A successful \<^verbatim>\<open>ScheduleTimer\<close> yields a descriptor that was not open and a timer that expires exactly one
  interval after the current time, written as a normalized \<^verbatim>\<open>timespec\<close>, and repeats with that interval unless it is
  one-shot; a failed one schedules nothing and keeps no descriptor. Cancelling the new timer closes its
  descriptor and removes it from the interest list. After \<^verbatim>\<open>CleanUp\<close>, cancelling does the opposite: the disabled
  handler is put back into the map and the interest list, and its descriptor stays open.
\<close>

theorem schedule_and_cancel:
  assumes "reach (\<lambda>r. \<exists>os fds. r = EventReactor_new os fds) reactor_step r" "timer_os_ok os"
    and "ScheduleTimer os cb ival once r = Some ((ret, fdo), r')"
  shows "(if ret = TIMER_ERR_OK then
       \<exists>fd now h. fdo = Some fd \<and> fd \<notin> set (openFds r) \<and> monotonic_now os = Some now \<and>
         scheduled r' = (scheduled r)(fd \<mapsto> (ival, once)) \<and> objs r' (nextObj r) = Some h \<and> hFd h = fd \<and>
         initInfo h = Some (timer_setting now ival once) \<and>
         (let v = it_value (timer_setting now ival once)
          in fst v * 1000000000 + snd v = fst now * 1000000000 + snd now + uint ival * 1000000 \<and> 0 \<le> snd v \<and> snd v < 1000000000) \<and>
         (\<exists>r''. CancelTimer os fd r' = Some r'' \<and> scheduled r'' = scheduled r \<and> fd \<notin> set (openFds r'') \<and> interest r'' fd = None)
     else fdo = None \<and> scheduled r' = scheduled r \<and> set (openFds r') \<subseteq> set (openFds r)) \<and>
   (do { (_, s1) \<leftarrow> ScheduleTimer timer_sample () 20 False (EventReactor_new timer_sample []);
         s2 \<leftarrow> CleanUp timer_sample s1; s3 \<leftarrow> CancelTimer timer_sample 3 s2;
         Some (timerEventHandlers s3, map fst (eventHandlers s3), openFds s3, interest s3 3) }) = Some ([], [3], [3], Some 0)"
proof -
  have inv: "rinv {} r" using reactor_inv_reach [OF assms(1)] .
  have leak: "(do { (_, s1) \<leftarrow> ScheduleTimer timer_sample () 20 False (EventReactor_new timer_sample []);
         s2 \<leftarrow> CleanUp timer_sample s1; s3 \<leftarrow> CancelTimer timer_sample 3 s2;
         Some (timerEventHandlers s3, map fst (eventHandlers s3), openFds s3, interest s3 3) }) = Some ([], [3], [3], Some 0)"
    by code_simp
  note spec = ScheduleTimer_inv [OF inv assms(2), of cb ival once, unfolded assms(3)]
  show ?thesis
  proof (cases "ret = TIMER_ERR_OK")
    case True
    with spec obtain fd now h where new: "fdo = Some fd" "fd \<notin> set (openFds r)" "monotonic_now os = Some now"
      "scheduled r fd = None" "scheduled r' = (scheduled r)(fd \<mapsto> (ival, once))" "objs r' (nextObj r) = Some h" "hFd h = fd"
      "initInfo h = Some (timer_setting now ival once)" "map_of (eventHandlers r') fd = Some (nextObj r)" and inv': "rinv {} r'"
      and listed: "nextObj r \<in> set (timerEventHandlers r')" "taskQue r' = taskQue r"
      by auto
    have "nextObj r \<notin> fst ` set (taskQue r')"
      using next_fresh(2) [OF inv] by (auto simp: listed referenced_def)
    then have "\<exists>r''. CancelTimer os fd r' = Some r'' \<and> scheduled r'' = scheduled r \<and> fd \<notin> set (openFds r'') \<and> interest r'' fd = None"
      using CancelTimer_inv [OF inv' assms(2), of fd] listed new by (fastforce simp: fun_upd_idem)
    then show ?thesis
      using True new leak timer_setting_exact(1-3) [of now ival once] os_now [OF assms(2) new(3)] by (auto simp: Let_def)
  qed (use spec leak in auto)
qed

theorem schedule_and_cancel_witness:
  "\<exists>r'. ScheduleTimer timer_sample () 20 True (EventReactor_new timer_sample []) = Some ((TIMER_ERR_OK, Some 3), r') \<and>
     scheduled r' 3 = Some (20, True) \<and>
     (\<exists>r''. CancelTimer timer_sample 3 r' = Some r'' \<and> 3 \<notin> set (openFds r'') \<and> interest r'' 3 = None)"
proof -
  let ?r = "EventReactor_new timer_sample [] :: unit reactor"
  have start: "reach (\<lambda>r. \<exists>os fds. r = EventReactor_new os fds) reactor_step ?r"
    by (rule reach.start) blast
  have "map_option fst (ScheduleTimer timer_sample () 20 True ?r) = Some (TIMER_ERR_OK, Some 3)" by code_simp
  then obtain r' where r': "ScheduleTimer timer_sample () 20 True ?r = Some ((TIMER_ERR_OK, Some 3), r')" by auto
  from schedule_and_cancel [OF start timer_sample_ok r'] show ?thesis using r' by auto
qed

end
