(* ===== verification/Timers.thy ===== *)
theory Timers
  imports Event_Reactor "HOL-Library.AList"
begin

text \<open>
  The timer (\<^verbatim>\<open>base/src/timer.cpp\<close>) on top of the reactor. The maps of the code that are iterated or tested for
  emptiness are association lists with distinct keys, so that the entries \<^verbatim>\<open>operator[]\<close> creates are visible. Every
  function that takes \<^verbatim>\<open>mutex_\<close> is one step; \<^verbatim>\<open>OnTimer\<close> takes it twice and runs the callbacks in between without
  it, so it is a snapshot, a step per entry and a final erasure, between which callbacks and other threads register and
  unregister. \<open>nextTimerId\<close> is the static counter of \<^verbatim>\<open>Register\<close>; registrations of other timer objects between its
  uses inside one \<^verbatim>\<open>Register\<close> are not modelled, and a stopped timer is set up again only after its loop has ended.
\<close>

section \<open>State\<close>

datatype timer_cb = OnTimer_cb | Pseudo_task

record 'f timer_entry =
  te_id :: "32 word"
  te_interval :: "32 word"
  te_callback :: 'f
  te_once :: bool
  te_fd :: int

record 'f timer =
  intervalToTimers :: "(32 word \<times> 'f timer_entry list) list"
  timerToEntries :: "32 word \<Rightarrow> 'f timer_entry option"
  timers :: "(int \<times> 32 word) list"
  nextTimerId :: "32 word"
  timeoutMs :: int
  joinable :: bool
  react :: "timer_cb reactor"

definition Timer_new :: "timer_os \<Rightarrow> int list \<Rightarrow> int \<Rightarrow> 'f timer" where
  "Timer_new os fds timeout = \<lparr>intervalToTimers = [], timerToEntries = (\<lambda>_. None), timers = [], nextTimerId = 1,
     timeoutMs = timeout, joinable = False, react = EventReactor_new os fds\<rparr>"

text \<open>The list \<^verbatim>\<open>intervalToTimers_[i]\<close> denotes, and the map after \<^verbatim>\<open>operator[]\<close> has created it if it was missing.\<close>

definition list_of :: "32 word \<Rightarrow> 'f timer \<Rightarrow> 'f timer_entry list" where
  "list_of i t = (case map_of (intervalToTimers t) i of None \<Rightarrow> [] | Some es \<Rightarrow> es)"

definition touch :: "32 word \<Rightarrow> 'f timer \<Rightarrow> 'f timer" where
  "touch i t = t\<lparr>intervalToTimers := AList.update i (list_of i t) (intervalToTimers t)\<rparr>"

section \<open>Registration\<close>

definition GetValidId :: "32 word \<Rightarrow> 32 word" where
  "GetValidId i = (if i = TIMER_ERR_DEAL_FAILED then i + 1 else if i = - 1 then 1 else i)"

partial_function (option) free_id :: "(32 word \<Rightarrow> bool) \<Rightarrow> 32 word \<Rightarrow> 32 word option" where
  "free_id used i = (if used i then free_id used (GetValidId (i + 1)) else Some i)"

declare free_id.simps [code]

definition GetTimerFd :: "32 word \<Rightarrow> 'f timer \<Rightarrow> int" where
  "GetTimerFd i t =
     (case map_of (intervalToTimers t) i of
        None \<Rightarrow> INVALID_TIMER_FD
      | Some es \<Rightarrow> (case List.find (\<lambda>e. \<not> te_once e) es of None \<Rightarrow> INVALID_TIMER_FD | Some e \<Rightarrow> te_fd e))"

definition DoRegister :: "timer_os \<Rightarrow> 32 word \<Rightarrow> bool \<Rightarrow> 'f timer \<Rightarrow> ((32 word \<times> int) \<times> 'f timer) option" where
  "DoRegister os ival once t = do {
     ((ret, fdo), r) \<leftarrow> ScheduleTimer os OnTimer_cb ival once (react t);
     let fd = (case fdo of None \<Rightarrow> INVALID_TIMER_FD | Some fd \<Rightarrow> fd);
     let t1 = t\<lparr>react := r\<rparr>;
     if ret \<noteq> TIMER_ERR_OK \<or> fd < 0 then Some ((ret, fd), t1)
     else Some ((TIMER_ERR_OK, fd), t1\<lparr>timers := AList.update fd ival (timers t1)\<rparr>)
   }"

definition Register :: "timer_os \<Rightarrow> 'f \<Rightarrow> 32 word \<Rightarrow> bool \<Rightarrow> 'f timer \<Rightarrow> (32 word \<times> 'f timer) option" where
  "Register os cb ival once t = do {
     let fd0 = (if once then INVALID_TIMER_FD else GetTimerFd ival t);
     ((ret, fd), t1) \<leftarrow> (if fd0 = INVALID_TIMER_FD then DoRegister os ival once t else Some ((TIMER_ERR_OK, fd0), t));
     if ret \<noteq> TIMER_ERR_OK then Some (TIMER_ERR_DEAL_FAILED, t1)
     else do {
       i \<leftarrow> free_id (\<lambda>i. timerToEntries t1 i \<noteq> None) (GetValidId (nextTimerId t1));
       let e = \<lparr>te_id = i, te_interval = ival, te_callback = cb, te_once = once, te_fd = fd\<rparr>;
       Some (i, t1\<lparr>nextTimerId := i + 1, intervalToTimers := AList.update ival (list_of ival t1 @ [e]) (intervalToTimers t1),
                   timerToEntries := (timerToEntries t1)(i \<mapsto> e)\<rparr>)
     }
   }"

definition DoUnregister :: "timer_os \<Rightarrow> 32 word \<Rightarrow> 'f timer \<Rightarrow> 'f timer option" where
  "DoUnregister os ival t = do {
     r \<leftarrow> cancel_each (CancelTimer os) (map fst (filter (\<lambda>p. snd p = ival) (timers t))) (react t);
     Some (t\<lparr>react := r\<rparr>)
   }"

definition Unregister :: "timer_os \<Rightarrow> 32 word \<Rightarrow> 'f timer \<Rightarrow> 'f timer option" where
  "Unregister os i t =
     (case timerToEntries t i of
        None \<Rightarrow> Some t
      | Some entry \<Rightarrow> do {
          let ival = te_interval entry;
          t1 \<leftarrow> (case List.find (\<lambda>e. te_id e = i) (list_of ival t) of
                   None \<Rightarrow> Some (touch ival t)
                 | Some e \<Rightarrow> do {
                     r \<leftarrow> (if te_once e then CancelTimer os (te_fd e) (react t) else Some (react t));
                     Some (t\<lparr>react := r, timers := (if te_once e then AList.delete (te_fd e) (timers t) else timers t),
                             intervalToTimers := AList.update ival (remove1 e (list_of ival t)) (intervalToTimers t)\<rparr>)
                   });
          t2 \<leftarrow> (if list_of ival t1 = []
                 then DoUnregister os ival (t1\<lparr>intervalToTimers := AList.delete ival (intervalToTimers t1)\<rparr>) else Some t1);
          Some (t2\<lparr>timerToEntries := (timerToEntries t2)(i := None)\<rparr>)
        })"

section \<open>Expiry\<close>

text \<open>\<^verbatim>\<open>OnTimer\<close> in progress: its descriptor and interval, the entries of the snapshot left and the one-shot identifiers met.\<close>

record 'f firing =
  f_fd :: int
  f_interval :: "32 word"
  f_rest :: "'f timer_entry list"
  f_once :: "32 word list"

definition OnTimer_snapshot :: "int \<Rightarrow> 'f timer \<Rightarrow> 'f firing \<times> 'f timer" where
  "OnTimer_snapshot fd t =
     (let ival = (case map_of (timers t) fd of None \<Rightarrow> 0 | Some i \<Rightarrow> i);
          t1 = touch ival (t\<lparr>timers := AList.update fd ival (timers t)\<rparr>)
      in (\<lparr>f_fd = fd, f_interval = ival, f_rest = list_of ival t1, f_once = []\<rparr>, t1))"

text \<open>One turn of the loop over the snapshot: the entry whose callback runs, if any.\<close>

definition OnTimer_entry :: "'f timer \<Rightarrow> 'f firing \<Rightarrow> 'f timer_entry option \<times> 'f firing" where
  "OnTimer_entry t f =
     (case f_rest f of
        [] \<Rightarrow> (None, f)
      | e # es \<Rightarrow>
          if te_fd e \<noteq> f_fd f then (None, f\<lparr>f_rest := es\<rparr>)
          else (if loopReady (react t) \<and> switchedOn (react t) then Some e else None,
                f\<lparr>f_rest := es, f_once := (if te_once e then f_once f @ [te_id e] else f_once f)\<rparr>))"

fun erase_loop :: "timer_os \<Rightarrow> 32 word \<Rightarrow> 32 word list \<Rightarrow> 'f timer_entry list \<Rightarrow> 'f timer \<Rightarrow> 'f timer option" where
  "erase_loop os ival unusedIds [] t = Some t"
| "erase_loop os ival unusedIds (e # es) t =
     (if te_id e \<notin> set unusedIds then erase_loop os ival unusedIds es t
      else do {
        r \<leftarrow> CancelTimer os (te_fd e) (react t);
        let t1 = t\<lparr>react := r, timers := AList.delete (te_fd e) (timers t),
                   intervalToTimers := AList.update ival (remove1 e (list_of ival t)) (intervalToTimers t),
                   timerToEntries := (timerToEntries t)(te_id e := None)\<rparr>;
        if list_of ival t1 = []
        then DoUnregister os ival (t1\<lparr>intervalToTimers := AList.delete ival (intervalToTimers t1)\<rparr>)
        else erase_loop os ival unusedIds es t1
      })"

definition EraseUnusedTimerId :: "timer_os \<Rightarrow> 32 word \<Rightarrow> 32 word list \<Rightarrow> 'f timer \<Rightarrow> 'f timer option" where
  "EraseUnusedTimerId os ival unusedIds t = erase_loop os ival unusedIds (list_of ival t) (touch ival t)"

definition OnTimer_end :: "timer_os \<Rightarrow> 'f firing \<Rightarrow> 'f timer \<Rightarrow> 'f timer option" where
  "OnTimer_end os f t = (if f_once f \<noteq> [] then EraseUnusedTimerId os (f_interval f) (f_once f) t else Some t)"

section \<open>The loop thread\<close>

definition Setup :: "'f timer \<Rightarrow> 32 word \<times> 'f timer" where
  "Setup t =
     (if joinable t then (TIMER_ERR_INVALID_VALUE, t)
      else (TIMER_ERR_OK, t\<lparr>react := SwitchOn (react t), joinable := True\<rparr>))"

datatype shutdown_result = Already_stopped | Detached | Join

definition Shutdown :: "timer_os \<Rightarrow> bool \<Rightarrow> 'f timer \<Rightarrow> (shutdown_result \<times> 'f timer) option" where
  "Shutdown os useJoin t =
     (if \<not> joinable t then Some (Already_stopped, t)
      else
        let t1 = t\<lparr>react := SwitchOff (react t), joinable := False\<rparr>
        in if timeoutMs t = -1 \<and> intervalToTimers t = []
           then do {
             (_, r) \<leftarrow> ScheduleTimer os Pseudo_task 0 True (react t1);
             Some (Detached, t1\<lparr>react := r\<rparr>)
           }
           else Some (if useJoin then Join else Detached, t1))"

text \<open>
  The position of the loop thread: not running, started, at the test of \<^verbatim>\<open>RunLoop\<close>, or calling the tasks of a \<^verbatim>\<open>Polling\<close>
  that has collected \<open>n\<close> events. \<open>issued\<close> and \<open>calls\<close> record the identifiers returned and the callbacks run.
\<close>

datatype loop_pc = Loop_off | Loop_start | Loop_test | Loop_tasks int nat

record 'f world =
  tm :: "'f timer"
  loop :: loop_pc
  firing :: "'f firing option"
  issued :: "32 word list"
  calls :: "'f timer_entry list"

definition MainLoop_start :: "timer_os \<Rightarrow> 'f world \<Rightarrow> 'f world option" where
  "MainLoop_start os w =
     (case SetUp os (react (tm w)) of (ret, r) \<Rightarrow>
        if ret = TIMER_ERR_OK then Some (w\<lparr>tm := (tm w)\<lparr>react := r\<rparr>, loop := Loop_test\<rparr>)
        else do { r1 \<leftarrow> CleanUp os r; Some (w\<lparr>tm := (tm w)\<lparr>react := r1\<rparr>, loop := Loop_off\<rparr>) })"

definition RunLoop_exit :: "timer_os \<Rightarrow> 'f world \<Rightarrow> 'f world option" where
  "RunLoop_exit os w = do {
     r \<leftarrow> CleanUp os ((react (tm w))\<lparr>loopReady := False\<rparr>);
     Some (w\<lparr>tm := (tm w)\<lparr>react := r\<rparr>, loop := Loop_off\<rparr>)
   }"

definition RunLoop_turn :: "timer_os \<Rightarrow> epoll_wait_result \<Rightarrow> 'f world \<Rightarrow> 'f world option" where
  "RunLoop_turn os res w =
     (let r = react (tm w)
      in if \<not> (loopReady r \<and> switchedOn r) then RunLoop_exit os w
         else case Polling_collect res r of (n, r1) \<Rightarrow>
           let w1 = w\<lparr>tm := (tm w)\<lparr>react := r1\<rparr>\<rparr>
           in if n = EPOLL_CRITICAL_ERROR then RunLoop_exit os w1
              else if n \<le> 0 then Some w1
              else Some (w1\<lparr>loop := Loop_tasks n 0\<rparr>))"

definition Polling_next :: "timer_read \<Rightarrow> int \<Rightarrow> nat \<Rightarrow> 'f world \<Rightarrow> 'f world option" where
  "Polling_next rd n idx w =
     (if length (taskQue (react (tm w))) \<le> idx
      then Some (w\<lparr>tm := (tm w)\<lparr>react := Polling_done n (react (tm w))\<rparr>, loop := Loop_test\<rparr>)
      else do {
        c \<leftarrow> Polling_task idx rd (react (tm w));
        Some (case c of
            Some (OnTimer_cb, fd) \<Rightarrow>
              (case OnTimer_snapshot fd (tm w) of (f, t) \<Rightarrow> w\<lparr>tm := t, firing := Some f, loop := Loop_tasks n (Suc idx)\<rparr>)
          | _ \<Rightarrow> w\<lparr>loop := Loop_tasks n (Suc idx)\<rparr>)
      })"

section \<open>Identifiers\<close>

definition valid_id :: "32 word \<Rightarrow> bool" where
  "valid_id i \<longleftrightarrow> i \<noteq> 0 \<and> i \<noteq> TIMER_ERR_DEAL_FAILED \<and> i \<noteq> - 1"

lemma DEAL_FAILED_value: "TIMER_ERR_DEAL_FAILED = 65547"
  by (simp add: TIMER_ERR_DEAL_FAILED_def COMMON_TIMER_ERR_OFFSET_def push_bit_eq_mult)

lemma GetValidId_valid: "i \<noteq> 0 \<Longrightarrow> valid_id (GetValidId i)"
  by (simp add: valid_id_def GetValidId_def DEAL_FAILED_value)

lemma unat_succ: "i \<noteq> - 1 \<Longrightarrow> unat (i + 1 :: 32 word) = Suc (unat i)"
  by (metis Suc_eq_plus1 add.commute add_eq_0_iff unatSuc)

lemma unat_max: "unat (- 1 :: 32 word) = 4294967295"
  by (simp add: unsigned_minus_1_eq_mask mask_eq_exp_minus_1)

lemma valid_unat: "valid_id i \<longleftrightarrow> unat i \<noteq> 0 \<and> unat i \<noteq> 65547 \<and> unat i < 4294967295"
proof -
  have "unat i < 4294967296" using unsigned_less [of i] by simp
  moreover have "i = - 1 \<longleftrightarrow> unat i = unat (- 1 :: 32 word)" "i = 65547 \<longleftrightarrow> unat i = unat (65547 :: 32 word)"
    by (metis unsigned_word_eqI)+
  moreover note unat_max
  ultimately show ?thesis by (auto simp: valid_id_def DEAL_FAILED_value unat_eq_zero)
qed

lemma GetValidId_succ:
  assumes "valid_id i"
  shows "unat (GetValidId (i + 1)) =
    (if unat i = 65546 then 65548 else if unat i = 4294967294 then 1 else Suc (unat i))"
proof -
  have i: "i \<noteq> - 1" using assms by (simp add: valid_id_def)
  note s = unat_succ [OF i]
  have "i + 1 = 65547 \<longleftrightarrow> unat (i + 1) = unat (65547 :: 32 word)" "i + 1 = - 1 \<longleftrightarrow> unat (i + 1) = unat (- 1 :: 32 word)"
    by (metis unsigned_word_eqI)+
  then have df: "i + 1 = 65547 \<longleftrightarrow> unat i = 65546" and mx: "i + 1 = - 1 \<longleftrightarrow> unat i = 4294967294"
    unfolding s unat_max by auto
  have "unat (i + 1 + 1) = 65548" if "unat i = 65546"
    using unat_succ [of "i + 1"] mx s that by (simp del: add_eq_0_iff)
  then show ?thesis
    unfolding GetValidId_def DEAL_FAILED_value df mx by (simp add: s)
qed

lemma valid_succ: "valid_id i \<Longrightarrow> i + 1 \<noteq> 0"
  by (metis add_eq_0_iff valid_id_def add.commute)

lemma free_id_returns:
  assumes "valid_id i" "valid_id j" "\<not> used j"
  shows "\<exists>k. free_id used i = Some k \<and> valid_id k \<and> \<not> used k"
  using assms(1)
proof (induction "if unat i \<le> unat j then unat j - unat i else 4294967296 - unat i + unat j" arbitrary: i rule: less_induct)
  case less
  show ?case
  proof (cases "used i")
    case False
    then show ?thesis using less.prems by (simp add: free_id.simps)
  next
    case True
    then have "unat i \<noteq> unat j" using assms(3) unsigned_word_eqI [of i j] by auto
    let ?n = "GetValidId (i + 1)"
    have "valid_id ?n" using valid_succ [OF less.prems] by (rule GetValidId_valid)
    moreover have "(if unat ?n \<le> unat j then unat j - unat ?n else 4294967296 - unat ?n + unat j) <
        (if unat i \<le> unat j then unat j - unat i else 4294967296 - unat i + unat j)"
      using less.prems assms(2) \<open>unat i \<noteq> unat j\<close> unfolding GetValidId_succ [OF less.prems] by (auto simp: valid_unat)
    ultimately show ?thesis using less.hyps [of ?n] True by (simp add: free_id.simps [of used i])
  qed
qed

lemma free_id_sound:
  assumes "free_id used i = Some k" "valid_id i"
  shows "valid_id k \<and> \<not> used k"
proof -
  have "valid_id i \<longrightarrow> valid_id k \<and> \<not> used k"
  proof (rule free_id.raw_induct [OF _ assms(1), of "\<lambda>used i k. valid_id i \<longrightarrow> valid_id k \<and> \<not> used k"])
    fix f :: "(32 word \<Rightarrow> bool) \<Rightarrow> 32 word \<Rightarrow> 32 word option" and used i k
    assume ih: "\<And>used i k. f used i = Some k \<Longrightarrow> valid_id i \<longrightarrow> valid_id k \<and> \<not> used k"
      and "(if used i then f used (GetValidId (i + 1)) else Some i) = Some k"
    then show "valid_id i \<longrightarrow> valid_id k \<and> \<not> used k"
      using ih [of used "GetValidId (i + 1)" k] valid_succ GetValidId_valid by (auto split: if_splits)
  qed
  with assms(2) show ?thesis by blast
qed

section \<open>The invariant\<close>

text \<open>
  The two maps hold the same entries, a registered entry is armed in the reactor under its descriptor with its own
  interval and kind, a one-shot timer shares its descriptor with no other, and the periodic timers of an interval
  share one.
\<close>

definition armed :: "(int \<times> 32 word) list \<Rightarrow> timer_cb reactor \<Rightarrow> 'f timer_entry \<Rightarrow> bool" where
  "armed tms r e \<longleftrightarrow> map_of tms (te_fd e) = Some (te_interval e) \<and> scheduled r (te_fd e) = Some (te_interval e, te_once e)"

definition tinv :: "'f timer \<Rightarrow> bool" where
  "tinv t \<longleftrightarrow>
     reactor_inv (react t) \<and> nextTimerId t \<noteq> 0 \<and> distinct (map fst (intervalToTimers t)) \<and> distinct (map fst (timers t)) \<and>
     (\<forall>i. distinct (list_of i t)) \<and>
     (\<forall>i e. e \<in> set (list_of i t) \<longrightarrow> te_interval e = i \<and> timerToEntries t (te_id e) = Some e) \<and>
     (\<forall>i e. timerToEntries t i = Some e \<longrightarrow>
        te_id e = i \<and> valid_id i \<and> e \<in> set (list_of (te_interval e) t) \<and> 0 \<le> te_fd e \<and> armed (timers t) (react t) e) \<and>
     (\<forall>i j e k. timerToEntries t i = Some e \<longrightarrow> timerToEntries t j = Some k \<longrightarrow> te_fd e = te_fd k \<longrightarrow> te_once e \<longrightarrow> i = j) \<and>
     (\<forall>i j e k. timerToEntries t i = Some e \<longrightarrow> timerToEntries t j = Some k \<longrightarrow> \<not> te_once e \<longrightarrow> \<not> te_once k \<longrightarrow>
        te_interval e = te_interval k \<longrightarrow> te_fd e = te_fd k)"

lemma tinvD:
  assumes "tinv t"
  shows tinv_reactor: "reactor_inv (react t)" and tinv_next: "nextTimerId t \<noteq> 0"
    and tinv_keys: "distinct (map fst (intervalToTimers t))" "distinct (map fst (timers t))"
    and tinv_distinct: "distinct (list_of i t)"
    and tinv_listed: "e \<in> set (list_of i t) \<Longrightarrow> te_interval e = i \<and> timerToEntries t (te_id e) = Some e"
    and tinv_entry: "timerToEntries t j = Some e \<Longrightarrow>
      te_id e = j \<and> valid_id j \<and> e \<in> set (list_of (te_interval e) t) \<and> 0 \<le> te_fd e \<and> armed (timers t) (react t) e"
    and tinv_once: "timerToEntries t j = Some e \<Longrightarrow> timerToEntries t l = Some k \<Longrightarrow> te_fd e = te_fd k \<Longrightarrow> te_once e \<Longrightarrow> j = l"
    and tinv_shared: "timerToEntries t j = Some e \<Longrightarrow> timerToEntries t l = Some k \<Longrightarrow> \<not> te_once e \<Longrightarrow> \<not> te_once k \<Longrightarrow>
      te_interval e = te_interval k \<Longrightarrow> te_fd e = te_fd k"
  using assms unfolding tinv_def by blast+

lemma tinvI:
  assumes "reactor_inv (react t)" "nextTimerId t \<noteq> 0" "distinct (map fst (intervalToTimers t))" "distinct (map fst (timers t))"
    and "\<And>i. distinct (list_of i t)"
    and "\<And>i e. e \<in> set (list_of i t) \<Longrightarrow> te_interval e = i \<and> timerToEntries t (te_id e) = Some e"
    and "\<And>j e. timerToEntries t j = Some e \<Longrightarrow>
      te_id e = j \<and> valid_id j \<and> e \<in> set (list_of (te_interval e) t) \<and> 0 \<le> te_fd e \<and> armed (timers t) (react t) e"
    and "\<And>j l e k. timerToEntries t j = Some e \<Longrightarrow> timerToEntries t l = Some k \<Longrightarrow> te_fd e = te_fd k \<Longrightarrow> te_once e \<Longrightarrow> j = l"
    and "\<And>j l e k. timerToEntries t j = Some e \<Longrightarrow> timerToEntries t l = Some k \<Longrightarrow> \<not> te_once e \<Longrightarrow> \<not> te_once k \<Longrightarrow>
      te_interval e = te_interval k \<Longrightarrow> te_fd e = te_fd k"
  shows "tinv t"
  unfolding tinv_def by (intro conjI, (use assms in blast)+)

lemma list_of_update: "map_of (intervalToTimers t') = (map_of (intervalToTimers t))(i \<mapsto> es) \<Longrightarrow>
    list_of j t' = (if j = i then es else list_of j t)"
  by (simp add: list_of_def)

lemma list_of_delete: "map_of (intervalToTimers t') = (map_of (intervalToTimers t))(i := None) \<Longrightarrow>
    list_of j t' = (if j = i then [] else list_of j t)"
  by (simp add: list_of_def)

lemma touch_fields [simp]:
  "timerToEntries (touch i t) = timerToEntries t" "timers (touch i t) = timers t" "nextTimerId (touch i t) = nextTimerId t"
  "react (touch i t) = react t" "timeoutMs (touch i t) = timeoutMs t" "joinable (touch i t) = joinable t"
  "list_of j (touch i t) = list_of j t"
  by (auto simp: touch_def list_of_def update_conv' split: option.splits)

lemma touch_inv:
  assumes inv: "tinv t"
  shows "tinv (touch i t)"
proof -
  have "distinct (map fst (intervalToTimers (touch i t)))"
    using distinct_update [OF tinv_keys(1) [OF inv]] by (simp add: touch_def)
  then show ?thesis using inv unfolding tinv_def touch_fields by (elim conjE) (intro conjI; assumption)
qed

text \<open>Removing one entry keeps the invariant when the other entries stay armed.\<close>

lemma tinv_remove:
  assumes inv: "tinv t" and e: "timerToEntries t i = Some e"
    and entries: "timerToEntries t' = (timerToEntries t)(i := None)"
    and lists: "\<And>j. list_of j t' = (if j = te_interval e then remove1 e (list_of j t) else list_of j t)"
    and rest: "reactor_inv (react t')" "nextTimerId t' = nextTimerId t" "distinct (map fst (intervalToTimers t'))"
      "distinct (map fst (timers t'))"
    and others: "\<And>j k. timerToEntries t j = Some k \<Longrightarrow> j \<noteq> i \<Longrightarrow> armed (timers t') (react t') k"
  shows "tinv t'"
proof -
  have old: "timerToEntries t j = Some k" if "timerToEntries t' j = Some k" for j k
    using that by (simp add: entries split: if_splits)
  show ?thesis
proof (rule tinvI)
  fix j show "distinct (list_of j t')" using tinv_distinct [OF inv] by (simp add: lists)
next
  fix j k assume "k \<in> set (list_of j t')"
  then have k: "k \<in> set (list_of j t)" "j = te_interval e \<Longrightarrow> k \<noteq> e"
    using tinv_distinct [OF inv] by (auto simp: lists split: if_splits)
  note old = tinv_listed [OF inv k(1)]
  have "te_id k \<noteq> i"
  proof
    assume "te_id k = i"
    then have "k = e" using old e by simp
    then show False using k(2) old by simp
  qed
  then show "te_interval k = j \<and> timerToEntries t' (te_id k) = Some k" using old by (simp add: entries)
next
  fix j k assume "timerToEntries t' j = Some k"
  then have k: "timerToEntries t j = Some k" "j \<noteq> i" by (auto simp: entries split: if_splits)
  from tinv_entry [OF inv k(1)] tinv_entry [OF inv e] k(2)
  show "te_id k = j \<and> valid_id j \<and> k \<in> set (list_of (te_interval k) t') \<and> 0 \<le> te_fd k \<and> armed (timers t') (react t') k"
    using others [OF k] tinv_distinct [OF inv] by (auto simp: lists)
next
  fix j l k m assume "timerToEntries t' j = Some k" "timerToEntries t' l = Some m" "te_fd k = te_fd m" "te_once k"
  then show "j = l" by (intro tinv_once [OF inv, of j k l m] old)
next
  fix j l k m assume "timerToEntries t' j = Some k" "timerToEntries t' l = Some m" "\<not> te_once k" "\<not> te_once m"
    "te_interval k = te_interval m"
  then show "te_fd k = te_fd m" by (intro tinv_shared [OF inv, of j k l m] old)
qed (use rest tinv_next [OF inv] in auto)
qed

lemma CancelTimer_law:
  assumes "timer_os_ok os" "reactor_inv r"
  shows "\<exists>r'. CancelTimer os fd r = Some r' \<and> reactor_inv r' \<and> scheduled r' = (scheduled r)(fd := None)"
  using timer_reactor.cancel_law [of os r fd] assms by blast

lemma DoUnregister_law:
  assumes "timer_os_ok os" "reactor_inv (react t)" "distinct (map fst (timers t))"
  shows "\<exists>r. DoUnregister os ival t = Some (t\<lparr>react := r\<rparr>) \<and> reactor_inv r \<and>
    (\<forall>fd. scheduled r fd = (if map_of (timers t) fd = Some ival then None else scheduled (react t) fd))"
proof -
  let ?fds = "map fst (filter (\<lambda>p. snd p = ival) (timers t))"
  have "fd \<in> set ?fds \<longleftrightarrow> map_of (timers t) fd = Some ival" for fd
    using assms(3) by (force simp: map_of_eq_Some_iff)
  moreover obtain r where "cancel_each (CancelTimer os) ?fds (react t) = Some r" "reactor_inv r"
    "\<forall>fd. scheduled r fd = (if fd \<in> set ?fds then None else scheduled (react t) fd)"
    using timer_reactor.cancel_all_law [of os "react t" ?fds] assms(1,2) by blast
  ultimately show ?thesis by (intro exI [of _ r]) (simp add: DoUnregister_def)
qed

lemma tinv_insert:
  assumes inv: "tinv t" and new: "valid_id i" "timerToEntries t i = None"
    and e: "te_id e = i" "0 \<le> te_fd e" "armed (timers t') (react t') e"
    and entries: "timerToEntries t' = (timerToEntries t)(i \<mapsto> e)"
    and lists: "\<And>j. list_of j t' = (if j = te_interval e then list_of j t @ [e] else list_of j t)"
    and rest: "reactor_inv (react t')" "nextTimerId t' \<noteq> 0" "distinct (map fst (intervalToTimers t'))"
      "distinct (map fst (timers t'))"
    and others: "\<And>j k. timerToEntries t j = Some k \<Longrightarrow> armed (timers t') (react t') k"
    and own: "\<And>j k. timerToEntries t j = Some k \<Longrightarrow> te_fd k = te_fd e \<Longrightarrow> \<not> te_once k \<and> \<not> te_once e"
    and shared: "\<And>j k. timerToEntries t j = Some k \<Longrightarrow> \<not> te_once k \<Longrightarrow> \<not> te_once e \<Longrightarrow> te_interval k = te_interval e \<Longrightarrow>
      te_fd k = te_fd e"
  shows "tinv t'"
proof (rule tinvI)
  fix j
  have "e \<notin> set (list_of j t)" using tinv_listed [OF inv] new(2) e(1) by force
  then show "distinct (list_of j t')" using tinv_distinct [OF inv] by (auto simp: lists)
next
  fix j k assume "k \<in> set (list_of j t')"
  then show "te_interval k = j \<and> timerToEntries t' (te_id k) = Some k"
    using tinv_listed [OF inv, of k j] new(2) e(1) by (auto simp: lists entries split: if_splits)
next
  fix j k assume "timerToEntries t' j = Some k"
  then consider "j = i" "k = e" | "j \<noteq> i" "timerToEntries t j = Some k" by (auto simp: entries split: if_splits)
  then show "te_id k = j \<and> valid_id j \<and> k \<in> set (list_of (te_interval k) t') \<and> 0 \<le> te_fd k \<and> armed (timers t') (react t') k"
  proof cases
    case 2
    then show ?thesis using tinv_entry [OF inv 2(2)] others [OF 2(2)] by (auto simp: lists)
  qed (use e new in \<open>simp add: lists\<close>)
next
  fix j l k m assume "timerToEntries t' j = Some k" "timerToEntries t' l = Some m" "te_fd k = te_fd m" "te_once k"
  then show "j = l" using tinv_once [OF inv, of j k l m] own [of j k] own [of l m] by (simp add: entries split: if_splits)
next
  fix j l k m assume "timerToEntries t' j = Some k" "timerToEntries t' l = Some m" "\<not> te_once k" "\<not> te_once m"
    "te_interval k = te_interval m"
  then show "te_fd k = te_fd m"
    using tinv_shared [OF inv, of j k l m] shared [of j k] shared [of l m] by (metis entries fun_upd_apply option.inject)
qed (use rest in auto)

lemma GetTimerFd_spec:
  assumes inv: "tinv t"
  shows "(if GetTimerFd ival t = INVALID_TIMER_FD then \<forall>j k. timerToEntries t j = Some k \<longrightarrow> te_interval k = ival \<longrightarrow> te_once k
    else \<exists>j k. timerToEntries t j = Some k \<and> te_interval k = ival \<and> \<not> te_once k \<and> te_fd k = GetTimerFd ival t)"
proof (cases "List.find (\<lambda>e. \<not> te_once e) (list_of ival t)")
  case None
  then have "\<forall>k\<in>set (list_of ival t). te_once k" by (auto simp: find_None_iff)
  then have "\<forall>j k. timerToEntries t j = Some k \<longrightarrow> te_interval k = ival \<longrightarrow> te_once k"
    using tinv_entry [OF inv] by metis
  then show ?thesis using None by (simp add: GetTimerFd_def list_of_def split: option.splits)
next
  case (Some e)
  then have e: "e \<in> set (list_of ival t)" "\<not> te_once e" using find_first [OF Some] by auto
  then have fd: "GetTimerFd ival t = te_fd e" using Some by (auto simp: GetTimerFd_def list_of_def split: option.splits)
  note reg = tinv_listed [OF inv e(1)]
  have "0 \<le> te_fd e" using tinv_entry [OF inv] reg by blast
  then show ?thesis using reg e(2) by (auto simp: fd INVALID_TIMER_FD_def)
qed

lemma ScheduleTimer_law:
  assumes "timer_os_ok os" "reactor_inv r"
  shows "\<exists>ret fdo r'. ScheduleTimer os cb ival once r = Some ((ret, fdo), r') \<and> reactor_inv r' \<and>
      (if ret = TIMER_ERR_OK then \<exists>fd. fdo = Some fd \<and> 0 \<le> fd \<and> scheduled r fd = None \<and> scheduled r' = (scheduled r)(fd \<mapsto> (ival, once))
       else fdo = None \<and> scheduled r' = scheduled r)"
  using timer_reactor.schedule_law [of os r cb ival once] assms by blast

text \<open>The first half of \<^verbatim>\<open>Register\<close>: a descriptor for the new entry.\<close>

lemma register_fd:
  assumes inv: "tinv t" and os: "timer_os_ok os" and fd0_def: "fd0 = (if once then INVALID_TIMER_FD else GetTimerFd ival t)"
  shows "\<exists>ret fd t1 r tms. (if fd0 = INVALID_TIMER_FD then DoRegister os ival once t else Some ((TIMER_ERR_OK, fd0), t)) =
      Some ((ret, fd), t1) \<and> t1 = t\<lparr>react := r, timers := tms\<rparr> \<and> reactor_inv r \<and> distinct (map fst tms) \<and>
    (\<forall>j k. timerToEntries t j = Some k \<longrightarrow> armed tms r k) \<and>
    (ret = TIMER_ERR_OK \<longrightarrow> 0 \<le> fd \<and> map_of tms fd = Some ival \<and> scheduled r fd = Some (ival, once) \<and>
       (\<forall>j k. timerToEntries t j = Some k \<longrightarrow> te_fd k = fd \<longrightarrow> \<not> te_once k \<and> \<not> once) \<and>
       (\<forall>j k. timerToEntries t j = Some k \<longrightarrow> \<not> te_once k \<longrightarrow> \<not> once \<longrightarrow> te_interval k = ival \<longrightarrow> te_fd k = fd))"
proof (cases "fd0 = INVALID_TIMER_FD")
  case True
  have none: "te_once k" if "\<not> once" "timerToEntries t j = Some k" "te_interval k = ival" for j k
    using GetTimerFd_spec [OF inv, of ival] True that by (auto simp: fd0_def split: if_splits)
  obtain ret fdo r where r: "ScheduleTimer os OnTimer_cb ival once (react t) = Some ((ret, fdo), r)" "reactor_inv r"
    "if ret = TIMER_ERR_OK then \<exists>fd. fdo = Some fd \<and> 0 \<le> fd \<and> scheduled (react t) fd = None \<and>
       scheduled r = (scheduled (react t))(fd \<mapsto> (ival, once)) else fdo = None \<and> scheduled r = scheduled (react t)"
    using ScheduleTimer_law [OF os tinv_reactor [OF inv]] by blast
  show ?thesis
  proof (cases "ret = TIMER_ERR_OK")
    case ok: True
    with r(3) obtain fd where fd: "fdo = Some fd" "0 \<le> fd" "scheduled (react t) fd = None"
      "scheduled r = (scheduled (react t))(fd \<mapsto> (ival, once))" by auto
    have other: "te_fd k \<noteq> fd" if "timerToEntries t j = Some k" for j k
      using tinv_entry [OF inv that] fd(3) by (auto simp: armed_def)
    have "armed (AList.update fd ival (timers t)) r k" if "timerToEntries t j = Some k" for j k
      using tinv_entry [OF inv that] other [OF that] by (simp add: armed_def fd(4) update_conv')
    then show ?thesis
      using True ok r fd other none distinct_update [OF tinv_keys(2) [OF inv]]
      by (intro exI [of _ TIMER_ERR_OK] exI [of _ fd] exI [of _ "t\<lparr>react := r, timers := AList.update fd ival (timers t)\<rparr>"]
          exI [of _ r] exI [of _ "AList.update fd ival (timers t)"]) (auto simp: DoRegister_def update_conv')
  next
    case False
    then have "armed (timers t) r k" if "timerToEntries t j = Some k" for j k
      using tinv_entry [OF inv that] r(3) by (simp add: armed_def)
    then show ?thesis using True False r tinv_keys(2) [OF inv]
      by (intro exI [of _ ret] exI [of _ INVALID_TIMER_FD] exI [of _ "t\<lparr>react := r\<rparr>"] exI [of _ r] exI [of _ "timers t"])
        (auto simp: DoRegister_def)
  qed
next
  case False
  then have once: "\<not> once" "fd0 = GetTimerFd ival t" by (auto simp: fd0_def split: if_splits)
  then obtain j k where k: "timerToEntries t j = Some k" "te_interval k = ival" "\<not> te_once k" "te_fd k = fd0"
    using GetTimerFd_spec [OF inv, of ival] False by auto
  have "armed (timers t) (react t) m" if "timerToEntries t l = Some m" for l m using tinv_entry [OF inv that] by simp
  moreover have "\<not> te_once m" if "timerToEntries t l = Some m" "te_fd m = fd0" for l m
    using tinv_once [OF inv that(1) k(1)] that k by auto
  moreover have "te_fd m = fd0" if "timerToEntries t l = Some m" "\<not> te_once m" "te_interval m = ival" for l m
    using tinv_shared [OF inv that(1) k(1)] that k by auto
  ultimately show ?thesis
    using False once k tinv_entry [OF inv k(1)] tinv_reactor [OF inv] tinv_keys(2) [OF inv]
    by (intro exI [of _ TIMER_ERR_OK] exI [of _ fd0] exI [of _ t] exI [of _ "react t"] exI [of _ "timers t"]) (auto simp: armed_def)
qed

lemma tinv_rearmed:
  assumes inv: "tinv t" and "reactor_inv r" "distinct (map fst tms)"
    and "\<And>j k. timerToEntries t j = Some k \<Longrightarrow> armed tms r k"
  shows "tinv (t\<lparr>react := r, timers := tms\<rparr>)" (is "tinv ?t")
proof -
  have lists: "list_of j ?t = list_of j t" for j by (simp add: list_of_def)
  show ?thesis
  proof (rule tinvI)
    fix j k assume "timerToEntries ?t j = Some k"
    then have k: "timerToEntries t j = Some k" by simp
    from tinv_entry [OF inv k] assms(4) [OF k]
    show "te_id k = j \<and> valid_id j \<and> k \<in> set (list_of (te_interval k) ?t) \<and> 0 \<le> te_fd k \<and> armed (timers ?t) (react ?t) k"
      by (simp add: lists)
  next
    fix j l k m assume "timerToEntries ?t j = Some k" "timerToEntries ?t l = Some m" "te_fd k = te_fd m" "te_once k"
    then show "j = l" using tinv_once [OF inv, of j k l m] by simp
  next
    fix j l k m assume "timerToEntries ?t j = Some k" "timerToEntries ?t l = Some m" "\<not> te_once k" "\<not> te_once m"
      "te_interval k = te_interval m"
    then show "te_fd k = te_fd m" using tinv_shared [OF inv, of j k l m] by simp
  qed (use assms(2,3) tinv_next [OF inv] tinv_keys(1) [OF inv] tinv_distinct [OF inv] tinv_listed [OF inv] in \<open>auto simp: lists\<close>)
qed

lemma Register_inv:
  assumes inv: "tinv t" and os: "timer_os_ok os"
    and free: "(\<exists>j. valid_id j \<and> timerToEntries t j = None) \<or> Register os cb ival once t \<noteq> None"
  shows "\<exists>ret t'. Register os cb ival once t = Some (ret, t') \<and> tinv t' \<and> timeoutMs t' = timeoutMs t \<and> joinable t' = joinable t \<and>
    (ret = TIMER_ERR_DEAL_FAILED \<and> timerToEntries t' = timerToEntries t \<and> (\<forall>i. list_of i t' = list_of i t) \<or>
     valid_id ret \<and> timerToEntries t ret = None \<and>
     (\<exists>fd. timerToEntries t' = (timerToEntries t)(ret \<mapsto> \<lparr>te_id = ret, te_interval = ival, te_callback = cb, te_once = once, te_fd = fd\<rparr>)))"
proof -
  define fd0 where "fd0 = (if once then INVALID_TIMER_FD else GetTimerFd ival t)"
  from register_fd [OF inv os fd0_def] obtain ret fd t1 r tms where
    step: "(if fd0 = INVALID_TIMER_FD then DoRegister os ival once t else Some ((TIMER_ERR_OK, fd0), t)) = Some ((ret, fd), t1)"
    and t1: "t1 = t\<lparr>react := r, timers := tms\<rparr>" "reactor_inv r" "distinct (map fst tms)"
      "\<And>j k. timerToEntries t j = Some k \<Longrightarrow> armed tms r k"
    and ok: "ret = TIMER_ERR_OK \<Longrightarrow> 0 \<le> fd" "ret = TIMER_ERR_OK \<Longrightarrow> map_of tms fd = Some ival"
      "ret = TIMER_ERR_OK \<Longrightarrow> scheduled r fd = Some (ival, once)"
      "\<And>j k. ret = TIMER_ERR_OK \<Longrightarrow> timerToEntries t j = Some k \<Longrightarrow> te_fd k = fd \<Longrightarrow> \<not> te_once k \<and> \<not> once"
      "\<And>j k. ret = TIMER_ERR_OK \<Longrightarrow> timerToEntries t j = Some k \<Longrightarrow> \<not> te_once k \<Longrightarrow> \<not> once \<Longrightarrow> te_interval k = ival \<Longrightarrow> te_fd k = fd"
    by blast
  have unfold: "Register os cb ival once t = (if ret \<noteq> TIMER_ERR_OK then Some (TIMER_ERR_DEAL_FAILED, t1)
     else Option.bind (free_id (\<lambda>i. timerToEntries t1 i \<noteq> None) (GetValidId (nextTimerId t1)))
       (\<lambda>i. let e = \<lparr>te_id = i, te_interval = ival, te_callback = cb, te_once = once, te_fd = fd\<rparr> in
       Some (i, t1\<lparr>nextTimerId := i + 1, intervalToTimers := AList.update ival (list_of ival t1 @ [e]) (intervalToTimers t1),
                   timerToEntries := (timerToEntries t1)(i \<mapsto> e)\<rparr>)))"
    unfolding Register_def Let_def fd0_def [symmetric] step by simp
  have t1_lists: "list_of i t1 = list_of i t" for i by (simp add: t1 list_of_def)
  show ?thesis
  proof (cases "ret = TIMER_ERR_OK")
    case False
    then show ?thesis unfolding unfold
      using tinv_rearmed [OF inv t1(2-4)] t1(1) by (auto simp: t1_lists) (simp_all add: list_of_def)
  next
    case True
    have "valid_id (GetValidId (nextTimerId t1))" using tinv_next [OF inv] GetValidId_valid by (simp add: t1)
    note returns = free_id_returns [OF this, of _ "\<lambda>i. timerToEntries t1 i \<noteq> None"]
      and sound = free_id_sound [OF _ this, of "\<lambda>i. timerToEntries t1 i \<noteq> None"]
    have "free_id (\<lambda>i. timerToEntries t1 i \<noteq> None) (GetValidId (nextTimerId t1)) \<noteq> None"
      using free returns unfolding unfold by (auto simp: t1 True bind_eq_Some_conv)
    then obtain i where i: "free_id (\<lambda>i. timerToEntries t1 i \<noteq> None) (GetValidId (nextTimerId t1)) = Some i" "valid_id i"
      "timerToEntries t i = None" using sound by (auto simp: t1)
    let ?e = "\<lparr>te_id = i, te_interval = ival, te_callback = cb, te_once = once, te_fd = fd\<rparr>"
    let ?t = "t1\<lparr>nextTimerId := i + 1, intervalToTimers := AList.update ival (list_of ival t1 @ [?e]) (intervalToTimers t1),
                   timerToEntries := (timerToEntries t1)(i \<mapsto> ?e)\<rparr>"
    have lists: "list_of j ?t = (if j = ival then list_of j t @ [?e] else list_of j t)" for j
      by (subst list_of_update [of ?t t ival "list_of ival t1 @ [?e]"]) (simp_all add: update_conv' t1 t1_lists [unfolded t1])
    have "tinv ?t"
    proof (rule tinv_insert [OF inv i(2,3)])
      show "nextTimerId ?t \<noteq> 0" using valid_succ [OF i(2)] by simp
      show "distinct (map fst (intervalToTimers ?t))" using distinct_update [OF tinv_keys(1) [OF inv]] by (simp add: t1)
      show "armed (timers ?t) (react ?t) ?e" using ok(2,3) True by (simp add: armed_def t1(1))
      show "\<And>j. list_of j ?t = (if j = te_interval ?e then list_of j t @ [?e] else list_of j t)" using lists by simp
      show "armed (timers ?t) (react ?t) k" if "timerToEntries t j = Some k" for j k using t1(4) [OF that] by (simp add: t1(1))
      show "\<not> te_once k \<and> \<not> te_once ?e" if "timerToEntries t j = Some k" "te_fd k = te_fd ?e" for j k
        using ok(4) [OF True that(1)] that(2) by simp
      show "te_fd k = te_fd ?e" if "timerToEntries t j = Some k" "\<not> te_once k" "\<not> te_once ?e" "te_interval k = te_interval ?e" for j k
        using ok(5) [OF True that(1,2)] that(3,4) by simp
    qed (use ok(1) True t1(2,3) in \<open>simp_all add: t1(1)\<close>)
    moreover have "Register os cb ival once t = Some (i, ?t)" unfolding unfold using True i(1) by (simp add: Let_def)
    moreover have "timeoutMs ?t = timeoutMs t" "joinable ?t = joinable t" "timerToEntries ?t = (timerToEntries t)(i \<mapsto> ?e)"
      by (simp_all add: t1)
    ultimately show ?thesis using i(2,3) by blast
  qed
qed

text \<open>What follows the removal of an entry from its list, in \<^verbatim>\<open>Unregister\<close> and in \<^verbatim>\<open>EraseUnusedTimerId\<close>.\<close>

lemma finish_removal:
  assumes inv: "tinv t" and os: "timer_os_ok os" and e: "timerToEntries t i = Some e" "te_interval e = ival"
    and t1: "intervalToTimers t1 = AList.update ival (remove1 e (list_of ival t)) (intervalToTimers t)" "nextTimerId t1 = nextTimerId t"
      "reactor_inv (react t1)" "distinct (map fst (timers t1))"
    and others: "\<And>j k. timerToEntries t j = Some k \<Longrightarrow> j \<noteq> i \<Longrightarrow> armed (timers t1) (react t1) k"
  shows "\<exists>t2. (if list_of ival t1 = [] then DoUnregister os ival (t1\<lparr>intervalToTimers := AList.delete ival (intervalToTimers t1)\<rparr>)
      else Some t1) = Some t2 \<and> tinv (t2\<lparr>timerToEntries := (timerToEntries t)(i := None)\<rparr>) \<and> timerToEntries t2 = timerToEntries t1 \<and>
    (\<forall>j. list_of j t2 = (if j = ival then remove1 e (list_of j t) else list_of j t)) \<and>
    timeoutMs t2 = timeoutMs t1 \<and> joinable t2 = joinable t1 \<and>
    (\<forall>fd. scheduled (react t2) fd = (if list_of ival t2 = [] \<and> map_of (timers t1) fd = Some ival then None else scheduled (react t1) fd))"
proof -
  have lists1: "list_of j t1 = (if j = ival then remove1 e (list_of j t) else list_of j t)" for j
    using list_of_update [of t1 t ival "remove1 e (list_of ival t)" j] by (simp add: t1 update_conv')
  have keys1: "distinct (map fst (intervalToTimers t1))" using distinct_update [OF tinv_keys(1) [OF inv]] by (simp add: t1)
  show ?thesis
  proof (cases "list_of ival t1 = []")
    case False
    have "list_of j (t1\<lparr>timerToEntries := (timerToEntries t)(i := None)\<rparr>) = list_of j t1" for j by (simp add: list_of_def)
    then have "tinv (t1\<lparr>timerToEntries := (timerToEntries t)(i := None)\<rparr>)"
      using lists1 e(2) t1(2-4) keys1 others by (intro tinv_remove [OF inv e(1)]) auto
    with False show ?thesis using lists1 by simp
  next
    case True
    let ?t = "t1\<lparr>intervalToTimers := AList.delete ival (intervalToTimers t1)\<rparr>"
    from DoUnregister_law [OF os, of ?t ival] t1(3,4) obtain r where r: "DoUnregister os ival ?t = Some (?t\<lparr>react := r\<rparr>)"
      "reactor_inv r" "\<And>fd. scheduled r fd = (if map_of (timers t1) fd = Some ival then None else scheduled (react t1) fd)" by auto
    have lists2: "list_of j (?t\<lparr>react := r\<rparr>) = list_of j t1" for j
      using True list_of_delete [of "?t\<lparr>react := r\<rparr>" t1 ival j] by (simp add: delete_conv')
    have "armed (timers t1) r k" if "timerToEntries t j = Some k" "j \<noteq> i" for j k
    proof -
      have "te_interval k \<noteq> ival"
      proof
        assume "te_interval k = ival"
        then have "k \<in> set (list_of ival t)" using tinv_entry [OF inv that(1)] by simp
        moreover have "k \<noteq> e" using tinv_entry [OF inv that(1)] tinv_entry [OF inv e(1)] that(2) by auto
        ultimately show False using True lists1 [of ival] tinv_distinct [OF inv] by (metis in_set_remove1 empty_iff empty_set)
      qed
      then show ?thesis using others [OF that] by (simp add: armed_def r(3))
    qed
    moreover have "list_of j (?t\<lparr>react := r, timerToEntries := (timerToEntries t)(i := None)\<rparr>) = list_of j t1" for j
      using lists2 [of j] by (simp add: list_of_def)
    moreover have "distinct (map fst (AList.delete ival (intervalToTimers t1)))" using distinct_delete [OF keys1] .
    ultimately have "tinv (?t\<lparr>react := r, timerToEntries := (timerToEntries t)(i := None)\<rparr>)"
      using lists1 e(2) t1(2,4) r(2) by (intro tinv_remove [OF inv e(1)]) auto
    then show ?thesis using True r lists1 lists2 by (intro exI [of _ "?t\<lparr>react := r\<rparr>"]) auto
  qed
qed

lemma cancel_once:
  assumes inv: "tinv t" and os: "timer_os_ok os" and e: "timerToEntries t i = Some e" "te_once e"
  shows "\<exists>r. CancelTimer os (te_fd e) (react t) = Some r \<and> reactor_inv r \<and> scheduled r = (scheduled (react t))(te_fd e := None) \<and>
    (\<forall>j k. timerToEntries t j = Some k \<longrightarrow> j \<noteq> i \<longrightarrow> armed (AList.delete (te_fd e) (timers t)) r k)"
proof -
  obtain r where r: "CancelTimer os (te_fd e) (react t) = Some r" "reactor_inv r" "scheduled r = (scheduled (react t))(te_fd e := None)"
    using CancelTimer_law [OF os tinv_reactor [OF inv]] by blast
  have "armed (AList.delete (te_fd e) (timers t)) r k" if "timerToEntries t j = Some k" "j \<noteq> i" for j k
  proof -
    have "te_fd k \<noteq> te_fd e" using tinv_once [OF inv e(1) that(1)] e(2) that(2) by auto
    then show ?thesis using tinv_entry [OF inv that(1)] by (simp add: armed_def r(3) delete_conv')
  qed
  with r show ?thesis by blast
qed

lemma find_id:
  assumes inv: "tinv t" and e: "timerToEntries t i = Some e"
  shows "List.find (\<lambda>e. te_id e = i) (list_of (te_interval e) t) = Some e"
proof (cases "List.find (\<lambda>e. te_id e = i) (list_of (te_interval e) t)")
  case None
  then show ?thesis using tinv_entry [OF inv e] by (auto simp: find_None_iff)
next
  case (Some k)
  then have "k \<in> set (list_of (te_interval e) t)" "te_id k = i" using find_first [OF Some] by auto
  then have "timerToEntries t i = Some k" using tinv_listed [OF inv] by blast
  then show ?thesis using Some e by simp
qed

lemma Unregister_inv:
  assumes inv: "tinv t" and os: "timer_os_ok os"
  shows "\<exists>t'. Unregister os i t = Some t' \<and> tinv t' \<and> timerToEntries t' = (timerToEntries t)(i := None) \<and>
    timeoutMs t' = timeoutMs t \<and> joinable t' = joinable t \<and>
    (\<forall>e. timerToEntries t i = Some e \<longrightarrow> te_once e \<or> list_of (te_interval e) t' = [] \<longrightarrow> scheduled (react t') (te_fd e) = None)"
proof (cases "timerToEntries t i")
  case None
  then show ?thesis using inv by (simp add: Unregister_def fun_upd_idem)
next
  case (Some e)
  note found = find_id [OF inv Some]
  let ?r = "\<lambda>r. t\<lparr>react := r, timers := (if te_once e then AList.delete (te_fd e) (timers t) else timers t),
    intervalToTimers := AList.update (te_interval e) (remove1 e (list_of (te_interval e) t)) (intervalToTimers t)\<rparr>"
  obtain r where r: "(if te_once e then CancelTimer os (te_fd e) (react t) else Some (react t)) = Some r" "reactor_inv r"
    "\<And>j k. timerToEntries t j = Some k \<Longrightarrow> j \<noteq> i \<Longrightarrow> armed (timers (?r r)) r k"
    "te_once e \<Longrightarrow> scheduled r (te_fd e) = None" "\<not> te_once e \<Longrightarrow> map_of (timers (?r r)) (te_fd e) = Some (te_interval e)"
  proof (cases "te_once e")
    case True
    then show ?thesis using cancel_once [OF inv os Some] that by auto
  next
    case False
    then show ?thesis using that [of "react t"] tinv_reactor [OF inv] tinv_entry [OF inv] Some by (auto simp: armed_def)
  qed
  have "distinct (map fst (timers (?r r)))" using tinv_keys(2) [OF inv] distinct_delete by auto
  with r obtain t2 where t2: "(if list_of (te_interval e) (?r r) = [] then DoUnregister os (te_interval e)
      (?r r\<lparr>intervalToTimers := AList.delete (te_interval e) (intervalToTimers (?r r))\<rparr>) else Some (?r r)) = Some t2"
    "tinv (t2\<lparr>timerToEntries := (timerToEntries t)(i := None)\<rparr>)" "timerToEntries t2 = timerToEntries t"
    "timeoutMs t2 = timeoutMs t" "joinable t2 = joinable t"
    "\<And>fd. scheduled (react t2) fd = (if list_of (te_interval e) t2 = [] \<and> map_of (timers (?r r)) fd = Some (te_interval e) then None
       else scheduled r fd)"
    using finish_removal [OF inv os Some refl, of "?r r"] by auto
  have "Unregister os i t = Some (t2\<lparr>timerToEntries := (timerToEntries t)(i := None)\<rparr>)"
    using Some found r(1) t2(1,3) by (simp add: Unregister_def Let_def)
  moreover have "list_of j (t2\<lparr>timerToEntries := (timerToEntries t)(i := None)\<rparr>) = list_of j t2" for j by (simp add: list_of_def)
  ultimately show ?thesis using t2(2,4-6) Some r(4,5) by auto
qed

lemma erase_loop_inv:
  assumes "tinv t" "timer_os_ok os" "set es \<subseteq> set (list_of ival t)" "distinct es"
    and "\<And>e. e \<in> set es \<Longrightarrow> te_id e \<in> set ids \<Longrightarrow> te_once e"
  shows "\<exists>t'. erase_loop os ival ids es t = Some t' \<and> tinv t' \<and>
    timerToEntries t' = (\<lambda>i. if i \<in> set ids \<and> i \<in> te_id ` set es then None else timerToEntries t i) \<and>
    timeoutMs t' = timeoutMs t \<and> joinable t' = joinable t"
  using assms
proof (induction es arbitrary: t)
  case (Cons e es)
  note inv = Cons.prems(1)
  show ?case
  proof (cases "te_id e \<in> set ids")
    case False
    then show ?thesis using Cons.IH [OF inv Cons.prems(2)] Cons.prems by (auto simp: fun_eq_iff)
  next
    case True
    have e: "te_interval e = ival" "timerToEntries t (te_id e) = Some e" "te_once e"
      using tinv_listed [OF inv, of e ival] Cons.prems(3,5) True by auto
    obtain r where r: "CancelTimer os (te_fd e) (react t) = Some r" "reactor_inv r"
      "\<And>j k. timerToEntries t j = Some k \<Longrightarrow> j \<noteq> te_id e \<Longrightarrow> armed (AList.delete (te_fd e) (timers t)) r k"
      using cancel_once [OF inv Cons.prems(2) e(2,3)] by blast
    let ?t1 = "t\<lparr>react := r, timers := AList.delete (te_fd e) (timers t),
      intervalToTimers := AList.update ival (remove1 e (list_of ival t)) (intervalToTimers t),
      timerToEntries := (timerToEntries t)(te_id e := None)\<rparr>"
    obtain t2 where t2: "(if list_of ival ?t1 = [] then DoUnregister os ival (?t1\<lparr>intervalToTimers := AList.delete ival (intervalToTimers ?t1)\<rparr>)
        else Some ?t1) = Some t2" "tinv (t2\<lparr>timerToEntries := (timerToEntries t)(te_id e := None)\<rparr>)"
      "timerToEntries t2 = (timerToEntries t)(te_id e := None)" "list_of ival t2 = remove1 e (list_of ival t)"
      "timeoutMs t2 = timeoutMs t" "joinable t2 = joinable t"
      using finish_removal [OF inv Cons.prems(2) e(2,1), of ?t1] r(2,3) distinct_delete [OF tinv_keys(2) [OF inv]] by auto
    have inv2: "tinv t2" using t2(2) by (simp flip: t2(3))
    have left: "set es \<subseteq> set (list_of ival t2)"
      using Cons.prems(3,4) tinv_distinct [OF inv] by (auto simp: t2(4))
    have lists: "list_of ival ?t1 = remove1 e (list_of ival t)"
      using list_of_update [of ?t1 t ival "remove1 e (list_of ival t)" ival] by (simp add: update_conv')
    have step: "erase_loop os ival ids (e # es) t = (if list_of ival ?t1 = [] then Some t2 else erase_loop os ival ids es t2)"
      using True r(1) t2(1) by (auto simp: Let_def)
    show ?thesis
    proof (cases "list_of ival ?t1 = []")
      case empty: True
      then have "es = []" using left by (auto simp: t2(4) lists)
      then show ?thesis using step empty inv2 t2 True by (auto simp: fun_eq_iff)
    next
      case False
      obtain t3 where "erase_loop os ival ids es t2 = Some t3" "tinv t3"
        "timerToEntries t3 = (\<lambda>i. if i \<in> set ids \<and> i \<in> te_id ` set es then None else timerToEntries t2 i)"
        "timeoutMs t3 = timeoutMs t2" "joinable t3 = joinable t2"
        using Cons.IH [OF inv2 Cons.prems(2) left] Cons.prems(4,5) by auto
      then show ?thesis using step False t2 True by (auto simp: fun_eq_iff)
    qed
  qed
qed simp

lemma EraseUnusedTimerId_inv:
  assumes inv: "tinv t" and os: "timer_os_ok os"
    and ids: "\<And>i k. i \<in> set ids \<Longrightarrow> timerToEntries t i = Some k \<Longrightarrow> te_once k \<and> te_interval k = ival"
  shows "\<exists>t'. EraseUnusedTimerId os ival ids t = Some t' \<and> tinv t' \<and>
    timerToEntries t' = (\<lambda>i. if i \<in> set ids then None else timerToEntries t i) \<and> timeoutMs t' = timeoutMs t \<and> joinable t' = joinable t"
proof -
  have "te_once e" if "e \<in> set (list_of ival t)" "te_id e \<in> set ids" for e
    using tinv_listed [OF inv that(1)] ids [OF that(2)] by blast
  then obtain t' where t': "EraseUnusedTimerId os ival ids t = Some t'" "tinv t'" "timeoutMs t' = timeoutMs t" "joinable t' = joinable t"
    "timerToEntries t' = (\<lambda>i. if i \<in> set ids \<and> i \<in> te_id ` set (list_of ival t) then None else timerToEntries t i)"
    using erase_loop_inv [OF touch_inv [OF inv] os, of "list_of ival t" ival ival ids, unfolded touch_fields] tinv_distinct [OF inv]
    by (auto simp: EraseUnusedTimerId_def)
  have "timerToEntries t i = None" if "i \<in> set ids" "i \<notin> te_id ` set (list_of ival t)" for i
  proof (cases "timerToEntries t i")
    case (Some k)
    then have "k \<in> set (list_of ival t)" "te_id k = i" using tinv_entry [OF inv Some] ids [OF that(1) Some] by auto
    with that(2) show ?thesis by blast
  qed
  then have "timerToEntries t' = (\<lambda>i. if i \<in> set ids then None else timerToEntries t i)" by (auto simp: t'(5))
  with t' show ?thesis by blast
qed

lemma tinv_react:
  assumes "tinv t" "reactor_inv r" "\<And>j k. timerToEntries t j = Some k \<Longrightarrow> scheduled r (te_fd k) = scheduled (react t) (te_fd k)"
  shows "tinv (t\<lparr>react := r\<rparr>)"
  using tinv_rearmed [OF assms(1,2) tinv_keys(2) [OF assms(1)]] tinv_entry [OF assms(1)] assms(3) by (simp add: armed_def)

lemma tinv_joinable: "tinv (t\<lparr>joinable := b\<rparr>) = tinv t"
proof -
  have "list_of i (t\<lparr>joinable := b\<rparr>) = list_of i t" for i by (simp add: list_of_def)
  then show ?thesis by (simp add: tinv_def)
qed

lemma OnTimer_snapshot_inv:
  assumes inv: "tinv t" and f: "OnTimer_snapshot fd t = (f, t')"
  shows "tinv t'" "timerToEntries t' = timerToEntries t" "f_fd f = fd" "f_rest f = list_of (f_interval f) t" "f_once f = []"
    "timeoutMs t' = timeoutMs t" "joinable t' = joinable t"
proof -
  define ival where "ival = (case map_of (timers t) fd of None \<Rightarrow> 0 | Some i \<Rightarrow> i)"
  let ?t = "t\<lparr>react := react t, timers := AList.update fd ival (timers t)\<rparr>"
  have lists: "list_of i (t\<lparr>timers := x\<rparr>) = list_of i t" for i x by (simp add: list_of_def)
  have eq: "t' = touch ival (t\<lparr>timers := AList.update fd ival (timers t)\<rparr>)"
    "f = \<lparr>f_fd = fd, f_interval = ival, f_rest = list_of ival t, f_once = []\<rparr>"
    using f by (auto simp: OnTimer_snapshot_def Let_def ival_def lists)
  have "armed (AList.update fd ival (timers t)) (react t) k" if "timerToEntries t j = Some k" for j k
    using tinv_entry [OF inv that] by (auto simp: armed_def update_conv' ival_def)
  then have "tinv ?t"
    using tinv_rearmed [OF inv tinv_reactor [OF inv] distinct_update [OF tinv_keys(2) [OF inv]]] by blast
  then show "tinv t'" using touch_inv [of ?t ival] by (simp add: eq)
  show "timerToEntries t' = timerToEntries t" "f_fd f = fd" "f_rest f = list_of (f_interval f) t" "f_once f = []"
    "timeoutMs t' = timeoutMs t" "joinable t' = joinable t" unfolding eq by simp_all
qed

section \<open>Interleavings\<close>

text \<open>
  Any thread registers, unregisters or shuts down at any time; the loop thread turns its loop. A run in which the
  counter of \<^verbatim>\<open>Register\<close> comes round to an identifier issued before is excluded.
\<close>

inductive timer_step :: "'f world \<Rightarrow> 'f world \<Rightarrow> bool" where
  register: "timer_os_ok os \<Longrightarrow> Register os cb ival once (tm w) = Some (ret, t) \<Longrightarrow> ret = TIMER_ERR_DEAL_FAILED \<or> ret \<notin> set (issued w) \<Longrightarrow>
    timer_step w (w\<lparr>tm := t, issued := (if ret = TIMER_ERR_DEAL_FAILED then issued w else ret # issued w)\<rparr>)"
| unregister: "timer_os_ok os \<Longrightarrow> Unregister os i (tm w) = Some t \<Longrightarrow> timer_step w (w\<lparr>tm := t\<rparr>)"
| starting: "loop w = Loop_off \<Longrightarrow> Setup (tm w) = (TIMER_ERR_OK, t) \<Longrightarrow> timer_step w (w\<lparr>tm := t, loop := Loop_start\<rparr>)"
| shutdown: "timer_os_ok os \<Longrightarrow> Shutdown os useJoin (tm w) = Some (res, t) \<Longrightarrow> timer_step w (w\<lparr>tm := t\<rparr>)"
| main: "timer_os_ok os \<Longrightarrow> loop w = Loop_start \<Longrightarrow> MainLoop_start os w = Some w' \<Longrightarrow> timer_step w w'"
| turn: "timer_os_ok os \<Longrightarrow> loop w = Loop_test \<Longrightarrow> RunLoop_turn os evs w = Some w' \<Longrightarrow> timer_step w w'"
| task: "loop w = Loop_tasks n idx \<Longrightarrow> firing w = None \<Longrightarrow> Polling_next rd n idx w = Some w' \<Longrightarrow> timer_step w w'"
| entry: "firing w = Some f \<Longrightarrow> f_rest f \<noteq> [] \<Longrightarrow> OnTimer_entry (tm w) f = (c, f') \<Longrightarrow>
    timer_step w (w\<lparr>firing := Some f', calls := (case c of None \<Rightarrow> calls w | Some e \<Rightarrow> calls w @ [e])\<rparr>)"
| fired: "timer_os_ok os \<Longrightarrow> firing w = Some f \<Longrightarrow> f_rest f = [] \<Longrightarrow> OnTimer_end os f (tm w) = Some t \<Longrightarrow>
    timer_step w (w\<lparr>tm := t, firing := None\<rparr>)"

definition world_init :: "'f world \<Rightarrow> bool" where
  "world_init w \<longleftrightarrow> (\<exists>os fds ms. w = \<lparr>tm = Timer_new os fds ms, loop = Loop_off, firing = None, issued = [], calls = []\<rparr>)"

text \<open>What \<^verbatim>\<open>OnTimer\<close> knows while it runs: the snapshot is of its interval, and its identifiers still mean the same entries.\<close>

definition firing_ok :: "(32 word \<Rightarrow> 'f timer_entry option) \<Rightarrow> 32 word set \<Rightarrow> 'f timer_entry set \<Rightarrow> 'f firing \<Rightarrow> bool" where
  "firing_ok m used called f \<longleftrightarrow>
     (\<forall>e\<in>set (f_rest f). te_interval e = f_interval f \<and> te_id e \<in> used \<and> (\<forall>k. m (te_id e) = Some k \<longrightarrow> k = e) \<and>
        te_id e \<notin> set (f_once f) \<and> te_id e \<notin> te_id ` called) \<and>
     distinct (map te_id (f_rest f)) \<and>
     (\<forall>i\<in>set (f_once f). i \<in> used \<and> (\<forall>k. m i = Some k \<longrightarrow> te_once k \<and> te_interval k = f_interval f))"

definition onces :: "'f world \<Rightarrow> 'f timer_entry list" where
  "onces w = filter te_once (calls w)"

definition winv :: "'f world \<Rightarrow> bool" where
  "winv w \<longleftrightarrow> tinv (tm w) \<and>
     (\<forall>i e. timerToEntries (tm w) i = Some e \<longrightarrow> i \<in> set (issued w)) \<and>
     (\<forall>f. firing w = Some f \<longrightarrow> firing_ok (timerToEntries (tm w)) (set (issued w)) (set (onces w)) f) \<and>
     (\<forall>e\<in>set (onces w). te_id e \<in> set (issued w) \<and>
        (timerToEntries (tm w) (te_id e) = None \<or> (\<exists>f. firing w = Some f \<and> te_id e \<in> set (f_once f)))) \<and>
     distinct (map te_id (onces w))"

lemma winvD:
  assumes "winv w"
  shows winv_tm: "tinv (tm w)" and winv_issued: "timerToEntries (tm w) i = Some e \<Longrightarrow> i \<in> set (issued w)"
    and winv_firing: "firing w = Some f \<Longrightarrow> firing_ok (timerToEntries (tm w)) (set (issued w)) (set (onces w)) f"
    and winv_called: "k \<in> set (onces w) \<Longrightarrow> te_id k \<in> set (issued w) \<and>
      (timerToEntries (tm w) (te_id k) = None \<or> (\<exists>f. firing w = Some f \<and> te_id k \<in> set (f_once f)))"
    and winv_once: "distinct (map te_id (onces w))"
  using assms unfolding winv_def by blast+

lemma winvI:
  assumes "tinv (tm w)" "\<And>i e. timerToEntries (tm w) i = Some e \<Longrightarrow> i \<in> set (issued w)"
    and "\<And>f. firing w = Some f \<Longrightarrow> firing_ok (timerToEntries (tm w)) (set (issued w)) (set (onces w)) f"
    and "\<And>k. k \<in> set (onces w) \<Longrightarrow> te_id k \<in> set (issued w) \<and>
      (timerToEntries (tm w) (te_id k) = None \<or> (\<exists>f. firing w = Some f \<and> te_id k \<in> set (f_once f)))"
    and "distinct (map te_id (onces w))"
  shows "winv w"
  unfolding winv_def by (intro conjI, (use assms in blast)+)

lemma firing_ok_mono:
  assumes "firing_ok m used called f" "used \<subseteq> used'" "\<And>i e. i \<in> used \<Longrightarrow> m' i = Some e \<Longrightarrow> m i = Some e"
  shows "firing_ok m' used' called f"
  using assms unfolding firing_ok_def by (elim conjE, intro conjI ballI allI impI) (assumption | blast)+

text \<open>Steps that change the registrations only by removing some.\<close>

lemma winv_fewer:
  assumes inv: "winv w" and t: "tinv (tm w')" "\<And>i e. timerToEntries (tm w') i = Some e \<Longrightarrow> timerToEntries (tm w) i = Some e"
    and same: "firing w' = firing w" "issued w' = issued w" "calls w' = calls w"
  shows "winv w'"
proof (rule winvI)
  fix f assume "firing w' = Some f"
  then have "firing_ok (timerToEntries (tm w)) (set (issued w)) (set (onces w)) f" using winv_firing [OF inv] by (simp add: same)
  then show "firing_ok (timerToEntries (tm w')) (set (issued w')) (set (onces w')) f"
    using t(2) by (auto simp: same onces_def intro: firing_ok_mono)
next
  fix k assume "k \<in> set (onces w')"
  then have "te_id k \<in> set (issued w) \<and> (timerToEntries (tm w) (te_id k) = None \<or> (\<exists>f. firing w = Some f \<and> te_id k \<in> set (f_once f)))"
    using winv_called [OF inv] by (simp add: same onces_def)
  then show "te_id k \<in> set (issued w') \<and> (timerToEntries (tm w') (te_id k) = None \<or> (\<exists>f. firing w' = Some f \<and> te_id k \<in> set (f_once f)))"
    using t(2) by (metis same(1,2) not_None_eq)
qed (use t winv_issued [OF inv] winv_once [OF inv] in \<open>auto simp: same onces_def\<close>)

lemma winv_react:
  assumes inv: "winv w" and "reactor_inv r" "scheduled r = scheduled (react (tm w))"
    and "w' = w\<lparr>tm := (tm w)\<lparr>react := r\<rparr>, loop := l\<rparr>"
  shows "winv w'"
  using tinv_react [OF winv_tm [OF inv] assms(2)] assms(3,4) by (intro winv_fewer [OF inv]) auto

lemma winv_register:
  assumes inv: "winv w" and os: "timer_os_ok os" and reg: "Register os cb ival once (tm w) = Some (ret, t)"
    and new: "ret = TIMER_ERR_DEAL_FAILED \<or> ret \<notin> set (issued w)"
  shows "winv (w\<lparr>tm := t, issued := (if ret = TIMER_ERR_DEAL_FAILED then issued w else ret # issued w)\<rparr>)" (is "winv ?w")
proof -
  from Register_inv [OF winv_tm [OF inv] os, of cb ival once] reg have t: "tinv t"
    and res: "ret = TIMER_ERR_DEAL_FAILED \<and> timerToEntries t = timerToEntries (tm w) \<or>
     valid_id ret \<and> (\<exists>e. timerToEntries t = (timerToEntries (tm w))(ret \<mapsto> e))" by auto
  show ?thesis
  proof (cases "ret = TIMER_ERR_DEAL_FAILED")
    case True
    then have "timerToEntries t = timerToEntries (tm w)" using res by (auto simp: valid_id_def)
    then show ?thesis using t True by (intro winv_fewer [OF inv]) auto
  next
    case False
    with res obtain e where e: "timerToEntries t = (timerToEntries (tm w))(ret \<mapsto> e)" by auto
    have fresh: "ret \<notin> set (issued w)" using new False by blast
    show ?thesis
    proof (rule winvI)
      fix f assume "firing ?w = Some f"
      then show "firing_ok (timerToEntries (tm ?w)) (set (issued ?w)) (set (onces ?w)) f"
        using winv_firing [OF inv, of f] fresh by (auto simp: e onces_def split: if_splits intro: firing_ok_mono)
    next
      fix k assume "k \<in> set (onces ?w)"
      then show "te_id k \<in> set (issued ?w) \<and>
          (timerToEntries (tm ?w) (te_id k) = None \<or> (\<exists>f. firing ?w = Some f \<and> te_id k \<in> set (f_once f)))"
        using winv_called [OF inv, of k] fresh by (auto simp: e onces_def)
    qed (use t winv_issued [OF inv] winv_once [OF inv] False in \<open>auto simp: e onces_def split: if_splits\<close>)
  qed
qed

lemma winv_shutdown:
  assumes inv: "winv w" and os: "timer_os_ok os" and res: "Shutdown os useJoin (tm w) = Some (res, t)"
  shows "winv (w\<lparr>tm := t\<rparr>)"
proof -
  note ti = winv_tm [OF inv]
  obtain r where t: "timerToEntries t = timerToEntries (tm w)" "t = (tm w)\<lparr>react := r, joinable := joinable t\<rparr>" "reactor_inv r"
    "\<And>fd. scheduled (react (tm w)) fd \<noteq> None \<Longrightarrow> scheduled r fd = scheduled (react (tm w)) fd"
  proof (cases "joinable (tm w) \<and> timeoutMs (tm w) = -1 \<and> intervalToTimers (tm w) = []")
    case True
    have off: "reactor_inv (SwitchOff (react (tm w)))"
      using SetUp_SwitchOn_Off(3) tinv_reactor [OF ti] by (simp add: reactor_inv_def)
    from ScheduleTimer_law [OF os off, of Pseudo_task 0 True] obtain ret fdo r where
      r: "ScheduleTimer os Pseudo_task 0 True (SwitchOff (react (tm w))) = Some ((ret, fdo), r)" "reactor_inv r"
      "if ret = TIMER_ERR_OK then \<exists>fd. fdo = Some fd \<and> 0 \<le> fd \<and> scheduled (react (tm w)) fd = None \<and>
         scheduled r = (scheduled (react (tm w)))(fd \<mapsto> (0, True)) else fdo = None \<and> scheduled r = scheduled (react (tm w))"
      unfolding SetUp_SwitchOn_Off(6) by blast
    have "scheduled r fd = scheduled (react (tm w)) fd" if "scheduled (react (tm w)) fd \<noteq> None" for fd
      using r(3) that by (auto split: if_splits)
    with r(1,2)
    show ?thesis using that [of r] res True by (auto simp: Shutdown_def Let_def)
  next
    case False
    then consider "t = tm w" | "t = (tm w)\<lparr>react := SwitchOff (react (tm w)), joinable := False\<rparr>"
      using res by (auto simp: Shutdown_def Let_def split: if_splits)
    then show ?thesis
    proof cases
      case 1
      then show ?thesis using that [of "react (tm w)"] tinv_reactor [OF ti] by simp
    next
      case 2
      then show ?thesis using that [of "SwitchOff (react (tm w))"] tinv_reactor [OF ti]
        by (simp add: reactor_inv_def SetUp_SwitchOn_Off(3,6))
    qed
  qed
  have "scheduled r (te_fd k) = scheduled (react (tm w)) (te_fd k)" if "timerToEntries (tm w) j = Some k" for j k
    using tinv_entry [OF ti that] t(4) by (simp add: armed_def)
  from tinv_react [OF ti t(3) this] have "tinv ((tm w)\<lparr>react := r\<rparr>)" .
  then have "tinv t"
    using t(2) by (metis tinv_joinable)
  then show ?thesis using t(1) by (intro winv_fewer [OF inv]) auto
qed

lemma winv_exit:
  assumes inv: "winv w" and os: "timer_os_ok os" and res: "RunLoop_exit os w = Some w'"
  shows "winv w'"
proof -
  have "reactor_inv ((react (tm w))\<lparr>loopReady := False\<rparr>)" "scheduled ((react (tm w))\<lparr>loopReady := False\<rparr>) = scheduled (react (tm w))"
    using rinv_flags [of "{}" "react (tm w)", where e = "epollOpen (react (tm w))" and l = False and s = "switchedOn (react (tm w))"]
      tinv_reactor [OF winv_tm [OF inv]] by (simp_all add: reactor_inv_def scheduled_def)
  then obtain r where "CleanUp os ((react (tm w))\<lparr>loopReady := False\<rparr>) = Some r" "reactor_inv r"
    "scheduled r = scheduled (react (tm w))" using CleanUp_inv [of "{}" _ os] os by (fastforce simp: reactor_inv_def)
  then show ?thesis using res winv_react [OF inv] by (auto simp: RunLoop_exit_def)
qed

lemma winv_main:
  assumes inv: "winv w" and os: "timer_os_ok os" and res: "MainLoop_start os w = Some w'"
  shows "winv w'"
proof -
  obtain ret r where su: "SetUp os (react (tm w)) = (ret, r)" by fastforce
  have r: "reactor_inv r" "scheduled r = scheduled (react (tm w))"
    using SetUp_SwitchOn_Off(1) [of "{}" "react (tm w)" os] SetUp_SwitchOn_Off(4) [of os "react (tm w)"] tinv_reactor [OF winv_tm [OF inv]] by (simp_all add: su reactor_inv_def)
  obtain r1 where "CleanUp os r = Some r1" "reactor_inv r1" "scheduled r1 = scheduled (react (tm w))"
    using CleanUp_inv [of "{}" r os] os r by (auto simp: reactor_inv_def)
  then show ?thesis using res r winv_react [OF inv] by (auto simp: MainLoop_start_def su split: if_splits)
qed

lemma winv_turn:
  assumes inv: "winv w" and os: "timer_os_ok os" and res: "RunLoop_turn os evs w = Some w'"
  shows "winv w'"
proof (cases "loopReady (react (tm w)) \<and> switchedOn (react (tm w))")
  case False
  then show ?thesis using res winv_exit [OF inv os] by (auto simp: RunLoop_turn_def Let_def)
next
  case True
  obtain n r where p: "Polling_collect evs (react (tm w)) = (n, r)" by fastforce
  let ?w = "w\<lparr>tm := (tm w)\<lparr>react := r\<rparr>\<rparr>"
  have r: "reactor_inv r" "scheduled r = scheduled (react (tm w))"
    using Polling_collect_inv [of "{}" "react (tm w)" evs] tinv_reactor [OF winv_tm [OF inv]] by (simp_all add: p reactor_inv_def)
  have inv1: "winv (?w\<lparr>loop := l\<rparr>)" for l using winv_react [OF inv r] by simp
  have "winv ?w" using inv1 [of "loop w"] by simp
  then show ?thesis using True res inv1 winv_exit [OF _ os, of ?w] by (auto simp: RunLoop_turn_def Let_def p split: if_splits)
qed

lemma winv_snapshot:
  assumes inv: "winv w" and idle: "firing w = None" and f: "OnTimer_snapshot fd (tm w) = (f, t)"
  shows "winv (w\<lparr>tm := t, firing := Some f, loop := l\<rparr>)" (is "winv ?w")
proof (rule winvI)
  note snap = OnTimer_snapshot_inv [OF winv_tm [OF inv] f]
  show "tinv (tm ?w)" using snap(1) by simp
  show "\<And>i e. timerToEntries (tm ?w) i = Some e \<Longrightarrow> i \<in> set (issued ?w)" using winv_issued [OF inv] by (simp add: snap(2))
  show "distinct (map te_id (onces ?w))" using winv_once [OF inv] by (simp add: onces_def)
  fix k assume "k \<in> set (onces ?w)"
  then show "te_id k \<in> set (issued ?w) \<and>
      (timerToEntries (tm ?w) (te_id k) = None \<or> (\<exists>f. firing ?w = Some f \<and> te_id k \<in> set (f_once f)))"
    using winv_called [OF inv, of k] idle by (simp add: onces_def snap(2))
next
  note snap = OnTimer_snapshot_inv [OF winv_tm [OF inv] f] and ti = winv_tm [OF inv]
  fix g assume "firing ?w = Some g"
  then have g: "g = f" by simp
  have "timerToEntries (tm w) (te_id e) = Some e \<and> te_interval e = f_interval f" if "e \<in> set (f_rest f)" for e
    using tinv_listed [OF ti, of e "f_interval f"] that by (simp add: snap(4))
  moreover have "timerToEntries (tm w) (te_id e) = None" if "e \<in> set (onces w)" for e
    using winv_called [OF inv that] idle by simp
  moreover have "distinct (map te_id (f_rest f))"
    using tinv_distinct [OF ti, of "f_interval f"] tinv_listed [OF ti] unfolding snap(4) distinct_map
    by (auto intro!: inj_onI) (metis option.inject)
  ultimately show "firing_ok (timerToEntries (tm ?w)) (set (issued ?w)) (set (onces ?w)) g"
    using winv_issued [OF inv] unfolding g firing_ok_def by (fastforce simp: snap(2,5) onces_def)
qed

lemma winv_task:
  assumes inv: "winv w" and idle: "firing w = None" and res: "Polling_next rd n idx w = Some w'"
  shows "winv w'"
proof (cases "length (taskQue (react (tm w))) \<le> idx")
  case True
  have "reactor_inv (Polling_done n (react (tm w)))" "scheduled (Polling_done n (react (tm w))) = scheduled (react (tm w))"
    using Polling_done_inv tinv_reactor [OF winv_tm [OF inv]] by (auto simp: reactor_inv_def)
  then show ?thesis using True res winv_react [OF inv] by (auto simp: Polling_next_def)
next
  case False
  then obtain c where c: "Polling_task idx rd (react (tm w)) = Some c" using res by (auto simp: Polling_next_def bind_eq_Some_conv)
  have skip: "winv (w\<lparr>loop := l\<rparr>)" for l using winv_tm [OF inv] by (intro winv_fewer [OF inv]) auto
  show ?thesis
  proof (cases c)
    case None
    then show ?thesis using False res c skip by (auto simp: Polling_next_def)
  next
    case (Some p)
    obtain b fd where p: "p = (b, fd)" by fastforce
    obtain f t where "OnTimer_snapshot fd (tm w) = (f, t)" by fastforce
    then show ?thesis using False res c skip winv_snapshot [OF inv idle] Some p by (cases b) (auto simp: Polling_next_def)
  qed
qed

lemma winv_entry:
  assumes inv: "winv w" and f: "firing w = Some f" "f_rest f = e # es" and res: "OnTimer_entry (tm w) f = (c, f')"
  shows "winv (w\<lparr>firing := Some f', calls := (case c of None \<Rightarrow> calls w | Some k \<Rightarrow> calls w @ [k])\<rparr>)" (is "winv ?w")
proof -
  note ok = winv_firing [OF inv f(1), unfolded firing_ok_def f(2)]
  show ?thesis
  proof (cases "te_fd e = f_fd f \<and> te_once e")
    case False
    then have f': "f' = f\<lparr>f_rest := es\<rparr>" and c: "\<And>k. c = Some k \<Longrightarrow> k = e \<and> \<not> te_once e"
      using res f(2) by (auto simp: OnTimer_entry_def split: if_splits)
    have onces: "onces ?w = onces w" using c by (auto simp: onces_def split: option.splits)
    show ?thesis
    proof (rule winvI)
      fix g assume "firing ?w = Some g"
      then have "g = f\<lparr>f_rest := es\<rparr>" by (simp add: f')
      then show "firing_ok (timerToEntries (tm ?w)) (set (issued ?w)) (set (onces ?w)) g"
        using ok unfolding onces firing_ok_def by simp
    next
      fix k assume "k \<in> set (onces ?w)"
      then show "te_id k \<in> set (issued ?w) \<and> (timerToEntries (tm ?w) (te_id k) = None \<or> (\<exists>f. firing ?w = Some f \<and> te_id k \<in> set (f_once f)))"
        using winv_called [OF inv, of k] f(1) unfolding onces by (auto simp: f')
    qed (use winv_tm [OF inv] winv_issued [OF inv] winv_once [OF inv] in \<open>auto simp: onces\<close>)
  next
    case True
    then have f': "f' = f\<lparr>f_rest := es, f_once := f_once f @ [te_id e]\<rparr>" and c: "c = None \<or> c = Some e"
      using res f(2) by (auto simp: OnTimer_entry_def split: if_splits)
    have onces: "onces ?w = onces w \<or> onces ?w = onces w @ [e]" using c True by (auto simp: onces_def)
    have new: "te_id e \<notin> te_id ` set (onces w)" "te_id e \<in> set (issued w)" "te_interval e = f_interval f"
      "\<And>k. timerToEntries (tm w) (te_id e) = Some k \<Longrightarrow> k = e" "te_id e \<notin> te_id ` set es"
      using ok by auto
    show ?thesis
    proof (rule winvI)
      fix g assume "firing ?w = Some g"
      then have g: "g = f\<lparr>f_rest := es, f_once := f_once f @ [te_id e]\<rparr>" by (simp add: f')
      have sub: "te_id ` set (onces ?w) \<subseteq> insert (te_id e) (te_id ` set (onces w))" using onces by auto
      have "te_id k \<notin> set (f_once g) \<and> te_id k \<notin> te_id ` set (onces ?w)" if k: "k \<in> set es" for k
      proof -
        have "te_id k \<noteq> te_id e" using new(5) k by (metis imageI)
        moreover have "te_id k \<notin> set (f_once f)" "te_id k \<notin> te_id ` set (onces w)" using ok k by simp_all
        ultimately show ?thesis using sub unfolding g by auto
      qed
      moreover have "\<forall>k. timerToEntries (tm w) (te_id e) = Some k \<longrightarrow> te_once k \<and> te_interval k = f_interval f"
        using new(3,4) True by blast
      ultimately show "firing_ok (timerToEntries (tm ?w)) (set (issued ?w)) (set (onces ?w)) g"
        using ok unfolding firing_ok_def g by simp (use new(3,4) in blast)
    next
      fix k assume "k \<in> set (onces ?w)"
      then have "k \<in> set (onces w) \<or> k = e" using onces by auto
      then show "te_id k \<in> set (issued ?w) \<and> (timerToEntries (tm ?w) (te_id k) = None \<or> (\<exists>f. firing ?w = Some f \<and> te_id k \<in> set (f_once f)))"
        using winv_called [OF inv, of k] f(1) new(2) by (auto simp: f')
    next
      show "distinct (map te_id (onces ?w))" using onces new(1) winv_once [OF inv] by auto
    qed (use winv_tm [OF inv] winv_issued [OF inv] in auto)
  qed
qed

lemma winv_fired:
  assumes inv: "winv w" and os: "timer_os_ok os" and f: "firing w = Some f" "f_rest f = []" and res: "OnTimer_end os f (tm w) = Some t"
  shows "winv (w\<lparr>tm := t, firing := None\<rparr>)" "timerToEntries t = (\<lambda>i. if i \<in> set (f_once f) then None else timerToEntries (tm w) i)"
proof -
  have once: "te_once k \<and> te_interval k = f_interval f" if "i \<in> set (f_once f)" "timerToEntries (tm w) i = Some k" for i k
    using winv_firing [OF inv f(1)] that by (auto simp: firing_ok_def)
  have t: "tinv t" "timerToEntries t = (\<lambda>i. if i \<in> set (f_once f) then None else timerToEntries (tm w) i)"
    using EraseUnusedTimerId_inv [OF winv_tm [OF inv] os, of "f_once f" "f_interval f"] once res winv_tm [OF inv]
    by (auto simp: OnTimer_end_def split: if_splits)
  show "timerToEntries t = (\<lambda>i. if i \<in> set (f_once f) then None else timerToEntries (tm w) i)" by (rule t(2))
  show "winv (w\<lparr>tm := t, firing := None\<rparr>)" (is "winv ?w")
  proof (rule winvI)
    fix k assume "k \<in> set (onces ?w)"
    then show "te_id k \<in> set (issued ?w) \<and> (timerToEntries (tm ?w) (te_id k) = None \<or> (\<exists>f. firing ?w = Some f \<and> te_id k \<in> set (f_once f)))"
      using winv_called [OF inv, of k] f(1) by (auto simp: t(2) onces_def)
  qed (use t winv_issued [OF inv] winv_once [OF inv] in \<open>auto simp: onces_def split: if_splits\<close>)
qed

interpretation timer_runs: inductive_invariant world_init timer_step winv
proof
  fix w :: "'a world" assume "world_init w"
  then obtain os fds ms where w: "w = \<lparr>tm = Timer_new os fds ms, loop = Loop_off, firing = None, issued = [], calls = []\<rparr>"
    by (auto simp: world_init_def)
  have "reach (\<lambda>r. \<exists>os fds. r = EventReactor_new os fds) reactor_step (EventReactor_new os fds :: timer_cb reactor)"
    by (rule reach.start) blast
  from reactor_runs.always [OF this] show "winv w"
    by (simp add: winv_def tinv_def w Timer_new_def list_of_def onces_def)
next
  fix w w' :: "'a world" assume inv: "winv w" and "timer_step w w'"
  from this(2) show "winv w'"
  proof cases
    case (register os cb ival once ret t)
    then show ?thesis using winv_register [OF inv] by blast
  next
    case (unregister os i t)
    then show ?thesis using Unregister_inv [OF winv_tm [OF inv], of os i]
      by (intro winv_fewer [OF inv]) (auto split: if_splits)
  next
    case (starting t)
    then have "t = (tm w)\<lparr>react := SwitchOn (react (tm w)), joinable := True\<rparr>" by (auto simp: Setup_def TIMER_ERR_OK_def
        TIMER_ERR_INVALID_VALUE_def COMMON_TIMER_ERR_OFFSET_def split: if_splits)
    moreover have "tinv ((tm w)\<lparr>react := SwitchOn (react (tm w))\<rparr>)"
      using winv_tm [OF inv] tinv_reactor [OF winv_tm [OF inv]] by (intro tinv_react) (simp_all add: reactor_inv_def SetUp_SwitchOn_Off(2,5))
    ultimately show ?thesis using starting by (intro winv_fewer [OF inv]) (simp_all add: tinv_joinable)
  next
    case (shutdown os useJoin res t)
    then show ?thesis using winv_shutdown [OF inv] by blast
  next
    case (main os)
    then show ?thesis using winv_main [OF inv] by blast
  next
    case (turn os evs)
    then show ?thesis using winv_turn [OF inv] by blast
  next
    case (task n idx rd)
    then show ?thesis using winv_task [OF inv] by blast
  next
    case (entry f c f')
    then show ?thesis using winv_entry [OF inv entry(2)] by (cases "f_rest f") auto
  next
    case (fired os f t)
    then show ?thesis using winv_fired [OF inv] by blast
  qed
qed

section \<open>A concrete run\<close>

text \<open>A one-shot timer of 20 ms is registered, the loop is started, the timer expires, its callback runs and it is erased.\<close>

definition sample_world :: "unit world" where
  "sample_world = \<lparr>tm = Timer_new timer_sample [] (-1), loop = Loop_off, firing = None, issued = [], calls = []\<rparr>"

definition check :: "bool \<Rightarrow> 'a \<Rightarrow> 'a option" where
  "check b x = (if b then Some x else None)"

definition sample_registered :: "unit world option" where
  "sample_registered = do {
     (ret, t) \<leftarrow> Register timer_sample () 20 True (tm sample_world);
     check (ret = 1) (sample_world\<lparr>tm := t, issued := [1]\<rparr>)
   }"

definition sample_polled :: "unit world option" where
  "sample_polled = do {
     w1 \<leftarrow> sample_registered;
     w2 \<leftarrow> check (\<not> joinable (tm w1) \<and> loop w1 = Loop_off) (w1\<lparr>tm := snd (Setup (tm w1)), loop := Loop_start\<rparr>);
     w3 \<leftarrow> MainLoop_start timer_sample w2;
     w4 \<leftarrow> check (loop w3 = Loop_test) w3;
     w5 \<leftarrow> RunLoop_turn timer_sample (Ready [(3, 1)]) w4;
     w6 \<leftarrow> check (loop w5 = Loop_tasks 1 0 \<and> Option.is_none (firing w5)) w5;
     Polling_next Expired 1 0 w6
   }"

definition sample_fired :: "unit world option" where
  "sample_fired = do {
     w1 \<leftarrow> sample_polled;
     f \<leftarrow> firing w1;
     p \<leftarrow> check (f_rest f \<noteq> []) (OnTimer_entry (tm w1) f);
     let c = fst p;
     let f' = snd p;
     w2 \<leftarrow> check (f_rest f' = []) (w1\<lparr>firing := Some f', calls := (case c of None \<Rightarrow> calls w1 | Some e \<Rightarrow> calls w1 @ [e])\<rparr>);
     t \<leftarrow> OnTimer_end timer_sample f' (tm w2);
     Some (w2\<lparr>tm := t, firing := None\<rparr>)
   }"

lemma check_Some [simp]: "check b x = Some y \<longleftrightarrow> b \<and> x = y"
  by (simp add: check_def)

lemma sample_reach: "reach world_init timer_step sample_world"
  by (rule reach.start) (auto simp: world_init_def sample_world_def)

lemma sample_registered_reach:
  assumes "sample_registered = Some w"
  shows "reach world_init timer_step w"
proof -
  from assms obtain t where reg: "Register timer_sample () 20 True (tm sample_world) = Some (1, t)" and w: "w = sample_world\<lparr>tm := t, issued := [1]\<rparr>"
    by (auto simp: sample_registered_def bind_eq_Some_conv)
  have "timer_step sample_world (sample_world\<lparr>tm := t,
      issued := (if (1 :: 32 word) = TIMER_ERR_DEAL_FAILED then issued sample_world else 1 # issued sample_world)\<rparr>)"
    by (rule timer_step.register [OF timer_sample_ok reg]) (simp add: sample_world_def)
  then show ?thesis using reach.more [OF sample_reach] by (simp add: w DEAL_FAILED_value sample_world_def)
qed

lemma sample_polled_reach:
  assumes "sample_polled = Some w"
  shows "reach world_init timer_step w"
proof -
  from assms [unfolded sample_polled_def] obtain w1 w3 w5 where w1: "sample_registered = Some w1" "\<not> joinable (tm w1)" "loop w1 = Loop_off"
    and w3: "MainLoop_start timer_sample (w1\<lparr>tm := snd (Setup (tm w1)), loop := Loop_start\<rparr>) = Some w3" "loop w3 = Loop_test"
    and w5: "RunLoop_turn timer_sample (Ready [(3, 1)]) w3 = Some w5" "loop w5 = Loop_tasks 1 0" "firing w5 = None"
    and w: "Polling_next Expired 1 0 w5 = Some w"
    by (auto simp: bind_eq_Some_conv Option.is_none_def)
  let ?w2 = "w1\<lparr>tm := snd (Setup (tm w1)), loop := Loop_start\<rparr>"
  have "timer_step w1 ?w2" by (rule timer_step.starting [OF w1(3)]) (simp add: Setup_def w1(2))
  moreover have "timer_step ?w2 w3" by (rule timer_step.main [OF timer_sample_ok _ w3(1)]) simp
  moreover have "timer_step w3 w5" by (rule timer_step.turn [OF timer_sample_ok w3(2) w5(1)])
  moreover have "timer_step w5 w" by (rule timer_step.task [OF w5(2,3) w])
  ultimately show ?thesis using sample_registered_reach [OF w1(1)] by (blast intro: reach.more)
qed

lemma sample_fired_reach:
  assumes "sample_fired = Some w"
  shows "reach world_init timer_step w"
proof -
  from assms [unfolded sample_fired_def] obtain w1 f t where w1: "sample_polled = Some w1" "firing w1 = Some f" "f_rest f \<noteq> []"
    "f_rest (snd (OnTimer_entry (tm w1) f)) = []" "OnTimer_end timer_sample (snd (OnTimer_entry (tm w1) f)) (tm w1) = Some t"
    and w: "w = w1\<lparr>firing := Some (snd (OnTimer_entry (tm w1) f)),
      calls := (case fst (OnTimer_entry (tm w1) f) of None \<Rightarrow> calls w1 | Some e \<Rightarrow> calls w1 @ [e]), tm := t, firing := None\<rparr>"
    by (auto simp: bind_eq_Some_conv Let_def)
  obtain c f' where cf: "OnTimer_entry (tm w1) f = (c, f')" by fastforce
  let ?w2 = "w1\<lparr>firing := Some f', calls := (case c of None \<Rightarrow> calls w1 | Some e \<Rightarrow> calls w1 @ [e])\<rparr>"
  have "timer_step w1 ?w2" by (rule timer_step.entry [OF w1(2,3) cf])
  moreover have "timer_step ?w2 (?w2\<lparr>tm := t, firing := None\<rparr>)"
    by (rule timer_step.fired [OF timer_sample_ok, where f = f']) (use w1 cf in simp_all)
  ultimately have "reach world_init timer_step (?w2\<lparr>tm := t, firing := None\<rparr>)"
    using sample_polled_reach [OF w1(1)] by (blast intro: reach.more)
  then show ?thesis by (simp add: w cf)
qed

lemma sample_registered_result:
  obtains w e where "sample_registered = Some w" "timerToEntries (tm w) 1 = Some e" "te_interval e = 20" "te_once e" "te_fd e = 3"
proof -
  have "map_option (\<lambda>w. map_option (\<lambda>e. (te_interval e, te_once e, te_fd e)) (timerToEntries (tm w) 1)) sample_registered =
      Some (Some (20, True, 3))" by code_simp
  then show ?thesis using that by auto
qed

lemma sample_fired_result:
  obtains w e where "sample_fired = Some w" "calls w = [e]" "te_id e = 1" "te_once e" "firing w = None"
proof -
  have "map_option (\<lambda>w. (map (\<lambda>e. (te_id e, te_once e)) (calls w), Option.is_none (firing w))) sample_fired = Some ([(1, True)], True)"
    by code_simp
  then show ?thesis using that by (auto simp: Option.is_none_def)
qed

section \<open>Properties\<close>



text \<open>
  C25. \<^verbatim>\<open>Register\<close> returns whenever some valid identifier is free: the search for an identifier goes round past the
  error code and the largest number and reaches it. It either reports the failure of the reactor and changes no
  registration, or returns a valid identifier that was free and now names the new timer, all others unchanged.
\<close>

theorem Register_returns:
  assumes "reach world_init timer_step w" "timer_os_ok os" "valid_id j" "timerToEntries (tm w) j = None"
  shows "\<exists>ret t'. Register os cb ival once (tm w) = Some (ret, t') \<and>
    (ret = TIMER_ERR_DEAL_FAILED \<and> timerToEntries t' = timerToEntries (tm w) \<or>
     valid_id ret \<and> timerToEntries (tm w) ret = None \<and>
     (\<exists>fd. timerToEntries t' = (timerToEntries (tm w))
        (ret \<mapsto> \<lparr>te_id = ret, te_interval = ival, te_callback = cb, te_once = once, te_fd = fd\<rparr>) \<and>
        scheduled (react t') fd = Some (ival, once)))"
proof -
  have inv: "tinv (tm w)" using timer_runs.always [OF assms(1)] by (rule winv_tm)
  obtain ret t' where r: "Register os cb ival once (tm w) = Some (ret, t')" "tinv t'"
    "ret = TIMER_ERR_DEAL_FAILED \<and> timerToEntries t' = timerToEntries (tm w) \<or>
     valid_id ret \<and> timerToEntries (tm w) ret = None \<and> (\<exists>fd. timerToEntries t' = (timerToEntries (tm w))
        (ret \<mapsto> \<lparr>te_id = ret, te_interval = ival, te_callback = cb, te_once = once, te_fd = fd\<rparr>))"
    using Register_inv [OF inv assms(2), of cb ival once] assms(3,4) by blast
  have "scheduled (react t') (te_fd e) = Some (te_interval e, te_once e)" if "timerToEntries t' ret = Some e" for e
    using tinv_entry [OF r(2) that] by (simp add: armed_def)
  with r show ?thesis by fastforce
qed

theorem Register_returns_witness:
  "\<exists>ret t'. Register timer_sample () 5 False (tm sample_world) = Some (ret, t') \<and>
     (ret = TIMER_ERR_DEAL_FAILED \<or> (\<exists>fd. scheduled (react t') fd = Some (5, False)))"
proof -
  have "valid_id 1" "timerToEntries (tm sample_world) 1 = None"
    by (simp_all add: valid_id_def DEAL_FAILED_value sample_world_def Timer_new_def)
  from Register_returns [OF sample_reach timer_sample_ok this, of "()" 5 False] show ?thesis by blast
qed

text \<open>
  C24. The callback of a one-shot timer runs at most once, in every interleaving in which identifiers are not issued
  twice, and once the expiry that ran it has ended, the timer is no longer registered.
\<close>

theorem one_shot_runs_once:
  assumes "reach world_init timer_step w"
  shows "distinct (map te_id (filter te_once (calls w))) \<and>
    (firing w = None \<longrightarrow> list_all (\<lambda>e. te_once e \<longrightarrow> timerToEntries (tm w) (te_id e) = None) (calls w))"
  using winv_once [OF timer_runs.always [OF assms]] winv_called [OF timer_runs.always [OF assms]]
  by (auto simp: onces_def list_all_iff)

theorem one_shot_runs_once_witness:
  "\<exists>w e. sample_fired = Some w \<and> calls w = [e] \<and> te_once e \<and> timerToEntries (tm w) 1 = None"
proof -
  obtain w e where w: "sample_fired = Some w" "calls w = [e]" "te_id e = 1" "te_once e" "firing w = None"
    by (rule sample_fired_result)
  from one_shot_runs_once [OF sample_fired_reach [OF w(1)]] w show ?thesis by auto
qed

text \<open>
  \<^verbatim>\<open>Unregister\<close> removes exactly the timer named: every other registered timer stays registered and scheduled, and
  the descriptor is cancelled when the timer was one-shot or the last of its interval.
\<close>

theorem Unregister_exact:
  assumes "reach world_init timer_step w" "timer_os_ok os"
  shows "\<exists>t'. Unregister os i (tm w) = Some t' \<and> timerToEntries t' = (timerToEntries (tm w))(i := None) \<and>
    (\<forall>j k. timerToEntries (tm w) j = Some k \<longrightarrow> j \<noteq> i \<longrightarrow> scheduled (react t') (te_fd k) = Some (te_interval k, te_once k)) \<and>
    (\<forall>e. timerToEntries (tm w) i = Some e \<longrightarrow> te_once e \<or> list_of (te_interval e) t' = [] \<longrightarrow> scheduled (react t') (te_fd e) = None)"
proof -
  have inv: "tinv (tm w)" using timer_runs.always [OF assms(1)] by (rule winv_tm)
  from Unregister_inv [OF inv assms(2), of i] obtain t' where t': "Unregister os i (tm w) = Some t'" "tinv t'"
    "timerToEntries t' = (timerToEntries (tm w))(i := None)"
    "\<forall>e. timerToEntries (tm w) i = Some e \<longrightarrow> te_once e \<or> list_of (te_interval e) t' = [] \<longrightarrow> scheduled (react t') (te_fd e) = None"
    by blast
  have "scheduled (react t') (te_fd k) = Some (te_interval k, te_once k)" if "timerToEntries (tm w) j = Some k" "j \<noteq> i" for j k
    using tinv_entry [OF t'(2), of j k] that by (simp add: t'(3) armed_def)
  with t' show ?thesis by blast
qed

theorem Unregister_exact_witness:
  "\<exists>w t'. sample_registered = Some w \<and> Unregister timer_sample 1 (tm w) = Some t' \<and> timerToEntries t' 1 = None \<and> scheduled (react t') 3 = None"
proof -
  obtain w e where w: "sample_registered = Some w" "timerToEntries (tm w) 1 = Some e" "te_interval e = 20" "te_once e" "te_fd e = 3"
    by (rule sample_registered_result)
  from Unregister_exact [OF sample_registered_reach [OF w(1)] timer_sample_ok, of 1] w show ?thesis by fastforce
qed



end
