(* ===== verification/IO_Event_Reactor.thy ===== *)
theory IO_Event_Reactor
  imports CUtils_Prelude
begin

text \<open>
  The reactor of I/O handlers (\<^verbatim>\<open>base/src/io_event_reactor.cpp\<close>, \<^verbatim>\<open>io_event_handler.cpp\<close>, \<^verbatim>\<open>io_event_epoll.cpp\<close>).
  Handlers are objects of a heap that form, with a head object per descriptor, doubly linked lists through their
  \<^verbatim>\<open>prev_\<close> and \<^verbatim>\<open>next_\<close> pointers; a dereferenced null or dangling pointer is \<^const>\<open>None\<close>, and so is a walk that does not
  end. The functions of the reactor run under its mutex and are single steps. The interest list of the epoll
  instance is part of the state, and the failures of \<^verbatim>\<open>epoll_ctl\<close> are an argument. Callbacks are names.
\<close>

unbundle bit_operations_syntax

section \<open>State\<close>

datatype io_err = EVENT_SYS_ERR_OK | EVENT_SYS_ERR_FAILED | EVENT_SYS_ERR_ALREADY_STARTED | EVENT_SYS_ERR_NOT_FOUND
  | EVENT_SYS_ERR_BADF | EVENT_SYS_ERR_BADEVENT | EVENT_SYS_ERR_NOEVENT

definition EVENT_NONE :: "32 word" where "EVENT_NONE = 0"
definition EVENT_READ :: "32 word" where "EVENT_READ = 1"
definition EVENT_WRITE :: "32 word" where "EVENT_WRITE = push_bit 1 1"
definition EVENT_CLOSE :: "32 word" where "EVENT_CLOSE = push_bit 2 1"
definition EVENT_ERROR :: "32 word" where "EVENT_ERROR = push_bit 3 1"

definition IO_EVENT_INVALID_FD :: int where "IO_EVENT_INVALID_FD = -1"
definition MAX_FD :: int where "MAX_FD = 40000"
definition INIT_FD_NUMS :: nat where "INIT_FD_NUMS = 8"
definition EXPANSION_COEFF :: nat where "EXPANSION_COEFF = 2"

record 'c io_handler =
  io_prev :: "nat option"
  io_next :: "nat option"
  io_fd :: int
  io_events :: "32 word"
  io_cb :: "'c option"
  io_enabled :: bool

definition IOEventHandler_new :: "int \<Rightarrow> 32 word \<Rightarrow> 'c option \<Rightarrow> 'c io_handler" where
  "IOEventHandler_new fd events cb =
     \<lparr>io_prev = None, io_next = None, io_fd = fd, io_events = events, io_cb = cb, io_enabled = False\<rparr>"

definition IOEventHandler_default :: "'c io_handler" where
  "IOEventHandler_default = IOEventHandler_new IO_EVENT_INVALID_FD EVENT_NONE None"

type_synonym 'c io_heap = "nat \<Rightarrow> 'c io_handler option"

text \<open>An element of \<^verbatim>\<open>ioHandlers_\<close>: the address of its head and the events registered with the backend.\<close>

record 'c io_reactor =
  io_loopReady :: bool
  io_handling :: bool
  io_count :: "32 word"
  ioHandlers :: "(nat \<times> 32 word) list"
  interestFds :: "int set"
  ep_interest :: "int \<Rightarrow> 32 word option"
  ep_open :: bool
  io_heap :: "'c io_heap"
  io_fresh :: nat

datatype ep_op = EP_ADD | EP_DEL | EP_MOD

text \<open>Whether \<^verbatim>\<open>epoll_ctl\<close> fails for a reason of its own.\<close>

type_synonym ep_fault = "ep_op \<Rightarrow> int \<Rightarrow> bool"

section \<open>The backend\<close>

definition io_Reactor2Epoll :: "32 word \<Rightarrow> 32 word" where
  "io_Reactor2Epoll ev =
     (if ev AND EVENT_READ \<noteq> 0 then 1 OR 2 else 0) OR
     (if ev AND EVENT_WRITE \<noteq> 0 then 4 else 0) OR
     (if ev AND EVENT_ERROR \<noteq> 0 then 8 else 0)"

definition io_Epoll2Reactor :: "32 word \<Rightarrow> 32 word" where
  "io_Epoll2Reactor ep =
     (if ep AND 0x10 \<noteq> 0 \<and> ep AND 1 = 0 then EVENT_CLOSE else EVENT_NONE) OR
     (if ep AND 8 \<noteq> 0 then EVENT_ERROR else 0) OR
     (if ep AND (1 OR 2 OR 0x2000) \<noteq> 0 then EVENT_READ else 0) OR
     (if ep AND 4 \<noteq> 0 then EVENT_WRITE else 0)"

text \<open>\<^verbatim>\<open>epoll_ctl\<close> adds what is not there and changes or removes what is.\<close>

definition OperateEpoll :: "ep_fault \<Rightarrow> ep_op \<Rightarrow> int \<Rightarrow> 32 word \<Rightarrow> 'c io_reactor \<Rightarrow> bool \<times> 'c io_reactor" where
  "OperateEpoll fault opr fd ev r =
     (if \<not> ep_open r \<or> fault opr fd \<or> (if opr = EP_ADD then ep_interest r fd \<noteq> None else ep_interest r fd = None) then (False, r)
      else (True,
        case opr of
          EP_ADD \<Rightarrow> r\<lparr>ep_interest := (ep_interest r)(fd \<mapsto> ev), interestFds := insert fd (interestFds r)\<rparr>
        | EP_DEL \<Rightarrow> r\<lparr>ep_interest := (ep_interest r)(fd := None), interestFds := interestFds r - {fd}\<rparr>
        | EP_MOD \<Rightarrow> r\<lparr>ep_interest := (ep_interest r)(fd \<mapsto> ev)\<rparr>))"

definition ModifyEvents :: "ep_fault \<Rightarrow> int \<Rightarrow> 32 word \<Rightarrow> 'c io_reactor \<Rightarrow> io_err \<times> 'c io_reactor" where
  "ModifyEvents fault fd events r =
     (if fd = -1 then (EVENT_SYS_ERR_BADF, r)
      else
        let opr = (if fd \<in> interestFds r then (if events = EVENT_NONE then EP_DEL else EP_MOD) else EP_ADD)
        in case OperateEpoll fault opr fd (io_Reactor2Epoll events) r of
             (ok, r') \<Rightarrow> (if ok then EVENT_SYS_ERR_OK else EVENT_SYS_ERR_FAILED, r'))"

definition io_SetUp :: "bool \<Rightarrow> 'c io_reactor \<Rightarrow> io_err \<times> 'c io_reactor" where
  "io_SetUp create_ok r =
     (if \<not> ep_open r \<and> \<not> create_ok then (EVENT_SYS_ERR_BADF, r)
      else (EVENT_SYS_ERR_OK, r\<lparr>ep_open := True, io_loopReady := True\<rparr>))"

section \<open>The lists of handlers\<close>

definition upd :: "nat \<Rightarrow> ('c io_handler \<Rightarrow> 'c io_handler) \<Rightarrow> 'c io_heap \<Rightarrow> 'c io_heap option" where
  "upd a f h = do { n \<leftarrow> h a; Some (h(a \<mapsto> f n)) }"

definition FdEvents_head :: "int \<Rightarrow> 'c io_reactor \<Rightarrow> nat option" where
  "FdEvents_head fd r = (if 0 \<le> fd \<and> nat fd < length (ioHandlers r) then Some (fst (ioHandlers r ! nat fd)) else None)"

definition InsertNodeFront :: "int \<Rightarrow> nat \<Rightarrow> 'c io_reactor \<Rightarrow> 'c io_reactor option" where
  "InsertNodeFront fd target r = do {
     hd \<leftarrow> FdEvents_head fd r;
     hn \<leftarrow> io_heap r hd;
     h1 \<leftarrow> upd target (\<lambda>n. n\<lparr>io_next := io_next hn, io_prev := Some hd\<rparr>) (io_heap r);
     hn1 \<leftarrow> h1 hd;
     h2 \<leftarrow> (case io_next hn1 of None \<Rightarrow> Some h1 | Some b \<Rightarrow> upd b (\<lambda>n. n\<lparr>io_prev := Some target\<rparr>) h1);
     h3 \<leftarrow> upd hd (\<lambda>n. n\<lparr>io_next := Some target\<rparr>) h2;
     Some (r\<lparr>io_heap := h3\<rparr>)
   }"

definition RemoveNode :: "nat \<Rightarrow> 'c io_reactor \<Rightarrow> 'c io_reactor option" where
  "RemoveNode target r = do {
     t \<leftarrow> io_heap r target;
     p \<leftarrow> io_prev t;
     h1 \<leftarrow> upd p (\<lambda>n. n\<lparr>io_next := io_next t\<rparr>) (io_heap r);
     t1 \<leftarrow> h1 target;
     h2 \<leftarrow> (case io_next t1 of None \<Rightarrow> Some h1 | Some b \<Rightarrow> upd b (\<lambda>n. n\<lparr>io_prev := io_prev t1\<rparr>) h1);
     h3 \<leftarrow> upd target (\<lambda>n. n\<lparr>io_prev := None, io_next := None\<rparr>) h2;
     Some (r\<lparr>io_heap := h3\<rparr>)
   }"

partial_function (option) has_loop :: "'c io_heap \<Rightarrow> nat \<Rightarrow> nat option \<Rightarrow> bool option" where
  "has_loop h target cur =
     (case cur of
        None \<Rightarrow> Some False
      | Some a \<Rightarrow> if a = target then Some True else do { n \<leftarrow> h a; has_loop h target (io_next n) })"

definition HasHandler :: "nat \<Rightarrow> 'c io_reactor \<Rightarrow> bool option" where
  "HasHandler target r = do {
     t \<leftarrow> io_heap r target;
     if io_fd t < 0 \<or> io_fd t \<ge> int (length (ioHandlers r)) then Some False
     else do { hd \<leftarrow> FdEvents_head (io_fd t) r; has_loop (io_heap r) target (Some hd) }
   }"

partial_function (option) emask_loop :: "'c io_heap \<Rightarrow> 32 word \<Rightarrow> nat option \<Rightarrow> 32 word option" where
  "emask_loop h emask cur =
     (case cur of
        None \<Rightarrow> Some emask
      | Some a \<Rightarrow> do { n \<leftarrow> h a; emask_loop h (emask OR io_events n) (io_next n) })"

definition UpdateToDemultiplexer :: "ep_fault \<Rightarrow> int \<Rightarrow> 'c io_reactor \<Rightarrow> (bool \<times> 'c io_reactor) option" where
  "UpdateToDemultiplexer fault fd r = do {
     hd \<leftarrow> FdEvents_head fd r;
     emask \<leftarrow> emask_loop (io_heap r) 0 (Some hd);
     if emask = snd (ioHandlers r ! nat fd) then Some (True, r)
     else case ModifyEvents fault fd emask r of
         (res, r1) \<Rightarrow>
           if res \<noteq> EVENT_SYS_ERR_OK then Some (False, r1)
           else Some (True, r1\<lparr>ioHandlers := (ioHandlers r1)[nat fd := (hd, emask)]\<rparr>)
   }"

text \<open>\<^verbatim>\<open>ioHandlers_.resize(n)\<close> creates a head object for every new element.\<close>

fun add_heads :: "nat \<Rightarrow> 'c io_reactor \<Rightarrow> 'c io_reactor" where
  "add_heads 0 r = r"
| "add_heads (Suc k) r =
     add_heads k (r\<lparr>ioHandlers := ioHandlers r @ [(io_fresh r, EVENT_NONE)],
                    io_heap := (io_heap r)(io_fresh r \<mapsto> IOEventHandler_default), io_fresh := Suc (io_fresh r)\<rparr>)"

definition resize_handlers :: "nat \<Rightarrow> 'c io_reactor \<Rightarrow> 'c io_reactor" where
  "resize_handlers n r =
     (if n \<le> length (ioHandlers r) then r\<lparr>ioHandlers := take n (ioHandlers r)\<rparr>
      else add_heads (n - length (ioHandlers r)) r)"

definition IOEventReactor_new :: "bool \<Rightarrow> 'c io_reactor" where
  "IOEventReactor_new create_ok =
     add_heads INIT_FD_NUMS
       \<lparr>io_loopReady = False, io_handling = False, io_count = 0, ioHandlers = [], interestFds = {},
        ep_interest = (\<lambda>_. None), ep_open = create_ok, io_heap = (\<lambda>_. None), io_fresh = 0\<rparr>"

section \<open>Adding and removing handlers\<close>

definition AddHandler :: "ep_fault \<Rightarrow> nat option \<Rightarrow> 'c io_reactor \<Rightarrow> (io_err \<times> 'c io_reactor) option" where
  "AddHandler fault target r =
     (case target of
        None \<Rightarrow> Some (EVENT_SYS_ERR_NOT_FOUND, r)
      | Some a \<Rightarrow> do {
          t \<leftarrow> io_heap r a;
          if io_fd t < 0 \<or> io_fd t > MAX_FD then Some (EVENT_SYS_ERR_BADF, r)
          else if io_prev t \<noteq> None then Some (EVENT_SYS_ERR_ALREADY_STARTED, r)
          else do {
            let fd = io_fd t;
            let r1 = (if nat fd > length (ioHandlers r) - 1 then resize_handlers (nat fd * EXPANSION_COEFF) r else r);
            r2 \<leftarrow> InsertNodeFront fd a r1;
            (ok, r3) \<leftarrow> (if snd (ioHandlers r2 ! nat fd) AND io_events t \<noteq> io_events t
                          then UpdateToDemultiplexer fault fd r2 else Some (True, r2));
            if \<not> ok then Some (EVENT_SYS_ERR_FAILED, r3)
            else do {
              h \<leftarrow> upd a (\<lambda>n. n\<lparr>io_enabled := True\<rparr>) (io_heap r3);
              Some (EVENT_SYS_ERR_OK, r3\<lparr>io_heap := h, io_count := io_count r3 + 1\<rparr>)
            }
          }
        })"

definition UpdateHandler :: "ep_fault \<Rightarrow> nat option \<Rightarrow> 'c io_reactor \<Rightarrow> (io_err \<times> 'c io_reactor) option" where
  "UpdateHandler fault target r =
     (case target of
        None \<Rightarrow> Some (EVENT_SYS_ERR_NOT_FOUND, r)
      | Some a \<Rightarrow> do {
          t \<leftarrow> io_heap r a;
          if io_fd t < 0 \<or> io_fd t > MAX_FD then Some (EVENT_SYS_ERR_BADF, r)
          else if io_prev t \<noteq> None then do {
            has \<leftarrow> HasHandler a r;
            if \<not> has then Some (EVENT_SYS_ERR_NOT_FOUND, r)
            else do {
              (ok, r1) \<leftarrow> UpdateToDemultiplexer fault (io_fd t) r;
              Some (if ok then EVENT_SYS_ERR_OK else EVENT_SYS_ERR_FAILED, r1)
            }
          }
          else AddHandler fault target r
        })"

definition set_enabled :: "nat \<Rightarrow> bool \<Rightarrow> 'c io_reactor \<Rightarrow> 'c io_reactor option" where
  "set_enabled a b r = do { h \<leftarrow> upd a (\<lambda>n. n\<lparr>io_enabled := b\<rparr>) (io_heap r); Some (r\<lparr>io_heap := h\<rparr>) }"

definition RemoveHandler :: "ep_fault \<Rightarrow> nat option \<Rightarrow> 'c io_reactor \<Rightarrow> (io_err \<times> 'c io_reactor) option" where
  "RemoveHandler fault target r =
     (case target of
        None \<Rightarrow> Some (EVENT_SYS_ERR_NOT_FOUND, r)
      | Some a \<Rightarrow> do {
          t \<leftarrow> io_heap r a;
          if io_fd t < 0 \<or> io_fd t > MAX_FD then Some (EVENT_SYS_ERR_BADF, r)
          else do {
            r1 \<leftarrow> set_enabled a False r;
            has \<leftarrow> HasHandler a r1;
            if \<not> has then do { r2 \<leftarrow> set_enabled a True r1; Some (EVENT_SYS_ERR_NOT_FOUND, r2) }
            else do {
              r2 \<leftarrow> RemoveNode a r1;
              (ok, r3) \<leftarrow> UpdateToDemultiplexer fault (io_fd t) r2;
              if \<not> ok then do { r4 \<leftarrow> set_enabled a True r3; Some (EVENT_SYS_ERR_FAILED, r4) }
              else Some (EVENT_SYS_ERR_OK, r3\<lparr>io_count := io_count r3 - 1\<rparr>)
            }
          }
        })"

definition FindHandler :: "nat option \<Rightarrow> 'c io_reactor \<Rightarrow> io_err option" where
  "FindHandler target r =
     (case target of
        None \<Rightarrow> Some EVENT_SYS_ERR_NOT_FOUND
      | Some a \<Rightarrow> do {
          t \<leftarrow> io_heap r a;
          if io_fd t < 0 \<or> io_fd t > MAX_FD then Some EVENT_SYS_ERR_BADF
          else do { has \<leftarrow> HasHandler a r; Some (if has then EVENT_SYS_ERR_OK else EVENT_SYS_ERR_NOT_FOUND) }
        })"

partial_function (option) clean_loop :: "'c io_heap \<Rightarrow> nat option \<Rightarrow> 'c io_heap option" where
  "clean_loop h cur =
     (case cur of
        None \<Rightarrow> Some h
      | Some a \<Rightarrow> do {
          n \<leftarrow> h a;
          p \<leftarrow> io_prev n;
          h1 \<leftarrow> upd p (\<lambda>m. m\<lparr>io_next := None\<rparr>) h;
          h2 \<leftarrow> upd a (\<lambda>m. m\<lparr>io_prev := None, io_enabled := False\<rparr>) h1;
          m \<leftarrow> h2 a;
          clean_loop h2 (io_next m)
        })"

definition DoClean :: "ep_fault \<Rightarrow> int \<Rightarrow> 'c io_reactor \<Rightarrow> (bool \<times> 'c io_reactor) option" where
  "DoClean fault fd r = do {
     hd \<leftarrow> FdEvents_head fd r;
     hn \<leftarrow> io_heap r hd;
     if io_next hn = None then Some (True, r)
     else do {
       h \<leftarrow> clean_loop (io_heap r) (io_next hn);
       UpdateToDemultiplexer fault fd (r\<lparr>io_heap := h\<rparr>)
     }
   }"

definition io_Clean :: "ep_fault \<Rightarrow> int \<Rightarrow> 'c io_reactor \<Rightarrow> (io_err \<times> 'c io_reactor) option" where
  "io_Clean fault fd r =
     (if fd = -1 then Some (EVENT_SYS_ERR_BADF, r)
      else do {
        (ok, r1) \<leftarrow> DoClean fault fd r;
        Some (if ok then EVENT_SYS_ERR_OK else EVENT_SYS_ERR_FAILED, r1)
      })"

fun clean_from :: "ep_fault \<Rightarrow> nat list \<Rightarrow> io_err \<Rightarrow> 'c io_reactor \<Rightarrow> (io_err \<times> 'c io_reactor) option" where
  "clean_from fault [] res r = Some (res, r)"
| "clean_from fault (fd # fds) res r = do {
     (ok, r1) \<leftarrow> DoClean fault (int fd) r;
     clean_from fault fds (if ok then res else EVENT_SYS_ERR_FAILED) r1
   }"

definition io_CleanUp :: "ep_fault \<Rightarrow> 'c io_reactor \<Rightarrow> (io_err \<times> 'c io_reactor) option" where
  "io_CleanUp fault r = clean_from fault [0..<length (ioHandlers r)] EVENT_SYS_ERR_OK r"

text \<open>The destructor of a handler unlinks it without telling the reactor.\<close>

definition IOEventHandler_delete :: "nat \<Rightarrow> 'c io_reactor \<Rightarrow> 'c io_reactor option" where
  "IOEventHandler_delete a r = do {
     t \<leftarrow> io_heap r a;
     h1 \<leftarrow> (case io_prev t of None \<Rightarrow> Some (io_heap r) | Some p \<Rightarrow> upd p (\<lambda>n. n\<lparr>io_next := io_next t\<rparr>) (io_heap r));
     h2 \<leftarrow> (case io_next t of None \<Rightarrow> Some h1 | Some b \<Rightarrow> upd b (\<lambda>n. n\<lparr>io_prev := io_prev t\<rparr>) h1);
     Some (r\<lparr>io_heap := h2(a := None)\<rparr>)
   }"

section \<open>Dispatching\<close>

partial_function (option) task_loop :: "'c io_heap \<Rightarrow> 32 word \<Rightarrow> nat option \<Rightarrow> 'c list option" where
  "task_loop h event cur =
     (case cur of
        None \<Rightarrow> Some []
      | Some a \<Rightarrow> do {
          n \<leftarrow> h a;
          tasks \<leftarrow> task_loop h event (io_next n);
          Some (case io_cb n of
              None \<Rightarrow> tasks
            | Some cb \<Rightarrow>
                if io_events n \<noteq> EVENT_NONE \<and> io_enabled n \<and> io_events n AND event \<noteq> 0 then cb # tasks else tasks)
        })"

text \<open>The callbacks \<^verbatim>\<open>HandleEvents\<close> collects under the mutex and then runs in order.\<close>

definition io_HandleEvents :: "int \<Rightarrow> 32 word \<Rightarrow> 'c io_reactor \<Rightarrow> (io_err \<times> 'c list) option" where
  "io_HandleEvents fd event r = do {
     hd \<leftarrow> FdEvents_head fd r;
     if snd (ioHandlers r ! nat fd) AND event = 0 then Some (EVENT_SYS_ERR_BADEVENT, [])
     else do {
       hn \<leftarrow> io_heap r hd;
       tasks \<leftarrow> task_loop (io_heap r) event (io_next hn);
       Some (EVENT_SYS_ERR_OK, tasks)
     }
   }"

text \<open>What \<^verbatim>\<open>Polling\<close> passes on of the events \<^verbatim>\<open>epoll_wait\<close> reports.\<close>

definition io_Polling :: "(int \<times> 32 word) list option \<Rightarrow> io_err \<times> (int \<times> 32 word) list" where
  "io_Polling res =
     (case res of
        None \<Rightarrow> (EVENT_SYS_ERR_FAILED, [])
      | Some [] \<Rightarrow> (EVENT_SYS_ERR_NOEVENT, [])
      | Some evs \<Rightarrow> (EVENT_SYS_ERR_OK, map (\<lambda>(fd, ep). (fd, io_Epoll2Reactor ep)) evs))"

text \<open>Running callbacks changes the reactor as \<open>run\<close> says.\<close>

fun io_Execute :: "('c \<Rightarrow> 'c io_reactor \<Rightarrow> 'c io_reactor option) \<Rightarrow> 'c list \<Rightarrow> 'c io_reactor \<Rightarrow> 'c io_reactor option" where
  "io_Execute run [] r = Some r"
| "io_Execute run (cb # cbs) r = do { r1 \<leftarrow> run cb r; io_Execute run cbs r1 }"

fun io_HandleAll :: "('c \<Rightarrow> 'c io_reactor \<Rightarrow> 'c io_reactor option) \<Rightarrow> (int \<times> 32 word) list \<Rightarrow> 'c io_reactor \<Rightarrow> 'c io_reactor option" where
  "io_HandleAll run [] r = Some r"
| "io_HandleAll run ((fd, event) # evs) r = do {
     (_, tasks) \<leftarrow> io_HandleEvents fd event r;
     r1 \<leftarrow> io_Execute run tasks r;
     io_HandleAll run evs r1
   }"

text \<open>One turn of the loop of \<^verbatim>\<open>Run\<close>; it ends when the flag is off.\<close>

definition io_Run_turn ::
  "('c \<Rightarrow> 'c io_reactor \<Rightarrow> 'c io_reactor option) \<Rightarrow> int \<Rightarrow> (int \<times> 32 word) list option \<Rightarrow> 'c io_reactor \<Rightarrow> (bool \<times> 'c io_reactor) option" where
  "io_Run_turn run timeout res r =
     (if \<not> io_loopReady r then Some (False, r)
      else if \<not> io_handling r \<or> timeout = -1 \<and> io_count r = 0 then Some (True, r)
      else case io_Polling res of
          (EVENT_SYS_ERR_OK, evs) \<Rightarrow> do { r1 \<leftarrow> io_HandleAll run evs r; Some (True, r1) }
        | _ \<Rightarrow> Some (True, r))"

section \<open>The handler's own functions and the operations of a program\<close>

definition handler_set :: "nat \<Rightarrow> ('c io_handler \<Rightarrow> 'c io_handler) \<Rightarrow> 'c io_reactor \<Rightarrow> 'c io_reactor option" where
  "handler_set a f r = do { h \<leftarrow> upd a f (io_heap r); Some (r\<lparr>io_heap := h\<rparr>) }"

definition SetFd :: "int \<Rightarrow> 'c io_handler \<Rightarrow> 'c io_handler" where "SetFd fd n = n\<lparr>io_fd := fd\<rparr>"
definition SetEvents :: "32 word \<Rightarrow> 'c io_handler \<Rightarrow> 'c io_handler" where "SetEvents ev n = n\<lparr>io_events := ev\<rparr>"
definition io_SetCallback :: "'c option \<Rightarrow> 'c io_handler \<Rightarrow> 'c io_handler" where "io_SetCallback cb n = n\<lparr>io_cb := cb\<rparr>"
definition io_EnableRead :: "'c io_handler \<Rightarrow> 'c io_handler" where "io_EnableRead n = n\<lparr>io_events := io_events n OR EVENT_READ\<rparr>"
definition EnableWrite :: "'c io_handler \<Rightarrow> 'c io_handler" where "EnableWrite n = n\<lparr>io_events := io_events n OR EVENT_WRITE\<rparr>"
definition DisableWrite :: "'c io_handler \<Rightarrow> 'c io_handler" where "DisableWrite n = n\<lparr>io_events := io_events n AND NOT EVENT_WRITE\<rparr>"
definition io_DisableAll :: "'c io_handler \<Rightarrow> 'c io_handler" where "io_DisableAll n = n\<lparr>io_events := EVENT_NONE\<rparr>"
definition IsActive :: "'c io_handler \<Rightarrow> bool" where "IsActive n \<longleftrightarrow> io_prev n \<noteq> None \<and> io_enabled n"

definition handler_Start :: "ep_fault \<Rightarrow> nat \<Rightarrow> 'c io_reactor \<Rightarrow> (bool \<times> 'c io_reactor) option" where
  "handler_Start fault a r = do { (res, r1) \<leftarrow> AddHandler fault (Some a) r; Some (res = EVENT_SYS_ERR_OK, r1) }"

definition handler_Stop :: "ep_fault \<Rightarrow> nat \<Rightarrow> 'c io_reactor \<Rightarrow> (bool \<times> 'c io_reactor) option" where
  "handler_Stop fault a r = do { (res, r1) \<leftarrow> RemoveHandler fault (Some a) r; Some (res = EVENT_SYS_ERR_OK, r1) }"

definition handler_Update :: "ep_fault \<Rightarrow> nat \<Rightarrow> 'c io_reactor \<Rightarrow> (bool \<times> 'c io_reactor) option" where
  "handler_Update fault a r = do { (res, r1) \<leftarrow> UpdateHandler fault (Some a) r; Some (res = EVENT_SYS_ERR_OK, r1) }"

definition new_handler :: "int \<Rightarrow> 32 word \<Rightarrow> 'c option \<Rightarrow> 'c io_reactor \<Rightarrow> 'c io_reactor" where
  "new_handler fd ev cb r =
     r\<lparr>io_heap := (io_heap r)(io_fresh r \<mapsto> IOEventHandler_new fd ev cb), io_fresh := Suc (io_fresh r)\<rparr>"

datatype 'c io_op = OpNew int "32 word" "'c option" | OpDelete nat | OpSetFd nat int | OpSetEvents nat "32 word"
  | OpSetCallback nat "'c option" | OpEnableRead nat | OpEnableWrite nat | OpDisableWrite nat | OpDisableAll nat
  | OpStart nat | OpStop nat | OpUpdate nat | OpFind nat | OpClean int | OpCleanUp | OpSetUp bool
  | OpTerminate | OpEnableHandling | OpDisableHandling

fun io_do :: "ep_fault \<Rightarrow> 'c io_op \<Rightarrow> 'c io_reactor \<Rightarrow> 'c io_reactor option" where
  "io_do fault (OpNew fd ev cb) r = Some (new_handler fd ev cb r)"
| "io_do fault (OpDelete a) r = IOEventHandler_delete a r"
| "io_do fault (OpSetFd a fd) r = handler_set a (SetFd fd) r"
| "io_do fault (OpSetEvents a ev) r = handler_set a (SetEvents ev) r"
| "io_do fault (OpSetCallback a cb) r = handler_set a (io_SetCallback cb) r"
| "io_do fault (OpEnableRead a) r = handler_set a io_EnableRead r"
| "io_do fault (OpEnableWrite a) r = handler_set a EnableWrite r"
| "io_do fault (OpDisableWrite a) r = handler_set a DisableWrite r"
| "io_do fault (OpDisableAll a) r = handler_set a io_DisableAll r"
| "io_do fault (OpStart a) r = map_option snd (handler_Start fault a r)"
| "io_do fault (OpStop a) r = map_option snd (handler_Stop fault a r)"
| "io_do fault (OpUpdate a) r = map_option snd (handler_Update fault a r)"
| "io_do fault (OpFind a) r = map_option (\<lambda>_. r) (FindHandler (Some a) r)"
| "io_do fault (OpClean fd) r = map_option snd (io_Clean fault fd r)"
| "io_do fault OpCleanUp r = map_option snd (io_CleanUp fault r)"
| "io_do fault (OpSetUp ok) r = Some (snd (io_SetUp ok r))"
| "io_do fault OpTerminate r = Some (r\<lparr>io_loopReady := False\<rparr>)"
| "io_do fault OpEnableHandling r = Some (r\<lparr>io_handling := True\<rparr>)"
| "io_do fault OpDisableHandling r = Some (r\<lparr>io_handling := False\<rparr>)"

text \<open>
  What a program has to observe: handlers it names are alive and are its own, not the reactor's heads, and \<^verbatim>\<open>Clean\<close>
  gets -1 or a descriptor inside the table, which it does not check itself.
\<close>

definition own_handler :: "nat \<Rightarrow> 'c io_reactor \<Rightarrow> bool" where
  "own_handler a r \<longleftrightarrow> \<not> Option.is_none (io_heap r a) \<and> a \<notin> fst ` set (ioHandlers r)"

fun io_legal :: "'c io_op \<Rightarrow> 'c io_reactor \<Rightarrow> bool" where
  "io_legal (OpDelete a) r = own_handler a r"
| "io_legal (OpSetFd a _) r = own_handler a r"
| "io_legal (OpSetEvents a _) r = own_handler a r"
| "io_legal (OpSetCallback a _) r = own_handler a r"
| "io_legal (OpEnableRead a) r = own_handler a r"
| "io_legal (OpEnableWrite a) r = own_handler a r"
| "io_legal (OpDisableWrite a) r = own_handler a r"
| "io_legal (OpDisableAll a) r = own_handler a r"
| "io_legal (OpStart a) r = own_handler a r"
| "io_legal (OpStop a) r = own_handler a r"
| "io_legal (OpUpdate a) r = own_handler a r"
| "io_legal (OpFind a) r = own_handler a r"
| "io_legal (OpClean fd) r = (-1 \<le> fd \<and> fd < int (length (ioHandlers r)))"
| "io_legal op r = True"

inductive io_step :: "'c io_reactor \<Rightarrow> 'c io_reactor \<Rightarrow> bool" where
  io_do: "io_legal op r \<Longrightarrow> io_do fault op r = Some r' \<Longrightarrow> io_step r r'"

text \<open>A run of operations, each of which has to be legal.\<close>

fun io_ops :: "(ep_fault \<times> 'c io_op) list \<Rightarrow> 'c io_reactor \<Rightarrow> 'c io_reactor option" where
  "io_ops [] r = Some r"
| "io_ops ((fault, op) # ops) r = (if io_legal op r then do { r1 \<leftarrow> io_do fault op r; io_ops ops r1 } else None)"

abbreviation io_reach :: "'c io_reactor \<Rightarrow> bool" where
  "io_reach \<equiv> reach (\<lambda>r. \<exists>b. r = IOEventReactor_new b) io_step"

section \<open>Linked lists\<close>

text \<open>The successor of an element in a list; predecessors are successors in the reversed list.\<close>

definition first :: "'a list \<Rightarrow> 'a option" where
  "first xs = (case xs of [] \<Rightarrow> None | x # _ \<Rightarrow> Some x)"

fun next_in :: "'a list \<Rightarrow> 'a \<Rightarrow> 'a option" where
  "next_in [] a = None"
| "next_in (x # xs) a = (if x = a then first xs else next_in xs a)"

lemma first_simps [simp]: "first [] = None" "first (x # xs) = Some x" "first (xs @ ys) = (if xs = [] then first ys else first xs)"
  by (simp_all add: first_def split: list.splits)

lemma first_rev: "xs \<noteq> [] \<Longrightarrow> first (rev xs) = Some (last xs)"
  by (induction xs rule: rev_induct) auto

lemma next_in_split: "a \<notin> set xs \<Longrightarrow> next_in (xs @ a # ys) a = first ys"
  by (induction xs) auto

lemma next_in_insert:
  assumes "distinct (xs @ t # ys)" "a \<noteq> t"
  shows "next_in (xs @ t # ys) a = (if xs \<noteq> [] \<and> a = last xs then Some t else next_in (xs @ ys) a)"
  using assms by (induction xs) auto

lemma next_in_last:
  assumes "distinct (xs @ ys)" "xs \<noteq> []"
  shows "next_in (xs @ ys) (last xs) = first ys"
  using assms by (induction xs) auto

lemma next_in_member: "next_in xs a = Some b \<Longrightarrow> b \<in> set xs"
  by (induction xs) (auto split: if_splits simp: first_def split: list.splits)

text \<open>The nodes of a list, with the pointers to their neighbours.\<close>

definition linked :: "'c io_heap \<Rightarrow> nat list \<Rightarrow> bool" where
  "linked h xs \<longleftrightarrow> distinct xs \<and> (\<forall>a\<in>set xs. \<exists>n. h a = Some n \<and> io_next n = next_in xs a \<and> io_prev n = next_in (rev xs) a)"

lemma linkedD:
  assumes "linked h xs" "a \<in> set xs"
  shows "\<exists>n. h a = Some n \<and> io_next n = next_in xs a \<and> io_prev n = next_in (rev xs) a"
  using assms by (simp add: linked_def)

lemma linked_cong:
  assumes "linked h xs" "\<And>a n. a \<in> set xs \<Longrightarrow> h a = Some n \<Longrightarrow> \<exists>m. h' a = Some m \<and> io_next m = io_next n \<and> io_prev m = io_prev n"
  shows "linked h' xs"
  unfolding linked_def
proof (intro conjI ballI)
  show "distinct xs" using assms(1) by (simp add: linked_def)
  fix a assume a: "a \<in> set xs"
  obtain n where n: "h a = Some n" "io_next n = next_in xs a" "io_prev n = next_in (rev xs) a" using linkedD [OF assms(1) a] by blast
  from assms(2) [OF a n(1)] n(2,3) show "\<exists>n. h' a = Some n \<and> io_next n = next_in xs a \<and> io_prev n = next_in (rev xs) a" by auto
qed

text \<open>What follows an element of a linked list is the rest of the list.\<close>

lemma linked_suffix:
  assumes "linked h (xs @ a # ys)"
  shows "\<exists>n. h a = Some n \<and> io_next n = first ys \<and> io_prev n = first (rev xs)"
proof -
  have d: "distinct (xs @ a # ys)" using assms by (simp add: linked_def)
  obtain n where "h a = Some n" "io_next n = next_in (xs @ a # ys) a" "io_prev n = next_in (rev (xs @ a # ys)) a"
    using linkedD [OF assms, of a] by auto
  moreover have "next_in (rev (xs @ a # ys)) a = first (rev xs)"
    using next_in_split [of a "rev ys" "rev xs"] d by simp
  ultimately show ?thesis using next_in_split [of a xs ys] d by simp
qed

lemma has_loop_walk:
  assumes "linked h (xs @ ys)"
  shows "has_loop h t (first ys) = Some (t \<in> set ys)"
  using assms
proof (induction ys arbitrary: xs)
  case (Cons a ys)
  obtain n where "h a = Some n" "io_next n = first ys" using linked_suffix [OF Cons.prems] by auto
  then show ?case using Cons.IH [of "xs @ [a]"] Cons.prems by (subst has_loop.simps) simp
qed (simp add: has_loop.simps)

definition events_of :: "'c io_heap \<Rightarrow> nat list \<Rightarrow> 32 word" where
  "events_of h as = foldr (\<lambda>a m. io_events (the (h a)) OR m) as 0"

lemma emask_loop_walk:
  assumes "linked h (xs @ ys)"
  shows "emask_loop h m (first ys) = Some (m OR events_of h ys)"
  using assms
proof (induction ys arbitrary: xs m)
  case (Cons a ys)
  obtain n where "h a = Some n" "io_next n = first ys" using linked_suffix [OF Cons.prems] by auto
  then show ?case using Cons.IH [of "xs @ [a]"] Cons.prems
    by (subst emask_loop.simps) (simp add: events_of_def or.assoc)
qed (simp add: emask_loop.simps events_of_def)

definition wants :: "32 word \<Rightarrow> 'c io_handler \<Rightarrow> bool" where
  "wants event n \<longleftrightarrow> io_events n \<noteq> EVENT_NONE \<and> io_enabled n \<and> io_events n AND event \<noteq> 0"

lemma task_loop_walk:
  assumes "linked h (xs @ ys)"
  shows "task_loop h event (first ys) = Some (List.map_filter (\<lambda>a. if wants event (the (h a)) then io_cb (the (h a)) else None) ys)"
  using assms
proof (induction ys arbitrary: xs)
  case (Cons a ys)
  obtain n where "h a = Some n" "io_next n = first ys" using linked_suffix [OF Cons.prems] by auto
  then show ?case using Cons.IH [of "xs @ [a]"] Cons.prems
    by (subst task_loop.simps) (auto simp: wants_def List.map_filter_simps split: option.splits)
qed (simp add: task_loop.simps List.map_filter_simps)

text \<open>Heaps that differ only in the pointers of nodes in \<open>X\<close>.\<close>

definition same_data :: "'c io_handler \<Rightarrow> 'c io_handler \<Rightarrow> bool" where
  "same_data n m \<longleftrightarrow> io_fd m = io_fd n \<and> io_events m = io_events n \<and> io_cb m = io_cb n \<and> io_enabled m = io_enabled n"

definition relinked :: "nat set \<Rightarrow> 'c io_heap \<Rightarrow> 'c io_heap \<Rightarrow> bool" where
  "relinked X h h' \<longleftrightarrow> (\<forall>a. a \<notin> X \<longrightarrow> h' a = h a) \<and> (\<forall>a n. h a = Some n \<longrightarrow> (\<exists>m. h' a = Some m \<and> same_data n m)) \<and>
     (\<forall>a. h a = None \<longrightarrow> h' a = None)"

lemma relinkedD:
  assumes "relinked X h h'"
  shows "a \<notin> X \<Longrightarrow> h' a = h a" "h a = Some n \<Longrightarrow> \<exists>m. h' a = Some m \<and> same_data n m" "h a = None \<Longrightarrow> h' a = None"
  using assms unfolding relinked_def by blast+

lemma relinked_refl: "relinked X h h"
  by (simp add: relinked_def same_data_def)

lemma relinked_upd:
  assumes "relinked X h h1" "h1 a = Some n" "a \<in> X" "same_data n m"
  shows "relinked X h (h1(a \<mapsto> m))"
proof -
  have "\<exists>k. h a = Some k \<and> same_data k m"
    using relinkedD(2,3) [OF assms(1), of a] assms(2,4) by (cases "h a") (auto simp: same_data_def)
  then show ?thesis using assms(1,3) unfolding relinked_def by auto
qed

text \<open>Inserting behind the head and removing an element change the neighbours' pointers only.\<close>

lemma InsertNodeFront_links:
  assumes l: "linked (io_heap r) (hh # as)" and t: "io_heap r t = Some tn" "t \<notin> set (hh # as)" and hh: "FdEvents_head fd r = Some hh"
  shows "\<exists>h'. InsertNodeFront fd t r = Some (r\<lparr>io_heap := h'\<rparr>) \<and> linked h' (hh # t # as) \<and>
    relinked (set (hh # t # as)) (io_heap r) h'"
proof -
  let ?h = "io_heap r"
  have d: "distinct (hh # as)" using l by (simp add: linked_def)
  obtain hn where hn: "?h hh = Some hn" "io_next hn = first as" "io_prev hn = None"
    using linked_suffix [of ?h "[]" hh as] l by auto
  have prev: "next_in (rev (hh # t # as)) a = (if a = t then Some hh else if as \<noteq> [] \<and> Some a = first as then Some t
      else next_in (rev (hh # as)) a)" if "a \<in> set (hh # t # as)" for a
    using next_in_split [of t "rev as" "[hh]"] next_in_insert [of "rev as" t "[hh]" a] d t(2) that
    by (cases as) (auto simp: last_rev)
  have nxt: "next_in (hh # t # as) a = (if a = hh then Some t else if a = t then first as else next_in (hh # as) a)" for a
    using t(2) by auto
  have ptr: "\<exists>n. ?h a = Some n \<and> io_next n = next_in (hh # as) a \<and> io_prev n = next_in (rev (hh # as)) a" if "a \<in> set (hh # as)" for a
    using linkedD [OF l that] .
  define h1 where "h1 = ?h(t \<mapsto> tn\<lparr>io_next := first as, io_prev := Some hh\<rparr>)"
  have r1: "relinked (set (hh # t # as)) ?h h1"
    unfolding h1_def by (rule relinked_upd [of _ ?h ?h t tn]) (simp_all add: relinked_refl t(1) same_data_def)
  show ?thesis
  proof (cases as)
    case Nil
    let ?h' = "h1(hh \<mapsto> hn\<lparr>io_next := Some t\<rparr>)"
    have "InsertNodeFront fd t r = Some (r\<lparr>io_heap := ?h'\<rparr>)"
      using hh hn t Nil by (auto simp: InsertNodeFront_def upd_def h1_def)
    moreover have "linked ?h' (hh # t # as)"
      using t(2) hn d unfolding linked_def by (auto simp: h1_def Nil)
    moreover have "relinked (set (hh # t # as)) ?h ?h'"
      using hn t(2) by (intro relinked_upd [OF r1, of hh hn]) (auto simp: h1_def same_data_def)
    ultimately show ?thesis by blast
  next
    case (Cons b bs)
    obtain bn where bn: "?h b = Some bn" "io_next bn = first bs" "io_prev bn = Some hh"
      using linked_suffix [of ?h "[hh]" b bs] l Cons by auto
    have neq: "b \<noteq> t" "b \<noteq> hh" "t \<noteq> hh" using t(2) d Cons by auto
    let ?h2 = "h1(b \<mapsto> bn\<lparr>io_prev := Some t\<rparr>)"
    let ?h' = "?h2(hh \<mapsto> hn\<lparr>io_next := Some t\<rparr>)"
    have "InsertNodeFront fd t r = Some (r\<lparr>io_heap := ?h'\<rparr>)"
      using hh hn t(1) bn neq Cons by (auto simp: InsertNodeFront_def upd_def h1_def)
    moreover have r2: "relinked (set (hh # t # as)) ?h ?h2"
      using bn neq Cons by (intro relinked_upd [OF r1, of b bn]) (auto simp: h1_def same_data_def)
    moreover have "relinked (set (hh # t # as)) ?h ?h'"
      using hn neq by (intro relinked_upd [OF r2, of hh hn]) (auto simp: h1_def same_data_def)
    moreover have "linked ?h' (hh # t # as)"
      unfolding linked_def
    proof (intro conjI ballI)
      show "distinct (hh # t # as)" using d t(2) by auto
      fix a assume a: "a \<in> set (hh # t # as)"
      consider "a = t" | "a = hh" | "a = b" | "a \<in> set bs" "a \<noteq> t" "a \<noteq> hh" "a \<noteq> b" using a Cons d t(2) by auto
      then show "\<exists>n. ?h' a = Some n \<and> io_next n = next_in (hh # t # as) a \<and> io_prev n = next_in (rev (hh # t # as)) a"
        unfolding prev [OF a] nxt
      proof cases
        case 4
        then show "\<exists>n. ?h' a = Some n \<and> io_next n = (if a = hh then Some t else if a = t then first as else next_in (hh # as) a) \<and>
          io_prev n = (if a = t then Some hh else if as \<noteq> [] \<and> Some a = first as then Some t else next_in (rev (hh # as)) a)"
          using ptr [of a] Cons by (auto simp: h1_def)
      qed (use hn bn neq Cons ptr [of hh] ptr [of b] in \<open>auto simp: h1_def\<close>)
    qed
    ultimately show ?thesis by blast
  qed
qed

lemma next_in_remove:
  assumes d: "distinct (xs @ t # ys)" and a: "a \<in> set (xs @ ys)"
  shows "next_in (xs @ ys) a = (if xs \<noteq> [] \<and> a = last xs then first ys else next_in (xs @ t # ys) a)"
    and "next_in (rev (xs @ ys)) a = (if Some a = first ys then first (rev xs) else next_in (rev (xs @ t # ys)) a)"
proof -
  have neq: "a \<noteq> t" using d a by auto
  show "next_in (xs @ ys) a = (if xs \<noteq> [] \<and> a = last xs then first ys else next_in (xs @ t # ys) a)"
    using next_in_insert [OF d neq] next_in_last [of xs ys] d by auto
  have d': "distinct (rev ys @ t # rev xs)" using d by auto
  show "next_in (rev (xs @ ys)) a = (if Some a = first ys then first (rev xs) else next_in (rev (xs @ t # ys)) a)"
    using next_in_insert [OF d' neq] next_in_last [of "rev ys" "rev xs"] d' by (cases ys) (auto simp: last_rev)
qed

text \<open>Taking a node out of its list, as \<^verbatim>\<open>RemoveNode\<close> and the destructor do, before the node itself is changed.\<close>

definition unlink :: "'c io_handler \<Rightarrow> 'c io_heap \<Rightarrow> 'c io_heap option" where
  "unlink t h = do {
     h1 \<leftarrow> (case io_prev t of None \<Rightarrow> Some h | Some p \<Rightarrow> upd p (\<lambda>n. n\<lparr>io_next := io_next t\<rparr>) h);
     (case io_next t of None \<Rightarrow> Some h1 | Some b \<Rightarrow> upd b (\<lambda>n. n\<lparr>io_prev := io_prev t\<rparr>) h1)
   }"

lemma unlink_links:
  assumes l: "linked h (xs @ t # ys)" and xs: "xs \<noteq> []" and tn: "h t = Some tn"
  shows "\<exists>h'. unlink tn h = Some h' \<and> linked h' (xs @ ys) \<and> relinked (set (xs @ ys)) h h' \<and>
    io_prev tn = Some (last xs) \<and> (\<forall>b. io_next tn = Some b \<longrightarrow> b \<in> set ys)"
proof -
  have d: "distinct (xs @ t # ys)" using l by (simp add: linked_def)
  have tn': "io_next tn = first ys" "io_prev tn = Some (last xs)"
    using linked_suffix [OF l] tn first_rev [OF xs] by auto
  obtain zs where xs': "xs = zs @ [last xs]" using xs append_butlast_last_id by metis
  define p where "p = last xs"
  have p: "p \<in> set xs" "p \<notin> set ys" "p \<noteq> t" using d last_in_set [OF xs] by (auto simp: p_def)
  obtain pn where pn: "h p = Some pn" using linkedD [OF l, of p] p(1) by auto
  let ?h1 = "h(p \<mapsto> pn\<lparr>io_next := first ys\<rparr>)"
  have r1: "relinked (set (xs @ ys)) h ?h1"
    using p(1) pn by (intro relinked_upd [of _ h h p pn]) (auto simp: relinked_refl same_data_def)
  have ptr: "\<exists>n. h a = Some n \<and> io_next n = next_in (xs @ t # ys) a \<and> io_prev n = next_in (rev (xs @ t # ys)) a"
    if "a \<in> set (xs @ ys)" for a using linkedD [OF l, of a] that by auto
  show ?thesis
  proof (cases ys)
    case Nil
    have "linked ?h1 (xs @ ys)"
      unfolding linked_def
    proof (intro conjI ballI)
      show "distinct (xs @ ys)" using d by auto
      fix a assume a: "a \<in> set (xs @ ys)"
      show "\<exists>n. ?h1 a = Some n \<and> io_next n = next_in (xs @ ys) a \<and> io_prev n = next_in (rev (xs @ ys)) a"
        unfolding next_in_remove [OF d a] using ptr [OF a] xs pn Nil by (auto simp: p_def)
    qed
    then show ?thesis using pn r1 tn' Nil by (auto simp: unlink_def upd_def p_def)
  next
    case (Cons b bs)
    obtain bn where bn: "h b = Some bn" using linkedD [OF l, of b] Cons by auto
    have neq: "b \<noteq> p" "b \<in> set (xs @ ys)" using p Cons by auto
    let ?h2 = "?h1(b \<mapsto> bn\<lparr>io_prev := Some p\<rparr>)"
    have "relinked (set (xs @ ys)) h ?h2"
      using bn neq by (intro relinked_upd [OF r1, of b bn]) (auto simp: same_data_def)
    moreover have "linked ?h2 (xs @ ys)"
      unfolding linked_def
    proof (intro conjI ballI)
      show "distinct (xs @ ys)" using d by auto
      fix a assume a: "a \<in> set (xs @ ys)"
      have "Some a = first ys \<longleftrightarrow> a = b" using Cons by auto
      then show "\<exists>n. ?h2 a = Some n \<and> io_next n = next_in (xs @ ys) a \<and> io_prev n = next_in (rev (xs @ ys)) a"
        unfolding next_in_remove [OF d a] using ptr [OF a] xs pn bn neq first_rev [OF xs] by (auto simp: p_def)
    qed
    moreover have "unlink tn h = Some ?h2" using pn bn neq tn' Cons by (simp add: unlink_def upd_def p_def)
    ultimately show ?thesis using tn' Cons by auto
  qed
qed

lemma clean_loop_result:
  assumes "linked h (p # ys)" "h p = Some pn"
  shows "\<exists>h'. clean_loop h (first ys) = Some h' \<and> h' p = Some (pn\<lparr>io_next := None\<rparr>) \<and> (\<forall>a. a \<notin> set (p # ys) \<longrightarrow> h' a = h a) \<and>
    (\<forall>a\<in>set ys. \<exists>n. h a = Some n \<and> h' a = Some (n\<lparr>io_prev := None, io_next := None, io_enabled := False\<rparr>))"
  using assms
proof (induction ys arbitrary: p pn h)
  case Nil
  then have "io_next pn = None" using linked_suffix [of h "[]" p "[]"] by auto
  then show ?case using Nil by (simp add: clean_loop.simps)
next
  case (Cons a ys)
  have d: "distinct (p # a # ys)" using Cons.prems(1) by (simp add: linked_def)
  obtain n where n: "h a = Some n" "io_next n = first ys" "io_prev n = Some p"
    using linked_suffix [of h "[p]" a ys] Cons.prems(1) by auto
  let ?n = "n\<lparr>io_prev := None, io_enabled := False\<rparr>"
  define h2 where "h2 = h(p \<mapsto> pn\<lparr>io_next := None\<rparr>, a \<mapsto> ?n)"
  have h2a: "h2 a = Some ?n" by (simp add: h2_def)
  have "linked h2 (a # ys)"
    unfolding linked_def
  proof (intro conjI ballI)
    show "distinct (a # ys)" using d by simp
    fix b assume b: "b \<in> set (a # ys)"
    have "\<exists>m. h b = Some m \<and> io_next m = next_in (p # a # ys) b \<and> io_prev m = next_in (rev (p # a # ys)) b"
      using linkedD [OF Cons.prems(1), of b] b by auto
    moreover have "next_in (rev (a # ys)) b = (if b = a then None else next_in (rev (p # a # ys)) b)"
      using next_in_remove(2) [of "[]" p "a # ys" b] d b by (cases "b = a") (auto simp: next_in_split)
    ultimately show "\<exists>m. h2 b = Some m \<and> io_next m = next_in (a # ys) b \<and> io_prev m = next_in (rev (a # ys)) b"
      using d b n by (auto simp: h2_def)
  qed
  from Cons.IH [OF this h2a] obtain h' where h': "clean_loop h2 (first ys) = Some h'" "h' a = Some (?n\<lparr>io_next := None\<rparr>)"
    "\<forall>b. b \<notin> set (a # ys) \<longrightarrow> h' b = h2 b"
    "\<forall>b\<in>set ys. \<exists>m. h2 b = Some m \<and> h' b = Some (m\<lparr>io_prev := None, io_next := None, io_enabled := False\<rparr>)" by blast
  have "clean_loop h (first (a # ys)) = clean_loop h2 (first ys)"
    using n Cons.prems(2) d by (subst clean_loop.simps) (simp add: upd_def h2_def)
  then show ?case using h' n Cons.prems(2) d by (auto simp: h2_def split: if_splits)
qed

section \<open>The lists of the reactor\<close>

text \<open>
  \<open>cs\<close> lists the handlers of every descriptor, \<open>hs\<close> the heads: every row is a linked list, rows are disjoint, the
  handlers in no row have null pointers, and addresses not handed out yet are free.
\<close>

definition lists_ok :: "nat list list \<Rightarrow> nat list \<Rightarrow> 'c io_heap \<Rightarrow> nat \<Rightarrow> bool" where
  "lists_ok cs hs h fr \<longleftrightarrow> length cs = length hs \<and>
     (\<forall>i<length hs. linked h (hs ! i # cs ! i)) \<and>
     (\<forall>i<length hs. \<forall>j<length hs. i \<noteq> j \<longrightarrow> set (hs ! i # cs ! i) \<inter> set (hs ! j # cs ! j) = {}) \<and>
     (\<forall>i<length hs. \<exists>n. h (hs ! i) = Some n \<and> io_fd n = -1 \<and> io_events n = 0) \<and>
     (\<forall>a n. h a = Some n \<longrightarrow> (\<forall>i<length hs. a \<notin> set (hs ! i # cs ! i)) \<longrightarrow> io_prev n = None \<and> io_next n = None) \<and>
     (\<forall>a n. h a = Some n \<longrightarrow> a < fr)"

lemma lists_okD:
  assumes "lists_ok cs hs h fr"
  shows "length cs = length hs"
    and "i < length hs \<Longrightarrow> linked h (hs ! i # cs ! i)"
    and "i < length hs \<Longrightarrow> j < length hs \<Longrightarrow> i \<noteq> j \<Longrightarrow> set (hs ! i # cs ! i) \<inter> set (hs ! j # cs ! j) = {}"
    and "i < length hs \<Longrightarrow> \<exists>n. h (hs ! i) = Some n \<and> io_fd n = -1 \<and> io_events n = 0"
    and "h a = Some n \<Longrightarrow> \<forall>i<length hs. a \<notin> set (hs ! i # cs ! i) \<Longrightarrow> io_prev n = None \<and> io_next n = None"
    and "h a = Some n \<Longrightarrow> a < fr"
  using assms unfolding lists_ok_def by blast+

lemma lists_okI:
  assumes "length cs = length hs"
    and "\<And>i. i < length hs \<Longrightarrow> linked h (hs ! i # cs ! i)"
    and "\<And>i j. i < length hs \<Longrightarrow> j < length hs \<Longrightarrow> i \<noteq> j \<Longrightarrow> set (hs ! i # cs ! i) \<inter> set (hs ! j # cs ! j) = {}"
    and "\<And>i. i < length hs \<Longrightarrow> \<exists>n. h (hs ! i) = Some n \<and> io_fd n = -1 \<and> io_events n = 0"
    and "\<And>a n. h a = Some n \<Longrightarrow> \<forall>i<length hs. a \<notin> set (hs ! i # cs ! i) \<Longrightarrow> io_prev n = None \<and> io_next n = None"
    and "\<And>a n. h a = Some n \<Longrightarrow> a < fr"
  shows "lists_ok cs hs h fr"
  unfolding lists_ok_def by (intro conjI, (use assms in blast)+)

lemma linked_other:
  assumes "linked h xs" "\<And>a. a \<in> set xs \<Longrightarrow> h' a = h a"
  shows "linked h' xs"
  by (rule linked_cong [OF assms(1)]) (simp add: assms(2))

text \<open>One row changes: to the rest of it, or by handlers that were in no row.\<close>

lemma lists_ok_row:
  assumes ok: "lists_ok cs hs h fr" and i: "i < length hs" and l: "linked h' (hs ! i # as)"
    and frame: "\<And>a. a \<notin> set (hs ! i # cs ! i) \<Longrightarrow> a \<notin> set as \<Longrightarrow> h' a = h a"
    and as: "\<And>a j. a \<in> set as \<Longrightarrow> a \<notin> set (cs ! i) \<Longrightarrow> j < length hs \<Longrightarrow> a \<notin> set (hs ! j # cs ! j)"
    and hd': "\<And>n. h (hs ! i) = Some n \<Longrightarrow> \<exists>m. h' (hs ! i) = Some m \<and> io_fd m = io_fd n \<and> io_events m = io_events n"
    and out: "\<And>a m. a \<in> set (cs ! i) \<Longrightarrow> a \<notin> set as \<Longrightarrow> h' a = Some m \<Longrightarrow> io_prev m = None \<and> io_next m = None"
    and live: "\<And>a m. h' a = Some m \<Longrightarrow> \<exists>n. h a = Some n"
  shows "lists_ok (cs[i := as]) hs h' fr"
proof -
  note D = lists_okD [OF ok]
  have len: "i < length cs" using D(1) i by simp
  have row: "hs ! j # cs[i := as] ! j = (if j = i then hs ! i # as else hs ! j # cs ! j)" for j using len by simp
  have sep: "a \<notin> set (hs ! i # as)" if "a \<in> set (hs ! j # cs ! j)" "j < length hs" "j \<noteq> i" for a j
    using D(3) [OF that(2) i that(3)] that as [of a j] by auto
  have keep: "h' a = h a" if "a \<in> set (hs ! j # cs ! j)" "j < length hs" "j \<noteq> i" for a j
    using D(3) [OF that(2) i that(3)] that sep [OF that] by (intro frame) auto
  show ?thesis
  proof (rule lists_okI)
    show "length (cs[i := as]) = length hs" using D(1) by simp
    show "linked h' (hs ! j # cs[i := as] ! j)" if "j < length hs" for j
      unfolding row using l linked_other [OF D(2) [OF that], of h'] keep [of _ j] that by auto
    show "set (hs ! j # cs[i := as] ! j) \<inter> set (hs ! k # cs[i := as] ! k) = {}"
      if "j < length hs" "k < length hs" "j \<noteq> k" for j k
      unfolding row using D(3) [OF that] sep [of _ j] sep [of _ k] that by (auto simp del: list.set)
    show "\<exists>n. h' (hs ! j) = Some n \<and> io_fd n = -1 \<and> io_events n = 0" if j: "j < length hs" for j
    proof -
      obtain n where n: "h (hs ! j) = Some n" "io_fd n = -1" "io_events n = 0" using D(4) [OF j] by blast
      show ?thesis using n hd' keep [of "hs ! j" j] j by (cases "j = i") fastforce+
    qed
    show "io_prev m = None \<and> io_next m = None" if m: "h' a = Some m" and free: "\<forall>j<length hs. a \<notin> set (hs ! j # cs[i := as] ! j)" for a m
    proof -
      have a: "a \<noteq> hs ! i" "a \<notin> set as" using free i by (auto simp: row)
      have others: "a \<notin> set (hs ! j # cs ! j)" if "j < length hs" "j \<noteq> i" for j using free that by (auto simp: row)
      show ?thesis
      proof (cases "a \<in> set (cs ! i)")
        case False
        have f: "\<forall>j<length hs. a \<notin> set (hs ! j # cs ! j)"
        proof (intro allI impI)
          fix j assume "j < length hs"
          then show "a \<notin> set (hs ! j # cs ! j)" using others [of j] a False by (cases "j = i") auto
        qed
        have "h' a = h a" using a False by (intro frame) auto
        then show ?thesis using D(5) [of a m, OF _ f] m by simp
      qed (use out a m in blast)
    qed
    show "a < fr" if "h' a = Some m" for a m using live [OF that] D(6) by blast
  qed
qed

text \<open>The data of a handler change, and objects come into being.\<close>

lemma lists_ok_data:
  assumes ok: "lists_ok cs hs h fr" and n: "h a = Some n" and m: "io_prev m = io_prev n" "io_next m = io_next n"
    and a: "a \<in> set hs \<Longrightarrow> io_fd m = io_fd n \<and> io_events m = io_events n"
  shows "lists_ok cs hs (h(a \<mapsto> m)) fr"
proof -
  note D = lists_okD [OF ok]
  show ?thesis
  proof (rule lists_okI)
    show "linked (h(a \<mapsto> m)) (hs ! i # cs ! i)" if "i < length hs" for i
      by (rule linked_cong [OF D(2) [OF that]]) (use n m in auto)
    show "\<exists>k. (h(a \<mapsto> m)) (hs ! i) = Some k \<and> io_fd k = -1 \<and> io_events k = 0" if "i < length hs" for i
      using D(4) [OF that] n a nth_mem [OF that] by (cases "hs ! i = a") auto
    show "io_prev k = None \<and> io_next k = None" if "(h(a \<mapsto> m)) b = Some k" "\<forall>i<length hs. b \<notin> set (hs ! i # cs ! i)" for b k
      using D(5) [of b, OF _ that(2)] that(1) n m by (cases "b = a") auto
    show "b < fr" if "(h(a \<mapsto> m)) b = Some k" for b k using D(6) [of b] that n by (cases "b = a") auto
  qed (use D(1,3) in blast)+
qed

lemma lists_ok_unlisted:
  assumes ok: "lists_ok cs hs h fr" and a: "\<And>i. i < length hs \<Longrightarrow> a \<notin> set (hs ! i # cs ! i)"
    and n: "\<And>n. x = Some n \<Longrightarrow> io_prev n = None \<and> io_next n = None \<and> a < fr'" and fr: "fr \<le> fr'"
  shows "lists_ok cs hs (h(a := x)) fr'"
proof -
  note D = lists_okD [OF ok]
  show ?thesis
  proof (rule lists_okI)
    show "linked (h(a := x)) (hs ! i # cs ! i)" if "i < length hs" for i
      by (rule linked_other [OF D(2) [OF that]]) (use a [OF that] in auto)
    show "\<exists>k. (h(a := x)) (hs ! i) = Some k \<and> io_fd k = -1 \<and> io_events k = 0" if "i < length hs" for i
      using D(4) [OF that] a [OF that] by auto
    show "io_prev k = None \<and> io_next k = None" if "(h(a := x)) b = Some k" "\<forall>i<length hs. b \<notin> set (hs ! i # cs ! i)" for b k
      using D(5) [of b, OF _ that(2)] that(1) n by (cases "b = a") auto
    show "b < fr'" if "(h(a := x)) b = Some k" for b k
    proof (cases "b = a")
      case False
      then show ?thesis using D(6) [of b k] that fr by simp
    qed (use that n in auto)
  qed (use D(1,3) in blast)+
qed

lemma lists_ok_live: "lists_ok cs hs h fr \<Longrightarrow> i < length hs \<Longrightarrow> a \<in> set (hs ! i # cs ! i) \<Longrightarrow> \<exists>n. h a = Some n \<and> a < fr"
  using linkedD [OF lists_okD(2)] lists_okD(6) by metis

lemma lists_ok_fresh: "lists_ok cs hs h fr \<Longrightarrow> i < length hs \<Longrightarrow> fr \<notin> set (hs ! i # cs ! i)"
  using lists_ok_live by blast

definition io_rel :: "nat list list \<Rightarrow> 'c io_reactor \<Rightarrow> bool" where
  "io_rel cs r \<longleftrightarrow> lists_ok cs (map fst (ioHandlers r)) (io_heap r) (io_fresh r) \<and> INIT_FD_NUMS \<le> length (ioHandlers r)"

text \<open>The kernel's interest list is what the table of the reactor says.\<close>

definition backend_ok :: "'c io_reactor \<Rightarrow> bool" where
  "backend_ok r \<longleftrightarrow> interestFds r = dom (ep_interest r) \<and>
     (\<forall>fd. ep_interest r fd =
        (if 0 \<le> fd \<and> nat fd < length (ioHandlers r) \<and> snd (ioHandlers r ! nat fd) \<noteq> EVENT_NONE
         then Some (io_Reactor2Epoll (snd (ioHandlers r ! nat fd))) else None))"

lemma io_relD:
  assumes "io_rel cs r"
  shows "lists_ok cs (map fst (ioHandlers r)) (io_heap r) (io_fresh r)" "INIT_FD_NUMS \<le> length (ioHandlers r)"
    "length cs = length (ioHandlers r)" "i < length cs \<Longrightarrow> linked (io_heap r) (fst (ioHandlers r ! i) # cs ! i)"
    "i < length cs \<Longrightarrow> \<exists>n. io_heap r (fst (ioHandlers r ! i)) = Some n \<and> io_fd n = -1 \<and> io_events n = 0"
proof -
  show ok: "lists_ok cs (map fst (ioHandlers r)) (io_heap r) (io_fresh r)" "INIT_FD_NUMS \<le> length (ioHandlers r)"
    using assms by (simp_all add: io_rel_def)
  show len: "length cs = length (ioHandlers r)" using lists_okD(1) [OF ok(1)] by simp
  show "i < length cs \<Longrightarrow> linked (io_heap r) (fst (ioHandlers r ! i) # cs ! i)"
    "i < length cs \<Longrightarrow> \<exists>n. io_heap r (fst (ioHandlers r ! i)) = Some n \<and> io_fd n = -1 \<and> io_events n = 0"
    using lists_okD(2,4) [OF ok(1), of i] len by simp_all
qed

definition same_lists :: "'c io_reactor \<Rightarrow> 'c io_reactor \<Rightarrow> bool" where
  "same_lists r r' \<longleftrightarrow> io_heap r' = io_heap r \<and> map fst (ioHandlers r') = map fst (ioHandlers r) \<and> io_fresh r' = io_fresh r \<and>
     io_count r' = io_count r \<and> ep_open r' = ep_open r"

lemma same_lists_length: "same_lists r r' \<Longrightarrow> length (ioHandlers r') = length (ioHandlers r)"
  using map_eq_imp_length_eq by (auto simp: same_lists_def)

lemma io_rel_same: "same_lists r r' \<Longrightarrow> io_rel cs r \<Longrightarrow> io_rel cs r'"
  using same_lists_length [of r r'] by (simp add: io_rel_def same_lists_def)

lemma FdEvents_head_int: "i < length (ioHandlers r) \<Longrightarrow> FdEvents_head (int i) r = Some (fst (ioHandlers r ! i))"
  by (simp add: FdEvents_head_def)

lemma backend_okD:
  assumes "backend_ok r" "i < length (ioHandlers r)"
  shows "int i \<in> interestFds r \<longleftrightarrow> snd (ioHandlers r ! i) \<noteq> EVENT_NONE"
    "ep_interest r (int i) = (if snd (ioHandlers r ! i) \<noteq> EVENT_NONE then Some (io_Reactor2Epoll (snd (ioHandlers r ! i))) else None)"
  using assms by (auto simp: backend_ok_def)

text \<open>The table entry of one descriptor and the kernel change together.\<close>

lemma backend_ok_entry:
  assumes ok: "backend_ok r" and i: "i < length (ioHandlers r)"
    and hs: "ioHandlers r' = (ioHandlers r)[i := (hh, ev)]"
    and ep: "ep_interest r' = (ep_interest r)(int i := if ev \<noteq> EVENT_NONE then Some (io_Reactor2Epoll ev) else None)"
    and fds: "interestFds r' = dom (ep_interest r')"
  shows "backend_ok r'"
  unfolding backend_ok_def
proof (intro conjI allI)
  fix fd
  have old: "ep_interest r fd = (if 0 \<le> fd \<and> nat fd < length (ioHandlers r) \<and> snd (ioHandlers r ! nat fd) \<noteq> EVENT_NONE
      then Some (io_Reactor2Epoll (snd (ioHandlers r ! nat fd))) else None)" using ok by (simp add: backend_ok_def)
  show "ep_interest r' fd = (if 0 \<le> fd \<and> nat fd < length (ioHandlers r') \<and> snd (ioHandlers r' ! nat fd) \<noteq> EVENT_NONE
      then Some (io_Reactor2Epoll (snd (ioHandlers r' ! nat fd))) else None)"
    using i old by (cases "fd = int i") (auto simp: hs ep nth_list_update)
qed (rule fds)

lemma ModifyEvents_result:
  assumes ok: "backend_ok r" and i: "i < length (ioHandlers r)" and ev: "ev \<noteq> snd (ioHandlers r ! i)"
  shows "\<exists>res r'. ModifyEvents fault (int i) ev r = (res, r') \<and>
    (ep_open r \<and> (\<forall>opr. \<not> fault opr (int i)) \<longrightarrow> res = EVENT_SYS_ERR_OK) \<and>
    (if res = EVENT_SYS_ERR_OK
     then ioHandlers r' = ioHandlers r \<and> same_lists r r' \<and>
       ep_interest r' = (ep_interest r)(int i := if ev \<noteq> EVENT_NONE then Some (io_Reactor2Epoll ev) else None) \<and>
       interestFds r' = dom (ep_interest r')
     else r' = r)"
proof -
  note B = backend_okD [OF ok i]
  have dom: "interestFds r = dom (ep_interest r)" using ok by (simp add: backend_ok_def)
  show ?thesis
  proof (cases "int i \<in> interestFds r")
    case True
    then show ?thesis using B dom
      by (auto simp: ModifyEvents_def OperateEpoll_def Let_def same_lists_def split: if_splits)
  next
    case False
    then have "ev \<noteq> EVENT_NONE" using B ev by auto
    then show ?thesis using False B dom by (auto simp: ModifyEvents_def OperateEpoll_def Let_def same_lists_def)
  qed
qed

lemma UpdateToDemultiplexer_result:
  assumes rel: "io_rel cs r" and ok: "backend_ok r" and i: "i < length cs"
  shows "\<exists>b r'. UpdateToDemultiplexer fault (int i) r = Some (b, r') \<and>
    (ep_open r \<and> (\<forall>opr. \<not> fault opr (int i)) \<longrightarrow> b) \<and> same_lists r r' \<and> backend_ok r' \<and>
    (if b then snd (ioHandlers r' ! i) = events_of (io_heap r) (cs ! i) else r' = r)"
proof -
  note D = io_relD [OF rel]
  have i': "i < length (ioHandlers r)" using i D(3) by simp
  let ?hh = "fst (ioHandlers r ! i)" and ?ev = "events_of (io_heap r) (cs ! i)"
  have "emask_loop (io_heap r) 0 (Some ?hh) = Some (events_of (io_heap r) (?hh # cs ! i))"
    using emask_loop_walk [of "io_heap r" "[]" "?hh # cs ! i" 0] D(4) [OF i] by simp
  also have "events_of (io_heap r) (?hh # cs ! i) = ?ev" using D(5) [OF i] by (auto simp: events_of_def)
  finally have walk: "emask_loop (io_heap r) 0 (Some ?hh) = Some ?ev" .
  show ?thesis
  proof (cases "?ev = snd (ioHandlers r ! i)")
    case True
    then have "UpdateToDemultiplexer fault (int i) r = Some (True, r)" using walk i'
      by (simp add: UpdateToDemultiplexer_def FdEvents_head_int)
    then show ?thesis using ok True by (fastforce simp: same_lists_def)
  next
    case False
    from ModifyEvents_result [OF ok i' False] obtain res r1 where m: "ModifyEvents fault (int i) ?ev r = (res, r1)"
      "ep_open r \<and> (\<forall>opr. \<not> fault opr (int i)) \<longrightarrow> res = EVENT_SYS_ERR_OK"
      and r1: "if res = EVENT_SYS_ERR_OK then ioHandlers r1 = ioHandlers r \<and> same_lists r r1 \<and>
        ep_interest r1 = (ep_interest r)(int i := if ?ev \<noteq> EVENT_NONE then Some (io_Reactor2Epoll ?ev) else None) \<and>
        interestFds r1 = dom (ep_interest r1) else r1 = r" by blast
    show ?thesis
    proof (cases "res = EVENT_SYS_ERR_OK")
      case True
      let ?r2 = "r1\<lparr>ioHandlers := (ioHandlers r1)[i := (?hh, ?ev)]\<rparr>"
      have same: "ioHandlers r1 = ioHandlers r" "io_heap r1 = io_heap r" "io_fresh r1 = io_fresh r" "io_count r1 = io_count r"
        "ep_open r1 = ep_open r"
        using r1 True by (simp_all add: same_lists_def)
      have "UpdateToDemultiplexer fault (int i) r = Some (True, ?r2)"
        using walk m True False i' by (simp add: UpdateToDemultiplexer_def FdEvents_head_int)
      moreover have "backend_ok ?r2"
        by (rule backend_ok_entry [OF ok i', of _ ?hh ?ev]) (use r1 True same in auto)
      moreover have "same_lists r ?r2" using same i' by (simp add: same_lists_def map_update list_update_same_conv)
      ultimately show ?thesis using same i' by fastforce
    next
      case False
      then show ?thesis using walk m r1 ok i' \<open>?ev \<noteq> snd (ioHandlers r ! i)\<close>
        by (auto simp: UpdateToDemultiplexer_def FdEvents_head_int same_lists_def intro: exI [of _ False])
    qed
  qed
qed

text \<open>Membership is decided by the walk; a handler of no list has no predecessor, one of a list has.\<close>

lemma listed_prev:
  assumes rel: "io_rel cs r" and i: "i < length cs" and a: "a \<in> set (cs ! i)" and n: "io_heap r a = Some n"
  shows "io_prev n \<noteq> None"
proof -
  obtain xs ys where cs: "cs ! i = xs @ a # ys" using split_list [OF a] by blast
  have "linked (io_heap r) ((fst (ioHandlers r ! i) # xs) @ a # ys)" using io_relD(4) [OF rel i] cs by simp
  from linked_suffix [OF this] show ?thesis using n by (cases "rev xs") auto
qed

lemma unlisted_prev:
  assumes rel: "io_rel cs r" and n: "io_heap r a = Some n" and a: "\<And>i. i < length cs \<Longrightarrow> a \<notin> set (cs ! i)"
    and fd: "io_fd n \<noteq> -1"
  shows "io_prev n = None" "io_next n = None" "i < length cs \<Longrightarrow> a \<notin> set (fst (ioHandlers r ! i) # cs ! i)"
proof -
  note D = io_relD [OF rel]
  have free: "a \<notin> set (fst (ioHandlers r ! i) # cs ! i)" if "i < length cs" for i
    using D(5) [OF that] a [OF that] n fd by auto
  then show "i < length cs \<Longrightarrow> a \<notin> set (fst (ioHandlers r ! i) # cs ! i)" .
  have "\<forall>i<length (map fst (ioHandlers r)). a \<notin> set (map fst (ioHandlers r) ! i # cs ! i)" using free D(3) by simp
  from lists_okD(5) [OF D(1) n this] show "io_prev n = None" "io_next n = None" by simp_all
qed

lemma HasHandler_result:
  assumes rel: "io_rel cs r" and t: "io_heap r a = Some t"
  shows "HasHandler a r = Some (0 \<le> io_fd t \<and> nat (io_fd t) < length cs \<and> a \<in> set (cs ! nat (io_fd t)))"
proof (cases "0 \<le> io_fd t \<and> nat (io_fd t) < length cs")
  case True
  note D = io_relD [OF rel]
  let ?i = "nat (io_fd t)" and ?hh = "fst (ioHandlers r ! nat (io_fd t))"
  have i: "?i < length cs" using True by simp
  have "has_loop (io_heap r) a (Some ?hh) = Some (a \<in> set (?hh # cs ! ?i))"
    using has_loop_walk [of "io_heap r" "[]" "?hh # cs ! ?i" a] D(4) [OF i] by simp
  moreover have "a \<noteq> ?hh" using D(5) [OF i] t True by auto
  ultimately show ?thesis using t True D(3) by (auto simp: HasHandler_def FdEvents_head_def)
next
  case False
  then have "io_fd t < 0 \<or> io_fd t \<ge> int (length (ioHandlers r))" using io_relD(3) [OF rel] by auto
  then show ?thesis using t False by (auto simp: HasHandler_def)
qed

text \<open>The table grows.\<close>

lemma lists_ok_grow:
  assumes ok: "lists_ok cs hs h fr"
  shows "lists_ok (cs @ [[]]) (hs @ [fr]) (h(fr \<mapsto> IOEventHandler_default)) (Suc fr)"
proof -
  note D = lists_okD [OF ok]
  have new: "IOEventHandler_default = (n :: 'c io_handler) \<Longrightarrow> io_prev n = None \<and> io_next n = None \<and> io_fd n = -1 \<and> io_events n = 0" for n
    by (auto simp: IOEventHandler_default_def IOEventHandler_new_def IO_EVENT_INVALID_FD_def EVENT_NONE_def)
  have old: "lists_ok cs hs (h(fr \<mapsto> IOEventHandler_default)) (Suc fr)"
    by (rule lists_ok_unlisted [OF ok]) (use lists_ok_fresh [OF ok] new in auto)
  note D' = lists_okD [OF old]
  have row: "(hs @ [fr]) ! i # (cs @ [[]]) ! i = (if i = length hs then [fr] else hs ! i # cs ! i)" if "i < Suc (length hs)" for i
    using that D(1) by (auto simp: nth_append)
  have one: "set [fr] = {fr}" by simp
  have sep: "i < length hs \<Longrightarrow> set (hs ! i # cs ! i) \<inter> {fr} = {}" for i using lists_ok_fresh [OF ok, of i] by auto
  show ?thesis
  proof (rule lists_okI)
    fix i assume "i < length (hs @ [fr])"
    then have i: "i < Suc (length hs)" by simp
    show "linked (h(fr \<mapsto> IOEventHandler_default)) ((hs @ [fr]) ! i # (cs @ [[]]) ! i)"
      using D'(2) [of i] new [OF refl] i by (auto simp: row linked_def)
    show "\<exists>n. (h(fr \<mapsto> IOEventHandler_default)) ((hs @ [fr]) ! i) = Some n \<and> io_fd n = -1 \<and> io_events n = 0"
      using D'(4) [of i] new [OF refl] i by (cases "i = length hs") (auto simp: nth_append)
    fix j assume "j < length (hs @ [fr])" "i \<noteq> j"
    then show "set ((hs @ [fr]) ! i # (cs @ [[]]) ! i) \<inter> set ((hs @ [fr]) ! j # (cs @ [[]]) ! j) = {}"
      using D(3) [of i j] sep [of i] sep [of j] i one by (auto simp: row simp del: list.set(2) split: if_splits)
  next
    fix a n assume a: "(h(fr \<mapsto> IOEventHandler_default)) a = Some n" "\<forall>i<length (hs @ [fr]). a \<notin> set ((hs @ [fr]) ! i # (cs @ [[]]) ! i)"
    have "\<forall>i<length hs. a \<notin> set (hs ! i # cs ! i)"
    proof (intro allI impI)
      fix i assume "i < length hs"
      then show "a \<notin> set (hs ! i # cs ! i)" using a(2) [rule_format, of i] row [of i] by simp
    qed
    from D'(5) [OF a(1) this] show "io_prev n = None \<and> io_next n = None" .
  qed (use D(1) D'(6) in auto)
qed

lemma add_heads_lists:
  assumes "lists_ok cs (map fst (ioHandlers r)) (io_heap r) (io_fresh r)" "backend_ok r"
  shows "lists_ok (cs @ replicate k []) (map fst (ioHandlers (add_heads k r))) (io_heap (add_heads k r)) (io_fresh (add_heads k r)) \<and>
    backend_ok (add_heads k r) \<and> io_count (add_heads k r) = io_count r \<and> ep_open (add_heads k r) = ep_open r \<and> length (ioHandlers (add_heads k r)) = length (ioHandlers r) + k \<and>
    (\<forall>a n. io_heap r a = Some n \<longrightarrow> io_heap (add_heads k r) a = Some n) \<and>
    (\<forall>i<length cs. ioHandlers (add_heads k r) ! i = ioHandlers r ! i)"
  using assms
proof (induction k arbitrary: cs r)
  case (Suc k)
  define q where "q = r\<lparr>ioHandlers := ioHandlers r @ [(io_fresh r, EVENT_NONE)],
    io_heap := (io_heap r)(io_fresh r \<mapsto> IOEventHandler_default), io_fresh := Suc (io_fresh r)\<rparr>"
  have len: "length cs = length (ioHandlers r)" using lists_okD(1) [OF Suc.prems(1)] by simp
  have "lists_ok (cs @ [[]]) (map fst (ioHandlers q)) (io_heap q) (io_fresh q)" using lists_ok_grow [OF Suc.prems(1)] by (simp add: q_def)
  moreover have "backend_ok q" using Suc.prems(2) by (auto simp: q_def backend_ok_def nth_append less_Suc_eq)
  ultimately have IH: "lists_ok ((cs @ [[]]) @ replicate k []) (map fst (ioHandlers (add_heads k q))) (io_heap (add_heads k q)) (io_fresh (add_heads k q))"
    "backend_ok (add_heads k q)" "io_count (add_heads k q) = io_count q" "ep_open (add_heads k q) = ep_open q" "length (ioHandlers (add_heads k q)) = length (ioHandlers q) + k"
    "\<And>a n. io_heap q a = Some n \<Longrightarrow> io_heap (add_heads k q) a = Some n"
    "\<And>i. i < length (cs @ [[]]) \<Longrightarrow> ioHandlers (add_heads k q) ! i = ioHandlers q ! i" using Suc.IH [of "cs @ [[]]" q] by blast+
  have heap: "io_heap r a = Some n \<Longrightarrow> io_heap q a = Some n" for a n using lists_okD(6) [OF Suc.prems(1), of a n] by (auto simp: q_def)
  have nth: "i < length cs \<Longrightarrow> ioHandlers q ! i = ioHandlers r ! i" for i using len by (simp add: q_def nth_append)
  have "add_heads (Suc k) r = add_heads k q" by (simp add: q_def)
  then show ?case using IH heap nth by (simp add: q_def)
qed simp

lemma add_heads_result:
  assumes rel: "io_rel cs r" and ok: "backend_ok r"
  shows "io_rel (cs @ replicate k []) (add_heads k r)" "backend_ok (add_heads k r)" "io_count (add_heads k r) = io_count r"
    "ep_open (add_heads k r) = ep_open r" "io_heap r a = Some n \<Longrightarrow> io_heap (add_heads k r) a = Some n" "i < length cs \<Longrightarrow> ioHandlers (add_heads k r) ! i = ioHandlers r ! i"
  using add_heads_lists [OF io_relD(1) [OF rel] ok, of k] io_relD(2) [OF rel] by (auto simp: io_rel_def)

text \<open>The lists after a descriptor has been made room for.\<close>

definition room_for :: "nat \<Rightarrow> nat list list \<Rightarrow> nat list list" where
  "room_for fd cs = (if fd < length cs then cs else cs @ replicate (fd * EXPANSION_COEFF - length cs) [])"

lemma room_for_result:
  assumes rel: "io_rel cs r" "backend_ok r"
    and r1_def: "r1 = (if fd > length (ioHandlers r) - 1 then resize_handlers (fd * EXPANSION_COEFF) r else r)"
  shows "io_rel (room_for fd cs) r1" "backend_ok r1" "io_count r1 = io_count r" "fd < length (room_for fd cs)"
    "io_heap r a = Some n \<Longrightarrow> io_heap r1 a = Some n" "i < length cs \<Longrightarrow> ioHandlers r1 ! i = ioHandlers r ! i" "ep_open r1 = ep_open r"
proof -
  note D = io_relD [OF rel(1)]
  have len: "8 \<le> length cs" using D(2,3) by (simp add: INIT_FD_NUMS_def)
  have r1: "r1 = (if fd < length cs then r else add_heads (fd * EXPANSION_COEFF - length cs) r)"
    using D(3) len by (auto simp: r1_def resize_handlers_def EXPANSION_COEFF_def)
  note A = add_heads_result [OF rel, where k = "fd * EXPANSION_COEFF - length cs"]
  show "io_rel (room_for fd cs) r1" "backend_ok r1" "io_count r1 = io_count r" "fd < length (room_for fd cs)"
    "io_heap r a = Some n \<Longrightarrow> io_heap r1 a = Some n" "i < length cs \<Longrightarrow> ioHandlers r1 ! i = ioHandlers r ! i" "ep_open r1 = ep_open r"
    using A rel len by (auto simp: r1 room_for_def EXPANSION_COEFF_def)
qed

lemma listed_conv: "(\<exists>i<length cs. a \<in> set (cs ! i)) \<longleftrightarrow> a \<in> set (concat cs)"
  by (auto simp: in_set_conv_nth [of _ cs]) (metis in_set_conv_nth)

lemma room_for_sets: "set (concat (room_for fd cs)) = set (concat cs)"
  by (simp add: room_for_def)

lemma backend_ok_fields [simp]:
  "backend_ok (r\<lparr>io_heap := h\<rparr>) = backend_ok r" "backend_ok (r\<lparr>io_count := c\<rparr>) = backend_ok r" "backend_ok (r\<lparr>io_fresh := k\<rparr>) = backend_ok r"
  "backend_ok (r\<lparr>io_loopReady := b\<rparr>) = backend_ok r" "backend_ok (r\<lparr>io_handling := b\<rparr>) = backend_ok r" "backend_ok (r\<lparr>ep_open := b\<rparr>) = backend_ok r"
  by (simp_all add: backend_ok_def)

lemma io_rel_fields [simp]:
  "io_rel cs (r\<lparr>io_count := c\<rparr>) = io_rel cs r" "io_rel cs (r\<lparr>io_loopReady := b\<rparr>) = io_rel cs r"
  "io_rel cs (r\<lparr>io_handling := b\<rparr>) = io_rel cs r" "io_rel cs (r\<lparr>ep_open := b\<rparr>) = io_rel cs r"
  by (simp_all add: io_rel_def)

text \<open>The rules of \<^const>\<open>lists_ok\<close>, for a reactor.\<close>

lemma io_rel_row:
  assumes rel: "io_rel cs r" and i: "i < length cs" and l: "linked h' (fst (ioHandlers r ! i) # as)"
    and frame: "\<And>a. a \<notin> set (fst (ioHandlers r ! i) # cs ! i) \<Longrightarrow> a \<notin> set as \<Longrightarrow> h' a = io_heap r a"
    and as: "\<And>a j. a \<in> set as \<Longrightarrow> a \<notin> set (cs ! i) \<Longrightarrow> j < length cs \<Longrightarrow> a \<notin> set (fst (ioHandlers r ! j) # cs ! j)"
    and hd': "\<And>n. io_heap r (fst (ioHandlers r ! i)) = Some n \<Longrightarrow>
      \<exists>m. h' (fst (ioHandlers r ! i)) = Some m \<and> io_fd m = io_fd n \<and> io_events m = io_events n"
    and out: "\<And>a m. a \<in> set (cs ! i) \<Longrightarrow> a \<notin> set as \<Longrightarrow> h' a = Some m \<Longrightarrow> io_prev m = None \<and> io_next m = None"
    and live: "\<And>a m. h' a = Some m \<Longrightarrow> \<exists>n. io_heap r a = Some n"
  shows "io_rel (cs[i := as]) (r\<lparr>io_heap := h'\<rparr>)"
proof -
  note D = io_relD [OF rel]
  have i': "i < length (map fst (ioHandlers r))" using i D(3) by simp
  have "lists_ok (cs[i := as]) (map fst (ioHandlers r)) h' (io_fresh r)"
    by (rule lists_ok_row [OF D(1) i']) (use l frame as hd' out live D(3) i in auto)
  then show ?thesis using D(2) by (simp add: io_rel_def)
qed

lemma io_rel_data:
  assumes rel: "io_rel cs r" and n: "io_heap r a = Some n" and m: "io_prev m = io_prev n" "io_next m = io_next n"
    and a: "a \<notin> fst ` set (ioHandlers r) \<or> io_fd m = io_fd n \<and> io_events m = io_events n"
  shows "io_rel cs (r\<lparr>io_heap := (io_heap r)(a \<mapsto> m)\<rparr>)"
  using lists_ok_data [OF io_relD(1) [OF rel] n m] a io_relD(2) [OF rel] by (simp add: io_rel_def)

lemma relinked_live: "relinked X h h' \<Longrightarrow> h' a = Some m \<Longrightarrow> \<exists>n. h a = Some n \<and> same_data n m"
  using relinkedD(2,3) [of X h h' a] by (cases "h a") fastforce+

lemma OR_AND_absorb: "((a :: 32 word) OR b) AND a = a"
  by (rule bit_eqI) (auto simp: bit_simps)

lemma events_of_member:
  assumes "a \<in> set as" "h a = Some n"
  shows "events_of h as AND io_events n = io_events n"
  using assms
proof (induction as)
  case (Cons b as)
  show ?case
  proof (cases "b = a")
    case True
    then show ?thesis using Cons.prems(2) by (simp add: events_of_def OR_AND_absorb)
  next
    case False
    then have "events_of h as AND io_events n = io_events n" using Cons by auto
    then have "bit (io_events n) k \<Longrightarrow> bit (events_of h as) k" for k by (metis bit_and_iff)
    then show ?thesis by (intro bit_eqI) (auto simp: events_of_def bit_simps)
  qed
qed simp

lemma InsertNodeFront_result:
  assumes rel: "io_rel cs r" and t: "io_heap r a = Some t" "io_fd t \<noteq> -1" "io_prev t = None" and i: "i < length cs"
  shows "\<exists>h'. InsertNodeFront (int i) a r = Some (r\<lparr>io_heap := h'\<rparr>) \<and> io_rel (cs[i := a # cs ! i]) (r\<lparr>io_heap := h'\<rparr>) \<and>
    (\<exists>m. h' a = Some m \<and> same_data t m)"
proof -
  note D = io_relD [OF rel]
  let ?hh = "fst (ioHandlers r ! i)"
  have un: "a \<notin> set (cs ! j)" if "j < length cs" for j using listed_prev [OF rel that _ t(1)] t(3) by blast
  have free: "a \<notin> set (fst (ioHandlers r ! j) # cs ! j)" if "j < length cs" for j
    using unlisted_prev(3) [OF rel t(1) _ t(2) that] un by blast
  from InsertNodeFront_links [OF D(4) [OF i] t(1), of "int i"] free [OF i] i D(3)
  obtain h' where h': "InsertNodeFront (int i) a r = Some (r\<lparr>io_heap := h'\<rparr>)" "linked h' (?hh # a # cs ! i)"
    "relinked (set (?hh # a # cs ! i)) (io_heap r) h'" by (auto simp: FdEvents_head_int)
  have "io_rel (cs[i := a # cs ! i]) (r\<lparr>io_heap := h'\<rparr>)"
  proof (rule io_rel_row [OF rel i h'(2)])
    show "h' b = io_heap r b" if "b \<notin> set (?hh # cs ! i)" "b \<notin> set (a # cs ! i)" for b
      using relinkedD(1) [OF h'(3), of b] that by auto
    show "b \<notin> set (fst (ioHandlers r ! j) # cs ! j)" if "b \<in> set (a # cs ! i)" "b \<notin> set (cs ! i)" "j < length cs" for b j
      using that free [of j] by auto
    show "\<exists>m. h' ?hh = Some m \<and> io_fd m = io_fd n \<and> io_events m = io_events n" if "io_heap r ?hh = Some n" for n
      using relinkedD(2) [OF h'(3) that] by (auto simp: same_data_def)
    show "\<exists>n. io_heap r b = Some n" if "h' b = Some m" for b m using relinked_live [OF h'(3) that] by blast
  qed auto
  then show ?thesis using h'(1) relinkedD(2) [OF h'(3) t(1)] by blast
qed

lemma AddHandler_result:
  assumes rel: "io_rel cs r" "backend_ok r" and t: "io_heap r a = Some t" "0 \<le> io_fd t" "io_fd t \<le> MAX_FD" "io_prev t = None"
  defines "fd \<equiv> nat (io_fd t)"
  shows "\<exists>res r'. AddHandler fault (Some a) r = Some (res, r') \<and>
    (ep_open r \<and> (\<forall>opr. \<not> fault opr (io_fd t)) \<longrightarrow> res = EVENT_SYS_ERR_OK) \<and>
    io_rel ((room_for fd cs)[fd := a # room_for fd cs ! fd]) r' \<and> backend_ok r' \<and>
    ep_open r' = ep_open r \<and>
    (\<exists>n. io_heap r' a = Some n \<and> io_fd n = io_fd t \<and> io_events n = io_events t \<and> io_enabled n = (res = EVENT_SYS_ERR_OK \<or> io_enabled t)) \<and>
    (if res = EVENT_SYS_ERR_OK then snd (ioHandlers r' ! fd) AND io_events t = io_events t \<and> io_count r' = io_count r + 1
     else res = EVENT_SYS_ERR_FAILED \<and> io_count r' = io_count r)"
proof -
  let ?cs = "room_for fd cs"
  define r1 where "r1 = (if fd > length (ioHandlers r) - 1 then resize_handlers (fd * EXPANSION_COEFF) r else r)"
  note R = room_for_result [OF rel r1_def]
  have fd: "int fd = io_fd t" using t(2) by (simp add: fd_def)
  from InsertNodeFront_result [OF R(1) R(5) [OF t(1)] _ t(4) R(4)] fd
  obtain h' m where ins: "InsertNodeFront (int fd) a r1 = Some (r1\<lparr>io_heap := h'\<rparr>)"
    "io_rel (?cs[fd := a # ?cs ! fd]) (r1\<lparr>io_heap := h'\<rparr>)" "h' a = Some m" "same_data t m" by auto
  let ?r2 = "r1\<lparr>io_heap := h'\<rparr>" and ?cs' = "?cs[fd := a # ?cs ! fd]"
  obtain ok r3 where up: "(if snd (ioHandlers ?r2 ! fd) AND io_events t \<noteq> io_events t then UpdateToDemultiplexer fault (int fd) ?r2
      else Some (True, ?r2)) = Some (ok, r3)" "same_lists ?r2 r3" "backend_ok r3"
    "ok \<Longrightarrow> snd (ioHandlers r3 ! fd) AND io_events t = io_events t"
    "ep_open r \<and> (\<forall>opr. \<not> fault opr (io_fd t)) \<longrightarrow> ok"
  proof (cases "snd (ioHandlers ?r2 ! fd) AND io_events t \<noteq> io_events t")
    case True
    have "fd < length ?cs'" using R(4) by simp
    from UpdateToDemultiplexer_result [OF ins(2) _ this, of fault] R(2) obtain ok r3 where
      u: "UpdateToDemultiplexer fault (int fd) ?r2 = Some (ok, r3)" "same_lists ?r2 r3" "backend_ok r3"
      "ok \<Longrightarrow> snd (ioHandlers r3 ! fd) = events_of h' (a # ?cs ! fd)" "ep_open ?r2 \<and> (\<forall>opr. \<not> fault opr (int fd)) \<longrightarrow> ok"
      using R(4) by fastforce
    have "events_of h' (a # ?cs ! fd) AND io_events t = io_events t"
      using events_of_member [of a "a # ?cs ! fd" h' m] ins(3,4) by (simp add: same_data_def)
    then show thesis using that [of ok r3] u True R(7) fd by simp
  next
    case False
    then show thesis using that [of True ?r2] R(2) by (simp add: same_lists_def)
  qed
  note rel3 = io_rel_same [OF up(2) ins(2)]
  have r3: "io_heap r3 a = Some m" "io_count r3 = io_count r" "ep_open r3 = ep_open r" using up(2) ins(3) R(3,7) by (simp_all add: same_lists_def)
  have body: "AddHandler fault (Some a) r = Option.bind (InsertNodeFront (int fd) a r1) (\<lambda>r2. Option.bind
      (if snd (ioHandlers r2 ! fd) AND io_events t \<noteq> io_events t then UpdateToDemultiplexer fault (int fd) r2 else Some (True, r2))
      (\<lambda>(ok, r3). if \<not> ok then Some (EVENT_SYS_ERR_FAILED, r3)
        else Option.bind (upd a (\<lambda>n. n\<lparr>io_enabled := True\<rparr>) (io_heap r3))
          (\<lambda>h. Some (EVENT_SYS_ERR_OK, r3\<lparr>io_heap := h, io_count := io_count r3 + 1\<rparr>))))"
    unfolding fd using t by (simp add: AddHandler_def r1_def fd_def Let_def)
  have add: "AddHandler fault (Some a) r = (if \<not> ok then Some (EVENT_SYS_ERR_FAILED, r3)
      else Some (EVENT_SYS_ERR_OK, r3\<lparr>io_heap := (io_heap r3)(a \<mapsto> m\<lparr>io_enabled := True\<rparr>), io_count := io_count r3 + 1\<rparr>))"
    unfolding body ins(1) bind.simps up(1) using r3(1) by (simp add: upd_def)
  show ?thesis
  proof (cases ok)
    case True
    have "io_rel ?cs' (r3\<lparr>io_heap := (io_heap r3)(a \<mapsto> m\<lparr>io_enabled := True\<rparr>)\<rparr>)"
      by (rule io_rel_data [OF rel3 r3(1)]) auto
    then show ?thesis using True add up(3,4,5) ins(4) r3(2,3) by (auto simp: same_data_def io_rel_def)
  qed (use add up(3,5) rel3 r3 ins(4) in \<open>auto simp: same_data_def\<close>)
qed

text \<open>The other outcomes of \<^verbatim>\<open>AddHandler\<close> change nothing.\<close>

lemma AddHandler_rejects:
  assumes t: "io_heap r a = Some t"
  shows "io_fd t < 0 \<or> io_fd t > MAX_FD \<Longrightarrow> AddHandler fault (Some a) r = Some (EVENT_SYS_ERR_BADF, r)"
    "0 \<le> io_fd t \<Longrightarrow> io_fd t \<le> MAX_FD \<Longrightarrow> io_prev t \<noteq> None \<Longrightarrow> AddHandler fault (Some a) r = Some (EVENT_SYS_ERR_ALREADY_STARTED, r)"
  using t by (auto simp: AddHandler_def)

text \<open>Taking a handler out of its list: the node is then reset, or gone.\<close>

lemma unlink_row:
  assumes rel: "io_rel cs r" and i: "i < length cs" and a: "a \<in> set (cs ! i)" and t: "io_heap r a = Some t"
    and x: "\<And>m. x = Some m \<Longrightarrow> io_prev m = None \<and> io_next m = None"
  shows "\<exists>h'. unlink t (io_heap r) = Some h' \<and> io_rel (cs[i := remove1 a (cs ! i)]) (r\<lparr>io_heap := h'(a := x)\<rparr>) \<and>
    h' a = Some t \<and> io_prev t \<noteq> None \<and> io_prev t \<noteq> Some a"
proof -
  note D = io_relD [OF rel]
  let ?hh = "fst (ioHandlers r ! i)"
  obtain xs ys where sp: "cs ! i = xs @ a # ys" "a \<notin> set xs" using split_list_first [OF a] by blast
  have l: "linked (io_heap r) ((?hh # xs) @ a # ys)" using D(4) [OF i] sp(1) by simp
  have d: "distinct ((?hh # xs) @ a # ys)" using l unfolding linked_def by blast
  have rm: "remove1 a (cs ! i) = xs @ ys" using sp by (simp add: remove1_append)
  from unlink_links [OF l _ t] obtain h' where h': "unlink t (io_heap r) = Some h'" "linked h' (?hh # xs @ ys)"
    "relinked (set (?hh # xs @ ys)) (io_heap r) h'" "io_prev t = Some (last (?hh # xs))" by auto
  have ha: "h' a = Some t" using relinkedD(1) [OF h'(3), of a] d t by auto
  have "io_rel (cs[i := xs @ ys]) (r\<lparr>io_heap := h'(a := x)\<rparr>)"
  proof (rule io_rel_row [OF rel i])
    show "linked (h'(a := x)) (?hh # xs @ ys)" by (rule linked_other [OF h'(2)]) (use d in auto)
    show "(h'(a := x)) b = io_heap r b" if "b \<notin> set (?hh # cs ! i)" "b \<notin> set (xs @ ys)" for b
      using relinkedD(1) [OF h'(3), of b] that sp(1) by auto
    show "b \<notin> set (fst (ioHandlers r ! j) # cs ! j)" if "b \<in> set (xs @ ys)" "b \<notin> set (cs ! i)" "j < length cs" for b j
      using that sp(1) by auto
    show "\<exists>m. (h'(a := x)) ?hh = Some m \<and> io_fd m = io_fd n \<and> io_events m = io_events n" if "io_heap r ?hh = Some n" for n
      using relinkedD(2) [OF h'(3) that] d by (auto simp: same_data_def)
    show "io_prev m = None \<and> io_next m = None" if "b \<in> set (cs ! i)" "b \<notin> set (xs @ ys)" "(h'(a := x)) b = Some m" for b m
      using that x sp(1) by (cases "b = a") auto
    show "\<exists>n. io_heap r b = Some n" if "(h'(a := x)) b = Some m" for b m
      using relinked_live [OF h'(3), of b] that t by (cases "b = a") auto
  qed
  moreover have "last (?hh # xs) \<noteq> a" using d last_in_set [of "?hh # xs"] by auto
  ultimately show ?thesis using h'(1,4) ha rm by auto
qed

lemma RemoveNode_result:
  assumes rel: "io_rel cs r" and i: "i < length cs" and a: "a \<in> set (cs ! i)" and t: "io_heap r a = Some t"
  shows "\<exists>h'. RemoveNode a r = Some (r\<lparr>io_heap := h'\<rparr>) \<and> io_rel (cs[i := remove1 a (cs ! i)]) (r\<lparr>io_heap := h'\<rparr>) \<and>
    h' a = Some (t\<lparr>io_prev := None, io_next := None\<rparr>)"
proof -
  from unlink_row [OF rel i a t, of "Some (t\<lparr>io_prev := None, io_next := None\<rparr>)"] obtain h' where
    h': "unlink t (io_heap r) = Some h'" "io_rel (cs[i := remove1 a (cs ! i)]) (r\<lparr>io_heap := h'(a \<mapsto> t\<lparr>io_prev := None, io_next := None\<rparr>)\<rparr>)"
    "h' a = Some t" "io_prev t \<noteq> None" "io_prev t \<noteq> Some a" by auto
  then have "RemoveNode a r = Option.bind (unlink t (io_heap r)) (\<lambda>h2. Option.bind
      (upd a (\<lambda>n. n\<lparr>io_prev := None, io_next := None\<rparr>) h2) (\<lambda>h3. Some (r\<lparr>io_heap := h3\<rparr>)))"
    using t by (cases "io_heap r (the (io_prev t))") (auto simp: RemoveNode_def unlink_def upd_def)
  then have "RemoveNode a r = Some (r\<lparr>io_heap := h'(a \<mapsto> t\<lparr>io_prev := None, io_next := None\<rparr>)\<rparr>)"
    using h'(1,3) by (simp add: upd_def)
  then show ?thesis using h'(2) by auto
qed

lemma delete_result:
  assumes rel: "io_rel cs r" and own: "own_handler a r"
  shows "\<exists>h' cs'. IOEventHandler_delete a r = Some (r\<lparr>io_heap := h'\<rparr>) \<and> io_rel cs' (r\<lparr>io_heap := h'\<rparr>)"
proof -
  obtain t where t: "io_heap r a = Some t" using own by (auto simp: own_handler_def Option.is_none_def)
  have del: "IOEventHandler_delete a r = Option.bind (unlink t (io_heap r)) (\<lambda>h. Some (r\<lparr>io_heap := h(a := None)\<rparr>))"
    using t by (simp add: IOEventHandler_delete_def unlink_def Option.bind_assoc)
  show ?thesis
  proof (cases "\<exists>i<length cs. a \<in> set (cs ! i)")
    case True
    then obtain i where "i < length cs" "a \<in> set (cs ! i)" by blast
    from unlink_row [OF rel this t, of None] show ?thesis by (auto simp: del)
  next
    case False
    note D = io_relD [OF rel]
    have head: "a \<notin> fst ` set (ioHandlers r)" using own by (simp add: own_handler_def)
    have free: "a \<notin> set (map fst (ioHandlers r) ! i # cs ! i)" if "i < length (map fst (ioHandlers r))" for i
      using False that D(3) head nth_mem [of i "ioHandlers r"] by auto
    from lists_okD(5) [OF D(1) t] free have "io_prev t = None" "io_next t = None" by blast+
    moreover have "lists_ok cs (map fst (ioHandlers r)) ((io_heap r)(a := None)) (io_fresh r)"
      by (rule lists_ok_unlisted [OF D(1) free]) auto
    ultimately show ?thesis using D(2) by (auto simp: del unlink_def io_rel_def)
  qed
qed

lemma RemoveHandler_result:
  assumes rel: "io_rel cs r" "backend_ok r" and t: "io_heap r a = Some t" "0 \<le> io_fd t" "io_fd t \<le> MAX_FD"
    and a: "nat (io_fd t) < length cs" "a \<in> set (cs ! nat (io_fd t))"
  defines "fd \<equiv> nat (io_fd t)"
  shows "\<exists>res r'. RemoveHandler fault (Some a) r = Some (res, r') \<and>
    (ep_open r \<and> (\<forall>opr. \<not> fault opr (io_fd t)) \<longrightarrow> res = EVENT_SYS_ERR_OK) \<and> io_rel (cs[fd := remove1 a (cs ! fd)]) r' \<and> backend_ok r' \<and>
    (\<exists>n. io_heap r' a = Some n \<and> io_prev n = None \<and> io_enabled n = (res \<noteq> EVENT_SYS_ERR_OK)) \<and>
    (if res = EVENT_SYS_ERR_OK
     then snd (ioHandlers r' ! fd) = events_of (io_heap r') (remove1 a (cs ! fd)) \<and> io_count r' = io_count r - 1
     else res = EVENT_SYS_ERR_FAILED \<and> io_count r' = io_count r)"
proof -
  let ?t1 = "t\<lparr>io_enabled := False\<rparr>"
  let ?r1 = "r\<lparr>io_heap := (io_heap r)(a \<mapsto> ?t1)\<rparr>" and ?cs = "cs[fd := remove1 a (cs ! fd)]"
  have fd: "int fd = io_fd t" "fd < length cs" "a \<in> set (cs ! fd)" using t(2) a by (simp_all add: fd_def)
  have rel1: "io_rel cs ?r1" by (rule io_rel_data [OF rel(1) t(1)]) auto
  have has: "HasHandler a ?r1 = Some True" using HasHandler_result [OF rel1, of a ?t1] t(2) a by simp
  from RemoveNode_result [OF rel1 fd(2,3), of ?t1] obtain h' where rem: "RemoveNode a ?r1 = Some (r\<lparr>io_heap := h'\<rparr>)"
    "io_rel ?cs (r\<lparr>io_heap := h'\<rparr>)" "h' a = Some (?t1\<lparr>io_prev := None, io_next := None\<rparr>)" by auto
  have "fd < length ?cs" using fd(2) by simp
  from UpdateToDemultiplexer_result [OF rem(2) _ this, of fault] rel(2) obtain ok r3 where
    u: "UpdateToDemultiplexer fault (int fd) (r\<lparr>io_heap := h'\<rparr>) = Some (ok, r3)" "same_lists (r\<lparr>io_heap := h'\<rparr>) r3" "backend_ok r3"
    "ok \<Longrightarrow> snd (ioHandlers r3 ! fd) = events_of h' (remove1 a (cs ! fd))"
    "ep_open r \<and> (\<forall>opr. \<not> fault opr (io_fd t)) \<longrightarrow> ok" using fd(1,2) by fastforce
  note rel3 = io_rel_same [OF u(2) rem(2)]
  have r3: "io_heap r3 = h'" "io_count r3 = io_count r" using u(2) by (simp_all add: same_lists_def)
  let ?t4 = "?t1\<lparr>io_prev := None, io_next := None, io_enabled := True\<rparr>"
  have run: "RemoveHandler fault (Some a) r = Some (if ok then (EVENT_SYS_ERR_OK, r3\<lparr>io_count := io_count r3 - 1\<rparr>)
      else (EVENT_SYS_ERR_FAILED, r3\<lparr>io_heap := h'(a \<mapsto> ?t4)\<rparr>))"
    using t has rem(1,3) u(1) r3(1) unfolding fd(1) by (simp add: RemoveHandler_def set_enabled_def upd_def)
  show ?thesis
  proof (cases ok)
    case True
    then show ?thesis using run rel3 u(3,5) u(4) [OF True] rem(3) r3 by simp
  next
    case False
    have "io_rel ?cs (r3\<lparr>io_heap := (io_heap r3)(a \<mapsto> ?t4)\<rparr>)" by (rule io_rel_data [OF rel3]) (use r3(1) rem(3) in auto)
    then show ?thesis using False run u(3,5) r3 by simp
  qed
qed

lemma RemoveHandler_rejects:
  assumes rel: "io_rel cs r" "backend_ok r" and t: "io_heap r a = Some t"
  shows "io_fd t < 0 \<or> io_fd t > MAX_FD \<Longrightarrow> RemoveHandler fault (Some a) r = Some (EVENT_SYS_ERR_BADF, r)"
    "0 \<le> io_fd t \<Longrightarrow> io_fd t \<le> MAX_FD \<Longrightarrow> \<not> (nat (io_fd t) < length cs \<and> a \<in> set (cs ! nat (io_fd t))) \<Longrightarrow>
      RemoveHandler fault (Some a) r = Some (EVENT_SYS_ERR_NOT_FOUND, r\<lparr>io_heap := (io_heap r)(a \<mapsto> t\<lparr>io_enabled := True\<rparr>)\<rparr>)"
proof -
  have "io_rel cs (r\<lparr>io_heap := (io_heap r)(a \<mapsto> t\<lparr>io_enabled := False\<rparr>)\<rparr>)" by (rule io_rel_data [OF rel(1) t]) auto
  from HasHandler_result [OF this, of a "t\<lparr>io_enabled := False\<rparr>"]
  show "io_fd t < 0 \<or> io_fd t > MAX_FD \<Longrightarrow> RemoveHandler fault (Some a) r = Some (EVENT_SYS_ERR_BADF, r)"
    "0 \<le> io_fd t \<Longrightarrow> io_fd t \<le> MAX_FD \<Longrightarrow> \<not> (nat (io_fd t) < length cs \<and> a \<in> set (cs ! nat (io_fd t))) \<Longrightarrow>
      RemoveHandler fault (Some a) r = Some (EVENT_SYS_ERR_NOT_FOUND, r\<lparr>io_heap := (io_heap r)(a \<mapsto> t\<lparr>io_enabled := True\<rparr>)\<rparr>)"
    using t by (auto simp: RemoveHandler_def set_enabled_def upd_def)
qed

lemma UpdateHandler_result:
  assumes rel: "io_rel cs r" "backend_ok r" and t: "io_heap r a = Some t"
  shows "\<exists>res r' cs'. UpdateHandler fault (Some a) r = Some (res, r') \<and> io_rel cs' r' \<and> backend_ok r'"
proof (cases "io_fd t < 0 \<or> io_fd t > MAX_FD")
  case False
  note H = HasHandler_result [OF rel(1) t]
  show ?thesis
  proof (cases "io_prev t = None")
    case True
    then have "UpdateHandler fault (Some a) r = AddHandler fault (Some a) r" using False t by (simp add: UpdateHandler_def)
    then show ?thesis using AddHandler_result [OF rel t _ _ True, of fault] False by fastforce
  next
    case listed: False
    show ?thesis
    proof (cases "HasHandler a r = Some True")
      case True
      then have i: "nat (io_fd t) < length cs" "int (nat (io_fd t)) = io_fd t" using H False by auto
      from UpdateToDemultiplexer_result [OF rel i(1), of fault] obtain b r' where
        "UpdateToDemultiplexer fault (io_fd t) r = Some (b, r')" "same_lists r r'" "backend_ok r'" unfolding i(2) by blast
      then show ?thesis using listed False True t io_rel_same [of r r' cs] rel(1) by (simp add: UpdateHandler_def) blast
    next
      case no: False
      then have "UpdateHandler fault (Some a) r = Some (EVENT_SYS_ERR_NOT_FOUND, r)"
        using listed False t H by (auto simp: UpdateHandler_def)
      then show ?thesis using rel by blast
    qed
  qed
qed (use rel t in \<open>auto simp: UpdateHandler_def\<close>)

lemma DoClean_result:
  assumes rel: "io_rel cs r" "backend_ok r" and i: "i < length cs"
  shows "\<exists>b r'. DoClean fault (int i) r = Some (b, r') \<and> io_rel (cs[i := []]) r' \<and> backend_ok r' \<and>
    length (ioHandlers r') = length (ioHandlers r) \<and> io_count r' = io_count r"
proof -
  note D = io_relD [OF rel(1)]
  let ?hh = "fst (ioHandlers r ! i)"
  have i': "i < length (ioHandlers r)" using i D(3) by simp
  have l: "linked (io_heap r) (?hh # cs ! i)" by (rule D(4) [OF i])
  obtain hn where hn: "io_heap r ?hh = Some hn" "io_next hn = first (cs ! i)" using linked_suffix [of "io_heap r" "[]" ?hh "cs ! i"] l by auto
  show ?thesis
  proof (cases "cs ! i")
    case Nil
    then have "DoClean fault (int i) r = Some (True, r)" using hn i' by (simp add: DoClean_def FdEvents_head_int)
    moreover have "cs[i := []] = cs" using Nil by (metis list_update_id)
    ultimately show ?thesis using rel by auto
  next
    case (Cons b bs)
    from clean_loop_result [OF l hn(1)] obtain h' where h': "clean_loop (io_heap r) (first (cs ! i)) = Some h'"
      "h' ?hh = Some (hn\<lparr>io_next := None\<rparr>)" "\<forall>a. a \<notin> set (?hh # cs ! i) \<longrightarrow> h' a = io_heap r a"
      "\<forall>a\<in>set (cs ! i). \<exists>n. io_heap r a = Some n \<and> h' a = Some (n\<lparr>io_prev := None, io_next := None, io_enabled := False\<rparr>)" by blast
    have prev: "io_prev hn = None" using linked_suffix [of "io_heap r" "[]" ?hh "cs ! i"] l hn by auto
    have rel': "io_rel (cs[i := []]) (r\<lparr>io_heap := h'\<rparr>)"
    proof (rule io_rel_row [OF rel(1) i])
      show "linked h' [?hh]" using h'(2) prev by (simp add: linked_def)
      show "io_prev m = None \<and> io_next m = None" if "a \<in> set (cs ! i)" "h' a = Some m" for a m using h'(4) that by fastforce
      show "\<exists>n. io_heap r a = Some n" if "h' a = Some m" for a m
        using h'(3,4) that hn(1) by (cases "a \<in> set (?hh # cs ! i)") auto
    qed (use h'(2,3) hn in auto)
    have "i < length (cs[i := []])" using i by simp
    from UpdateToDemultiplexer_result [OF rel' _ this, of fault] rel(2) obtain ok r3 where
      u: "UpdateToDemultiplexer fault (int i) (r\<lparr>io_heap := h'\<rparr>) = Some (ok, r3)" "same_lists (r\<lparr>io_heap := h'\<rparr>) r3" "backend_ok r3"
      by fastforce
    have "DoClean fault (int i) r = Some (ok, r3)" using hn h'(1) u(1) Cons i' by (simp add: DoClean_def FdEvents_head_int)
    moreover have "io_count r3 = io_count r" using u(2) by (simp add: same_lists_def)
    ultimately show ?thesis using io_rel_same [OF u(2) rel'] u(3) same_lists_length [OF u(2)] by auto
  qed
qed

lemma clean_from_result:
  assumes "io_rel cs r" "backend_ok r" "set fds \<subseteq> {0..<length cs}"
  shows "\<exists>res' r' cs'. clean_from fault fds res r = Some (res', r') \<and> io_rel cs' r' \<and> backend_ok r' \<and> length cs' = length cs \<and>
    io_count r' = io_count r \<and> (\<forall>i<length cs. cs' ! i = (if i \<in> set fds then [] else cs ! i))"
  using assms
proof (induction fds arbitrary: cs r res)
  case (Cons i fds)
  have i: "i < length cs" using Cons.prems(3) by simp
  from DoClean_result [OF Cons.prems(1,2) i, of fault] obtain b r1 where
    d: "DoClean fault (int i) r = Some (b, r1)" "io_rel (cs[i := []]) r1" "backend_ok r1" "io_count r1 = io_count r" by blast
  have "set fds \<subseteq> {0..<length (cs[i := []])}" using Cons.prems(3) by simp
  from Cons.IH [OF d(2,3) this, of "if b then res else EVENT_SYS_ERR_FAILED"] obtain res' r' cs' where
    c: "clean_from fault fds (if b then res else EVENT_SYS_ERR_FAILED) r1 = Some (res', r')" "io_rel cs' r'" "backend_ok r'"
    "length cs' = length (cs[i := []])" "io_count r' = io_count r1"
    "\<forall>j<length (cs[i := []]). cs' ! j = (if j \<in> set fds then [] else cs[i := []] ! j)" by blast
  have "clean_from fault (i # fds) res r = Some (res', r')" using d(1) c(1) by simp
  moreover have "\<forall>j<length cs. cs' ! j = (if j \<in> set (i # fds) then [] else cs ! j)" using c(6) i by (simp add: nth_list_update)
  ultimately show ?case using c(2-5) d(4) by (metis length_list_update)
qed auto

lemma CleanUp_result:
  assumes "io_rel cs r" "backend_ok r"
  shows "\<exists>res r'. io_CleanUp fault r = Some (res, r') \<and> io_rel (replicate (length cs) []) r' \<and> backend_ok r' \<and> io_count r' = io_count r"
proof -
  have "set [0..<length cs] \<subseteq> {0..<length cs}" by simp
  from clean_from_result [OF assms this, of fault EVENT_SYS_ERR_OK] obtain res' r' cs' where
    c: "clean_from fault [0..<length cs] EVENT_SYS_ERR_OK r = Some (res', r')" "io_rel cs' r'" "backend_ok r'" "length cs' = length cs"
    "io_count r' = io_count r" "\<forall>i<length cs. cs' ! i = (if i \<in> set [0..<length cs] then [] else cs ! i)" by blast
  have "cs' = replicate (length cs) []" by (rule nth_equalityI) (use c(4,6) in auto)
  moreover have "io_CleanUp fault r = Some (res', r')" using c(1) unfolding io_CleanUp_def io_relD(3) [OF assms(1), symmetric] .
  ultimately show ?thesis using c(2,3,5) by blast
qed

section \<open>Every operation keeps the lists and the backend in order\<close>

definition io_inv :: "'c io_reactor \<Rightarrow> bool" where
  "io_inv r \<longleftrightarrow> (\<exists>cs. io_rel cs r) \<and> backend_ok r"

lemma io_invI: "io_rel cs r \<Longrightarrow> backend_ok r \<Longrightarrow> io_inv r"
  by (auto simp: io_inv_def)

lemma io_inv_new: "io_inv (IOEventReactor_new b)"
proof -
  let ?r = "\<lparr>io_loopReady = False, io_handling = False, io_count = 0, ioHandlers = [], interestFds = {},
    ep_interest = (\<lambda>_. None), ep_open = b, io_heap = (\<lambda>_. None), io_fresh = 0\<rparr> :: 'c io_reactor"
  have "lists_ok [] (map fst (ioHandlers ?r)) (io_heap ?r) (io_fresh ?r)" "backend_ok ?r"
    by (simp_all add: lists_ok_def backend_ok_def)
  from add_heads_lists [OF this, of INIT_FD_NUMS] show ?thesis
    by (auto simp: io_inv_def io_rel_def IOEventReactor_new_def)
qed

lemma handler_set_inv:
  assumes inv: "io_inv r" and own: "own_handler a r" and f: "\<And>n. io_prev (f n) = io_prev n \<and> io_next (f n) = io_next n"
  shows "\<exists>r'. handler_set a f r = Some r' \<and> io_inv r'"
proof -
  obtain n where n: "io_heap r a = Some n" using own by (auto simp: own_handler_def Option.is_none_def)
  obtain cs where cs: "io_rel cs r" "backend_ok r" using inv by (auto simp: io_inv_def)
  have "io_rel cs (r\<lparr>io_heap := (io_heap r)(a \<mapsto> f n)\<rparr>)"
    by (rule io_rel_data [OF cs(1) n]) (use f own in \<open>auto simp: own_handler_def\<close>)
  then show ?thesis using n cs(2) by (auto simp: handler_set_def upd_def intro: io_invI)
qed

lemma new_handler_inv:
  assumes "io_inv r"
  shows "io_inv (new_handler fd ev cb r)"
proof -
  obtain cs where cs: "io_rel cs r" "backend_ok r" using assms by (auto simp: io_inv_def)
  note ok = io_relD(1) [OF cs(1)]
  have "lists_ok cs (map fst (ioHandlers r)) ((io_heap r)(io_fresh r \<mapsto> IOEventHandler_new fd ev cb)) (Suc (io_fresh r))"
    by (rule lists_ok_unlisted [OF ok]) (use lists_ok_fresh [OF ok] in \<open>auto simp: IOEventHandler_new_def\<close>)
  then have "io_rel cs (new_handler fd ev cb r)" using io_relD(2) [OF cs(1)] by (simp add: io_rel_def new_handler_def)
  then show ?thesis using cs(2) by (intro io_invI) (simp_all add: new_handler_def)
qed

lemma AddHandler_inv:
  assumes inv: "io_inv r" and t: "io_heap r a = Some t"
  shows "\<exists>res r'. AddHandler fault (Some a) r = Some (res, r') \<and> io_inv r'"
proof -
  obtain cs where cs: "io_rel cs r" "backend_ok r" using inv by (auto simp: io_inv_def)
  consider "io_fd t < 0 \<or> io_fd t > MAX_FD" | "0 \<le> io_fd t" "io_fd t \<le> MAX_FD" "io_prev t \<noteq> None" | "0 \<le> io_fd t" "io_fd t \<le> MAX_FD" "io_prev t = None"
    by force
  then show ?thesis
  proof cases
    case 3
    from AddHandler_result [OF cs t this, of fault] io_invI show ?thesis by blast
  qed (use AddHandler_rejects [OF t] inv in blast)+
qed

lemma RemoveHandler_inv:
  assumes inv: "io_inv r" and t: "io_heap r a = Some t"
  shows "\<exists>res r'. RemoveHandler fault (Some a) r = Some (res, r') \<and> io_inv r'"
proof -
  obtain cs where cs: "io_rel cs r" "backend_ok r" using inv by (auto simp: io_inv_def)
  note R = RemoveHandler_rejects [OF cs t, of fault]
  consider "io_fd t < 0 \<or> io_fd t > MAX_FD" | "0 \<le> io_fd t" "io_fd t \<le> MAX_FD" "\<not> (nat (io_fd t) < length cs \<and> a \<in> set (cs ! nat (io_fd t)))"
    | "0 \<le> io_fd t" "io_fd t \<le> MAX_FD" "nat (io_fd t) < length cs" "a \<in> set (cs ! nat (io_fd t))"
    by force
  then show ?thesis
  proof cases
    case 2
    have "io_rel cs (r\<lparr>io_heap := (io_heap r)(a \<mapsto> t\<lparr>io_enabled := True\<rparr>)\<rparr>)" by (rule io_rel_data [OF cs(1) t]) auto
    then have "io_inv (r\<lparr>io_heap := (io_heap r)(a \<mapsto> t\<lparr>io_enabled := True\<rparr>)\<rparr>)" using cs(2) by (auto intro: io_invI)
    then show ?thesis using R(2) [OF 2] by blast
  next
    case 3
    from RemoveHandler_result [OF cs t this, of fault] io_invI show ?thesis by blast
  qed (use R(1) inv in blast)
qed

lemma io_do_inv:
  assumes inv: "io_inv r" and legal: "io_legal op r"
  shows "\<exists>r'. io_do fault op r = Some r' \<and> io_inv r'"
proof -
  obtain cs where cs: "io_rel cs r" "backend_ok r" using inv by (auto simp: io_inv_def)
  have live: "\<exists>n. io_heap r a = Some n" if "own_handler a r" for a using that by (auto simp: own_handler_def Option.is_none_def)
  note setters = SetFd_def SetEvents_def io_SetCallback_def io_EnableRead_def EnableWrite_def DisableWrite_def io_DisableAll_def
  show ?thesis
  proof (cases op)
    case (OpDelete a)
    then obtain h' cs' where "IOEventHandler_delete a r = Some (r\<lparr>io_heap := h'\<rparr>)" "io_rel cs' (r\<lparr>io_heap := h'\<rparr>)"
      using delete_result [OF cs(1), of a] legal by auto
    then show ?thesis using OpDelete cs(2) io_invI [of cs' "r\<lparr>io_heap := h'\<rparr>"] by simp
  next
    case (OpStart a)
    then obtain t where "io_heap r a = Some t" using live legal by auto
    from AddHandler_inv [OF inv this, of fault] show ?thesis using OpStart by (auto simp: handler_Start_def)
  next
    case (OpStop a)
    then obtain t where "io_heap r a = Some t" using live legal by auto
    from RemoveHandler_inv [OF inv this, of fault] show ?thesis using OpStop by (auto simp: handler_Stop_def)
  next
    case (OpUpdate a)
    then obtain t where "io_heap r a = Some t" using live legal by auto
    from UpdateHandler_result [OF cs this, of fault] show ?thesis using OpUpdate by (auto simp: handler_Update_def intro: io_invI)
  next
    case (OpFind a)
    then obtain t where "io_heap r a = Some t" using live legal by auto
    then show ?thesis using OpFind HasHandler_result [OF cs(1), of a t] inv by (auto simp: FindHandler_def)
  next
    case (OpClean fd)
    show ?thesis
    proof (cases "fd = -1")
      case False
      then have i: "nat fd < length cs" "int (nat fd) = fd" using OpClean legal io_relD(3) [OF cs(1)] by auto
      from DoClean_result [OF cs i(1), of fault] show ?thesis unfolding i(2) using OpClean False by (auto simp: io_Clean_def intro: io_invI)
    qed (use OpClean inv in \<open>simp add: io_Clean_def\<close>)
  next
    case OpCleanUp
    from CleanUp_result [OF cs, of fault] show ?thesis using OpCleanUp by (auto intro: io_invI)
  next
    case (OpSetUp ok)
    then show ?thesis using cs by (auto simp: io_SetUp_def intro: io_invI)
  qed (use legal inv cs handler_set_inv [OF inv] new_handler_inv [OF inv] in \<open>auto simp: setters intro: io_invI\<close>)
qed

interpretation io_runs: inductive_invariant "\<lambda>r. \<exists>b. r = IOEventReactor_new b" io_step io_inv
proof
  fix r :: "'a io_reactor" assume "\<exists>b. r = IOEventReactor_new b"
  then show "io_inv r" using io_inv_new by blast
next
  fix r r' :: "'a io_reactor" assume "io_inv r" "io_step r r'"
  from this(2,1) show "io_inv r'" by (metis io_do_inv io_step.cases option.inject)
qed

lemma io_ops_reach: "io_reach r \<Longrightarrow> io_ops ops r = Some r' \<Longrightarrow> io_reach r'"
proof (induction ops arbitrary: r)
  case (Cons x ops)
  obtain fault op where x: "x = (fault, op)" by (cases x)
  with Cons.prems(2) obtain r1 where r1: "io_legal op r" "io_do fault op r = Some r1" "io_ops ops r1 = Some r'"
    by (auto simp: bind_eq_Some_conv split: if_splits)
  have "io_reach r1" using Cons.prems(1) io_step.io_do [OF r1(1,2)] by (rule reach.intros)
  then show ?case using Cons.IH r1(3) by blast
qed simp

text \<open>A reactor with two handlers for descriptor 9, which makes the table grow; the second one is started.\<close>

definition io_sample_ops :: "(ep_fault \<times> nat io_op) list" where
  "io_sample_ops = map (Pair (\<lambda>_ _. False))
     [OpSetUp True, OpNew 9 EVENT_READ (Some 71), OpNew 9 (EVENT_READ OR EVENT_WRITE) (Some 72), OpStart 9]"

definition io_sample :: "nat io_reactor" where
  "io_sample = the (io_ops io_sample_ops (IOEventReactor_new True))"

declare has_loop.simps [code] emask_loop.simps [code] clean_loop.simps [code] task_loop.simps [code]

lemma io_sample_run: "io_ops io_sample_ops (IOEventReactor_new True) = Some io_sample"
proof -
  have "\<not> Option.is_none (io_ops io_sample_ops (IOEventReactor_new True))" by code_simp
  then show ?thesis by (auto simp: io_sample_def Option.is_none_def)
qed

lemma io_sample_reach: "io_reach io_sample"
  by (rule io_ops_reach [OF _ io_sample_run]) (blast intro: reach.intros)

lemma io_sample_facts:
  "map_option (\<lambda>n. (io_fd n, io_events n, io_prev n, io_enabled n)) (io_heap io_sample 8) = Some (9, EVENT_READ, None, False)"
  "map_option (\<lambda>n. (io_fd n, io_prev n \<noteq> None, io_enabled n)) (io_heap io_sample 9) = Some (9, True, True)"
  "ep_open io_sample" "io_count io_sample = 1" "length (ioHandlers io_sample) = 18"
  by code_simp+

section \<open>Properties\<close>



lemma IsActive_listed:
  assumes "io_rel cs r" "i < length cs" "a \<in> set (cs ! i)" "io_heap r a = Some n" "io_enabled n"
  shows "IsActive n"
  using listed_prev [OF assms(1-4)] assms(5) by (simp add: IsActive_def)

lemma covers_nonzero: "(m :: 32 word) AND ev = ev \<Longrightarrow> ev \<noteq> 0 \<Longrightarrow> m \<noteq> 0"
  by auto

lemma Start_ok:
  assumes r: "io_rel cs r" "backend_ok r" and t: "io_heap r a = Some t" "0 \<le> io_fd t" "io_fd t \<le> MAX_FD" "io_prev t = None"
    and run: "ep_open r" "\<forall>opr. \<not> fault opr (io_fd t)"
  defines "fd \<equiv> nat (io_fd t)"
  shows "\<exists>r1 n. AddHandler fault (Some a) r = Some (EVENT_SYS_ERR_OK, r1) \<and>
    io_rel ((room_for fd cs)[fd := a # room_for fd cs ! fd]) r1 \<and> backend_ok r1 \<and> io_count r1 = io_count r + 1 \<and> ep_open r1 \<and>
    io_heap r1 a = Some n \<and> io_fd n = io_fd t \<and> IsActive n \<and> snd (ioHandlers r1 ! fd) AND io_events t = io_events t"
proof -
  let ?cs = "(room_for fd cs)[fd := a # room_for fd cs ! fd]"
  obtain res r1 n where res: "AddHandler fault (Some a) r = Some (res, r1)" "res = EVENT_SYS_ERR_OK" "io_rel ?cs r1"
    "backend_ok r1" "ep_open r1 = ep_open r" "io_heap r1 a = Some n" "io_fd n = io_fd t" "io_enabled n = (res = EVENT_SYS_ERR_OK \<or> io_enabled t)"
    and ok: "if res = EVENT_SYS_ERR_OK then snd (ioHandlers r1 ! fd) AND io_events t = io_events t \<and> io_count r1 = io_count r + 1
     else res = EVENT_SYS_ERR_FAILED \<and> io_count r1 = io_count r"
    using AddHandler_result [OF r t, of fault] run unfolding fd_def by blast
  have len: "fd < length ?cs" using room_for_result(4) [OF r refl, of fd] by simp
  have "IsActive n" by (rule IsActive_listed [OF res(3) len _ res(6)]) (use len res(2,8) in auto)
  then show ?thesis using res ok run(1) by auto
qed

text \<open>
  C28. Starting a handler that is not started, on an epoll instance whose \<^verbatim>\<open>epoll_ctl\<close> works, succeeds: it puts the
  handler at the front of the list of its descriptor, the handler is active, it is counted, and the kernel watches the
  descriptor for events that include the handler's. Stopping it again gives back the lists and the count, and leaves the
  kernel with exactly the events of the handlers that remain.
\<close>

theorem start_then_stop:
  assumes reach: "io_reach r" and cs: "io_rel cs r" and t: "io_heap r a = Some t" "0 \<le> io_fd t" "io_fd t \<le> MAX_FD" "io_prev t = None"
    and run: "ep_open r" "\<forall>opr. \<not> fault opr (io_fd t)"
  defines "fd \<equiv> nat (io_fd t)"
  shows "\<exists>r1 n m r2. AddHandler fault (Some a) r = Some (EVENT_SYS_ERR_OK, r1) \<and>
    io_rel ((room_for fd cs)[fd := a # room_for fd cs ! fd]) r1 \<and> io_count r1 = io_count r + 1 \<and>
    io_heap r1 a = Some n \<and> IsActive n \<and> m AND io_events t = io_events t \<and>
    ep_interest r1 (io_fd t) = (if m = EVENT_NONE then None else Some (io_Reactor2Epoll m)) \<and>
    RemoveHandler fault (Some a) r1 = Some (EVENT_SYS_ERR_OK, r2) \<and> io_rel (room_for fd cs) r2 \<and> io_count r2 = io_count r \<and>
    (let m' = events_of (io_heap r2) (room_for fd cs ! fd)
     in ep_interest r2 (io_fd t) = (if m' = EVENT_NONE then None else Some (io_Reactor2Epoll m')))"
proof -
  let ?cs = "(room_for fd cs)[fd := a # room_for fd cs ! fd]"
  have ok: "backend_ok r" using io_runs.always [OF reach] by (simp add: io_inv_def)
  have int: "int fd = io_fd t" using t(2) by (simp add: fd_def)
  from Start_ok [OF cs ok t run(1), of fault] run(2) obtain r1 n where r1: "AddHandler fault (Some a) r = Some (EVENT_SYS_ERR_OK, r1)"
    "io_rel ?cs r1" "backend_ok r1" "io_count r1 = io_count r + 1" "ep_open r1" "io_heap r1 a = Some n" "io_fd n = io_fd t" "IsActive n"
    "snd (ioHandlers r1 ! fd) AND io_events t = io_events t" unfolding fd_def by blast
  have len: "fd < length ?cs" "fd < length (room_for fd cs)" using room_for_result(4) [OF cs ok refl, of fd] by simp_all
  have a: "nat (io_fd n) < length ?cs" "a \<in> set (?cs ! nat (io_fd n))" using len by (simp_all add: r1(7) fd_def [symmetric])
  have n: "0 \<le> io_fd n" "io_fd n \<le> MAX_FD" using t by (simp_all add: r1(7))
  have undo_cs: "?cs[fd := remove1 a (?cs ! fd)] = room_for fd cs" using len by simp
  obtain res r2 where r2: "RemoveHandler fault (Some a) r1 = Some (res, r2)" "res = EVENT_SYS_ERR_OK" "io_rel (room_for fd cs) r2" "backend_ok r2"
    "if res = EVENT_SYS_ERR_OK then snd (ioHandlers r2 ! fd) = events_of (io_heap r2) (remove1 a (?cs ! fd)) \<and> io_count r2 = io_count r1 - 1
     else res = EVENT_SYS_ERR_FAILED \<and> io_count r2 = io_count r1"
    using RemoveHandler_result [OF r1(2,3,6) n a, of fault] run(2) r1(5) unfolding r1(7) fd_def [symmetric] undo_cs by blast
  have "fd < length (ioHandlers r1)" "fd < length (ioHandlers r2)" using io_relD(3) [OF r1(2)] io_relD(3) [OF r2(3)] len by auto
  note E = backend_okD(2) [OF r1(3) this(1)] backend_okD(2) [OF r2(4) this(2)]
  have "snd (ioHandlers r2 ! fd) = events_of (io_heap r2) (room_for fd cs ! fd)" "io_count r2 = io_count r"
    using r2(2,5) r1(4) len by auto
  then have "let m' = events_of (io_heap r2) (room_for fd cs ! fd)
     in ep_interest r2 (io_fd t) = (if m' = EVENT_NONE then None else Some (io_Reactor2Epoll m'))" "io_count r2 = io_count r"
    using E(2) by (simp_all add: int Let_def)
  then show ?thesis using r1 r2 E(1) int by auto
qed

lemma io_sample_rel: obtains cs where "io_rel cs io_sample"
  using io_runs.always [OF io_sample_reach] by (auto simp: io_inv_def)

lemma io_sample_handler: obtains t where "io_heap io_sample 8 = Some t" "io_fd t = 9" "io_prev t = None"
  using io_sample_facts(1) by auto

theorem start_then_stop_witness: "\<exists>r1 n r2. AddHandler (\<lambda>_ _. False) (Some 8) io_sample = Some (EVENT_SYS_ERR_OK, r1) \<and>
  io_count r1 = 2 \<and> io_heap r1 8 = Some n \<and> IsActive n \<and>
  RemoveHandler (\<lambda>_ _. False) (Some 8) r1 = Some (EVENT_SYS_ERR_OK, r2) \<and> io_count r2 = 1"
proof -
  obtain cs where cs: "io_rel cs io_sample" by (rule io_sample_rel)
  obtain t where t: "io_heap io_sample 8 = Some t" "io_fd t = 9" "io_prev t = None" by (rule io_sample_handler)
  have "0 \<le> io_fd t" "io_fd t \<le> MAX_FD" using t(2) by (simp_all add: MAX_FD_def)
  from start_then_stop [OF io_sample_reach cs t(1) this t(3) io_sample_facts(3), of "\<lambda>_ _. False"] show ?thesis
    unfolding io_sample_facts(4) by auto
qed

lemma HandleEvents_walk:
  assumes rel: "io_rel cs r" and i: "i < length cs"
  shows "io_HandleEvents (int i) event r = Some
    (if snd (ioHandlers r ! i) AND event = 0 then (EVENT_SYS_ERR_BADEVENT, [])
     else (EVENT_SYS_ERR_OK, List.map_filter (\<lambda>a. if wants event (the (io_heap r a)) then io_cb (the (io_heap r a)) else None) (cs ! i)))"
proof -
  let ?hh = "fst (ioHandlers r ! i)"
  have i': "i < length (ioHandlers r)" using i io_relD(3) [OF rel] by simp
  have l: "linked (io_heap r) ([?hh] @ cs ! i)" using io_relD(4) [OF rel i] by simp
  obtain hn where "io_heap r ?hh = Some hn" "io_next hn = first (cs ! i)" using linked_suffix [of "io_heap r" "[]" ?hh "cs ! i"] l by auto
  then show ?thesis using task_loop_walk [OF l, of event] i' by (simp add: io_HandleEvents_def FdEvents_head_int)
qed

text \<open>
  When an event arrives for a descriptor, the callbacks that run are those of the handlers of the descriptor that
  are enabled, have a callback and are interested in the event, in the order of the list, which is the reverse of
  the order of starting; none runs if the event was not registered with the kernel.
\<close>

theorem dispatch_exact:
  assumes "io_reach r" "i < length (ioHandlers r)"
  shows "\<exists>as. linked (io_heap r) (fst (ioHandlers r ! i) # as) \<and>
    io_HandleEvents (int i) event r = Some
      (if snd (ioHandlers r ! i) AND event = 0 then (EVENT_SYS_ERR_BADEVENT, [])
       else (EVENT_SYS_ERR_OK, List.map_filter (\<lambda>a. if wants event (the (io_heap r a)) then io_cb (the (io_heap r a)) else None) as))"
proof -
  obtain cs where cs: "io_rel cs r" using io_runs.always [OF assms(1)] by (auto simp: io_inv_def)
  have i: "i < length cs" using assms(2) io_relD(3) [OF cs] by simp
  show ?thesis using HandleEvents_walk [OF cs i] io_relD(4) [OF cs i] by blast
qed

theorem dispatch_exact_witness:
  "io_HandleEvents 9 EVENT_WRITE io_sample = Some (EVENT_SYS_ERR_OK, [72]) \<and>
   (\<exists>as. linked (io_heap io_sample) (fst (ioHandlers io_sample ! 9) # as) \<and>
     [72] = List.map_filter (\<lambda>a. if wants EVENT_WRITE (the (io_heap io_sample a)) then io_cb (the (io_heap io_sample a)) else None) as)"
proof -
  have run: "io_HandleEvents 9 EVENT_WRITE io_sample = Some (EVENT_SYS_ERR_OK, [72])" by code_simp
  have "9 < length (ioHandlers io_sample)" by (simp add: io_sample_facts(5))
  from dispatch_exact [OF io_sample_reach this, of EVENT_WRITE] run show ?thesis by (auto split: if_splits)
qed

text \<open>
  What is asked of the callbacks: they use the reactor through its operations, which keeps its invariant and never
  makes the table smaller.
\<close>

definition callbacks_ok :: "('c \<Rightarrow> 'c io_reactor \<Rightarrow> 'c io_reactor option) \<Rightarrow> bool" where
  "callbacks_ok run \<longleftrightarrow> (\<forall>cb r. io_inv r \<longrightarrow> (\<exists>r'. run cb r = Some r' \<and> io_inv r' \<and> length (ioHandlers r) \<le> length (ioHandlers r')))"

lemma io_Execute_ok:
  assumes "callbacks_ok run" "io_inv r"
  shows "\<exists>r'. io_Execute run cbs r = Some r' \<and> io_inv r' \<and> length (ioHandlers r) \<le> length (ioHandlers r')"
  using assms(2)
proof (induction cbs arbitrary: r)
  case (Cons cb cbs)
  obtain r1 where r1: "run cb r = Some r1" "io_inv r1" "length (ioHandlers r) \<le> length (ioHandlers r1)"
    using assms(1) Cons.prems unfolding callbacks_ok_def by blast
  then show ?case using Cons.IH [OF r1(2)] le_trans by fastforce
qed simp

lemma io_HandleAll_ok:
  assumes "callbacks_ok run" "io_inv r" "\<forall>e\<in>set evs. 0 \<le> fst e \<and> nat (fst e) < length (ioHandlers r)"
  shows "\<exists>r'. io_HandleAll run evs r = Some r' \<and> io_inv r'"
  using assms(2,3)
proof (induction evs arbitrary: r)
  case (Cons e evs)
  obtain fd event where e: "e = (fd, event)" by (cases e)
  obtain cs where cs: "io_rel cs r" using Cons.prems(1) by (auto simp: io_inv_def)
  have i: "nat fd < length cs" "int (nat fd) = fd" using Cons.prems(2) e io_relD(3) [OF cs] by auto
  obtain res tasks where h: "io_HandleEvents fd event r = Some (res, tasks)"
    using HandleEvents_walk [OF cs i(1), of event] unfolding i(2) by (auto split: if_splits)
  from io_Execute_ok [OF assms(1) Cons.prems(1), of tasks] obtain r1 where
    r1: "io_Execute run tasks r = Some r1" "io_inv r1" "length (ioHandlers r) \<le> length (ioHandlers r1)" by blast
  have "\<forall>e\<in>set evs. 0 \<le> fst e \<and> nat (fst e) < length (ioHandlers r1)" using Cons.prems(2) r1(3) by fastforce
  then show ?case using Cons.IH [OF r1(2)] h r1(1) e by simp
qed simp

text \<open>
  A turn of the loop of \<^verbatim>\<open>Run\<close> is safe: when the kernel reports events of descriptors it was asked to watch, every
  lookup in the table is inside it, even when the callbacks start, stop or clean handlers in between, and the
  invariant holds afterwards.
\<close>

theorem io_turn_safe:
  assumes "io_reach r" "callbacks_ok run" "\<forall>evs. res = Some evs \<longrightarrow> (\<forall>e\<in>set evs. ep_interest r (fst e) \<noteq> None)"
  shows "\<exists>b r'. io_Run_turn run timeout res r = Some (b, r') \<and> io_inv r'"
proof -
  have inv: "io_inv r" by (rule io_runs.always [OF assms(1)])
  have watched: "0 \<le> fd \<and> nat fd < length (ioHandlers r)" if "ep_interest r fd \<noteq> None" for fd
    using inv that by (auto simp: io_inv_def backend_ok_def split: if_splits)
  have polled: "snd (io_Polling res) = map (\<lambda>(fd, ep). (fd, io_Epoll2Reactor ep)) (case res of None \<Rightarrow> [] | Some evs \<Rightarrow> evs)"
    by (auto simp: io_Polling_def split: option.splits list.splits)
  have "\<forall>e\<in>set (snd (io_Polling res)). ep_interest r (fst e) \<noteq> None"
    unfolding polled using assms(3) by (force split: option.splits)
  then have "\<exists>r'. io_HandleAll run (snd (io_Polling res)) r = Some r' \<and> io_inv r'"
    using watched by (intro io_HandleAll_ok [OF assms(2) inv]) blast
  then show ?thesis using inv
    by (cases "io_Polling res") (auto simp: io_Run_turn_def split: io_err.splits)
qed

text \<open>A callback that removes every handler.\<close>

lemma cleaning_callback: "callbacks_ok (\<lambda>(cb :: nat). io_do fault OpCleanUp)"
  unfolding callbacks_ok_def
proof (intro allI impI)
  fix r :: "nat io_reactor" assume "io_inv r"
  then obtain cs where cs: "io_rel cs r" "backend_ok r" by (auto simp: io_inv_def)
  from CleanUp_result [OF this, of fault] obtain res r' where c: "io_CleanUp fault r = Some (res, r')" "io_rel (replicate (length cs) []) r'" "backend_ok r'" by blast
  have "length (ioHandlers r) = length (ioHandlers r')" using io_relD(3) [OF cs(1)] io_relD(3) [OF c(2)] by simp
  then show "\<exists>r'. io_do fault OpCleanUp r = Some r' \<and> io_inv r' \<and> length (ioHandlers r) \<le> length (ioHandlers r')"
    using c io_invI by auto
qed

theorem io_turn_safe_witness:
  "\<exists>b r'. io_Run_turn (\<lambda>cb. io_do (\<lambda>_ _. False) OpCleanUp) 10 (Some [(9, 5)]) io_sample = Some (b, r') \<and> io_inv r'"
proof (rule io_turn_safe [OF io_sample_reach cleaning_callback])
  have "\<not> Option.is_none (ep_interest io_sample 9)" by code_simp
  then show "\<forall>evs. Some [(9, 5)] = Some evs \<longrightarrow> (\<forall>e\<in>set evs. ep_interest io_sample (fst e) \<noteq> None)" by (auto simp: Option.is_none_def)
qed

text \<open>
  C29. A start that fails because the kernel refused leaves the handler in the list: it cannot be started again, and
  the stop that takes it out, when it succeeds, takes one off the count of started handlers, to which the start added
  nothing.
\<close>

theorem failed_start_stays_listed:
  assumes reach: "io_reach r" and t: "io_heap r a = Some t" and failed: "AddHandler fault (Some a) r = Some (EVENT_SYS_ERR_FAILED, r1)"
  shows "AddHandler fault' (Some a) r1 = Some (EVENT_SYS_ERR_ALREADY_STARTED, r1) \<and>
    (\<exists>res r2. RemoveHandler fault' (Some a) r1 = Some (res, r2) \<and>
      (res = EVENT_SYS_ERR_OK \<longrightarrow> io_count r2 = io_count r - 1))"
proof -
  obtain cs where cs: "io_rel cs r" "backend_ok r" using io_runs.always [OF reach] by (auto simp: io_inv_def)
  have t': "0 \<le> io_fd t" "io_fd t \<le> MAX_FD" "io_prev t = None"
    using failed AddHandler_rejects [OF t, of fault] by fastforce+
  let ?fd = "nat (io_fd t)"
  let ?cs = "(room_for ?fd cs)[?fd := a # room_for ?fd cs ! ?fd]"
  from AddHandler_result [OF cs t t', of fault] failed obtain n where r1: "io_rel ?cs r1" "backend_ok r1" "io_heap r1 a = Some n" "io_fd n = io_fd t"
    "io_count r1 = io_count r" by fastforce
  have len: "?fd < length (room_for ?fd cs)" by (rule room_for_result(4) [OF cs refl])
  then have a: "nat (io_fd n) < length ?cs" "a \<in> set (?cs ! nat (io_fd n))" by (simp_all add: r1(4))
  have n: "0 \<le> io_fd n" "io_fd n \<le> MAX_FD" using t' r1(4) by simp_all
  have "io_prev n \<noteq> None" by (rule listed_prev [OF r1(1) a r1(3)])
  with AddHandler_rejects(2) [OF r1(3) n] have "AddHandler fault' (Some a) r1 = Some (EVENT_SYS_ERR_ALREADY_STARTED, r1)" .
  moreover from RemoveHandler_result [OF r1(1,2,3) n a, of fault'] r1(5)
  have "\<exists>res r2. RemoveHandler fault' (Some a) r1 = Some (res, r2) \<and> (res = EVENT_SYS_ERR_OK \<longrightarrow> io_count r2 = io_count r - 1)" by auto
  ultimately show ?thesis by blast
qed

text \<open>The count of a reactor with no started handler wraps around.\<close>

definition io_lone :: "nat io_reactor" where
  "io_lone = new_handler 3 EVENT_READ (Some 71) (IOEventReactor_new True)"

lemma io_lone_reach: "io_reach io_lone"
  unfolding io_lone_def by (rule io_ops_reach [of _ "[(\<lambda>_ _. False, OpNew 3 EVENT_READ (Some 71))]"]) (auto intro: reach.intros)

theorem failed_start_stays_listed_witness:
  "\<exists>r1. AddHandler (\<lambda>_ _. True) (Some 8) io_lone = Some (EVENT_SYS_ERR_FAILED, r1) \<and>
     AddHandler (\<lambda>_ _. False) (Some 8) r1 = Some (EVENT_SYS_ERR_ALREADY_STARTED, r1) \<and>
     map_option (\<lambda>(res, r2). (res, io_count r2)) (RemoveHandler (\<lambda>_ _. False) (Some 8) r1) = Some (EVENT_SYS_ERR_OK, 0xFFFFFFFF)"
proof -
  have "map_option fst (AddHandler (\<lambda>_ _. True) (Some 8) io_lone) = Some EVENT_SYS_ERR_FAILED" by code_simp
  then obtain r1 where r1: "AddHandler (\<lambda>_ _. True) (Some 8) io_lone = Some (EVENT_SYS_ERR_FAILED, r1)" by auto
  have "\<not> Option.is_none (io_heap io_lone 8)" by code_simp
  then obtain t where t: "io_heap io_lone 8 = Some t" by (auto simp: Option.is_none_def)
  have "map_option fst (Option.bind (AddHandler (\<lambda>_ _. True) (Some 8) io_lone) (\<lambda>x. RemoveHandler (\<lambda>_ _. False) (Some 8) (snd x))) = Some EVENT_SYS_ERR_OK"
    by code_simp
  then have ok: "map_option fst (RemoveHandler (\<lambda>_ _. False) (Some 8) r1) = Some EVENT_SYS_ERR_OK" by (simp add: r1)
  have "io_count io_lone = 0" by code_simp
  with failed_start_stays_listed [OF io_lone_reach t r1, of "\<lambda>_ _. False"] ok r1 show ?thesis by auto
qed

end
