(* ===== verification/Unique_Fd.thy ===== *)
theory Unique_Fd
  imports CUtils_Prelude
begin

text \<open>
  Owned descriptors (\<^verbatim>\<open>base/include/unique_fd.h\<close>): objects of \<^verbatim>\<open>UniqueFd\<close> in a store, so that moving an object to itself is
  covered, and the descriptors that are open. \<^const>\<open>None\<close> is the use of an object that does not exist. A descriptor that
  is open belongs to an object or is in the hands of the program, which got it from the system or by \<^verbatim>\<open>Release\<close>.
\<close>

section \<open>The class\<close>

record fd_state =
  objs :: "nat \<Rightarrow> int option"
  fd_open :: "int set"
  raw :: "int set"

definition DefaultDeleter_Close :: "int \<Rightarrow> fd_state \<Rightarrow> fd_state" where
  "DefaultDeleter_Close fd s = (if fd \<ge> 0 then s\<lparr>fd_open := fd_open s - {fd}\<rparr> else s)"

definition UniqueFd_new :: "nat \<Rightarrow> int \<Rightarrow> fd_state \<Rightarrow> fd_state" where
  "UniqueFd_new a value s = s\<lparr>objs := (objs s)(a \<mapsto> value)\<rparr>"

definition UniqueFd_default :: "nat \<Rightarrow> fd_state \<Rightarrow> fd_state" where
  "UniqueFd_default a s = s\<lparr>objs := (objs s)(a \<mapsto> -1)\<rparr>"

definition fd_Get :: "nat \<Rightarrow> fd_state \<Rightarrow> int option" where
  "fd_Get a s = objs s a"

definition fd_Release :: "nat \<Rightarrow> fd_state \<Rightarrow> (int \<times> fd_state) option" where
  "fd_Release a s = do { tmp \<leftarrow> objs s a; Some (tmp, s\<lparr>objs := (objs s)(a \<mapsto> -1)\<rparr>) }"

definition fd_Reset :: "nat \<Rightarrow> int \<Rightarrow> fd_state \<Rightarrow> fd_state option" where
  "fd_Reset a newValue s = do {
     fd \<leftarrow> objs s a;
     let s1 = (if fd \<ge> 0 then DefaultDeleter_Close fd s else s);
     Some (s1\<lparr>objs := (objs s1)(a \<mapsto> newValue)\<rparr>)
   }"

definition UniqueFd_delete :: "nat \<Rightarrow> fd_state \<Rightarrow> fd_state option" where
  "UniqueFd_delete a s = do { s1 \<leftarrow> fd_Reset a (-1) s; Some (s1\<lparr>objs := (objs s1)(a := None)\<rparr>) }"

definition UniqueFd_move :: "nat \<Rightarrow> nat \<Rightarrow> fd_state \<Rightarrow> fd_state option" where
  "UniqueFd_move a rhs s = do { (rhsfd, s1) \<leftarrow> fd_Release rhs s; Some (s1\<lparr>objs := (objs s1)(a \<mapsto> rhsfd)\<rparr>) }"

definition UniqueFd_assign :: "nat \<Rightarrow> nat \<Rightarrow> fd_state \<Rightarrow> fd_state option" where
  "UniqueFd_assign a rhs s = do { (rhsfd, s1) \<leftarrow> fd_Release rhs s; fd_Reset a rhsfd s1 }"

section \<open>Programs\<close>

text \<open>
  The system opens descriptors that are not open. A program constructs an object only from a descriptor in its hands,
  or from a negative value, at a place where there is no object, and closes itself only what is in its hands.
\<close>

inductive fd_step :: "fd_state \<Rightarrow> fd_state \<Rightarrow> bool" where
  open_fd: "fd \<ge> 0 \<Longrightarrow> fd \<notin> fd_open s \<Longrightarrow> fd_step s (s\<lparr>fd_open := insert fd (fd_open s), raw := insert fd (raw s)\<rparr>)"
| close_raw: "fd \<in> raw s \<Longrightarrow> fd_step s (s\<lparr>fd_open := fd_open s - {fd}, raw := raw s - {fd}\<rparr>)"
| new: "objs s a = None \<Longrightarrow> value \<in> raw s \<or> value < 0 \<Longrightarrow> fd_step s ((UniqueFd_new a value s)\<lparr>raw := raw s - {value}\<rparr>)"
| default: "objs s a = None \<Longrightarrow> fd_step s (UniqueFd_default a s)"
| release: "fd_Release a s = Some (fd, s') \<Longrightarrow> fd_step s (s'\<lparr>raw := (if fd \<ge> 0 then insert fd (raw s') else raw s')\<rparr>)"
| delete: "UniqueFd_delete a s = Some s' \<Longrightarrow> fd_step s s'"
| move: "objs s a = None \<Longrightarrow> UniqueFd_move a rhs s = Some s' \<Longrightarrow> fd_step s s'"
| assign: "UniqueFd_assign a rhs s = Some s' \<Longrightarrow> fd_step s s'"

definition fd_init :: fd_state where
  "fd_init = \<lparr>objs = (\<lambda>_. None), fd_open = {}, raw = {}\<rparr>"

section \<open>Ownership\<close>

definition owned :: "fd_state \<Rightarrow> int set" where
  "owned s = {fd. fd \<ge> 0 \<and> (\<exists>a. objs s a = Some fd)}"

definition fd_inv :: "fd_state \<Rightarrow> bool" where
  "fd_inv s \<longleftrightarrow> fd_open s = raw s \<union> owned s \<and> raw s \<inter> owned s = {} \<and> (\<forall>fd\<in>raw s. fd \<ge> 0) \<and>
     (\<forall>a b fd. objs s a = Some fd \<longrightarrow> objs s b = Some fd \<longrightarrow> fd \<ge> 0 \<longrightarrow> a = b)"

lemma fd_invD:
  assumes "fd_inv s"
  shows "fd_open s = raw s \<union> owned s" "raw s \<inter> owned s = {}" "fd \<in> raw s \<Longrightarrow> fd \<ge> 0"
    "objs s a = Some fd \<Longrightarrow> objs s b = Some fd \<Longrightarrow> fd \<ge> 0 \<Longrightarrow> a = b"
  using assms unfolding fd_inv_def by blast+

lemma fd_invI:
  assumes "fd_open s = raw s \<union> owned s" "raw s \<inter> owned s = {}" "\<And>fd. fd \<in> raw s \<Longrightarrow> fd \<ge> 0"
    "\<And>a b fd. objs s a = Some fd \<Longrightarrow> objs s b = Some fd \<Longrightarrow> fd \<ge> 0 \<Longrightarrow> a = b"
  shows "fd_inv s"
  unfolding fd_inv_def by (intro conjI allI impI ballI) (use assms in blast)+

text \<open>What the objects own after one of them changes: \<open>give\<close> and \<open>take\<close> of a descriptor at an address.\<close>

lemma owned_upd:
  assumes "fd_inv s"
  shows "owned (s\<lparr>objs := (objs s)(a := x)\<rparr>) =
    owned s - {fd. objs s a = Some fd} \<union> {fd. fd \<ge> 0 \<and> x = Some fd}"
proof -
  have "objs s b = Some fd \<Longrightarrow> objs s a = Some fd \<Longrightarrow> fd \<ge> 0 \<Longrightarrow> b = a" for b fd using fd_invD(4) [OF assms] by blast
  then show ?thesis
  proof (intro set_eqI iffI, goal_cases)
    case (2 fd)
    then consider b where "objs s b = Some fd" "b \<noteq> a" "fd \<ge> 0" | "fd \<ge> 0" "x = Some fd" by (auto simp: owned_def)
    then show ?case by cases (auto simp: owned_def)
  qed (auto simp: owned_def split: if_splits)
qed

lemma fd_inv_upd:
  assumes inv: "fd_inv s" and x: "\<And>fd. x = Some fd \<Longrightarrow> fd \<ge> 0 \<Longrightarrow> fd \<notin> owned s - {fd. objs s a = Some fd} \<and> fd \<notin> R"
    and R: "\<And>fd. fd \<in> R \<Longrightarrow> fd \<ge> 0 \<and> fd \<notin> owned s - {fd. objs s a = Some fd}"
    and O: "O' = R \<union> (owned s - {fd. objs s a = Some fd}) \<union> {fd. fd \<ge> 0 \<and> x = Some fd}"
  shows "fd_inv (s\<lparr>objs := (objs s)(a := x), raw := R, fd_open := O'\<rparr>)"
proof -
  let ?s = "s\<lparr>objs := (objs s)(a := x), raw := R, fd_open := O'\<rparr>"
  have own: "owned ?s = owned s - {fd. objs s a = Some fd} \<union> {fd. fd \<ge> 0 \<and> x = Some fd}"
    using owned_upd [OF inv, of a x] by (simp add: owned_def)
  have uniq: "b = c" if "objs ?s b = Some fd" "objs ?s c = Some fd" "fd \<ge> 0" for b c fd
  proof (cases "b = a \<or> c = a")
    case True
    have "fd \<notin> owned s - {fd. objs s a = Some fd}" if "x = Some fd" using x \<open>fd \<ge> 0\<close> that by blast
    moreover have "fd \<in> owned s \<and> objs s a \<noteq> Some fd" if "d \<noteq> a" "objs s d = Some fd" for d
      using that \<open>fd \<ge> 0\<close> fd_invD(4) [OF inv, of d fd a] by (auto simp: owned_def)
    ultimately show ?thesis using True that by (auto split: if_splits)
  next
    case False
    then show ?thesis using that fd_invD(4) [OF inv, of b fd c] by simp
  qed
  show ?thesis unfolding fd_inv_def own
  proof (intro conjI allI impI ballI)
    show "fd_open ?s = raw ?s \<union> (owned s - {fd. objs s a = Some fd} \<union> {fd. fd \<ge> 0 \<and> x = Some fd})" using O by auto
    show "raw ?s \<inter> (owned s - {fd. objs s a = Some fd} \<union> {fd. fd \<ge> 0 \<and> x = Some fd}) = {}" using x R by auto
    fix fd assume "fd \<in> raw ?s"
    then show "fd \<ge> 0" using R by simp
  next
    fix b c fd assume "objs ?s b = Some fd" "objs ?s c = Some fd" "fd \<ge> 0"
    then show "b = c" by (rule uniq)
  qed
qed

lemma fd_inv_same: "objs s = objs t \<Longrightarrow> raw s = raw t \<Longrightarrow> fd_open s = fd_open t \<Longrightarrow> fd_inv s = fd_inv t"
  by (simp add: fd_inv_def owned_def)

lemma owned_open: "fd_inv s \<Longrightarrow> objs s a = Some fd \<Longrightarrow> fd \<ge> 0 \<Longrightarrow> fd \<in> fd_open s \<and> fd \<notin> raw s"
  by (auto simp: fd_inv_def owned_def)

lemma fd_Release_inv:
  assumes inv: "fd_inv s" and r: "objs s a = Some fd"
  shows "fd_inv (s\<lparr>objs := (objs s)(a \<mapsto> -1), raw := (if fd \<ge> 0 then insert fd (raw s) else raw s)\<rparr>)"
proof -
  have "fd_inv (s\<lparr>objs := (objs s)(a \<mapsto> -1), raw := (if fd \<ge> 0 then insert fd (raw s) else raw s), fd_open := fd_open s\<rparr>)"
    by (rule fd_inv_upd [OF inv])
      (use r fd_invD(1,2,3) [OF inv] in \<open>auto simp: owned_def split: if_splits\<close>)
  then show ?thesis by simp
qed

lemma fd_Reset_value:
  "objs s a = Some fd \<Longrightarrow>
     fd_Reset a v s = Some (s\<lparr>objs := (objs s)(a \<mapsto> v), fd_open := (if fd \<ge> 0 then fd_open s - {fd} else fd_open s)\<rparr>)"
  by (simp add: fd_Reset_def DefaultDeleter_Close_def Let_def)

lemma fd_give_inv:
  assumes inv: "fd_inv s" and "objs s a = None" "v \<in> raw s \<or> v < 0"
  shows "fd_inv (s\<lparr>objs := (objs s)(a \<mapsto> v), raw := raw s - {v}\<rparr>)"
proof -
  have "fd_inv (s\<lparr>objs := (objs s)(a \<mapsto> v), raw := raw s - {v}, fd_open := fd_open s\<rparr>)"
    using assms(2,3) fd_invD(1,2,3) [OF inv] by (intro fd_inv_upd [OF inv]) auto
  then show ?thesis by simp
qed

lemma fd_Reset_inv:
  assumes inv: "fd_inv s" and a: "objs s a = Some fd" and new: "v \<in> raw s \<or> v < 0"
  shows "\<exists>s'. fd_Reset a v s = Some s' \<and> objs s' = (objs s)(a \<mapsto> v) \<and> raw s' = raw s \<and> fd_inv (s'\<lparr>raw := raw s - {v}\<rparr>)"
proof -
  let ?s = "s\<lparr>objs := (objs s)(a \<mapsto> v), fd_open := (if fd \<ge> 0 then fd_open s - {fd} else fd_open s)\<rparr>"
  have run: "fd_Reset a v s = Some ?s" by (rule fd_Reset_value [OF a])
  have "fd_inv (s\<lparr>objs := (objs s)(a \<mapsto> v), raw := raw s - {v}, fd_open := (if fd \<ge> 0 then fd_open s - {fd} else fd_open s)\<rparr>)"
    by (rule fd_inv_upd [OF inv])
      (use a new fd_invD(1,2,3) [OF inv] in \<open>auto simp: owned_def split: if_splits\<close>)
  then have "fd_inv (?s\<lparr>raw := raw s - {v}\<rparr>)" by (rule fd_inv_same [THEN iffD1, rotated 3]) simp_all
  then show ?thesis using run by auto
qed

lemma fd_step_inv:
  assumes "fd_step s s'" "fd_inv s"
  shows "fd_inv s'"
  using assms
proof (cases rule: fd_step.cases)
  case (open_fd fd)
  then show ?thesis using assms(2) by (auto simp: fd_inv_def owned_def)
next
  case (close_raw fd)
  have own: "owned s' = owned s" using close_raw by (simp add: owned_def)
  have "fd \<notin> owned s" using close_raw fd_invD(2) [OF assms(2)] by blast
  then have "fd_open s - {fd} = (raw s - {fd}) \<union> owned s" using fd_invD(1) [OF assms(2)] by blast
  then have "fd_open s' = raw s' \<union> owned s'" using close_raw own by simp
  moreover have "raw s' \<inter> owned s' = {}" "\<And>x. x \<in> raw s' \<Longrightarrow> x \<ge> 0" using close_raw own fd_invD(2,3) [OF assms(2)] by auto
  moreover have "a = b" if "objs s' a = Some x" "objs s' b = Some x" "x \<ge> 0" for a b x
    using that close_raw fd_invD(4) [OF assms(2), of a x b] by simp
  ultimately show ?thesis by (rule fd_invI)
next
  case (new a v)
  show ?thesis using fd_give_inv [OF assms(2) new(2,3)] by (rule fd_inv_same [THEN iffD1, rotated 3]) (simp_all add: new(1) UniqueFd_new_def)
next
  case (default a)
  then have "fd_inv (s\<lparr>objs := (objs s)(a \<mapsto> -1), raw := raw s, fd_open := fd_open s\<rparr>)"
    using fd_invD(1,2,3) [OF assms(2)] by (intro fd_inv_upd [OF assms(2)]) auto
  then show ?thesis using default by (simp add: UniqueFd_default_def)
next
  case (release a fd s1)
  then have o: "objs s a = Some fd" and s1: "s1 = s\<lparr>objs := (objs s)(a \<mapsto> -1)\<rparr>" by (auto simp: fd_Release_def bind_eq_Some_conv)
  have "s' = s\<lparr>objs := (objs s)(a \<mapsto> -1), raw := (if fd \<ge> 0 then insert fd (raw s) else raw s)\<rparr>" unfolding release(1) s1 by simp
  then show ?thesis using fd_Release_inv [OF assms(2) o] by (simp only:)
next
  case (delete a)
  then obtain fd where fd: "objs s a = Some fd" by (auto simp: UniqueFd_delete_def fd_Reset_def bind_eq_Some_conv)
  have s': "s' = s\<lparr>objs := (objs s)(a := None), fd_open := (if fd \<ge> 0 then fd_open s - {fd} else fd_open s)\<rparr>"
    using delete fd by (auto simp: UniqueFd_delete_def fd_Reset_def DefaultDeleter_Close_def Let_def)
  have "fd_inv (s\<lparr>objs := (objs s)(a := None), raw := raw s, fd_open := (if fd \<ge> 0 then fd_open s - {fd} else fd_open s)\<rparr>)"
    by (rule fd_inv_upd [OF assms(2)])
      (use fd fd_invD(1,2,3) [OF assms(2)] in \<open>auto simp: owned_def split: if_splits\<close>)
  then show ?thesis by (rule fd_inv_same [THEN iffD1, rotated 3]) (simp_all add: s')
next
  case (move a rhs)
  then obtain fd where fd: "objs s rhs = Some fd" by (auto simp: UniqueFd_move_def fd_Release_def bind_eq_Some_conv)
  let ?s1 = "s\<lparr>objs := (objs s)(rhs \<mapsto> -1), raw := (if fd \<ge> 0 then insert fd (raw s) else raw s)\<rparr>"
  have i1: "fd_inv ?s1" by (rule fd_Release_inv [OF assms(2) fd])
  have none: "objs ?s1 a = None" using move(1) fd by auto
  have hand: "fd \<in> raw ?s1 \<or> fd < 0" by simp
  note inv = fd_give_inv [OF i1 none hand]
  have raws: "raw ?s1 - {fd} = raw s" using owned_open [OF assms(2) fd] fd_invD(3) [OF assms(2), of fd] by auto
  have "s' = s\<lparr>objs := (objs s)(rhs \<mapsto> -1, a \<mapsto> fd)\<rparr>" using move fd by (simp add: UniqueFd_move_def fd_Release_def)
  then show ?thesis using raws by (intro fd_inv_same [THEN iffD1, OF _ _ _ inv]) simp_all
next
  case (assign a rhs)
  then obtain fd where fd: "objs s rhs = Some fd" by (auto simp: UniqueFd_assign_def fd_Release_def bind_eq_Some_conv)
  let ?s0 = "s\<lparr>objs := (objs s)(rhs \<mapsto> -1)\<rparr>"
  let ?s1 = "s\<lparr>objs := (objs s)(rhs \<mapsto> -1), raw := (if fd \<ge> 0 then insert fd (raw s) else raw s)\<rparr>"
  have i1: "fd_inv ?s1" by (rule fd_Release_inv [OF assms(2) fd])
  have run: "fd_Reset a fd ?s0 = Some s'" using assign fd by (simp add: UniqueFd_assign_def fd_Release_def)
  then obtain old where old: "objs ?s0 a = Some old" by (auto simp: fd_Reset_def bind_eq_Some_conv)
  then have o1: "objs ?s1 a = Some old" by simp
  have hand: "fd \<in> raw ?s1 \<or> fd < 0" by simp
  from fd_Reset_inv [OF i1 o1 hand] obtain s2 where s2: "fd_Reset a fd ?s1 = Some s2" "fd_inv (s2\<lparr>raw := raw ?s1 - {fd}\<rparr>)" by blast
  have "s2\<lparr>raw := raw ?s1 - {fd}\<rparr> = s'\<lparr>raw := raw ?s1 - {fd}\<rparr>"
    using run s2(1) unfolding fd_Reset_value [OF old] fd_Reset_value [OF o1] by auto
  moreover have "raw ?s1 - {fd} = raw s" using owned_open [OF assms(2) fd] fd_invD(3) [OF assms(2), of fd] by auto
  moreover have "raw s' = raw s" using run unfolding fd_Reset_value [OF old] by auto
  ultimately have "fd_inv (s'\<lparr>raw := raw s\<rparr>)" "raw s' = raw s" using s2(2) by simp_all
  then show ?thesis using fd_inv_same [of s' "s'\<lparr>raw := raw s\<rparr>"] by simp
qed

interpretation fd_runs: inductive_invariant "\<lambda>s. s = fd_init" fd_step fd_inv
proof
  show "s = fd_init \<Longrightarrow> fd_inv s" for s by (simp add: fd_init_def fd_inv_def owned_def)
  show "fd_inv s \<Longrightarrow> fd_step s s' \<Longrightarrow> fd_inv s'" for s s' by (rule fd_step_inv)
qed

section \<open>Properties\<close>


definition fd_sample :: fd_state where
  "fd_sample = \<lparr>objs = [0 \<mapsto> 5, 1 \<mapsto> -1], fd_open = {5}, raw = {}\<rparr>"

lemma fd_sample_reach: "reach (\<lambda>s. s = fd_init) fd_step fd_sample"
proof -
  let ?R = "reach (\<lambda>s. s = fd_init) fd_step"
  let ?s1 = "fd_init\<lparr>fd_open := {5}, raw := {5}\<rparr>"
  have "?R fd_init" by (rule reach.start) simp
  moreover have "fd_step fd_init ?s1" using fd_step.open_fd [of 5 fd_init] by (simp add: fd_init_def)
  ultimately have r1: "?R ?s1" by (rule reach.more)
  let ?s2 = "(UniqueFd_new 0 5 ?s1)\<lparr>raw := raw ?s1 - {5}\<rparr>"
  have "fd_step ?s1 ?s2" by (rule fd_step.new) (simp_all add: fd_init_def)
  with r1 have r2: "?R ?s2" by (rule reach.more)
  have "fd_step ?s2 (UniqueFd_default 1 ?s2)" by (rule fd_step.default) (simp add: fd_init_def UniqueFd_new_def)
  with r2 have "?R (UniqueFd_default 1 ?s2)" by (rule reach.more)
  moreover have "UniqueFd_default 1 ?s2 = fd_sample" by (auto simp: UniqueFd_default_def UniqueFd_new_def fd_init_def fd_sample_def)
  ultimately show ?thesis by simp
qed


end
