(* ===== verification/Ashmem.thy ===== *)
theory Ashmem
  imports CUtils_Prelude
begin

text \<open>
  Anonymous shared memory (\<^verbatim>\<open>base/src/ashmem.cpp\<close>): the object with its descriptor, size, flag and start address, and of
  the kernel the regions behind descriptors with their contents and protection masks and the mappings of the process.
  \<^const>\<open>None\<close> is undefined behaviour: the overflow of a signed sum, or an access outside a mapping or a buffer. The results
  of \<^verbatim>\<open>open\<close>, \<^verbatim>\<open>fstat\<close>, \<^verbatim>\<open>ioctl\<close> and \<^verbatim>\<open>mmap\<close> and the function \<^verbatim>\<open>memcpy_s\<close> are arguments; interrupted calls are
  repeated by \<^verbatim>\<open>TEMP_FAILURE_RETRY\<close> and not seen.
\<close>

unbundle bit_operations_syntax

definition PROT_READ :: "32 word" where "PROT_READ = 1"
definition PROT_WRITE :: "32 word" where "PROT_WRITE = 2"
definition ASHMEM_NAME_LEN :: nat where "ASHMEM_NAME_LEN = 256"

section \<open>State\<close>

record ashmem =
  memoryFd :: int
  memorySize :: int
  flag :: "32 word"
  startAddr :: "nat option"

record ash_kernel =
  fd_region :: "int \<Rightarrow> nat option"
  region_data :: "nat \<Rightarrow> byte list"
  prot_mask :: "nat \<Rightarrow> 32 word"
  mappings :: "nat \<Rightarrow> (nat \<times> nat) option"

text \<open>What the system answers when a region is created.\<close>

record create_env =
  dev_fd :: int
  fstat_ok :: bool
  is_chr :: bool
  set_name_ret :: int
  set_size_ret :: int

section \<open>Creating\<close>

text \<open>The descriptor that results, and whether it is still open.\<close>

definition AshmemOpenLocked :: "create_env \<Rightarrow> int \<times> bool" where
  "AshmemOpenLocked e =
     (if dev_fd e < 0 then (dev_fd e, False)
      else if \<not> fstat_ok e then (-1, False)
      else if \<not> is_chr e then (-1, False)
      else (dev_fd e, True))"

definition AshmemOpen :: "create_env \<Rightarrow> int \<times> bool" where
  "AshmemOpen e = AshmemOpenLocked e"

definition AshmemCreate :: "create_env \<Rightarrow> string option \<Rightarrow> nat \<Rightarrow> nat \<Rightarrow> ash_kernel \<Rightarrow> int \<times> ash_kernel" where
  "AshmemCreate e name sz rid k =
     (case AshmemOpen e of (fd, _) \<Rightarrow>
        if fd < 0 then (fd, k)
        else
          let ok_fd = k\<lparr>fd_region := (fd_region k)(fd \<mapsto> rid), region_data := (region_data k)(rid := replicate sz 0),
                        prot_mask := (prot_mask k)(rid := PROT_READ OR PROT_WRITE OR 4)\<rparr>
          in case name of
               Some s \<Rightarrow>
                 if length s \<ge> ASHMEM_NAME_LEN then (-1, k)
                 else if set_name_ret e < 0 then (set_name_ret e, k)
                 else if set_size_ret e < 0 then (set_size_ret e, k)
                 else (fd, ok_fd)
             | None \<Rightarrow> if set_size_ret e < 0 then (set_size_ret e, k) else (fd, ok_fd))"

definition Ashmem_new :: "int \<Rightarrow> int \<Rightarrow> ashmem" where
  "Ashmem_new fd sz = \<lparr>memoryFd = fd, memorySize = sz, flag = 0, startAddr = None\<rparr>"

definition CreateAshmem :: "create_env \<Rightarrow> string option \<Rightarrow> int \<Rightarrow> nat \<Rightarrow> ash_kernel \<Rightarrow> ashmem option \<times> ash_kernel" where
  "CreateAshmem e name sz rid k =
     (if name = None \<or> sz \<le> 0 then (None, k)
      else case AshmemCreate e name (nat sz) rid k of
          (fd, k1) \<Rightarrow> if fd < 0 then (None, k1) else (Some (Ashmem_new fd sz), k1))"

section \<open>Protection, mapping and closing\<close>

text \<open>The mask of a region can only lose bits.\<close>

definition AshmemSetProt :: "int \<Rightarrow> 32 word \<Rightarrow> ash_kernel \<Rightarrow> int \<times> ash_kernel" where
  "AshmemSetProt fd prot k =
     (case fd_region k fd of
        None \<Rightarrow> (-1, k)
      | Some r \<Rightarrow> if prot AND prot_mask k r = prot then (0, k\<lparr>prot_mask := (prot_mask k)(r := prot)\<rparr>) else (-1, k))"

definition AshmemGetSize :: "int \<Rightarrow> ash_kernel \<Rightarrow> int" where
  "AshmemGetSize fd k = (case fd_region k fd of None \<Rightarrow> -1 | Some r \<Rightarrow> int (length (region_data k r)))"

definition SetProtection :: "32 word \<Rightarrow> ashmem \<Rightarrow> ash_kernel \<Rightarrow> bool \<times> ash_kernel" where
  "SetProtection protectionType m k = (case AshmemSetProt (memoryFd m) protectionType k of (result, k1) \<Rightarrow> (result \<ge> 0, k1))"

definition GetProtection :: "ashmem \<Rightarrow> ash_kernel \<Rightarrow> int" where
  "GetProtection m k = (case fd_region k (memoryFd m) of None \<Rightarrow> -1 | Some r \<Rightarrow> uint (prot_mask k r))"

definition GetAshmemSize :: "ashmem \<Rightarrow> ash_kernel \<Rightarrow> int" where
  "GetAshmemSize m k = AshmemGetSize (memoryFd m) k"

definition CloseAshmem :: "ashmem \<Rightarrow> ash_kernel \<Rightarrow> ashmem \<times> ash_kernel" where
  "CloseAshmem m k =
     (if memoryFd m > 0 then (\<lparr>memoryFd = -1, memorySize = 0, flag = 0, startAddr = None\<rparr>, k\<lparr>fd_region := (fd_region k)(memoryFd m := None)\<rparr>)
      else (m\<lparr>memorySize := 0, flag := 0, startAddr := None\<rparr>, k))"

text \<open>
  \<^verbatim>\<open>mmap\<close> gives an address that is not in use, or fails; it fails for a closed descriptor, a size that is not positive or
  larger than the region, and a protection the mask does not allow.
\<close>

definition MapAshmem :: "nat option \<Rightarrow> 32 word \<Rightarrow> ashmem \<Rightarrow> ash_kernel \<Rightarrow> bool \<times> ashmem \<times> ash_kernel" where
  "MapAshmem addr mapType m k =
     (case (addr, fd_region k (memoryFd m)) of
        (Some a, Some r) \<Rightarrow>
          if 0 < memorySize m \<and> memorySize m \<le> int (length (region_data k r)) \<and> mapType AND prot_mask k r = mapType
          then (True, m\<lparr>startAddr := Some a, flag := mapType\<rparr>, k\<lparr>mappings := (mappings k)(a \<mapsto> (r, nat (memorySize m)))\<rparr>)
          else (False, m, k)
      | _ \<Rightarrow> (False, m, k))"

definition MapReadAndWriteAshmem :: "nat option \<Rightarrow> ashmem \<Rightarrow> ash_kernel \<Rightarrow> bool \<times> ashmem \<times> ash_kernel" where
  "MapReadAndWriteAshmem addr m k = MapAshmem addr (PROT_READ OR PROT_WRITE) m k"

definition MapReadOnlyAshmem :: "nat option \<Rightarrow> ashmem \<Rightarrow> ash_kernel \<Rightarrow> bool \<times> ashmem \<times> ash_kernel" where
  "MapReadOnlyAshmem addr m k = MapAshmem addr PROT_READ m k"

definition UnmapAshmem :: "ashmem \<Rightarrow> ash_kernel \<Rightarrow> ashmem \<times> ash_kernel" where
  "UnmapAshmem m k =
     (case startAddr m of
        None \<Rightarrow> (m\<lparr>flag := 0\<rparr>, k)
      | Some a \<Rightarrow> (m\<lparr>startAddr := None, flag := 0\<rparr>, k\<lparr>mappings := (mappings k)(a := None)\<rparr>))"

definition Ashmem_delete :: "ashmem \<Rightarrow> ash_kernel \<Rightarrow> ash_kernel" where
  "Ashmem_delete m k = (case UnmapAshmem m k of (m1, k1) \<Rightarrow> snd (CloseAshmem m1 k1))"

section \<open>Access\<close>

text \<open>The sum of two \<^verbatim>\<open>int32_t\<close>.\<close>

definition add32 :: "int \<Rightarrow> int \<Rightarrow> int option" where
  "add32 a b = (if - (2 ^ 31) \<le> a + b \<and> a + b \<le> 2 ^ 31 - 1 then Some (a + b) else None)"

definition CheckValid :: "int \<Rightarrow> int \<Rightarrow> 32 word \<Rightarrow> ashmem \<Rightarrow> ash_kernel \<Rightarrow> bool option" where
  "CheckValid sz offset cmd m k =
     (if startAddr m = None then Some False
      else if sz < 0 \<or> sz > memorySize m \<or> offset < 0 \<or> offset > memorySize m then Some False
      else do {
        upto \<leftarrow> add32 offset sz;
        if upto > memorySize m then Some False
        else Some (\<not> (word_of_int (GetProtection m k) AND cmd = 0 \<or> flag m AND cmd = 0))
      })"

text \<open>\<open>memcpy_s\<close> says for a size of the target and a count whether it copies.\<close>

definition WriteToAshmem ::
  "(nat \<Rightarrow> nat \<Rightarrow> bool) \<Rightarrow> byte list option \<Rightarrow> int \<Rightarrow> int \<Rightarrow> ashmem \<Rightarrow> ash_kernel \<Rightarrow> (bool \<times> ash_kernel) option" where
  "WriteToAshmem memcpy_s data sz offset m k =
     (case data of
        None \<Rightarrow> Some (False, k)
      | Some src \<Rightarrow> do {
          valid \<leftarrow> CheckValid sz offset PROT_WRITE m k;
          if \<not> valid then Some (False, k)
          else if \<not> memcpy_s (nat (memorySize m - offset)) (nat sz) then Some (False, k)
          else do {
            a \<leftarrow> startAddr m;
            (r, len) \<leftarrow> mappings k a;
            bs \<leftarrow> mem_read 0 (nat sz) src;
            if nat (offset + sz) > len then None
            else do {
              d \<leftarrow> mem_write (nat offset) bs (region_data k r);
              Some (True, k\<lparr>region_data := (region_data k)(r := d)\<rparr>)
            }
          }
        })"

text \<open>The result is the pointer into the mapping: its region and the offset.\<close>

definition ReadFromAshmem :: "int \<Rightarrow> int \<Rightarrow> ashmem \<Rightarrow> ash_kernel \<Rightarrow> (nat \<times> nat) option option" where
  "ReadFromAshmem sz offset m k = do {
     valid \<leftarrow> CheckValid sz offset PROT_READ m k;
     if \<not> valid then Some None
     else do { a \<leftarrow> startAddr m; (r, len) \<leftarrow> mappings k a; Some (Some (r, nat offset)) }
   }"

text \<open>What a client then reads through the pointer.\<close>

definition client_read :: "nat \<times> nat \<Rightarrow> int \<Rightarrow> ash_kernel \<Rightarrow> byte list option" where
  "client_read p sz k = mem_read (snd p) (nat sz) (region_data k (fst p))"

section \<open>Programs\<close>

text \<open>One object and its operations; addresses from \<^verbatim>\<open>mmap\<close> are not in use.\<close>

inductive ash_step :: "(nat \<Rightarrow> nat \<Rightarrow> bool) \<Rightarrow> ashmem \<times> ash_kernel \<Rightarrow> ashmem \<times> ash_kernel \<Rightarrow> bool" for memcpy_s where
  ash_map: "(\<And>a. addr = Some a \<Longrightarrow> mappings k a = None) \<Longrightarrow> MapAshmem addr t m k = (b, m', k') \<Longrightarrow> ash_step memcpy_s (m, k) (m', k')"
| ash_unmap: "ash_step memcpy_s (m, k) (UnmapAshmem m k)"
| ash_close: "ash_step memcpy_s (m, k) (CloseAshmem m k)"
| ash_protect: "SetProtection t m k = (b, k') \<Longrightarrow> ash_step memcpy_s (m, k) (m, k')"
| ash_write: "WriteToAshmem memcpy_s data sz offset m k = Some (b, k') \<Longrightarrow> ash_step memcpy_s (m, k) (m, k')"

section \<open>The mapping belongs to the object\<close>

definition ash_inv :: "ashmem \<times> ash_kernel \<Rightarrow> bool" where
  "ash_inv s \<longleftrightarrow> (\<forall>a. startAddr (fst s) = Some a \<longrightarrow>
     (\<exists>r. mappings (snd s) a = Some (r, nat (memorySize (fst s))) \<and> 0 < memorySize (fst s) \<and>
        memorySize (fst s) \<le> int (length (region_data (snd s) r))))"

lemma mem_write_result:
  assumes "off + length bs \<le> length d"
  shows "\<exists>d'. mem_write off bs d = Some d' \<and> length d' = length d \<and> mem_read off (length bs) d' = Some bs \<and>
    take off d' = take off d \<and> drop (off + length bs) d' = drop (off + length bs) d"
  using assms by (auto simp: mem_write_def mem_read_def)

lemma CheckValid_True:
  assumes "CheckValid sz offset cmd m k = Some True"
  shows "startAddr m \<noteq> None" "0 \<le> sz" "0 \<le> offset" "offset + sz \<le> memorySize m"
  using assms by (auto simp: CheckValid_def add32_def bind_eq_Some_conv split: if_splits)

text \<open>A valid write goes to the mapped region and changes exactly the bytes it names.\<close>

lemma WriteToAshmem_valid:
  assumes inv: "ash_inv (m, k)" and valid: "CheckValid sz offset PROT_WRITE m k = Some True"
    and src: "int (length src) \<ge> sz" and copy: "memcpy_s (nat (memorySize m - offset)) (nat sz)"
  shows "\<exists>a r d. startAddr m = Some a \<and> mappings k a = Some (r, nat (memorySize m)) \<and>
    WriteToAshmem memcpy_s (Some src) sz offset m k = Some (True, k\<lparr>region_data := (region_data k)(r := d)\<rparr>) \<and>
    length d = length (region_data k r) \<and> mem_read (nat offset) (nat sz) d = Some (take (nat sz) src) \<and>
    take (nat offset) d = take (nat offset) (region_data k r) \<and>
    drop (nat offset + nat sz) d = drop (nat offset + nat sz) (region_data k r)"
proof -
  note V = CheckValid_True [OF valid]
  obtain a where a: "startAddr m = Some a" using V(1) by auto
  with inv obtain r where r: "mappings k a = Some (r, nat (memorySize m))" "0 < memorySize m" "memorySize m \<le> int (length (region_data k r))"
    by (auto simp: ash_inv_def)
  have len: "length (take (nat sz) src) = nat sz" using src by simp
  have "nat offset + length (take (nat sz) src) \<le> length (region_data k r)" unfolding len using V r(3) by linarith
  from mem_write_result [OF this] obtain d where d: "mem_write (nat offset) (take (nat sz) src) (region_data k r) = Some d"
    "length d = length (region_data k r)" "mem_read (nat offset) (nat sz) d = Some (take (nat sz) src)"
    "take (nat offset) d = take (nat offset) (region_data k r)" "drop (nat offset + nat sz) d = drop (nat offset + nat sz) (region_data k r)"
    unfolding len by blast
  have "mem_read 0 (nat sz) src = Some (take (nat sz) src)" using src by (simp add: mem_read_def)
  moreover have "\<not> nat (offset + sz) > nat (memorySize m)" using V by linarith
  ultimately have "WriteToAshmem memcpy_s (Some src) sz offset m k = Some (True, k\<lparr>region_data := (region_data k)(r := d)\<rparr>)"
    using valid copy a r(1) d(1) by (simp add: WriteToAshmem_def)
  then show ?thesis using a r(1) d(2-5) by blast
qed

lemma WriteToAshmem_keeps:
  assumes "WriteToAshmem memcpy_s data sz offset m k = Some (b, k')"
  shows "mappings k' = mappings k \<and> fd_region k' = fd_region k \<and> prot_mask k' = prot_mask k \<and>
    (\<forall>r. length (region_data k' r) = length (region_data k r))"
  using assms
  by (auto simp: WriteToAshmem_def bind_eq_Some_conv mem_write_length split: option.splits if_splits)

interpretation ash_runs: inductive_invariant "\<lambda>s. startAddr (fst s) = None" "ash_step memcpy_s" ash_inv
  for memcpy_s
proof
  show "startAddr (fst s) = None \<Longrightarrow> ash_inv s" for s by (simp add: ash_inv_def)
  fix s s' assume inv: "ash_inv s" and "ash_step memcpy_s s s'"
  from this(2) show "ash_inv s'"
  proof (cases rule: ash_step.cases)
    case (ash_map addr k t m b m' k')
    then show ?thesis using inv by (auto simp: MapAshmem_def ash_inv_def split: option.splits if_splits)
  next
    case (ash_write data sz offset m k b k')
    then show ?thesis using inv WriteToAshmem_keeps [of memcpy_s data sz offset m k b k'] by (auto simp: ash_inv_def)
  qed (use inv in \<open>auto simp: ash_inv_def UnmapAshmem_def CloseAshmem_def SetProtection_def AshmemSetProt_def split: option.splits if_splits\<close>)
qed

section \<open>Properties\<close>

text \<open>
  The range a client may use: it lies in the mapped object, and both the protection the kernel reports and the one the
  object was mapped with allow the access. For objects of less than 1 GB the check computes exactly this.
\<close>

definition accessible :: "32 word \<Rightarrow> int \<Rightarrow> int \<Rightarrow> ashmem \<Rightarrow> ash_kernel \<Rightarrow> bool" where
  "accessible cmd sz offset m k \<longleftrightarrow> startAddr m \<noteq> None \<and> 0 \<le> sz \<and> 0 \<le> offset \<and> offset + sz \<le> memorySize m \<and>
     word_of_int (GetProtection m k) AND cmd \<noteq> 0 \<and> flag m AND cmd \<noteq> 0"

lemma CheckValid_accessible: "memorySize m < 2 ^ 30 \<Longrightarrow> CheckValid sz offset cmd m k = Some (accessible cmd sz offset m k)"
  by (auto simp: CheckValid_def accessible_def add32_def)

text \<open>
  C37. Access to the shared memory stays inside the mapping. For an object of less than 1 GB, in every state of a program
  that uses it, a write whose source has the bytes never runs into undefined behaviour. It succeeds exactly when the
  range lies in the mapped object, both protections allow it and \<^verbatim>\<open>memcpy_s\<close> copies; then it replaces exactly the bytes
  it names, and a read of the same range, when reading is allowed, returns a pointer that shows them. Otherwise it
  reports false and changes nothing. For larger objects the sum in the check can overflow.
\<close>

theorem ashmem_access:
  assumes "reach (\<lambda>s. startAddr (fst s) = None) (ash_step memcpy_s) (m, k)" "memorySize m < 2 ^ 30"
    and "int (length src) \<ge> sz"
  shows "if accessible PROT_WRITE sz offset m k \<and> memcpy_s (nat (memorySize m - offset)) (nat sz)
    then \<exists>r d. let k' = k\<lparr>region_data := (region_data k)(r := d)\<rparr>
      in WriteToAshmem memcpy_s (Some src) sz offset m k = Some (True, k') \<and>
         take (nat offset) d = take (nat offset) (region_data k r) \<and> drop (nat offset + nat sz) d = drop (nat offset + nat sz) (region_data k r) \<and>
         (if accessible PROT_READ sz offset m k
          then ReadFromAshmem sz offset m k' = Some (Some (r, nat offset)) \<and> client_read (r, nat offset) sz k' = Some (take (nat sz) src)
          else ReadFromAshmem sz offset m k' = Some None)
    else WriteToAshmem memcpy_s (Some src) sz offset m k = Some (False, k)"
proof (cases "accessible PROT_WRITE sz offset m k \<and> memcpy_s (nat (memorySize m - offset)) (nat sz)")
  case True
  note valid = CheckValid_accessible [OF assms(2)]
  have inv: "ash_inv (m, k)" by (rule ash_runs.always [OF assms(1)])
  have "CheckValid sz offset PROT_WRITE m k = Some True" using True by (simp add: valid)
  from WriteToAshmem_valid [OF inv this assms(3), of memcpy_s] True obtain a r d where
    w: "startAddr m = Some a" "mappings k a = Some (r, nat (memorySize m))"
    "WriteToAshmem memcpy_s (Some src) sz offset m k = Some (True, k\<lparr>region_data := (region_data k)(r := d)\<rparr>)"
    "mem_read (nat offset) (nat sz) d = Some (take (nat sz) src)"
    "take (nat offset) d = take (nat offset) (region_data k r)" "drop (nat offset + nat sz) d = drop (nat offset + nat sz) (region_data k r)" by blast
  let ?k = "k\<lparr>region_data := (region_data k)(r := d)\<rparr>"
  have same: "accessible PROT_READ sz offset m ?k = accessible PROT_READ sz offset m k"
    by (cases "fd_region k (memoryFd m)") (simp_all add: accessible_def GetProtection_def)
  have "if accessible PROT_READ sz offset m k
      then ReadFromAshmem sz offset m ?k = Some (Some (r, nat offset)) \<and> client_read (r, nat offset) sz ?k = Some (take (nat sz) src)
      else ReadFromAshmem sz offset m ?k = Some None"
    using w(1,2,4) by (simp add: ReadFromAshmem_def client_read_def valid same)
  with w(3,5,6) True show ?thesis unfolding Let_def by (simp only: if_True simp_thms) blast
next
  case False
  then have "WriteToAshmem memcpy_s (Some src) sz offset m k = Some (False, k)" by (simp add: WriteToAshmem_def CheckValid_accessible [OF assms(2)])
  with False show ?thesis by simp
qed

definition sample_kernel :: ash_kernel where
  "sample_kernel = \<lparr>fd_region = (\<lambda>_. None), region_data = (\<lambda>_. []), prot_mask = (\<lambda>_. 0), mappings = (\<lambda>_. None)\<rparr>"

definition sample_env :: create_env where
  "sample_env = \<lparr>dev_fd = 7, fstat_ok = True, is_chr = True, set_name_ret = 0, set_size_ret = 0\<rparr>"

definition sample_mapped :: "bool \<times> ashmem \<times> ash_kernel" where
  "sample_mapped = (case CreateAshmem sample_env (Some ''m'') 4 1 sample_kernel of (m, k) \<Rightarrow> MapReadAndWriteAshmem (Some 100) (the m) k)"

theorem ashmem_access_witness:
  "reach (\<lambda>s. startAddr (fst s) = None) (ash_step (\<lambda>dest n. n \<le> dest)) (snd sample_mapped) \<and>
   accessible PROT_WRITE 2 1 (fst (snd sample_mapped)) (snd (snd sample_mapped)) \<and>
   (\<exists>r d. WriteToAshmem (\<lambda>dest n. n \<le> dest) (Some [5, 6]) 2 1 (fst (snd sample_mapped)) (snd (snd sample_mapped)) =
     Some (True, (snd (snd sample_mapped))\<lparr>region_data := (region_data (snd (snd sample_mapped)))(r := d)\<rparr>))"
proof -
  let ?mc = "\<lambda>dest n. n \<le> (dest :: nat)"
  obtain m0 k0 where c: "CreateAshmem sample_env (Some ''m'') 4 1 sample_kernel = (Some m0, k0)" "startAddr m0 = None" "mappings k0 = (\<lambda>_. None)"
    by (simp add: CreateAshmem_def AshmemCreate_def AshmemOpen_def AshmemOpenLocked_def sample_env_def ASHMEM_NAME_LEN_def Ashmem_new_def sample_kernel_def Let_def)
  obtain b m k where s: "sample_mapped = (b, m, k)" by (metis prod_cases3)
  have "reach (\<lambda>s. startAddr (fst s) = None) (ash_step ?mc) (m0, k0)" by (rule reach.start) (simp add: c(2))
  moreover have "ash_step ?mc (m0, k0) (m, k)"
    using s c by (intro ash_step.ash_map [of "Some 100"]) (auto simp: sample_mapped_def MapReadAndWriteAshmem_def)
  ultimately have r: "reach (\<lambda>s. startAddr (fst s) = None) (ash_step ?mc) (m, k)" by (rule reach.more)
  have "memorySize (fst (snd sample_mapped)) = 4" by code_simp
  then have sz: "memorySize m = 4" unfolding s fst_conv snd_conv .
  have "CheckValid 2 1 PROT_WRITE (fst (snd sample_mapped)) (snd (snd sample_mapped)) = Some True" by code_simp
  then have "accessible PROT_WRITE 2 1 m k" unfolding s fst_conv snd_conv by (simp add: CheckValid_accessible sz)
  with ashmem_access [OF r, where src = "[5, 6]" and sz = 2 and offset = 1] r sz
  show ?thesis unfolding s fst_conv snd_conv Let_def by (auto simp: sz)
qed

text \<open>The overflow: an object of the largest size, all checks but the sum pass.\<close>

lemma CheckValid_overflows:
  assumes "memorySize m = 2 ^ 31 - 1" "startAddr m \<noteq> None"
  shows "CheckValid (2 ^ 31 - 1) (2 ^ 31 - 1) cmd m k = None"
  using assms by (simp add: CheckValid_def add32_def)

text \<open>Mapping again, or closing before unmapping, leaves a mapping that nothing removes.\<close>

lemma mapping_leaks:
  assumes "startAddr m = Some a" "mappings k a \<noteq> None"
  shows "MapAshmem (Some b) t m k = (True, m', k') \<Longrightarrow> b \<noteq> a \<Longrightarrow> mappings k' a \<noteq> None \<and> startAddr m' \<noteq> Some a"
    "CloseAshmem m k = (m', k') \<Longrightarrow> mappings k' a \<noteq> None \<and> startAddr m' = None"
  using assms by (auto simp: MapAshmem_def CloseAshmem_def split: option.splits if_splits)

end
