(* ===== verification/Thread_Ex.thy ===== *)
theory Thread_Ex
  imports CUtils_Prelude
begin

text \<open>
  The restartable thread (\<^verbatim>\<open>base/src/thread_ex.cpp\<close>, \<^verbatim>\<open>base/include/thread_ex.h\<close>). One object, the threads its \<^verbatim>\<open>Start\<close>
  creates, and the threads that call \<^verbatim>\<open>NotifyExitSync\<close>, interleaved in atomic steps: a step is a critical section of
  \<^verbatim>\<open>lock_\<close>, or an access outside of it. \<^verbatim>\<open>Start\<close> is two steps, up to and after \<^verbatim>\<open>pthread_create\<close>: it holds the lock in
  between, but the new thread is already running, and \<^verbatim>\<open>thread_\<close> is read without the lock.
\<close>

section \<open>Data\<close>

datatype ThreadStatus = THREAD_OK | WOULD_BLOCK | INVALID_OPERATION | UNKNOWN_ERROR

definition INVALID_PTHREAD_T :: int where "INVALID_PTHREAD_T = -1"
definition MAX_THREAD_NAME_LEN :: nat where "MAX_THREAD_NAME_LEN = 15"

datatype routine = ThreadStart_routine | Proxy_routine
datatype thread_arg = This | Param nat | Null_arg

record ThreadParam =
  startRoutine :: routine
  args :: thread_arg
  priority :: int
  thread_name :: string

text \<open>
  Where a thread of the object is: in \<^verbatim>\<open>Proxy\<close> with its argument, in \<^verbatim>\<open>ReadyToWork\<close>, before \<^verbatim>\<open>IsExitPending\<close>, in \<^verbatim>\<open>Run\<close>, or
  before the critical section at the end of the loop with the result of this turn. A caller of \<^verbatim>\<open>NotifyExitSync\<close> is about
  to take the lock, waits for the condition variable, or was woken and competes for the lock.
\<close>

datatype thread_pc = At_Proxy thread_arg | At_ReadyToWork | At_IsExitPending | At_Run | At_end bool
datatype caller_pc = Entering | Blocked | Woken

record thread_ex =
  thread_id :: int
  status :: ThreadStatus
  exitPending :: bool
  running :: bool
  starting :: "int option option"
  params :: "nat \<Rightarrow> ThreadParam option"
  next_param :: nat
  threads :: "int \<Rightarrow> thread_pc option"
  callers :: "int \<Rightarrow> caller_pc option"
  os_priority :: "int \<Rightarrow> int"
  os_name :: "int \<Rightarrow> string"

definition Thread_new :: thread_ex where
  "Thread_new = \<lparr>thread_id = INVALID_PTHREAD_T, status = THREAD_OK, exitPending = False, running = False, starting = None,
     params = (\<lambda>_. None), next_param = 0, threads = (\<lambda>_. None), callers = (\<lambda>_. None), os_priority = (\<lambda>_. 0), os_name = (\<lambda>_. [])\<rparr>"

abbreviation lock_free :: "thread_ex \<Rightarrow> bool" where
  "lock_free s \<equiv> starting s = None"

section \<open>Operations\<close>

text \<open>\<^verbatim>\<open>CreatePThread\<close> up to \<^verbatim>\<open>pthread_create\<close>, whose outcome is the new thread or none, and after it.\<close>

definition CreatePThread_call :: "int option \<Rightarrow> ThreadParam \<Rightarrow> thread_ex \<Rightarrow> thread_ex" where
  "CreatePThread_call created para s =
     (let t = next_param s;
          s1 = s\<lparr>params := (params s)(t \<mapsto> para), next_param := t + 1\<rparr>;
          para1 = para\<lparr>startRoutine := Proxy_routine, args := Param t\<rparr>
      in case created of
           None \<Rightarrow> s1
         | Some tid \<Rightarrow> s1\<lparr>threads := (threads s1)(tid \<mapsto> At_Proxy (args para1))\<rparr>)"

definition CreatePThread_return :: "int option \<Rightarrow> thread_ex \<Rightarrow> bool \<times> thread_ex" where
  "CreatePThread_return created s = (case created of None \<Rightarrow> (False, s) | Some thread \<Rightarrow> (True, s\<lparr>thread_id := thread\<rparr>))"

definition Start_begin :: "int option \<Rightarrow> string \<Rightarrow> int \<Rightarrow> thread_ex \<Rightarrow> ThreadStatus option \<times> thread_ex" where
  "Start_begin created name prio s =
     (if running s then (Some INVALID_OPERATION, s)
      else let s1 = s\<lparr>status := THREAD_OK, exitPending := False, thread_id := INVALID_PTHREAD_T, running := True\<rparr>;
               para = \<lparr>startRoutine = ThreadStart_routine, args = This, priority = prio, thread_name = name\<rparr>
           in (None, (CreatePThread_call created para s1)\<lparr>starting := Some created\<rparr>))"

definition Start_finish :: "int option \<Rightarrow> thread_ex \<Rightarrow> ThreadStatus \<times> thread_ex" where
  "Start_finish created s =
     (let (res, s1) = CreatePThread_return created (s\<lparr>starting := None\<rparr>)
      in if \<not> res then (UNKNOWN_ERROR, s1\<lparr>status := UNKNOWN_ERROR, running := False, thread_id := INVALID_PTHREAD_T\<rparr>)
         else (THREAD_OK, s1))"

text \<open>\<^const>\<open>None\<close> is a read of a parameter that was freed, or a call of something else than \<^verbatim>\<open>ThreadStart\<close> on the object.\<close>

definition Proxy :: "thread_arg \<Rightarrow> int \<Rightarrow> thread_ex \<Rightarrow> thread_ex option" where
  "Proxy t self s =
     (case t of
        Null_arg \<Rightarrow> Some (s\<lparr>threads := (threads s)(self := None)\<rparr>)
      | This \<Rightarrow> None
      | Param p \<Rightarrow> do {
          para \<leftarrow> params s p;
          let s1 = s\<lparr>params := (params s)(p := None), os_priority := (os_priority s)(self := priority para)\<rparr>;
          let s2 = (if thread_name para \<noteq> [] then s1\<lparr>os_name := (os_name s1)(self := take MAX_THREAD_NAME_LEN (thread_name para))\<rparr> else s1);
          if startRoutine para = ThreadStart_routine \<and> args para = This then Some (s2\<lparr>threads := (threads s2)(self \<mapsto> At_ReadyToWork)\<rparr>)
          else None
        })"

definition IsExitPending :: "thread_ex \<Rightarrow> bool" where "IsExitPending s = exitPending s"
definition IsRunning :: "thread_ex \<Rightarrow> bool" where "IsRunning s = running s"

text \<open>The loop of \<^verbatim>\<open>ThreadStart\<close>: after \<^verbatim>\<open>ReadyToWork\<close>, after \<^verbatim>\<open>IsExitPending\<close>, after \<^verbatim>\<open>Run\<close>, and the critical section.\<close>

definition ThreadStart_ready :: "bool \<Rightarrow> int \<Rightarrow> thread_ex \<Rightarrow> thread_ex" where
  "ThreadStart_ready ready self s = s\<lparr>threads := (threads s)(self \<mapsto> (if ready then At_IsExitPending else At_end False))\<rparr>"

definition ThreadStart_check :: "int \<Rightarrow> thread_ex \<Rightarrow> thread_ex" where
  "ThreadStart_check self s = s\<lparr>threads := (threads s)(self \<mapsto> (if \<not> IsExitPending s then At_Run else At_end False))\<rparr>"

definition ThreadStart_ran :: "bool \<Rightarrow> int \<Rightarrow> thread_ex \<Rightarrow> thread_ex" where
  "ThreadStart_ran result self s = s\<lparr>threads := (threads s)(self \<mapsto> At_end result)\<rparr>"

definition notify_all :: "thread_ex \<Rightarrow> thread_ex" where
  "notify_all s = s\<lparr>callers := (\<lambda>c. if callers s c = Some Blocked then Some Woken else callers s c)\<rparr>"

definition ThreadStart_end :: "bool \<Rightarrow> int \<Rightarrow> thread_ex \<Rightarrow> thread_ex" where
  "ThreadStart_end result self s =
     (if \<not> result \<or> exitPending s
      then (notify_all (s\<lparr>exitPending := True, running := False, thread_id := INVALID_PTHREAD_T\<rparr>))\<lparr>threads := (threads s)(self := None)\<rparr>
      else s\<lparr>threads := (threads s)(self \<mapsto> At_Run)\<rparr>)"

text \<open>\<^verbatim>\<open>NotifyExitSync\<close>: the test without the lock, the request, and the loop that waits; \<^const>\<open>None\<close> is a call that goes on.\<close>

definition NotifyExitSync_call :: "int \<Rightarrow> thread_ex \<Rightarrow> ThreadStatus option \<times> thread_ex" where
  "NotifyExitSync_call self s =
     (if thread_id s = self then (Some WOULD_BLOCK, s) else (None, s\<lparr>callers := (callers s)(self \<mapsto> Entering)\<rparr>))"

definition NotifyExitSync_wait :: "int \<Rightarrow> thread_ex \<Rightarrow> ThreadStatus option \<times> thread_ex" where
  "NotifyExitSync_wait self s =
     (if running s then (None, s\<lparr>callers := (callers s)(self \<mapsto> Blocked)\<rparr>)
      else (Some (status s), s\<lparr>exitPending := False, callers := (callers s)(self := None)\<rparr>))"

definition NotifyExitSync_enter :: "int \<Rightarrow> thread_ex \<Rightarrow> ThreadStatus option \<times> thread_ex" where
  "NotifyExitSync_enter self s = NotifyExitSync_wait self (s\<lparr>exitPending := True\<rparr>)"

definition NotifyExitAsync :: "thread_ex \<Rightarrow> thread_ex" where
  "NotifyExitAsync s = s\<lparr>exitPending := True\<rparr>"

section \<open>Interleavings\<close>

text \<open>
  The next step of some thread, with what the system and the client's \<^verbatim>\<open>ReadyToWork\<close> and \<^verbatim>\<open>Run\<close> answer; \<^const>\<open>None\<close> when it
  cannot be taken. A new thread is none of those that exist. \<^verbatim>\<open>NotifyExitSync\<close> is called by other threads, or by the
  object's own thread from \<^verbatim>\<open>ReadyToWork\<close> and \<^verbatim>\<open>Run\<close>, which then do not return before the call does. A waiter may be
  woken at any time.
\<close>

datatype thread_action =
    Start_act "int option" string int | Finish_act | Proxy_act int | Ready_act int bool | Check_act int | Ran_act int bool | End_act int
  | Call_act int | Enter_act int | Spurious_act int | Wait_act int | Async_act

fun thread_exec :: "thread_action \<Rightarrow> thread_ex \<Rightarrow> thread_ex option" where
  "thread_exec (Start_act created name prio) s =
     (if lock_free s \<and> (case created of None \<Rightarrow> True | Some t \<Rightarrow> t \<ge> 0 \<and> threads s t = None \<and> callers s t = None)
      then Some (snd (Start_begin created name prio s)) else None)"
| "thread_exec Finish_act s = (case starting s of None \<Rightarrow> None | Some created \<Rightarrow> Some (snd (Start_finish created s)))"
| "thread_exec (Proxy_act t) s = (case threads s t of Some (At_Proxy a) \<Rightarrow> Proxy a t s | _ \<Rightarrow> None)"
| "thread_exec (Ready_act t ready) s =
     (if threads s t = Some At_ReadyToWork \<and> callers s t = None then Some (ThreadStart_ready ready t s) else None)"
| "thread_exec (Check_act t) s = (if threads s t = Some At_IsExitPending \<and> lock_free s then Some (ThreadStart_check t s) else None)"
| "thread_exec (Ran_act t result) s = (if threads s t = Some At_Run \<and> callers s t = None then Some (ThreadStart_ran result t s) else None)"
| "thread_exec (End_act t) s = (case threads s t of Some (At_end result) \<Rightarrow> if lock_free s then Some (ThreadStart_end result t s) else None | _ \<Rightarrow> None)"
| "thread_exec (Call_act c) s =
     (if c \<ge> 0 \<and> callers s c = None \<and> (threads s c = None \<or> threads s c = Some At_ReadyToWork \<or> threads s c = Some At_Run)
      then Some (snd (NotifyExitSync_call c s)) else None)"
| "thread_exec (Enter_act c) s = (if callers s c = Some Entering \<and> lock_free s then Some (snd (NotifyExitSync_enter c s)) else None)"
| "thread_exec (Spurious_act c) s = (if callers s c = Some Blocked then Some (s\<lparr>callers := (callers s)(c \<mapsto> Woken)\<rparr>) else None)"
| "thread_exec (Wait_act c) s = (if callers s c = Some Woken \<and> lock_free s then Some (snd (NotifyExitSync_wait c s)) else None)"
| "thread_exec Async_act s = (if lock_free s then Some (NotifyExitAsync s) else None)"

definition thread_step :: "thread_ex \<Rightarrow> thread_ex \<Rightarrow> bool" where
  "thread_step s s' \<longleftrightarrow> (\<exists>a. thread_exec a s = Some s')"

fun thread_run :: "thread_action list \<Rightarrow> thread_ex \<Rightarrow> thread_ex option" where
  "thread_run [] s = Some s"
| "thread_run (a # as) s = do { s1 \<leftarrow> thread_exec a s; thread_run as s1 }"

abbreviation thread_reach :: "thread_ex \<Rightarrow> bool" where
  "thread_reach \<equiv> reach (\<lambda>s. s = Thread_new) thread_step"

lemma exec_reach: "thread_reach s \<Longrightarrow> thread_exec a s = Some s' \<Longrightarrow> thread_reach s'"
  by (rule reach.more) (auto simp: thread_step_def)

lemma thread_run_reach: "thread_reach s \<Longrightarrow> thread_run as s = Some s' \<Longrightarrow> thread_reach s'"
  by (induction as arbitrary: s) (auto simp: bind_eq_Some_conv dest: exec_reach)

lemma run_reach: "thread_run as Thread_new = Some s \<Longrightarrow> thread_reach s"
  by (rule thread_run_reach [OF reach.start]) simp_all

section \<open>Invariant\<close>

text \<open>
  Without a running flag there is no thread; with it there is one, or \<^verbatim>\<open>pthread_create\<close> just failed. Before \<^verbatim>\<open>Start\<close> has
  stored \<^verbatim>\<open>thread_\<close> the thread is not yet in its loop.
\<close>

definition one_thread :: "thread_ex \<Rightarrow> bool" where
  "one_thread s \<longleftrightarrow>
     (if \<not> running s then starting s = None \<and> threads s = Map.empty \<and> thread_id s = -1
      else case starting s of
        Some None \<Rightarrow> threads s = Map.empty \<and> thread_id s = -1
      | Some (Some t) \<Rightarrow> thread_id s = -1 \<and> (\<exists>pc. threads s = [t \<mapsto> pc] \<and> pc \<noteq> At_Run)
      | None \<Rightarrow> \<exists>pc. threads s = [thread_id s \<mapsto> pc])"

definition params_ok :: "thread_ex \<Rightarrow> bool" where
  "params_ok s \<longleftrightarrow> (\<forall>p \<ge> next_param s. params s p = None) \<and>
     (\<forall>t a. threads s t = Some (At_Proxy a) \<longrightarrow>
       (\<exists>p para. a = Param p \<and> params s p = Some para \<and> startRoutine para = ThreadStart_routine \<and> args para = This))"

definition callers_ok :: "thread_ex \<Rightarrow> bool" where
  "callers_ok s \<longleftrightarrow> (\<forall>c. callers s c = Some Blocked \<longrightarrow> running s \<and> lock_free s) \<and>
     (\<forall>c. callers s c \<noteq> None \<longrightarrow> threads s c = None \<or> threads s c = Some At_ReadyToWork)"

definition thread_inv :: "thread_ex \<Rightarrow> bool" where
  "thread_inv s \<longleftrightarrow> one_thread s \<and> params_ok s \<and> callers_ok s"

lemmas thread_ops = Start_begin_def Start_finish_def CreatePThread_call_def CreatePThread_return_def Proxy_def ThreadStart_ready_def
  ThreadStart_check_def ThreadStart_ran_def ThreadStart_end_def NotifyExitSync_call_def NotifyExitSync_wait_def NotifyExitSync_enter_def
  NotifyExitAsync_def notify_all_def INVALID_PTHREAD_T_def Let_def

lemma one_thread_step: "one_thread s \<Longrightarrow> thread_exec a s = Some s' \<Longrightarrow> params_ok s \<Longrightarrow> one_thread s'"
  by (cases a)
    (auto simp: thread_ops one_thread_def params_ok_def bind_eq_Some_conv split: if_splits option.splits thread_pc.splits thread_arg.splits)

lemma run_thread_id: "one_thread s \<Longrightarrow> threads s t = Some At_Run \<Longrightarrow> thread_id s = t \<and> starting s = None"
  by (auto simp: one_thread_def split: if_splits option.splits)

lemma thread_unique: "one_thread s \<Longrightarrow> threads s t \<noteq> None \<Longrightarrow> threads s u \<noteq> None \<Longrightarrow> t = u"
  by (auto simp: one_thread_def split: if_splits option.splits)

lemma thread_running: "one_thread s \<Longrightarrow> threads s t \<noteq> None \<Longrightarrow> running s"
  by (auto simp: one_thread_def split: if_splits)

lemma params_ok_frame:
  assumes "params_ok s" "params s' = params s" "next_param s' = next_param s"
    and "\<And>t a. threads s' t = Some (At_Proxy a) \<Longrightarrow> threads s t = Some (At_Proxy a)"
  shows "params_ok s'"
  using assms unfolding params_ok_def by metis

lemma params_ok_proxy:
  assumes ok: "params_ok s" and one: "one_thread s" and t: "threads s t = Some (At_Proxy a)"
  obtains s' where "Proxy a t s = Some s'" "params_ok s'"
proof -
  from ok t obtain p para where p: "a = Param p" "params s p = Some para" "startRoutine para = ThreadStart_routine" "args para = This"
    unfolding params_ok_def by blast
  have only: "threads s u = None" if "u \<noteq> t" for u using thread_unique [OF one] t that by blast
  obtain s' where s': "Proxy a t s = Some s'" "params s' = (params s)(p := None)" "next_param s' = next_param s"
      "threads s' = (threads s)(t \<mapsto> At_ReadyToWork)"
    using p by (simp add: Proxy_def Let_def)
  have "params_ok s'" using ok s'(2-4) only unfolding params_ok_def by (auto split: if_splits)
  with s'(1) show ?thesis by (rule that)
qed

lemma params_ok_start:
  assumes "params_ok s" "one_thread s" shows "params_ok (snd (Start_begin created name prio s))"
proof (cases "running s")
  case False
  with assms(2) have "threads s = Map.empty" by (simp add: one_thread_def)
  with False assms show ?thesis
    by (cases created) (auto simp: Start_begin_def CreatePThread_call_def Let_def params_ok_def)
qed (use assms in \<open>simp add: Start_begin_def\<close>)

lemma params_ok_step:
  assumes ok: "params_ok s" and one: "one_thread s" and step: "thread_exec a s = Some s'"
  shows "params_ok s'"
proof (cases a)
  case (Start_act created name prio)
  then show ?thesis using step params_ok_start [OF ok one] by (auto split: if_splits)
next
  case (Proxy_act t)
  then obtain x where "threads s t = Some (At_Proxy x)" "Proxy x t s = Some s'" using step by (auto split: option.splits thread_pc.splits)
  with params_ok_proxy [OF ok one] show ?thesis by (metis option.inject)
next
  case Finish_act
  with step show ?thesis by (intro params_ok_frame [OF ok]) (auto simp: Start_finish_def CreatePThread_return_def split: option.splits)
next
  case (End_act t)
  with step show ?thesis by (intro params_ok_frame [OF ok]) (auto simp: thread_ops split: option.splits thread_pc.splits if_splits)
qed (use step in \<open>auto simp: thread_ops split: if_splits intro!: params_ok_frame [OF ok]\<close>)

lemma callers_okI:
  assumes "\<And>c. callers s c = Some Blocked \<Longrightarrow> running s \<and> lock_free s"
    and "\<And>c. callers s c \<noteq> None \<Longrightarrow> threads s c = None \<or> threads s c = Some At_ReadyToWork"
  shows "callers_ok s"
  using assms unfolding callers_ok_def by blast

lemma callers_okD:
  assumes "callers_ok s"
  shows "callers s c = Some Blocked \<Longrightarrow> running s \<and> lock_free s"
    and "callers s c \<noteq> None \<Longrightarrow> threads s c = None \<or> threads s c = Some At_ReadyToWork"
  using assms unfolding callers_ok_def by blast+

lemma callers_ok_object:
  assumes ok: "callers_ok s" and "callers s' = callers s" "running s \<Longrightarrow> lock_free s \<Longrightarrow> running s' \<and> lock_free s'"
    and "\<And>c. threads s' c = threads s c \<or> callers s c = None \<or> threads s' c = Some At_ReadyToWork"
  shows "callers_ok s'"
proof (rule callers_okI)
  show "running s' \<and> lock_free s'" if "callers s' c = Some Blocked" for c using assms(2,3) callers_okD(1) [OF ok] that by simp
  show "threads s' c = None \<or> threads s' c = Some At_ReadyToWork" if "callers s' c \<noteq> None" for c
    using assms(2) assms(4) [of c] callers_okD(2) [OF ok, of c] that by auto
qed

lemma callers_ok_caller:
  assumes ok: "callers_ok s" and "callers s' = (callers s)(c := x)" "threads s' = threads s" "running s' = running s" "starting s' = starting s"
    and "x = Some Blocked \<Longrightarrow> running s \<and> lock_free s" "callers s c = None \<Longrightarrow> threads s c = None \<or> threads s c = Some At_ReadyToWork"
  shows "callers_ok s'"
proof (rule callers_okI)
  show "running s' \<and> lock_free s'" if "callers s' d = Some Blocked" for d
    using assms(2,4-6) callers_okD(1) [OF ok, of d] that by (auto split: if_splits)
  show "threads s' d = None \<or> threads s' d = Some At_ReadyToWork" if "callers s' d \<noteq> None" for d
    using assms(2,3,7) callers_okD(2) [OF ok, of d] that by (cases "d = c") auto
qed

lemma callers_ok_start:
  assumes ok: "callers_ok s" and new: "\<And>t. created = Some t \<Longrightarrow> threads s t = None \<and> callers s t = None"
  shows "callers_ok (snd (Start_begin created name prio s))"
proof (cases "running s")
  case False
  then show ?thesis using new
    by (intro callers_ok_object [OF ok]) (auto simp: Start_begin_def CreatePThread_call_def Let_def split: option.splits)
qed (use ok in \<open>simp add: Start_begin_def\<close>)

lemma callers_ok_finish:
  assumes ok: "callers_ok s" and "starting s = Some created"
  shows "callers_ok (snd (Start_finish created s))"
  using assms(2) by (intro callers_ok_object [OF ok]) (auto simp: Start_finish_def CreatePThread_return_def split: option.splits)

lemma callers_ok_end:
  assumes ok: "callers_ok s" and t: "threads s t = Some (At_end result)"
  shows "callers_ok (ThreadStart_end result t s)"
proof -
  have none: "callers s t = None" using callers_okD(2) [OF ok, of t] t by (cases "callers s t") auto
  show ?thesis
  proof (cases "\<not> result \<or> exitPending s")
    case True
    then show ?thesis using none callers_okD [OF ok]
      by (intro callers_okI) (auto simp: ThreadStart_end_def notify_all_def split: if_splits)
  next
    case False
    with none show ?thesis by (intro callers_ok_object [OF ok]) (auto simp: ThreadStart_end_def)
  qed
qed

lemma callers_ok_proxy:
  assumes ok: "callers_ok s" and "threads s t = Some (At_Proxy a)" "Proxy a t s = Some s'"
  shows "callers_ok s'"
proof (rule callers_ok_object [OF ok])
  show "callers s' = callers s" "running s \<Longrightarrow> lock_free s \<Longrightarrow> running s' \<and> lock_free s'"
    using assms(3) by (auto simp: Proxy_def Let_def bind_eq_Some_conv split: thread_arg.splits if_splits)
  have "callers s t = None" using callers_okD(2) [OF ok, of t] assms(2) by (cases "callers s t") auto
  moreover have "threads s' c = threads s c" if "c \<noteq> t" for c
    using assms(3) that by (auto simp: Proxy_def Let_def bind_eq_Some_conv split: thread_arg.splits if_splits)
  ultimately show "threads s' c = threads s c \<or> callers s c = None \<or> threads s' c = Some At_ReadyToWork" for c by (cases "c = t") simp_all
qed

lemma callers_ok_thread:
  assumes ok: "callers_ok s" and "threads s t = Some At_ReadyToWork \<and> callers s t = None \<or> threads s t = Some At_IsExitPending \<or> threads s t = Some At_Run"
  shows "callers_ok (s\<lparr>threads := (threads s)(t \<mapsto> pc)\<rparr>)"
proof (rule callers_ok_object [OF ok])
  have "callers s t = None" using callers_okD(2) [OF ok, of t] assms(2) by (cases "callers s t") auto
  then show "threads (s\<lparr>threads := (threads s)(t \<mapsto> pc)\<rparr>) c = threads s c \<or> callers s c = None \<or>
      threads (s\<lparr>threads := (threads s)(t \<mapsto> pc)\<rparr>) c = Some At_ReadyToWork" for c by (cases "c = t") auto
qed simp_all

lemma callers_ok_call:
  assumes ok: "callers_ok s" and one: "one_thread s" and "callers s c = None"
    and "threads s c = None \<or> threads s c = Some At_ReadyToWork \<or> threads s c = Some At_Run"
  shows "callers_ok (snd (NotifyExitSync_call c s))"
proof (cases "thread_id s = c")
  case False
  then have "threads s c \<noteq> Some At_Run" using run_thread_id [OF one, of c] by auto
  with assms(4) show ?thesis unfolding NotifyExitSync_call_def using False by (intro callers_ok_caller [OF ok, of _ c]) auto
qed (use ok in \<open>simp add: NotifyExitSync_call_def\<close>)

lemma callers_ok_wait:
  assumes ok: "callers_ok s" and "lock_free s" "callers s c \<noteq> None"
  shows "callers_ok (snd (NotifyExitSync_wait c (s\<lparr>exitPending := b\<rparr>)))"
  unfolding NotifyExitSync_wait_def using assms(2,3)
  by (intro callers_ok_caller [OF ok, of _ c "if running s then Some Blocked else None"]) (auto split: if_splits)

lemma callers_ok_step:
  assumes ok: "callers_ok s" and one: "one_thread s" and step: "thread_exec a s = Some s'"
  shows "callers_ok s'"
proof (cases a)
  case (Start_act created name prio)
  then show ?thesis using step by (auto intro!: callers_ok_start [OF ok] split: if_splits option.splits)
next
  case (Proxy_act t)
  then show ?thesis using step callers_ok_proxy [OF ok] by (auto split: option.splits thread_pc.splits)
next
  case (End_act t)
  then show ?thesis using step callers_ok_end [OF ok] by (auto split: option.splits thread_pc.splits if_splits)
next
  case (Call_act c)
  then show ?thesis using step callers_ok_call [OF ok one] by (auto split: if_splits)
next
  case (Enter_act c)
  then show ?thesis using step callers_ok_wait [OF ok, of c True] by (auto simp: NotifyExitSync_enter_def split: if_splits)
next
  case (Wait_act c)
  then show ?thesis using step callers_ok_wait [OF ok, of c "exitPending s"] by (auto split: if_splits)
next
  case (Spurious_act c)
  then show ?thesis using step by (auto intro!: callers_ok_caller [OF ok, of _ c] split: if_splits)
next
  case Async_act
  then show ?thesis using step by (auto simp: NotifyExitAsync_def intro!: callers_ok_object [OF ok] split: if_splits)
next
  case Finish_act
  then show ?thesis using step callers_ok_finish [OF ok] by (auto split: option.splits)
qed (use step callers_ok_thread [OF ok] in \<open>auto simp: ThreadStart_ready_def ThreadStart_check_def ThreadStart_ran_def split: if_splits\<close>)

interpretation thread_runs: inductive_invariant "\<lambda>s. s = Thread_new" thread_step thread_inv
proof
  show "s = Thread_new \<Longrightarrow> thread_inv s" for s
    by (simp add: Thread_new_def thread_inv_def one_thread_def params_ok_def callers_ok_def INVALID_PTHREAD_T_def)
  show "thread_inv s \<Longrightarrow> thread_step s s' \<Longrightarrow> thread_inv s'" for s s'
    by (auto simp: thread_inv_def thread_step_def intro: one_thread_step params_ok_step callers_ok_step)
qed

text \<open>Once exit is requested no turn of the loop begins: a step into \<^verbatim>\<open>Run\<close> needs \<^verbatim>\<open>exitPending_\<close> to be clear.\<close>

lemma no_new_Run:
  assumes inv: "thread_inv s" and step: "thread_exec a s = Some s'" and e: "exitPending s" and r: "threads s' t = Some At_Run"
  shows "threads s t = Some At_Run"
proof (cases a)
  case (Proxy_act u)
  then show ?thesis using step r
    by (auto simp: Proxy_def Let_def bind_eq_Some_conv split: option.splits thread_pc.splits thread_arg.splits if_splits)
next
  case (End_act u)
  then show ?thesis using step r e by (auto simp: ThreadStart_end_def split: option.splits thread_pc.splits if_splits)
next
  case (Start_act created name prio)
  then show ?thesis using step r by (auto simp: Start_begin_def CreatePThread_call_def Let_def split: option.splits if_splits)
next
  case Finish_act
  then show ?thesis using step r by (auto simp: Start_finish_def CreatePThread_return_def Let_def split: option.splits)
qed (use step r e in \<open>auto simp: ThreadStart_ready_def ThreadStart_check_def ThreadStart_ran_def IsExitPending_def NotifyExitSync_call_def
  NotifyExitSync_wait_def NotifyExitSync_enter_def NotifyExitAsync_def split: if_splits\<close>)

section \<open>Properties\<close>

lemma thread_facts:
  assumes "thread_reach s"
  shows "threads s t \<noteq> None \<Longrightarrow> threads s u \<noteq> None \<Longrightarrow> t = u \<and> running s"
    and "threads s t = Some (At_Proxy a) \<Longrightarrow> \<exists>p. a = Param p \<and> params s p \<noteq> None \<and>
      (\<exists>s'. Proxy a t s = Some s' \<and> threads s' t = Some At_ReadyToWork \<and> params s' p = None)"
    and "exitPending s \<Longrightarrow> thread_exec act s = Some s' \<Longrightarrow> threads s' t = Some At_Run \<Longrightarrow> threads s t = Some At_Run"
    and "threads s t = Some At_Run \<Longrightarrow> NotifyExitSync_call t s = (Some WOULD_BLOCK, s)"
    and "callers s c = Some Blocked \<Longrightarrow> running s \<and> (\<exists>t. threads s t \<noteq> None)"
    and "NotifyExitSync_wait c s = (Some st, s') \<Longrightarrow> threads s' = Map.empty \<and> \<not> running s' \<and> thread_id s' = INVALID_PTHREAD_T"
proof -
  have inv: "thread_inv s" by (rule thread_runs.always [OF assms])
  then have one: "one_thread s" and params: "params_ok s" and callers: "callers_ok s" by (simp_all add: thread_inv_def)
  show "t = u \<and> running s" if "threads s t \<noteq> None" "threads s u \<noteq> None"
    using thread_unique [OF one that] thread_running [OF one that(1)] ..
  show "\<exists>p. a = Param p \<and> params s p \<noteq> None \<and> (\<exists>s'. Proxy a t s = Some s' \<and> threads s' t = Some At_ReadyToWork \<and> params s' p = None)"
    if "threads s t = Some (At_Proxy a)"
  proof -
    from params that obtain p para where "a = Param p" "params s p = Some para" "startRoutine para = ThreadStart_routine" "args para = This"
      unfolding params_ok_def by blast
    then show ?thesis by (simp add: Proxy_def Let_def)
  qed
  show "threads s t = Some At_Run" if "exitPending s" "thread_exec act s = Some s'" "threads s' t = Some At_Run"
    by (rule no_new_Run [OF inv that(2,1,3)])
  show "NotifyExitSync_call t s = (Some WOULD_BLOCK, s)" if "threads s t = Some At_Run"
    using run_thread_id [OF one that] by (simp add: NotifyExitSync_call_def)
  show "running s \<and> (\<exists>t. threads s t \<noteq> None)" if "callers s c = Some Blocked"
    using callers_okD(1) [OF callers that] one by (auto simp: one_thread_def)
  show "threads s' = Map.empty \<and> \<not> running s' \<and> thread_id s' = INVALID_PTHREAD_T" if "NotifyExitSync_wait c s = (Some st, s')"
    using that one by (auto simp: NotifyExitSync_wait_def one_thread_def INVALID_PTHREAD_T_def split: if_splits)
qed

text \<open>
  C38. The life cycle of a thread object is safe under every interleaving. At most one thread of the object exists, and
  only while it is marked as running; a new thread finds its parameters, which are freed once; once exit is requested
  no further turn of \<^verbatim>\<open>Run\<close> begins; \<^verbatim>\<open>NotifyExitSync\<close> called from \<^verbatim>\<open>Run\<close> is refused at once and no wakeup is lost: who waits,
  waits for a thread that still runs; when \<^verbatim>\<open>NotifyExitSync\<close> returns from its wait, no thread of the object is left.
\<close>

theorem thread_ex_safe:
  assumes "thread_reach s"
  shows "(\<forall>t u. threads s t \<noteq> None \<and> threads s u \<noteq> None \<longrightarrow> t = u \<and> running s) \<and>
    (\<forall>t a. threads s t = Some (At_Proxy a) \<longrightarrow> (\<exists>p. a = Param p \<and> params s p \<noteq> None \<and>
      (\<exists>s'. Proxy a t s = Some s' \<and> threads s' t = Some At_ReadyToWork \<and> params s' p = None))) \<and>
    (\<forall>t act s'. exitPending s \<and> thread_exec act s = Some s' \<and> threads s' t = Some At_Run \<longrightarrow> threads s t = Some At_Run) \<and>
    (\<forall>t. threads s t = Some At_Run \<longrightarrow> NotifyExitSync_call t s = (Some WOULD_BLOCK, s)) \<and>
    (\<forall>c. callers s c = Some Blocked \<longrightarrow> running s \<and> (\<exists>t. threads s t \<noteq> None)) \<and>
    (\<forall>c st s'. NotifyExitSync_wait c s = (Some st, s') \<longrightarrow> threads s' = Map.empty \<and> \<not> running s' \<and> thread_id s' = INVALID_PTHREAD_T)"
  using thread_facts [OF assms] by blast

definition thread_sample_run :: "thread_action list" where
  "thread_sample_run = [Start_act (Some 5) ''worker'' 10, Finish_act, Proxy_act 5, Ready_act 5 True, Check_act 5, Call_act 9, Enter_act 9]"

definition thread_sample :: thread_ex where
  "thread_sample = the (thread_run thread_sample_run Thread_new)"

theorem thread_ex_safe_witness:
  "thread_reach thread_sample \<and> exitPending thread_sample \<and> callers thread_sample 9 = Some Blocked \<and> running thread_sample \<and>
   threads thread_sample 5 = Some At_Run \<and> NotifyExitSync_call 5 thread_sample = (Some WOULD_BLOCK, thread_sample)"
proof -
  have "\<not> Option.is_none (thread_run thread_sample_run Thread_new)" by code_simp
  then have "thread_run thread_sample_run Thread_new = Some thread_sample" unfolding thread_sample_def by (simp add: is_none_code option.collapse Option.is_none_def)
  then have r: "thread_reach thread_sample" by (rule run_reach)
  moreover have "exitPending thread_sample" "callers thread_sample 9 = Some Blocked" "threads thread_sample 5 = Some At_Run" by code_simp+
  ultimately show ?thesis using thread_ex_safe [OF r] by blast
qed

text \<open>
  Three weaknesses. A waiter that is slow to wake finds the thread started again and waits on, although its request was
  cleared by \<^verbatim>\<open>Start\<close>. A \<^verbatim>\<open>ReadyToWork\<close> that calls \<^verbatim>\<open>NotifyExitSync\<close> before \<^verbatim>\<open>Start\<close> has stored \<^verbatim>\<open>thread_\<close> waits for itself.
  When \<^verbatim>\<open>pthread_create\<close> fails nothing frees the parameters.
\<close>

lemma waiter_misses_exit:
  "\<exists>s. thread_reach s \<and> callers s 9 = Some Blocked \<and> \<not> exitPending s \<and> running s"
proof -
  define as where "as = [Start_act (Some 5) [] 0, Finish_act, Call_act 9, Enter_act 9, Proxy_act 5, Ready_act 5 False, End_act 5,
    Start_act (Some 6) [] 0, Finish_act, Wait_act 9]"
  have "map_option (\<lambda>s. (callers s 9, exitPending s, running s)) (thread_run as Thread_new) = Some (Some Blocked, False, True)"
    unfolding as_def by code_simp
  then show ?thesis by (auto dest: run_reach)
qed

lemma ReadyToWork_waits_for_itself:
  "\<exists>s. thread_reach s \<and> callers s 5 = Some Blocked \<and> threads s 5 = Some At_ReadyToWork"
proof -
  define as where "as = [Start_act (Some 5) [] 0, Proxy_act 5, Call_act 5, Finish_act, Enter_act 5]"
  have "map_option (\<lambda>s. (callers s 5, threads s 5)) (thread_run as Thread_new) = Some (Some Blocked, Some At_ReadyToWork)"
    unfolding as_def by code_simp
  then show ?thesis by (auto dest: run_reach)
qed

lemma failed_start_leaks:
  assumes "\<not> running s"
  shows "let s' = snd (Start_finish None (snd (Start_begin None name prio s)))
    in threads s' = threads s \<and> \<not> running s' \<and> params s' (next_param s) \<noteq> None"
  using assms by (simp add: Start_begin_def Start_finish_def CreatePThread_call_def CreatePThread_return_def Let_def)

end
