(* ===== verification/Observer_Ex.thy ===== *)
theory Observer_Ex
  imports CUtils_Prelude
begin

text \<open>
  Observers (\<^verbatim>\<open>base/src/observer.cpp\<close>): the set of observers, ordered by address, the flag \<^verbatim>\<open>changed_\<close>, and rounds of
  notification. A round takes a copy of the set under the mutex and calls the observers after it has released it, so that
  the calls of several rounds and all other operations interleave; an observer may call back. Rounds are numbered in
  the order in which they take their copies; the record also keeps what the properties speak of: the rounds, what is
  left to do in each, the calls made, and the number of calls of \<^verbatim>\<open>SetChanged\<close>.
\<close>

section \<open>The class\<close>

record observable =
  obs :: "nat set"
  changed :: bool
  sets :: nat
  rounds :: "(nat set \<times> nat option) list"
  todo :: "nat \<Rightarrow> nat list"
  updates :: "(nat \<times> nat \<times> nat option) list"

definition Observable_new :: observable where
  "Observable_new = \<lparr>obs = {}, changed = False, sets = 0, rounds = [], todo = (\<lambda>_. []), updates = []\<rparr>"

definition AddObserver :: "nat option \<Rightarrow> observable \<Rightarrow> observable" where
  "AddObserver x s = (case x of None \<Rightarrow> s | Some p \<Rightarrow> if p \<in> obs s then s else s\<lparr>obs := insert p (obs s)\<rparr>)"

definition RemoveObserver :: "nat option \<Rightarrow> observable \<Rightarrow> observable" where
  "RemoveObserver x s = (case x of None \<Rightarrow> s | Some p \<Rightarrow> s\<lparr>obs := obs s - {p}\<rparr>)"

definition RemoveAllObservers :: "observable \<Rightarrow> observable" where
  "RemoveAllObservers s = s\<lparr>obs := {}\<rparr>"

definition HasChanged :: "observable \<Rightarrow> bool" where "HasChanged s = changed s"

definition GetObserversCount :: "observable \<Rightarrow> 32 word" where
  "GetObserversCount s = word_of_nat (card (obs s))"

definition SetChanged :: "observable \<Rightarrow> observable" where
  "SetChanged s = s\<lparr>changed := True, sets := sets s + 1\<rparr>"

definition ClearChanged :: "observable \<Rightarrow> observable" where
  "ClearChanged s = s\<lparr>changed := False\<rparr>"

text \<open>\<^verbatim>\<open>NotifyObservers\<close>: the critical section, which returns or begins a round; a call of \<^verbatim>\<open>Update\<close>; and all of it in a row.\<close>

definition notify_begin :: "nat option \<Rightarrow> observable \<Rightarrow> nat option \<times> observable" where
  "notify_begin arg s =
     (if \<not> changed s then (None, s)
      else let i = length (rounds s)
           in (Some i, ClearChanged (s\<lparr>rounds := rounds s @ [(obs s, arg)], todo := (todo s)(i := sorted_list_of_set (obs s))\<rparr>)))"

definition notify_update :: "nat \<Rightarrow> observable \<Rightarrow> observable option" where
  "notify_update i s =
     (case todo s i of [] \<Rightarrow> None | p # ps \<Rightarrow> Some (s\<lparr>todo := (todo s)(i := ps), updates := updates s @ [(i, p, snd (rounds s ! i))]\<rparr>))"

function notify_loop :: "nat \<Rightarrow> observable \<Rightarrow> observable" where
  "notify_loop i s = (case notify_update i s of None \<Rightarrow> s | Some s' \<Rightarrow> notify_loop i s')"
  by pat_completeness auto
termination
  by (relation "measure (\<lambda>(i, s). length (todo s i))") (auto simp: notify_update_def split: list.splits)

definition NotifyObservers :: "nat option \<Rightarrow> observable \<Rightarrow> observable" where
  "NotifyObservers arg s = (case notify_begin arg s of (None, s1) \<Rightarrow> s1 | (Some i, s1) \<Rightarrow> notify_loop i s1)"

definition NotifyObservers_null :: "observable \<Rightarrow> observable" where
  "NotifyObservers_null s = NotifyObservers None s"

declare notify_loop.simps [simp del]

section \<open>Interleavings\<close>

inductive observer_step :: "observable \<Rightarrow> observable \<Rightarrow> bool" where
  add: "observer_step s (AddObserver x s)"
| remove: "observer_step s (RemoveObserver x s)"
| remove_all: "observer_step s (RemoveAllObservers s)"
| set_changed: "observer_step s (SetChanged s)"
| clear_changed: "observer_step s (ClearChanged s)"
| notify: "observer_step s (snd (notify_begin arg s))"
| update: "notify_update i s = Some s' \<Longrightarrow> observer_step s s'"

abbreviation observer_reach :: "observable \<Rightarrow> bool" where
  "observer_reach \<equiv> reach (\<lambda>s. s = Observable_new) observer_step"

text \<open>The observers called so far in a round, in the order of the calls, with the argument each was given.\<close>

definition round_calls :: "observable \<Rightarrow> nat \<Rightarrow> (nat \<times> nat option) list" where
  "round_calls s i = map snd (filter (\<lambda>u. fst u = i) (updates s))"

definition rounds_ok :: "observable \<Rightarrow> bool" where
  "rounds_ok s \<longleftrightarrow>
     (\<forall>i<length (rounds s). round_calls s i @ map (\<lambda>p. (p, snd (rounds s ! i))) (todo s i) =
        map (\<lambda>p. (p, snd (rounds s ! i))) (sorted_list_of_set (fst (rounds s ! i)))) \<and>
     (\<forall>i\<ge>length (rounds s). todo s i = [] \<and> round_calls s i = [])"

definition observer_inv :: "observable \<Rightarrow> bool" where
  "observer_inv s \<longleftrightarrow> finite (obs s) \<and> (\<forall>(snapshot, arg)\<in>set (rounds s). finite snapshot) \<and> length (rounds s) + (if changed s then 1 else 0) \<le> sets s \<and> rounds_ok s"

lemma rounds_ok_frame:
  "rounds_ok s \<Longrightarrow> rounds s' = rounds s \<Longrightarrow> todo s' = todo s \<Longrightarrow> updates s' = updates s \<Longrightarrow> rounds_ok s'"
  by (simp add: rounds_ok_def round_calls_def)

lemma rounds_ok_begin:
  assumes ok: "rounds_ok s"
  shows "rounds_ok (snd (notify_begin arg s))"
proof (cases "changed s")
  case True
  let ?s = "snd (notify_begin arg s)"
  have s': "rounds ?s = rounds s @ [(obs s, arg)]" "todo ?s = (todo s)(length (rounds s) := sorted_list_of_set (obs s))" "updates ?s = updates s"
    using True by (simp_all add: notify_begin_def ClearChanged_def Let_def)
  have calls: "round_calls ?s i = round_calls s i" for i by (simp add: round_calls_def s'(3))
  show ?thesis unfolding rounds_ok_def
  proof (intro conjI allI impI)
    fix i assume i: "i < length (rounds ?s)"
    show "round_calls ?s i @ map (\<lambda>p. (p, snd (rounds ?s ! i))) (todo ?s i) = map (\<lambda>p. (p, snd (rounds ?s ! i))) (sorted_list_of_set (fst (rounds ?s ! i)))"
      using ok i unfolding calls rounds_ok_def by (cases "i = length (rounds s)") (auto simp: s'(1,2) nth_append)
  next
    fix i assume "length (rounds ?s) \<le> i"
    then show "todo ?s i = []" "round_calls ?s i = []" using ok unfolding calls rounds_ok_def by (auto simp: s'(1,2))
  qed
qed (use ok in \<open>simp add: notify_begin_def\<close>)

lemma rounds_ok_update:
  assumes ok: "rounds_ok s" and step: "notify_update i s = Some s'"
  shows "rounds_ok s'"
proof -
  from step obtain p ps where t: "todo s i = p # ps"
    and s': "rounds s' = rounds s" "todo s' = (todo s)(i := ps)" "updates s' = updates s @ [(i, p, snd (rounds s ! i))]"
    by (auto simp: notify_update_def split: list.splits)
  have i: "i < length (rounds s)" using ok t unfolding rounds_ok_def by (metis list.distinct(1) linorder_not_le)
  have calls: "round_calls s' j = round_calls s j @ (if j = i then [(p, snd (rounds s ! i))] else [])" for j
    by (simp add: round_calls_def s'(3))
  show ?thesis unfolding rounds_ok_def
  proof (intro conjI allI impI)
    fix j assume "j < length (rounds s')"
    then have "round_calls s j @ map (\<lambda>p. (p, snd (rounds s ! j))) (todo s j) = map (\<lambda>p. (p, snd (rounds s ! j))) (sorted_list_of_set (fst (rounds s ! j)))"
      using ok by (simp add: rounds_ok_def s'(1))
    then show "round_calls s' j @ map (\<lambda>p. (p, snd (rounds s' ! j))) (todo s' j) = map (\<lambda>p. (p, snd (rounds s' ! j))) (sorted_list_of_set (fst (rounds s' ! j)))"
      unfolding calls s'(1,2) using t by (cases "j = i") simp_all
  next
    fix j assume "length (rounds s') \<le> j"
    then show "todo s' j = []" "round_calls s' j = []" using ok i unfolding calls by (auto simp: s'(1,2) rounds_ok_def)
  qed
qed

interpretation observer_runs: inductive_invariant "\<lambda>s. s = Observable_new" observer_step observer_inv
proof
  show "s = Observable_new \<Longrightarrow> observer_inv s" for s
    by (simp add: Observable_new_def observer_inv_def rounds_ok_def round_calls_def)
  fix s s' assume inv: "observer_inv s" and "observer_step s s'"
  then have ok: "rounds_ok s" and fin: "finite (obs s)" "\<forall>(snapshot, arg)\<in>set (rounds s). finite snapshot" and n: "length (rounds s) + (if changed s then 1 else 0) \<le> sets s"
    by (simp_all add: observer_inv_def)
  from \<open>observer_step s s'\<close> show "observer_inv s'"
  proof (cases rule: observer_step.cases)
    case (add x)
    then show ?thesis using fin n by (auto simp: observer_inv_def AddObserver_def intro: rounds_ok_frame [OF ok] split: option.splits)
  next
    case (remove x)
    then show ?thesis using fin n by (auto simp: observer_inv_def RemoveObserver_def intro: rounds_ok_frame [OF ok] split: option.splits)
  next
    case (notify arg)
    have "finite (obs s') \<and> (\<forall>(snapshot, arg)\<in>set (rounds s'). finite snapshot) \<and> length (rounds s') + (if changed s' then 1 else 0) \<le> sets s'"
      using fin n notify by (cases "changed s") (simp_all add: notify_begin_def ClearChanged_def Let_def)
    then show ?thesis using rounds_ok_begin [OF ok] using notify by (simp add: observer_inv_def)
  next
    case (update i)
    then show ?thesis using rounds_ok_update [OF ok, of i s'] fin n
      by (auto simp: observer_inv_def notify_update_def split: list.splits)
  qed (use fin n in \<open>auto simp: observer_inv_def RemoveAllObservers_def SetChanged_def ClearChanged_def intro: rounds_ok_frame [OF ok]\<close>)
qed

section \<open>Properties\<close>

text \<open>A round that nothing interrupts.\<close>

lemma notify_loop_all:
  "notify_loop i s = s\<lparr>todo := (todo s)(i := []), updates := updates s @ map (\<lambda>p. (i, p, snd (rounds s ! i))) (todo s i)\<rparr>"
proof (induction "todo s i" arbitrary: s)
  case Nil
  then have "(todo s)(i := []) = todo s" by (auto simp: fun_eq_iff)
  with Nil show ?case by (subst notify_loop.simps) (simp add: notify_update_def)
next
  case (Cons p ps)
  let ?s = "s\<lparr>todo := (todo s)(i := ps), updates := updates s @ [(i, p, snd (rounds s ! i))]\<rparr>"
  have "notify_loop i s = notify_loop i ?s"
    using Cons.hyps(2) [symmetric] by (subst notify_loop.simps) (simp add: notify_update_def)
  also have "\<dots> = ?s\<lparr>todo := (todo ?s)(i := []), updates := updates ?s @ map (\<lambda>p. (i, p, snd (rounds ?s ! i))) (todo ?s i)\<rparr>"
    by (rule Cons.hyps(1)) simp
  finally show ?case using Cons.hyps(2) [symmetric] by simp
qed

lemma NotifyObservers_changed:
  assumes "changed s"
  shows "rounds (NotifyObservers arg s) = rounds s @ [(obs s, arg)]" "\<not> changed (NotifyObservers arg s)"
    "updates (NotifyObservers arg s) = updates s @ map (\<lambda>p. (length (rounds s), p, arg)) (sorted_list_of_set (obs s))"
  using assms by (simp_all add: NotifyObservers_def notify_begin_def Let_def notify_loop_all ClearChanged_def)

lemma NotifyObservers_unchanged: "\<not> changed s \<Longrightarrow> NotifyObservers arg s = s"
  by (simp add: NotifyObservers_def notify_begin_def)

text \<open>
  C39. Notification is exact. However calls interleave, and whatever the observers do when they are called, every round
  calls the observers that were registered when it began, each once, in the order of their addresses and with the
  argument of the round, and there are no more rounds than calls of \<^verbatim>\<open>SetChanged\<close>. A call of \<^verbatim>\<open>NotifyObservers\<close> that nothing
  interrupts calls exactly the current observers when something has changed, after which another call does nothing, as
  does a call when nothing has changed.
\<close>

theorem observer_notification:
  assumes "observer_reach s"
  shows "length (rounds s) + (if changed s then 1 else 0) \<le> sets s \<and>
    (\<forall>i<length (rounds s). let (snapshot, arg) = rounds s ! i
       in finite snapshot \<and> round_calls s i @ map (\<lambda>p. (p, arg)) (todo s i) = map (\<lambda>p. (p, arg)) (sorted_list_of_set snapshot)) \<and>
    (let s' = NotifyObservers arg s
     in if changed s
        then updates s' = updates s @ map (\<lambda>p. (length (rounds s), p, arg)) (sorted_list_of_set (obs s)) \<and> NotifyObservers arg' s' = s'
        else s' = s)"
proof -
  have "observer_inv s" by (rule observer_runs.always [OF assms])
  then show ?thesis
    by (simp add: observer_inv_def rounds_ok_def Let_def split_def NotifyObservers_changed NotifyObservers_unchanged)
qed

definition observer_sample :: observable where
  "observer_sample = the (notify_update 0 (snd (notify_begin (Some 7) (SetChanged (AddObserver (Some 4) (AddObserver (Some 2) Observable_new))))))"

lemma observer_sample_reach: "observer_reach observer_sample"
proof -
  let ?a = "AddObserver (Some 2) Observable_new" let ?b = "SetChanged (AddObserver (Some 4) ?a)"
  have "observer_reach Observable_new" by (rule reach.start) simp
  then have "observer_reach ?a" by (rule reach.more) (rule observer_step.add)
  then have "observer_reach (AddObserver (Some 4) ?a)" by (rule reach.more) (rule observer_step.add)
  then have "observer_reach ?b" by (rule reach.more) (rule observer_step.set_changed)
  then have r: "observer_reach (snd (notify_begin (Some 7) ?b))" by (rule reach.more) (rule observer_step.notify)
  have "notify_update 0 (snd (notify_begin (Some 7) ?b)) = Some observer_sample"
    by (simp add: observer_sample_def notify_begin_def notify_update_def SetChanged_def AddObserver_def Observable_new_def ClearChanged_def)
  then have "observer_step (snd (notify_begin (Some 7) ?b)) observer_sample" by (rule observer_step.update)
  with r show ?thesis by (rule reach.more)
qed

lemma observer_sample_eq:
  "observer_sample = \<lparr>obs = {4, 2}, changed = False, sets = 1, rounds = [({4, 2}, Some 7)], todo = (\<lambda>_. [])(0 := [4]), updates = [(0, 2, Some 7)]\<rparr>"
  by (simp add: observer_sample_def notify_begin_def notify_update_def SetChanged_def AddObserver_def Observable_new_def ClearChanged_def)

theorem observer_notification_witness:
  "observer_reach observer_sample \<and> rounds observer_sample = [({4, 2}, Some 7)] \<and> todo observer_sample 0 = [4] \<and>
   round_calls observer_sample 0 @ [(4, Some 7)] = [(2, Some 7), (4, Some 7)]"
  using observer_notification [OF observer_sample_reach] observer_sample_reach
  by (simp add: observer_sample_eq round_calls_def)

text \<open>An observer may still be called after it was removed.\<close>

lemma update_after_remove:
  "\<exists>s s'. observer_reach s \<and> 4 \<notin> obs s \<and> notify_update 0 s = Some s' \<and> updates s' = updates s @ [(0, 4, Some 7)]"
proof -
  have "observer_reach (RemoveObserver (Some 4) observer_sample)"
    by (rule reach.more [OF observer_sample_reach observer_step.remove])
  moreover have "4 \<notin> obs (RemoveObserver (Some 4) observer_sample)" by (simp add: RemoveObserver_def)
  ultimately show ?thesis by (intro exI conjI) (auto simp: observer_sample_eq RemoveObserver_def notify_update_def)
qed

end
