(* ===== verification/Singleton_Ex.thy ===== *)
theory Singleton_Ex
  imports CUtils_Prelude
begin

text \<open>
  Singletons made on first use (\<^verbatim>\<open>base/include/singleton.h\<close>). \<^verbatim>\<open>GetInstance\<close> of \<^verbatim>\<open>DelayedSingleton\<close> and of \<^verbatim>\<open>DelayedRefSingleton\<close>
  test the instance before they take the mutex and again after; threads interleave at every access. Objects are
  numbered in the order of their creation. The states also keep what the properties speak of: how many objects were
  made, how often allocation failed or the instance was destroyed, and what the calls returned.
\<close>

section \<open>DelayedSingleton\<close>

datatype get_pc = Get_idle | Get_lock | Get_check | Get_store "nat option" | Get_load

record delayed =
  inst :: "nat option"
  owner :: "nat option"
  pcs :: "nat \<Rightarrow> get_pc"
  created :: nat
  failures :: nat
  destroys :: nat
  returns :: "(nat \<times> nat) list"
  nulls :: nat

definition delayed_init :: delayed where
  "delayed_init = \<lparr>inst = None, owner = None, pcs = (\<lambda>_. Get_idle), created = 0, failures = 0, destroys = 0, returns = [], nulls = 0\<rparr>"

text \<open>
  The accesses of \<^verbatim>\<open>GetInstance\<close> by a thread: the first load, the lock, the second load, with the result of \<^verbatim>\<open>new\<close> when
  there is no instance, the store, and the load of the result before the lock is released. A result is recorded with the
  number of calls of \<^verbatim>\<open>DestroyInstance\<close> before it.
\<close>

definition get_return :: "nat \<Rightarrow> delayed \<Rightarrow> delayed" where
  "get_return t s = (case inst s of
       None \<Rightarrow> s\<lparr>pcs := (pcs s)(t := Get_idle), nulls := nulls s + 1\<rparr>
     | Some p \<Rightarrow> s\<lparr>pcs := (pcs s)(t := Get_idle), returns := returns s @ [(destroys s, p)]\<rparr>)"

definition get_first :: "nat \<Rightarrow> delayed \<Rightarrow> delayed" where
  "get_first t s = (if inst s \<noteq> None then get_return t s else s\<lparr>pcs := (pcs s)(t := Get_lock)\<rparr>)"

definition get_acquire :: "nat \<Rightarrow> delayed \<Rightarrow> delayed" where
  "get_acquire t s = s\<lparr>owner := Some t, pcs := (pcs s)(t := Get_check)\<rparr>"

definition get_check :: "bool \<Rightarrow> nat \<Rightarrow> delayed \<Rightarrow> delayed" where
  "get_check alloc t s =
     (if inst s = None
      then if alloc then s\<lparr>created := created s + 1, pcs := (pcs s)(t := Get_store (Some (created s)))\<rparr>
           else s\<lparr>failures := failures s + 1, pcs := (pcs s)(t := Get_store None)\<rparr>
      else s\<lparr>pcs := (pcs s)(t := Get_load)\<rparr>)"

definition get_store :: "nat option \<Rightarrow> nat \<Rightarrow> delayed \<Rightarrow> delayed" where
  "get_store temp t s = s\<lparr>inst := temp, pcs := (pcs s)(t := Get_load)\<rparr>"

definition get_load :: "nat \<Rightarrow> delayed \<Rightarrow> delayed" where
  "get_load t s = get_return t (s\<lparr>owner := None\<rparr>)"

definition DestroyInstance :: "delayed \<Rightarrow> delayed" where
  "DestroyInstance s = s\<lparr>inst := None, destroys := destroys s + 1\<rparr>"

inductive delayed_step :: "delayed \<Rightarrow> delayed \<Rightarrow> bool" where
  first: "pcs s t = Get_idle \<Longrightarrow> delayed_step s (get_first t s)"
| acquire: "pcs s t = Get_lock \<Longrightarrow> owner s = None \<Longrightarrow> delayed_step s (get_acquire t s)"
| check: "pcs s t = Get_check \<Longrightarrow> delayed_step s (get_check alloc t s)"
| store: "pcs s t = Get_store temp \<Longrightarrow> delayed_step s (get_store temp t s)"
| load: "pcs s t = Get_load \<Longrightarrow> delayed_step s (get_load t s)"
| destroy: "owner s = None \<Longrightarrow> delayed_step s (DestroyInstance s)"

text \<open>Who is between the lock and its release owns it; who is about to store found no instance, and there still is none.\<close>

definition locked_pc :: "get_pc \<Rightarrow> bool" where
  "locked_pc pc \<longleftrightarrow> pc \<noteq> Get_idle \<and> pc \<noteq> Get_lock"

definition lock_ok :: "delayed \<Rightarrow> bool" where
  "lock_ok s \<longleftrightarrow> (\<forall>t. locked_pc (pcs s t) \<longleftrightarrow> owner s = Some t)"

definition owner_pc :: "delayed \<Rightarrow> get_pc" where
  "owner_pc s = (case owner s of None \<Rightarrow> Get_idle | Some t \<Rightarrow> pcs s t)"

definition making :: "delayed \<Rightarrow> bool" where
  "making s \<longleftrightarrow> inst s \<noteq> None \<or> (\<exists>p. owner_pc s = Get_store (Some p))"

definition failing :: "delayed \<Rightarrow> bool" where
  "failing s \<longleftrightarrow> owner_pc s = Get_store None \<or> owner_pc s = Get_load \<and> inst s = None"

definition counts_ok :: "delayed \<Rightarrow> bool" where
  "counts_ok s \<longleftrightarrow> (\<forall>temp. owner_pc s = Get_store temp \<longrightarrow> inst s = None) \<and>
     created s \<le> destroys s + (if making s then 1 else 0) \<and> nulls s + (if failing s then 1 else 0) \<le> failures s"

definition returns_ok :: "delayed \<Rightarrow> bool" where
  "returns_ok s \<longleftrightarrow> (\<forall>(d, p)\<in>set (returns s). d \<le> destroys s \<and> (d = destroys s \<longrightarrow> inst s = Some p)) \<and>
     (\<forall>(d, p)\<in>set (returns s). \<forall>(e, q)\<in>set (returns s). d = e \<longrightarrow> p = q)"

definition delayed_inv :: "delayed \<Rightarrow> bool" where
  "delayed_inv s \<longleftrightarrow> lock_ok s \<and> counts_ok s \<and> returns_ok s"

lemmas delayed_ops = get_return_def get_first_def get_acquire_def get_check_def get_store_def get_load_def DestroyInstance_def

lemma lock_ok_owner: "lock_ok s \<Longrightarrow> locked_pc (pcs s t) \<Longrightarrow> owner s = Some t"
  by (simp add: lock_ok_def)

lemma lock_ok_upd:
  assumes "lock_ok s" "pcs s' = (pcs s)(t := pc)" "owner s' = (if locked_pc pc then Some t else if owner s = Some t then None else owner s)"
    and "locked_pc pc \<Longrightarrow> owner s = None \<or> owner s = Some t"
  shows "lock_ok s'"
  unfolding lock_ok_def
proof
  fix u
  have "locked_pc (pcs s u) \<longleftrightarrow> owner s = Some u" using assms(1) by (simp add: lock_ok_def)
  then show "locked_pc (pcs s' u) \<longleftrightarrow> owner s' = Some u" using assms(2-4) by (cases "u = t") auto
qed

lemma lock_ok_step: "delayed_step s s' \<Longrightarrow> lock_ok s \<Longrightarrow> lock_ok s'"
proof (induction rule: delayed_step.induct)
  case (first s t)
  then have "owner s \<noteq> Some t" by (auto simp: lock_ok_def locked_pc_def)
  then show ?case
    by (intro lock_ok_upd [OF first.prems, of _ t "if inst s = None then Get_lock else Get_idle"]) (auto simp: delayed_ops locked_pc_def split: if_splits)
next
  case (acquire s t)
  then show ?case by (intro lock_ok_upd [OF acquire.prems, of _ t Get_check]) (auto simp: get_acquire_def locked_pc_def)
next
  case (check s t alloc)
  then have "owner s = Some t" using lock_ok_owner [of s t] by (simp add: locked_pc_def)
  then show ?case
    by (intro lock_ok_upd [OF check.prems, of _ t "pcs (get_check alloc t s) t"]) (auto simp: get_check_def locked_pc_def)
next
  case (store s t temp)
  then have "owner s = Some t" using lock_ok_owner [of s t] by (simp add: locked_pc_def)
  then show ?case by (intro lock_ok_upd [OF store.prems, of _ t Get_load]) (auto simp: get_store_def locked_pc_def)
next
  case (load s t)
  then have "owner s = Some t" using lock_ok_owner [of s t] by (simp add: locked_pc_def)
  then show ?case
    by (intro lock_ok_upd [OF load.prems, of _ t Get_idle]) (auto simp: get_load_def get_return_def locked_pc_def split: option.splits)
qed (simp add: lock_ok_def DestroyInstance_def)

lemma returns_ok_return: "returns_ok s \<Longrightarrow> returns_ok (get_return t s)"
  by (fastforce simp: returns_ok_def get_return_def split: option.splits)

text \<open>A store happens only while there is no instance, so nothing was returned since the last destruction.\<close>

lemma returns_ok_step: "delayed_step s s' \<Longrightarrow> lock_ok s \<Longrightarrow> counts_ok s \<Longrightarrow> returns_ok s \<Longrightarrow> returns_ok s'"
proof (induction rule: delayed_step.induct)
  case (store s t temp)
  then have "inst s = None" using lock_ok_owner [of s t] by (auto simp: counts_ok_def owner_pc_def locked_pc_def)
  with store show ?case by (fastforce simp: returns_ok_def get_store_def)
next
  case (first s t)
  then show ?case by (auto simp: get_first_def intro: returns_ok_return) (simp add: returns_ok_def)
next
  case (load s t)
  have "returns_ok (s\<lparr>owner := None\<rparr>)" using load by (simp add: returns_ok_def)
  then show ?case unfolding get_load_def by (rule returns_ok_return)
next
  case (destroy s)
  then show ?case by (force simp: returns_ok_def DestroyInstance_def)
qed (auto simp: returns_ok_def get_acquire_def get_check_def)

lemma counts_ok_step: "delayed_step s s' \<Longrightarrow> lock_ok s \<Longrightarrow> counts_ok s \<Longrightarrow> counts_ok s'"
proof (induction rule: delayed_step.induct)
  case (first s t)
  have "owner s \<noteq> Some t" using first by (auto simp: lock_ok_def locked_pc_def)
  then have "owner_pc (get_first t s) = owner_pc s" by (auto simp: owner_pc_def delayed_ops split: option.splits)
  with first.prems(2) show ?case by (cases "inst s") (simp_all add: counts_ok_def making_def failing_def delayed_ops)
next
  case (acquire s t)
  then show ?case by (auto simp: counts_ok_def making_def failing_def get_acquire_def owner_pc_def)
next
  case (check s t alloc)
  then have "owner s = Some t" using lock_ok_owner [of s t] by (simp add: locked_pc_def)
  with check show ?case by (auto simp: counts_ok_def making_def failing_def get_check_def owner_pc_def)
next
  case (store s t temp)
  then have "owner s = Some t" using lock_ok_owner [of s t] by (simp add: locked_pc_def)
  with store show ?case by (cases temp) (auto simp: counts_ok_def making_def failing_def get_store_def owner_pc_def)
next
  case (load s t)
  then have "owner s = Some t" using lock_ok_owner [of s t] by (simp add: locked_pc_def)
  with load show ?case by (auto simp: counts_ok_def making_def failing_def get_load_def get_return_def owner_pc_def split: option.splits)
next
  case (destroy s)
  then show ?case by (auto simp: counts_ok_def making_def failing_def DestroyInstance_def owner_pc_def split: if_splits)
qed

interpretation delayed_runs: inductive_invariant "\<lambda>s. s = delayed_init" delayed_step delayed_inv
proof
  show "s = delayed_init \<Longrightarrow> delayed_inv s" for s
    by (simp add: delayed_init_def delayed_inv_def lock_ok_def locked_pc_def counts_ok_def returns_ok_def making_def failing_def owner_pc_def)
  show "delayed_inv s \<Longrightarrow> delayed_step s s' \<Longrightarrow> delayed_inv s'" for s s'
    by (auto simp: delayed_inv_def intro: lock_ok_step counts_ok_step returns_ok_step)
qed

section \<open>DelayedRefSingleton\<close>

text \<open>
  The same pattern with a plain pointer. \<^verbatim>\<open>instance_ = new T()\<close> is an allocation, a construction and a store; the pointer is
  not atomic, so nothing orders the store after the construction for a thread that reads it without the lock. The
  parameter says whether a store may come first. A failed allocation throws.
\<close>

datatype ref_pc = Ref_idle | Ref_lock | Ref_check | Ref_new nat | Ref_built nat | Ref_stored nat | Ref_return

record ref_singleton =
  ref_inst :: "nat option"
  ref_owner :: "nat option"
  ref_pcs :: "nat \<Rightarrow> ref_pc"
  ref_created :: nat
  built :: "nat set"
  results :: "(nat option \<times> bool) list"

definition ref_init :: ref_singleton where
  "ref_init = \<lparr>ref_inst = None, ref_owner = None, ref_pcs = (\<lambda>_. Ref_idle), ref_created = 0, built = {}, results = []\<rparr>"

definition ref_goto :: "nat \<Rightarrow> ref_pc \<Rightarrow> ref_singleton \<Rightarrow> ref_singleton" where
  "ref_goto t pc s = s\<lparr>ref_pcs := (ref_pcs s)(t := pc)\<rparr>"

definition ref_first :: "nat \<Rightarrow> ref_singleton \<Rightarrow> ref_singleton" where
  "ref_first t s = ref_goto t (if ref_inst s = None then Ref_lock else Ref_return) s"

definition ref_check :: "bool \<Rightarrow> nat \<Rightarrow> ref_singleton \<Rightarrow> ref_singleton" where
  "ref_check alloc t s =
     (if ref_inst s \<noteq> None then ref_goto t Ref_return (s\<lparr>ref_owner := None\<rparr>)
      else if \<not> alloc then ref_goto t Ref_idle (s\<lparr>ref_owner := None\<rparr>)
      else ref_goto t (Ref_new (ref_created s)) (s\<lparr>ref_created := ref_created s + 1\<rparr>))"

text \<open>A result is the object and whether it is constructed.\<close>

definition ref_result :: "nat \<Rightarrow> ref_singleton \<Rightarrow> ref_singleton" where
  "ref_result t s = ref_goto t Ref_idle
     (s\<lparr>results := results s @ [(ref_inst s, case ref_inst s of None \<Rightarrow> False | Some p \<Rightarrow> p \<in> built s)]\<rparr>)"

inductive ref_step :: "bool \<Rightarrow> ref_singleton \<Rightarrow> ref_singleton \<Rightarrow> bool" for early where
  ref_first: "ref_pcs s t = Ref_idle \<Longrightarrow> ref_step early s (ref_first t s)"
| ref_acquire: "ref_pcs s t = Ref_lock \<Longrightarrow> ref_owner s = None \<Longrightarrow> ref_step early s (ref_goto t Ref_check (s\<lparr>ref_owner := Some t\<rparr>))"
| ref_check: "ref_pcs s t = Ref_check \<Longrightarrow> ref_step early s (ref_check alloc t s)"
| ref_build: "ref_pcs s t = Ref_new p \<Longrightarrow> ref_step early s (ref_goto t (Ref_built p) (s\<lparr>built := insert p (built s)\<rparr>))"
| ref_store: "ref_pcs s t = Ref_built p \<Longrightarrow> ref_step early s (ref_goto t Ref_return (s\<lparr>ref_inst := Some p, ref_owner := None\<rparr>))"
| ref_store_early: "early \<Longrightarrow> ref_pcs s t = Ref_new p \<Longrightarrow> ref_step early s (ref_goto t (Ref_stored p) (s\<lparr>ref_inst := Some p\<rparr>))"
| ref_build_late: "ref_pcs s t = Ref_stored p \<Longrightarrow> ref_step early s (ref_goto t Ref_return (s\<lparr>built := insert p (built s), ref_owner := None\<rparr>))"
| ref_result: "ref_pcs s t = Ref_return \<Longrightarrow> ref_step early s (ref_result t s)"

text \<open>With the store in order there is only the object 0, and who returns finds it constructed.\<close>

definition ref_pc_ok :: "ref_singleton \<Rightarrow> nat \<Rightarrow> bool" where
  "ref_pc_ok s t = (case ref_pcs s t of
       Ref_idle \<Rightarrow> ref_owner s \<noteq> Some t | Ref_lock \<Rightarrow> ref_owner s \<noteq> Some t | Ref_check \<Rightarrow> ref_owner s = Some t
     | Ref_new p \<Rightarrow> ref_owner s = Some t \<and> ref_inst s = None \<and> p = 0 \<and> ref_created s = 1
     | Ref_built p \<Rightarrow> ref_owner s = Some t \<and> ref_inst s = None \<and> p = 0 \<and> ref_created s = 1 \<and> 0 \<in> built s
     | Ref_stored p \<Rightarrow> False | Ref_return \<Rightarrow> ref_owner s \<noteq> Some t \<and> ref_inst s = Some 0)"

definition ref_object_ok :: "ref_singleton \<Rightarrow> bool" where
  "ref_object_ok s = ((case ref_inst s of Some p \<Rightarrow> p = 0 \<and> ref_created s = 1 \<and> 0 \<in> built s
      | None \<Rightarrow> ref_created s = 0 \<or> ref_created s = 1 \<and>
          (case ref_owner s of None \<Rightarrow> False | Some t \<Rightarrow> ref_pcs s t = Ref_new 0 \<or> ref_pcs s t = Ref_built 0)) \<and>
     list_all (\<lambda>x. x = (Some 0, True)) (results s))"

definition ref_inv :: "ref_singleton \<Rightarrow> bool" where
  "ref_inv s \<longleftrightarrow> (\<forall>t. ref_pc_ok s t) \<and> ref_object_ok s"

lemma ref_singleton_upd:
  assumes "\<And>u. ref_pc_ok s u" "ref_pcs s' = (ref_pcs s)(t := pc)" "ref_pc_ok s' t"
    and "\<And>u. u \<noteq> t \<Longrightarrow> ref_owner s' = Some u \<longleftrightarrow> ref_owner s = Some u"
    and "ref_owner s = Some t \<or> ref_owner s = None \<or> ref_inst s' = ref_inst s \<and> ref_created s' = ref_created s \<and> built s' = built s"
    and "ref_inst s = Some 0 \<Longrightarrow> ref_inst s' = Some 0" "ref_object_ok s'"
  shows "ref_inv s'"
  unfolding ref_inv_def
proof (intro conjI allI)
  show "ref_pc_ok s' u" for u
  proof (cases "u = t")
    case False
    then have "ref_pcs s' u = ref_pcs s u" by (simp add: assms(2))
    then show ?thesis using assms(1) [of u] assms(4) [OF False] assms(5,6) False
      unfolding ref_pc_ok_def by (cases "ref_pcs s u") auto
  qed (use assms(3) in simp)
qed (fact assms(7))

lemma ref_inv_step:
  assumes inv: "ref_inv s" and step: "ref_step False s s'"
  shows "ref_inv s'"
proof -
  have pc: "ref_pc_ok s t" for t using inv by (simp add: ref_inv_def)
  have ob: "ref_object_ok s" using inv by (simp add: ref_inv_def)
  note rules = ref_goto_def ref_pc_ok_def ref_object_ok_def
  from step show ?thesis
  proof (cases rule: ref_step.cases)
    case (ref_first t)
    then have "ref_owner s \<noteq> Some t" using pc [of t] by (simp add: ref_pc_ok_def)
    then show ?thesis using ob ref_first unfolding ref_first_def
      by (intro ref_singleton_upd [OF pc]) (auto simp: rules split: option.splits)
  next
    case (ref_acquire t)
    then show ?thesis using ob by (intro ref_singleton_upd [OF pc]) (auto simp: rules split: option.splits)
  next
    case (ref_check t alloc)
    then have "ref_owner s = Some t" using pc [of t] by (simp add: ref_pc_ok_def)
    then show ?thesis using ob ref_check
      by (intro ref_singleton_upd [OF pc, of _ t "ref_pcs s' t"]) (auto simp: ref_check_def rules split: option.splits)
  next
    case (ref_build t p)
    then show ?thesis using ob pc [of t] by (intro ref_singleton_upd [OF pc]) (auto simp: rules split: option.splits)
  next
    case (ref_store t p)
    then show ?thesis using ob pc [of t] by (intro ref_singleton_upd [OF pc]) (auto simp: rules split: option.splits)
  next
    case (ref_build_late t p)
    then show ?thesis using pc [of t] by (simp add: ref_pc_ok_def)
  next
    case (ref_result t)
    then show ?thesis using ob pc [of t] unfolding ref_result_def
      by (intro ref_singleton_upd [OF pc]) (auto simp: rules split: option.splits)
  qed simp
qed

interpretation ref_runs: inductive_invariant "\<lambda>s. s = ref_init" "ref_step False" ref_inv
proof
  show "s = ref_init \<Longrightarrow> ref_inv s" for s by (simp add: ref_init_def ref_inv_def ref_pc_ok_def ref_object_ok_def)
qed (rule ref_inv_step)

lemma ref_singleton_in_order:
  assumes "reach (\<lambda>s. s = ref_init) (ref_step False) s"
  shows "ref_created s \<le> 1" "x \<in> set (results s) \<Longrightarrow> x = (Some 0, True)"
proof -
  have "ref_object_ok s" using ref_runs.always [OF assms] by (simp add: ref_inv_def)
  then show "ref_created s \<le> 1" "x \<in> set (results s) \<Longrightarrow> x = (Some 0, True)"
    by (auto simp: ref_object_ok_def list_all_iff split: option.splits)
qed

text \<open>With the store first a second thread gets a reference to an object that is not constructed.\<close>

lemma ref_singleton_unconstructed:
  "\<exists>s. reach (\<lambda>s. s = ref_init) (ref_step True) s \<and> (Some 0, False) \<in> set (results s)"
proof -
  let ?R = "reach (\<lambda>s. s = ref_init) (ref_step True)"
  define a where "a = ref_first 0 ref_init"
  define b where "b = ref_goto 0 Ref_check (a\<lparr>ref_owner := Some 0\<rparr>)"
  define c where "c = ref_check True 0 b"
  define d where "d = ref_goto 0 (Ref_stored 0) (c\<lparr>ref_inst := Some 0\<rparr>)"
  define e where "e = ref_first 1 d"
  define f where "f = ref_result 1 e"
  note defs = f_def e_def d_def c_def b_def a_def ref_first_def ref_check_def ref_result_def ref_goto_def ref_init_def
  have "?R ref_init" by (rule reach.start) simp
  then have "?R a" unfolding a_def by (rule reach.more) (rule ref_step.ref_first, simp add: defs)
  then have "?R b" unfolding b_def by (rule reach.more) (rule ref_step.ref_acquire, simp_all add: defs)
  then have "?R c" unfolding c_def by (rule reach.more) (rule ref_step.ref_check, simp add: defs)
  then have "?R d" unfolding d_def by (rule reach.more) (rule ref_step.ref_store_early, simp_all add: defs)
  then have "?R e" unfolding e_def by (rule reach.more) (rule ref_step.ref_first, simp add: defs)
  then have "?R f" unfolding f_def by (rule reach.more) (rule ref_step.ref_result, simp add: defs)
  moreover have "(Some 0, False) \<in> set (results f)" by (simp add: defs)
  ultimately show ?thesis by blast
qed

section \<open>Properties\<close>

text \<open>
  C40. There is one instance at a time. Under every interleaving of calls of \<^verbatim>\<open>GetInstance\<close> and \<^verbatim>\<open>DestroyInstance\<close> of a
  \<^verbatim>\<open>DelayedSingleton\<close>, at most one object is made for every call of \<^verbatim>\<open>DestroyInstance\<close> and one more; all calls of \<^verbatim>\<open>GetInstance\<close>
  that load their result between the same two destructions return the same object, and null is returned no more often
  than an allocation failed; no two threads are in the critical section.
\<close>

theorem delayed_singleton_unique:
  assumes "reach (\<lambda>s. s = delayed_init) delayed_step s"
  shows "created s \<le> destroys s + 1 \<and> nulls s \<le> failures s \<and>
    (\<forall>d p q. (d, p) \<in> set (returns s) \<and> (d, q) \<in> set (returns s) \<longrightarrow> p = q) \<and>
    (\<forall>p. (destroys s, p) \<in> set (returns s) \<longrightarrow> inst s = Some p) \<and>
    (\<forall>t u. locked_pc (pcs s t) \<and> locked_pc (pcs s u) \<longrightarrow> t = u)"
proof -
  have inv: "lock_ok s" "counts_ok s" "returns_ok s" using delayed_runs.always [OF assms] by (simp_all add: delayed_inv_def)
  have "created s \<le> destroys s + 1 \<and> nulls s \<le> failures s" using inv(2) by (auto simp: counts_ok_def split: if_splits)
  then show ?thesis using inv(1,3) unfolding lock_ok_def returns_ok_def by fastforce
qed

definition delayed_sample :: delayed where
  "delayed_sample = get_first 1 (get_load 0 (get_store (Some 0) 0 (get_check True 0 (get_acquire 0 (get_first 0 delayed_init)))))"

theorem delayed_singleton_unique_witness:
  "reach (\<lambda>s. s = delayed_init) delayed_step delayed_sample \<and> returns delayed_sample = [(0, 0), (0, 0)] \<and> created delayed_sample \<le> 1 \<and>
   inst delayed_sample = Some 0"
proof -
  let ?R = "reach (\<lambda>s. s = delayed_init) delayed_step"
  note defs = delayed_ops delayed_init_def
  have "?R delayed_init" by (rule reach.start) simp
  then have "?R (get_first 0 delayed_init)" by (rule reach.more) (rule delayed_step.first, simp add: defs)
  then have "?R (get_acquire 0 (get_first 0 delayed_init))" by (rule reach.more) (rule delayed_step.acquire, simp_all add: defs)
  then have "?R (get_check True 0 (get_acquire 0 (get_first 0 delayed_init)))" by (rule reach.more) (rule delayed_step.check, simp add: defs)
  then have "?R (get_store (Some 0) 0 (get_check True 0 (get_acquire 0 (get_first 0 delayed_init))))" by (rule reach.more) (rule delayed_step.store, simp add: defs)
  then have "?R (get_load 0 (get_store (Some 0) 0 (get_check True 0 (get_acquire 0 (get_first 0 delayed_init)))))" by (rule reach.more) (rule delayed_step.load, simp add: defs)
  then have r: "?R delayed_sample" unfolding delayed_sample_def by (rule reach.more) (rule delayed_step.first, simp add: defs)
  have s: "returns delayed_sample = [(0, 0), (0, 0)]" "destroys delayed_sample = 0" by (simp_all add: delayed_sample_def defs)
  have u: "created delayed_sample \<le> destroys delayed_sample + 1" "\<forall>p. (destroys delayed_sample, p) \<in> set (returns delayed_sample) \<longrightarrow> inst delayed_sample = Some p"
    using delayed_singleton_unique [OF r] by blast+
  show ?thesis using r s u by simp
qed

end
