(* ===== verification/Datetime_Ex.thy ===== *)
theory Datetime_Ex
  imports CUtils_Prelude "HOL-Library.Signed_Division"
begin

text \<open>
  Time (\<^verbatim>\<open>base/src/datetime_ex.cpp\<close>, \<^verbatim>\<open>base/include/datetime_ex.h\<close>). Times are 64-bit integers; \<^const>\<open>None\<close> is a signed
  overflow, which is undefined. The division of C++ truncates. The clocks, \<^verbatim>\<open>mktime\<close>, \<^verbatim>\<open>localtime_r\<close> and \<^verbatim>\<open>gmtime_r\<close> are
  arguments, as is the number of ticks of the system clock in a second.
\<close>

unbundle bit_operations_syntax

section \<open>Units\<close>

definition i64 :: "int \<Rightarrow> int option" where
  "i64 x = (if - (2 ^ 63) \<le> x \<and> x < 2 ^ 63 then Some x else None)"

definition SEC_TO_NANOSEC :: int where "SEC_TO_NANOSEC = 1000000000"
definition SEC_TO_MICROSEC :: int where "SEC_TO_MICROSEC = 1000000"
definition SEC_TO_MILLISEC :: int where "SEC_TO_MILLISEC = 1000"
definition MILLISEC_TO_NANOSEC :: int where "MILLISEC_TO_NANOSEC = 1000000"
definition MICROSEC_TO_NANOSEC :: int where "MICROSEC_TO_NANOSEC = 1000"
definition SECONDS_PER_HOUR :: int where "SECONDS_PER_HOUR = 3600"
definition SECONDS_PER_DAY :: int where "SECONDS_PER_DAY = 86400"

definition SecToNanosec :: "int \<Rightarrow> int option" where "SecToNanosec sec = i64 (sec * SEC_TO_NANOSEC)"
definition MillisecToNanosec :: "int \<Rightarrow> int option" where "MillisecToNanosec millise = i64 (millise * MILLISEC_TO_NANOSEC)"
definition MicrosecToNanosec :: "int \<Rightarrow> int option" where "MicrosecToNanosec microsec = i64 (microsec * MICROSEC_TO_NANOSEC)"
definition NanosecToSec :: "int \<Rightarrow> int" where "NanosecToSec nanosec = nanosec sdiv SEC_TO_NANOSEC"
definition NanosecToMillisec :: "int \<Rightarrow> int" where "NanosecToMillisec nanosec = nanosec sdiv MILLISEC_TO_NANOSEC"
definition NanosecToMicrosec :: "int \<Rightarrow> int" where "NanosecToMicrosec nanosec = nanosec sdiv MICROSEC_TO_NANOSEC"

lemmas unit_defs = SEC_TO_NANOSEC_def SEC_TO_MICROSEC_def SEC_TO_MILLISEC_def MILLISEC_TO_NANOSEC_def MICROSEC_TO_NANOSEC_def
  SECONDS_PER_HOUR_def SECONDS_PER_DAY_def

section \<open>Points of time\<close>

text \<open>\<open>now\<close> counts the ticks of the system clock since 1970 and \<open>period\<close> the ticks in a second.\<close>

definition GetSecondsSince1970ToNow :: "int \<Rightarrow> int \<Rightarrow> int" where
  "GetSecondsSince1970ToNow period now = now sdiv period"

definition GetSecondsSince1970ToPointTime :: "int \<Rightarrow> ('tm \<Rightarrow> int) \<Rightarrow> 'tm \<Rightarrow> int option" where
  "GetSecondsSince1970ToPointTime period mktime inputTm =
     (let inputTime = mktime inputTm
      in if inputTime = -1 then Some (-1)
         else do { pointTime \<leftarrow> i64 (inputTime * period); Some (pointTime sdiv period) })"

definition GetSecondsBetween :: "int \<Rightarrow> ('tm \<Rightarrow> int) \<Rightarrow> 'tm \<Rightarrow> 'tm \<Rightarrow> int option" where
  "GetSecondsBetween period mktime inputTm1 inputTm2 = do {
     second1 \<leftarrow> GetSecondsSince1970ToPointTime period mktime inputTm1;
     second2 \<leftarrow> GetSecondsSince1970ToPointTime period mktime inputTm2;
     if second1 = -1 \<or> second2 = -1 then Some (-1)
     else if second1 \<ge> second2 then i64 (second1 - second2) else i64 (second2 - second1)
   }"

definition GetDaysSince1970ToNow :: "int \<Rightarrow> int \<Rightarrow> int" where
  "GetDaysSince1970ToNow period now = now sdiv (period * SECONDS_PER_DAY)"

text \<open>The result and what is stored through the pointer; the pointer may be null.\<close>

definition GetSystemCurrentTime :: "int \<Rightarrow> (int \<Rightarrow> 'tm option) \<Rightarrow> int \<Rightarrow> 'tm option \<Rightarrow> bool \<times> 'tm option" where
  "GetSystemCurrentTime period localtime_r now curTime =
     (case curTime of
        None \<Rightarrow> (False, None)
      | Some old \<Rightarrow> (case localtime_r (now sdiv period) of None \<Rightarrow> (False, Some old) | Some tm \<Rightarrow> (True, Some tm)))"

text \<open>The inner \<^const>\<open>None\<close> is the result false.\<close>

definition GetLocalTimeZone :: "int \<Rightarrow> (int \<Rightarrow> 'tm option) \<Rightarrow> (int \<Rightarrow> 'tm option) \<Rightarrow> ('tm \<Rightarrow> int) \<Rightarrow> int \<Rightarrow> int option option" where
  "GetLocalTimeZone period localtime_r gmtime_r mktime now =
     (let t = now sdiv period
      in case (localtime_r t, gmtime_r t) of
           (Some curTime1, Some curTime2) \<Rightarrow>
             (let t1 = mktime curTime1; t2 = mktime curTime2
              in if t1 = -1 \<or> t2 = -1 then Some None
                 else do { diff \<leftarrow> i64 (t1 - t2); Some (Some (signed_take_bit 31 diff sdiv SECONDS_PER_HOUR)) })
         | _ \<Rightarrow> Some None)"

text \<open>The monotonic clock, in seconds and nanoseconds.\<close>

definition GetMicroTickCount :: "int \<times> int \<Rightarrow> int option" where
  "GetMicroTickCount ts = do { us \<leftarrow> i64 (fst ts * SEC_TO_MICROSEC); i64 (us + snd ts sdiv MICROSEC_TO_NANOSEC) }"

definition GetTickCount :: "int \<times> int \<Rightarrow> int option" where
  "GetTickCount ts = map_option (\<lambda>us. us sdiv SEC_TO_MILLISEC) (GetMicroTickCount ts)"

section \<open>Correctness\<close>

lemma sdiv_mult_self [simp]: "0 < (b :: int) \<Longrightarrow> (a * b) sdiv b = a"
  by (auto simp: signed_divide_int_def sgn_mult abs_mult sgn_if zero_less_mult_iff split: if_splits)

lemma sdiv_nonneg: "0 \<le> (a :: int) \<Longrightarrow> 0 < b \<Longrightarrow> a sdiv b = a div b"
  by (simp add: signed_divide_int_def sgn_if)

lemma sdiv_bound: "0 < (b :: int) \<Longrightarrow> \<bar>a - (a sdiv b) * b\<bar> < b"
  using abs_mod_less [of b "\<bar>a\<bar>"] minus_div_mult_eq_mod [of "\<bar>a\<bar>" b]
  by (auto simp: signed_divide_int_def sgn_if abs_if minus_mult_div_eq_mod split: if_splits)

lemma unit_round_trips:
  "SecToNanosec s = Some n \<Longrightarrow> NanosecToSec n = s"
  "MillisecToNanosec m = Some n \<Longrightarrow> NanosecToMillisec n = m"
  "MicrosecToNanosec u = Some n \<Longrightarrow> NanosecToMicrosec n = u"
  by (auto simp: SecToNanosec_def NanosecToSec_def MillisecToNanosec_def NanosecToMillisec_def MicrosecToNanosec_def
    NanosecToMicrosec_def i64_def unit_defs split: if_splits)

lemma GetSecondsBetween_distance:
  assumes "0 < period" "\<And>tm. i64 (mktime tm * period) \<noteq> None"
  shows "GetSecondsBetween period mktime a b =
    (if mktime a = -1 \<or> mktime b = -1 then Some (-1) else i64 \<bar>mktime a - mktime b\<bar>)"
  using assms(1) assms(2) [of a] assms(2) [of b]
  by (auto simp: GetSecondsBetween_def GetSecondsSince1970ToPointTime_def i64_def Let_def split: if_splits)

lemma GetTickCount_millis:
  assumes "0 \<le> sec" "sec < 2 ^ 40" "0 \<le> nsec" "nsec < 1000000000"
  shows "GetTickCount (sec, nsec) = Some (sec * 1000 + nsec div 1000000)"
proof -
  have "nsec div 1000 \<le> 1000000" "0 \<le> nsec div 1000" using assms by auto
  then have "GetMicroTickCount (sec, nsec) = Some (sec * 1000000 + nsec div 1000)"
    using assms by (simp add: GetMicroTickCount_def unit_defs i64_def sdiv_nonneg)
  moreover have "(sec * 1000000 + nsec div 1000) div 1000 = sec * 1000 + nsec div 1000000"
    using div_mult_self3 [of 1000 "sec * 1000" "nsec div 1000"] by (simp add: zdiv_zmult2_eq [of 1000 nsec 1000, simplified])
  ultimately show ?thesis using assms by (simp add: GetTickCount_def unit_defs sdiv_nonneg)
qed

text \<open>
  The local time zone. When \<^verbatim>\<open>mktime\<close> inverts \<^verbatim>\<open>localtime_r\<close> and reads the fields of \<^verbatim>\<open>gmtime_r\<close>, which claim no daylight
  saving time, as local standard time \<open>off\<close> seconds ahead of UTC, \<^verbatim>\<open>GetLocalTimeZone\<close> returns the whole hours of \<open>off\<close>,
  rounded towards zero: it misses \<open>off\<close> by less than an hour, and is exact just for zones of whole hours. It fails when
  one of the points of time is a second before 1970, which \<^verbatim>\<open>mktime\<close> cannot tell from an error.
\<close>

theorem GetLocalTimeZone_hours:
  assumes "localtime_r (now sdiv period) = Some l" "mktime l = now sdiv period"
    and "gmtime_r (now sdiv period) = Some g" "mktime g = now sdiv period - off" "\<bar>off\<bar> \<le> 86400"
  shows "(if now sdiv period = -1 \<or> now sdiv period - off = -1 then GetLocalTimeZone period localtime_r gmtime_r mktime now = Some None
     else \<exists>zone. GetLocalTimeZone period localtime_r gmtime_r mktime now = Some (Some zone) \<and>
       \<bar>off - zone * 3600\<bar> < 3600 \<and> \<bar>zone * 3600\<bar> \<le> \<bar>off\<bar> \<and> (zone * 3600 = off \<longleftrightarrow> 3600 dvd off))"
proof -
  have cast: "signed_take_bit 31 off = off" using assms(5) by (intro signed_take_bit_int_eq_self) auto
  have zone: "\<bar>off - off sdiv 3600 * 3600\<bar> < 3600" by (rule sdiv_bound) simp
  have "\<bar>off sdiv 3600 * 3600\<bar> \<le> \<bar>off\<bar>" by (auto simp: signed_divide_int_def sgn_if abs_mult)
  moreover have "off sdiv 3600 * 3600 = off \<longleftrightarrow> 3600 dvd off"
  proof
    show "3600 dvd off" if "off sdiv 3600 * 3600 = off" using dvd_triv_right [of 3600 "off sdiv 3600"] that by simp
    show "off sdiv 3600 * 3600 = off" if "3600 dvd off" using that by (auto simp: mult.commute [of 3600] elim!: dvdE)
  qed
  ultimately show ?thesis using zone assms
    by (auto simp: GetLocalTimeZone_def Let_def i64_def cast unit_defs)
qed

text \<open>A point of time as its civil seconds, and whether daylight saving time is claimed, in a zone of five hours and a half.\<close>

theorem GetLocalTimeZone_hours_witness:
  "GetLocalTimeZone 1000000 (\<lambda>t. Some (t + 19800, False)) (\<lambda>t. Some (t, False)) (\<lambda>(t, dst). t - 19800) 1700000000000000 = Some (Some 5) \<and>
   \<not> 3600 dvd (19800 :: int)"
proof -
  have t: "(1700000000000000 :: int) sdiv 1000000 = 1700000000" by (simp add: signed_divide_int_def)
  have "\<exists>zone. GetLocalTimeZone 1000000 (\<lambda>t. Some (t + 19800, False)) (\<lambda>t. Some (t, False)) (\<lambda>(t, dst). t - 19800) 1700000000000000 = Some (Some zone) \<and>
      \<bar>19800 - zone * 3600\<bar> < 3600 \<and> \<bar>zone * 3600\<bar> \<le> \<bar>19800\<bar>"
    using GetLocalTimeZone_hours [where localtime_r = "\<lambda>t. Some (t + 19800, False)" and gmtime_r = "\<lambda>t. Some (t, False)"
      and mktime = "\<lambda>(t, dst). t - 19800" and now = 1700000000000000 and period = 1000000 and off = 19800
      and l = "(1700019800, False)" and g = "(1700000000, False)"] by (auto simp: t)
  then obtain zone where z: "GetLocalTimeZone 1000000 (\<lambda>t. Some (t + 19800, False)) (\<lambda>t. Some (t, False)) (\<lambda>(t, dst). t - 19800) 1700000000000000 = Some (Some zone)"
      "\<bar>19800 - zone * 3600\<bar> < 3600" "\<bar>zone * 3600\<bar> \<le> \<bar>19800\<bar>" by blast
  then have "zone = 5" by auto
  with z(1) show ?thesis by simp
qed

end
