(* ===== verification/Err_Code.thy ===== *)
theory Err_Code
  imports CUtils_Prelude
begin

text \<open>
  Error codes (\<^verbatim>\<open>base/include/errors.h\<close>, \<^verbatim>\<open>common_errors.h\<close> and the error headers of the modules): the layout of a code in its
  fields subsystem (bits 28 to 21), module (20 to 16) and code (15 to 0), and the codes of the modules of this library.
\<close>

unbundle bit_operations_syntax

section \<open>Layout\<close>

definition SUBSYSTEM_BIT_NUM :: nat where "SUBSYSTEM_BIT_NUM = 21"
definition MODULE_BIT_NUM :: nat where "MODULE_BIT_NUM = 16"

definition ErrCodeOffset :: "32 word \<Rightarrow> 32 word \<Rightarrow> 32 word" where
  "ErrCodeOffset subsystem modul = push_bit SUBSYSTEM_BIT_NUM subsystem OR push_bit MODULE_BIT_NUM modul"

text \<open>The subsystems, each at the position that is its value.\<close>

definition subsystems :: "string list" where
  "subsystems = [
    ''SUBSYS_COMMON'', ''SUBSYS_AAFWK'', ''SUBSYS_ACCOUNT'', ''SUBSYS_AI'', ''SUBSYS_APPEXECFWK'', ''SUBSYS_APPLICATIONS'',
    ''SUBSYS_ARVR'', ''SUBSYS_ARVRHARDWARE'', ''SUBSYS_BARRIERFREE'', ''SUBSYS_BIOMETRICS'', ''SUBSYS_CCRUNTIME'',
    ''SUBSYS_COMMUNICATION'', ''SUBSYS_DFX'', ''SUBSYS_DISTRIBUTEDDATAMNG'', ''SUBSYS_DISTRIBUTEDSCHEDULE'', ''SUBSYS_DRIVERS'',
    ''SUBSYS_GLOBAL'', ''SUBSYS_GRAPHIC'', ''SUBSYS_HBS'', ''SUBSYS_IAWARE'', ''SUBSYS_IDE'', ''SUBSYS_INTELLIACCESSORIES'',
    ''SUBSYS_INTELLISPEAKER'', ''SUBSYS_INTELLITV'', ''SUBSYS_IOT'', ''SUBSYS_IOTHARDWARE'', ''SUBSYS_IVIHARDWARE'',
    ''SUBSYS_KERNEL'', ''SUBSYS_LOCATION'', ''SUBSYS_MSDP'', ''SUBSYS_MULTIMEDIA'', ''SUBSYS_MULTIMODAINPUT'',
    ''SUBSYS_NOTIFICATION'', ''SUBSYS_POWERMNG'', ''SUBSYS_ROUTER'', ''SUBSYS_SECURITY'', ''SUBSYS_SENSORS'',
    ''SUBSYS_SMALLSERVICES'', ''SUBSYS_SOURCECODETRANSFORMER'', ''SUBSYS_STARTUP'', ''SUBSYS_TELEPONY'', ''SUBSYS_UPDATE'',
    ''SUBSYS_USB'', ''SUBSYS_WEARABLE'', ''SUBSYS_WEARABLEHARDWARE'', ''SUBSYS_IVI'', ''SUBSYS_DISTRIBUTEDHARDWARE'',
    ''SUBSYS_DEVICEPROFILE'', ''SUBSYS_CUSTOMIZATION'', ''SUBSYS_FILEMANAGEMENT'']"

definition SUBSYS_COMMON :: "32 word" where "SUBSYS_COMMON = 0"
definition modules :: "string list" where "modules = [''MODULE_DEFAULT'', ''MODULE_TIMER'', ''MODULE_MAPPED_FILE'', ''MODULE_EVENT_SYS'']"
definition MODULE_TIMER :: "32 word" where "MODULE_TIMER = 1"
definition MODULE_MAPPED_FILE :: "32 word" where "MODULE_MAPPED_FILE = 2"
definition MODULE_EVENT_SYS :: "32 word" where "MODULE_EVENT_SYS = 3"

definition BASE_ERR_OFFSET :: "32 word" where "BASE_ERR_OFFSET = ErrCodeOffset SUBSYS_COMMON 0"
definition COMMON_TIMER_ERR_OFFSET :: "32 word" where "COMMON_TIMER_ERR_OFFSET = ErrCodeOffset SUBSYS_COMMON MODULE_TIMER"
definition COMMON_MAPPED_FILE_ERR_OFFSET :: "32 word" where "COMMON_MAPPED_FILE_ERR_OFFSET = ErrCodeOffset SUBSYS_COMMON MODULE_MAPPED_FILE"
definition COMMON_EVENT_SYS_ERR_OFFSET :: "32 word" where "COMMON_EVENT_SYS_ERR_OFFSET = ErrCodeOffset SUBSYS_COMMON MODULE_EVENT_SYS"

definition ERR_OK :: "32 word" where "ERR_OK = 0"
definition TIMER_ERR_OK_code :: "32 word" where "TIMER_ERR_OK_code = 0"
definition MAPPED_FILE_ERR_OK_code :: "32 word" where "MAPPED_FILE_ERR_OK_code = COMMON_MAPPED_FILE_ERR_OFFSET + 0"
definition EVENT_SYS_ERR_OK_code :: "32 word" where "EVENT_SYS_ERR_OK_code = COMMON_EVENT_SYS_ERR_OFFSET + 0"

definition SUCCEEDED :: "32 word \<Rightarrow> bool" where "SUCCEEDED errCode \<longleftrightarrow> errCode = ERR_OK"
definition FAILED :: "32 word \<Rightarrow> bool" where "FAILED errCode \<longleftrightarrow> errCode \<noteq> ERR_OK"

section \<open>Fields\<close>

definition subsystem_field :: "32 word \<Rightarrow> 32 word" where "subsystem_field e = take_bit 8 (drop_bit 21 e)"
definition module_field :: "32 word \<Rightarrow> 32 word" where "module_field e = take_bit 5 (drop_bit 16 e)"
definition code_field :: "32 word \<Rightarrow> 32 word" where "code_field e = take_bit 16 e"

lemma small_bit: "take_bit k x = x \<Longrightarrow> k \<le> n \<Longrightarrow> \<not> bit (x :: 32 word) n"
  by (metis bit_take_bit_iff linorder_not_le)

lemma err_code_or:
  assumes "take_bit 16 c = c"
  shows "ErrCodeOffset s m + c = ErrCodeOffset s m OR c"
proof (rule disjunctive_add_eq_or)
  show "ErrCodeOffset s m AND c = 0"
    by (rule bit_eqI) (use small_bit [OF assms] in \<open>auto simp: ErrCodeOffset_def SUBSYSTEM_BIT_NUM_def MODULE_BIT_NUM_def bit_simps not_le\<close>)
qed

lemma bit_err_code:
  assumes "take_bit 16 c = c" "n < 32"
  shows "bit (ErrCodeOffset s m + c) n \<longleftrightarrow> 21 \<le> n \<and> bit s (n - 21) \<or> 16 \<le> n \<and> bit m (n - 16) \<or> bit c n"
  unfolding err_code_or [OF assms(1)]
  using assms(2) by (auto simp: ErrCodeOffset_def SUBSYSTEM_BIT_NUM_def MODULE_BIT_NUM_def bit_or_iff bit_push_bit_iff)

lemma err_code_fields:
  assumes s: "take_bit 8 s = s" and m: "take_bit 5 m = m" and c: "take_bit 16 c = c"
  shows "subsystem_field (ErrCodeOffset s m + c) = s" "module_field (ErrCodeOffset s m + c) = m" "code_field (ErrCodeOffset s m + c) = c"
proof -
  note bits = bit_err_code [OF c] small_bit [OF s] small_bit [OF m] small_bit [OF c]
  show "subsystem_field (ErrCodeOffset s m + c) = s"
  proof (rule bit_eqI)
    show "bit (subsystem_field (ErrCodeOffset s m + c)) n \<longleftrightarrow> bit s n" for n
      using bits(1) [of "21 + n" s m] bits(2) [of n] bits(3) [of "5 + n"] bits(4) [of "21 + n"]
      by (cases "n < 8") (auto simp: subsystem_field_def bit_take_bit_iff bit_drop_bit_eq)
  qed
  show "module_field (ErrCodeOffset s m + c) = m"
  proof (rule bit_eqI)
    show "bit (module_field (ErrCodeOffset s m + c)) n \<longleftrightarrow> bit m n" for n
      using bits(1) [of "16 + n" s m] bits(3) [of n] bits(4) [of "16 + n"]
      by (cases "n < 5") (auto simp: module_field_def bit_take_bit_iff bit_drop_bit_eq)
  qed
  show "code_field (ErrCodeOffset s m + c) = c"
  proof (rule bit_eqI)
    show "bit (code_field (ErrCodeOffset s m + c)) n \<longleftrightarrow> bit c n" for n
      using bits(1) [of n s m] bits(4) [of n] by (cases "n < 16") (auto simp: code_field_def bit_take_bit_iff)
  qed
qed

text \<open>The values of all subsystems and modules fit their fields, so codes of different modules never coincide.\<close>

lemma field_lengths: "length subsystems = 50" "length modules = 4"
  by code_simp+

lemma err_codes_distinct:
  assumes "s < length subsystems" "s' < length subsystems" "m < length modules" "m' < length modules"
    and "take_bit 16 c = c" "take_bit 16 c' = c'"
    and eq: "ErrCodeOffset (of_nat s) (of_nat m) + c = ErrCodeOffset (of_nat s') (of_nat m') + c'"
  shows "s = s'" "m = m'" "c = c'"
proof -
  have fit: "take_bit 8 (of_nat i :: 32 word) = of_nat i" "take_bit 5 (of_nat j :: 32 word) = of_nat j"
    if "i < length subsystems" "j < length modules" for i j
    using that by (simp_all add: field_lengths of_nat_take_bit [symmetric] take_bit_nat_eq_self del: of_nat_take_bit)
  have small: "unat (of_nat i :: 32 word) = i" if "i < 50" for i using that by (simp add: unat_of_nat take_bit_nat_eq_self)
  note f = err_code_fields [OF fit(1) [OF assms(1,3)] fit(2) [OF assms(1,3)] assms(5)]
  note f' = err_code_fields [OF fit(1) [OF assms(2,4)] fit(2) [OF assms(2,4)] assms(6)]
  have "(of_nat s :: 32 word) = of_nat s'" using f(1) f'(1) unfolding eq by (rule trans [OF sym])
  then show "s = s'" using small [of s] small [of s'] assms(1,2) unfolding field_lengths by presburger
  have "(of_nat m :: 32 word) = of_nat m'" using f(2) f'(2) unfolding eq by (rule trans [OF sym])
  then show "m = m'" using small [of m] small [of m'] assms(3,4) unfolding field_lengths by presburger
  show "c = c'" using f(3) f'(3) unfolding eq by (rule trans [OF sym])
qed

text \<open>The success codes of the mapped files and of the event system are not \<^verbatim>\<open>ERR_OK\<close>: the macros take them for failures.\<close>

lemma success_counts_as_failure: "FAILED MAPPED_FILE_ERR_OK_code" "FAILED EVENT_SYS_ERR_OK_code" "SUCCEEDED TIMER_ERR_OK_code"
  by (simp_all add: FAILED_def SUCCEEDED_def ERR_OK_def MAPPED_FILE_ERR_OK_code_def EVENT_SYS_ERR_OK_code_def TIMER_ERR_OK_code_def
    COMMON_MAPPED_FILE_ERR_OFFSET_def COMMON_EVENT_SYS_ERR_OFFSET_def ErrCodeOffset_def SUBSYS_COMMON_def MODULE_MAPPED_FILE_def
    MODULE_EVENT_SYS_def SUBSYSTEM_BIT_NUM_def MODULE_BIT_NUM_def)

end
