(* ===== verification/Spec2Isabelle.thy ===== *)
theory Spec2Isabelle
  imports Parcel_State RefBase_Threads RefBase_Copy Smart_Pointers String_Spec Sorted_Vector RW_Lock Semaphore_Ex
    Safe_Containers Block_Queue Thread_Pool Mapped_File Directory_Ops File_Ex Timers IO_Event_Reactor
    Unique_Fd Ashmem Thread_Ex Observer_Ex Singleton_Ex Datetime_Ex Err_Code
begin

text \<open>
  A verification of the C++ utilities library of the common library subsystem (\<^verbatim>\<open>base/src\<close>, \<^verbatim>\<open>base/include\<close>).

  \<^bold>\<open>The program.\<close> The library is a set of components that other subsystems link: a serialization container
  (\<^verbatim>\<open>Parcel\<close>), intrusive reference counting with strong and weak pointers (\<^verbatim>\<open>RefBase\<close>, \<^verbatim>\<open>sptr\<close>, \<^verbatim>\<open>wptr\<close>), string and
  Unicode helpers, an ordered vector, locks, semaphores and thread-safe containers, a thread pool, timers over an
  epoll reactor, a second reactor for I/O handlers, memory-mapped files, and helpers for files, paths and directories.
  Components share code where they call each other: \<^verbatim>\<open>Parcel\<close> writes \<^verbatim>\<open>Parcelable\<close> objects, which are reference counted;
  \<^verbatim>\<open>sptr\<close> and \<^verbatim>\<open>wptr\<close> drive the counters of \<^verbatim>\<open>RefBase\<close>; the string helpers convert with the functions of
  \<^verbatim>\<open>unicode_ex.cpp\<close>; \<^verbatim>\<open>Timer\<close> schedules and cancels in an \<^verbatim>\<open>EventReactor\<close> whose loop calls it back; the file functions
  resolve paths with \<^verbatim>\<open>directory_ex.cpp\<close>.

  \<^bold>\<open>Conventions.\<close> Fallible code returns \<^typ>\<open>'a option\<close>: \<^const>\<open>None\<close> is undefined behaviour of the C++ (an access
  outside a buffer, a use after free) or a walk that does not end, never an error the code reports; reported errors are
  values (\<^const>\<open>False\<close>, an error code, an inner \<^const>\<open>None\<close> for a null pointer). \<^verbatim>\<open>size_t\<close> is a natural number with the
  arithmetic modulo $2^{64}$ written out, fixed-width integers are words, and counters whose wrap-around needs $2^{31}$
  live references are integers. \<^verbatim>\<open>char\<close> is an unsigned byte. The operating system, the C heap and client code
  (allocators, \<^verbatim>\<open>Marshalling\<close>, callbacks) are arguments of the definitions. Concurrent components are step relations
  whose steps are the atomic accesses, or the critical sections where a mutex guards every access; their invariants
  are proved for every interleaving through the locale \<open>inductive_invariant\<close> of \<open>CUtils_Prelude\<close>. Logging is left out
  everywhere.

  \<^bold>\<open>The theories.\<close>
  \<^item> \<open>CUtils_Prelude\<close>: sizes, byte buffers, little-endian representation, the locales \<open>simulation\<close> and
    \<open>inductive_invariant\<close>, reachability.
  \<^item> \<open>Parcel_Core\<close> (\<^verbatim>\<open>parcel.cpp\<close>: allocators, capacity, cursors, raw reads and writes), \<open>Parcel_Values\<close> (the typed
    reads and writes, strings), \<open>Parcel_Objects\<close> (flattened objects, parcelables, \<^verbatim>\<open>RewindWrite\<close>) and the templates of
    \<open>Parcel_Vector\<close> hold the definitions. \<open>Parcel_Wf\<close>, \<open>Parcel_Write\<close>, \<open>Parcel_Read\<close> prove the invariant and what each
    raw access does; \<open>Parcel_Codec\<close> states the contract of a pair of a write and a read as the locale \<open>parcel_codec\<close> and
    interprets it for every typed pair; \<open>Parcel_Items\<close> composes them to whole sequences, \<open>Parcel_Vector\<close> to vectors,
    \<open>Parcel_Object_Safety\<close> treats the table of object offsets and \<open>Parcel_State\<close> arbitrary runs of operations.
  \<^item> \<open>RefBase\<close> (\<^verbatim>\<open>refbase.cpp\<close>) has the counters and the object they free; \<open>RefBase_Spec\<close> specifies a reference-counted
    object by its numbers of strong and weak pointers and proves that the code refines it; \<open>RefBase_Threads\<close> takes the
    operations apart into single atomic accesses and proves them safe in every interleaving of any number of threads by
    accounting for the units of each count a thread owns; \<open>RefBase_Copy\<close> has several objects, which are copied and
    moved; \<open>Smart_Pointers\<close> models
    \<^verbatim>\<open>sptr\<close> and \<^verbatim>\<open>wptr\<close> (\<^verbatim>\<open>refbase.h\<close>) over a heap of such objects.
  \<^item> \<open>Unicode_Ex\<close> (\<^verbatim>\<open>unicode_ex.cpp\<close>), \<open>String_Ex\<close> and \<open>String_Spec\<close> (\<^verbatim>\<open>string_ex.cpp\<close>, \<^verbatim>\<open>string_ex.h\<close>): conversions, their
    round trips and memory safety; splitting, replacing, trimming and number parsing against reference definitions.
  \<^item> \<open>Sorted_Vector\<close> (\<^verbatim>\<open>sorted_vector.h\<close>): sortedness and uniqueness in every reachable state, bulk operations as
    repeated insertion.
  \<^item> \<open>RW_Lock\<close>, \<open>Semaphore_Ex\<close>, \<open>Safe_Containers\<close>, \<open>Block_Queue\<close>, \<open>Thread_Pool\<close>: the concurrent components.
  \<^item> \<open>Event_Reactor\<close> (\<^verbatim>\<open>event_reactor.cpp\<close>, \<^verbatim>\<open>event_demultiplexer.cpp\<close>, \<^verbatim>\<open>event_handler.cpp\<close>, \<^verbatim>\<open>timer_event_handler.cpp\<close>):
    timer handlers as shared objects with descriptors, the interest list of epoll, and polling in separate steps; no
    destroyed handler is touched and none leaks. What it offers is the locale \<open>timer_service\<close>, interpreted there.
    \<open>Timers\<close> (\<^verbatim>\<open>timer.cpp\<close>) adds the timer object and its loop thread as interleaved steps: registered timers are
    armed, one-shot timers run once, \<^verbatim>\<open>Register\<close> returns, and what \<^verbatim>\<open>Shutdown\<close> needs to end the loop.
  \<^item> \<open>IO_Event_Reactor\<close> (\<^verbatim>\<open>io_event_reactor.cpp\<close>, \<^verbatim>\<open>io_event_handler.cpp\<close>, \<^verbatim>\<open>io_event_epoll.cpp\<close>): the handlers are nodes of a heap
    that form a doubly linked list per descriptor. The relation \<open>io_rel\<close> says which lists the pointers represent; every
    operation refines its effect on the lists, keeps the kernel's interest in step with the table, and the loop
    dispatches to exactly the interested handlers.
  \<^item> \<open>Mapped_File\<close> (\<^verbatim>\<open>mapped_file.cpp\<close>): the window and the mapped region.
  \<^item> \<open>Directory_Ex\<close>, \<open>Directory_Remove\<close> and \<open>Directory_Ops\<close> (\<^verbatim>\<open>directory_ex.cpp\<close>): path functions and the traversal that lists a
    tree; the removal of trees by two stacks and by recursion, confined to the tree whatever fails and complete when
    nothing does; creating paths, changing modes and disk usage. \<open>File_Ex\<close> (\<^verbatim>\<open>file_ex.cpp\<close>): loading what was saved, by
    name and by descriptor, and counting occurrences.
  \<^item> \<open>Unique_Fd\<close> (\<^verbatim>\<open>unique_fd.h\<close>): every open descriptor has one owner and is closed once. \<open>Ashmem\<close> (\<^verbatim>\<open>ashmem.cpp\<close>): shared
    memory over a kernel of regions and mappings; accesses stay inside the mapping, and where mappings leak.
  \<^item> \<open>Thread_Ex\<close> (\<^verbatim>\<open>thread_ex.cpp\<close>): the life cycle of a restartable thread as interleaved actions. \<open>Observer_Ex\<close>
    (\<^verbatim>\<open>observer.cpp\<close>): rounds of notification. \<open>Singleton_Ex\<close> (\<^verbatim>\<open>singleton.h\<close>): double-checked creation, with and without
    atomic accesses. \<open>Datetime_Ex\<close> (\<^verbatim>\<open>datetime_ex.cpp\<close>): 64-bit times, units and the time zone. \<open>Err_Code\<close> (\<^verbatim>\<open>errors.h\<close>): the
    fields of error codes.

  \<^bold>\<open>Bounds.\<close> Loops over data are recursive functions with termination proofs and need no bound. Walks over pointers
  (\<open>has_loop\<close>, \<open>emask_loop\<close>, \<open>clean_loop\<close>, \<open>task_loop\<close> of \<open>IO_Event_Reactor\<close>) and the search for a free timer identifier are
  partial functions into \<^typ>\<open>'a option\<close>, and the theorems prove that they return. Heap addresses and the identifiers of
  shared handlers are not reused inside a run.

  \<^bold>\<open>Not modelled.\<close> The debugging trackers of \<^verbatim>\<open>refbase.cpp\<close>, which only builds with \<^verbatim>\<open>DEBUG_REFBASE\<close> have, the conversions
  of smart pointers between related types, \<^verbatim>\<open>nocopyable.h\<close> and the Rust bindings, which convert arguments and call the
  functions modelled here, are left out. Of the system calls only what the code observes is a parameter: memory behind
  \<^verbatim>\<open>mmap\<close> of mapped files, signals and the scheduling of threads are not modelled, nor is the time a call takes. Atomic
  accesses are sequentially consistent; weaker orders than the code names are not modelled.
\<close>

end
